(* ===== verification/Zx_Prelude.thy ===== *)
theory Zx_Prelude
  imports Main "HOL-Library.Word"
begin

unbundle bit_operations_syntax

section \<open>Shared vocabulary of the Zircon object layer\<close>

text \<open>
  The types every kernel object component uses: status codes, koids, signal and rights
  masks, bytes, the model of user memory, and the generic facts on lists and words that
  the component proofs share.

  \<^item> \<open>zx_status\<close> is the enumeration of \<open>zircon/errors.h\<close>, with its numeric codes.
  \<^item> Signal and right constants keep the names of \<open>zircon/types.h\<close> and
    \<open>zircon/rights.h\<close>; their definitions are collected in \<open>zx_consts\<close>.
  \<^item> User memory seen through a \<open>user_in_ptr\<close> is a partial function from byte offsets to
    bytes: \<open>None\<close> is an address whose access faults. A \<open>user_out_ptr\<close> is the predicate
    of the offsets that can be written.
  \<^item> \<open>write_at\<close> is the effect of copying bytes into a fixed-size array.
\<close>

named_theorems zx_consts \<open>definitions of the public constants\<close>
named_theorems zx_frame \<open>which fields an operation leaves alone\<close>

type_synonym byte = "8 word"
type_synonym zx_koid = "64 word"
type_synonym zx_signals = "32 word"
type_synonym zx_rights = "32 word"
type_synonym zx_handle = "32 word"

subsection \<open>Status codes\<close>

datatype zx_status =
    ZX_OK
  | ZX_ERR_INTERNAL | ZX_ERR_NOT_SUPPORTED | ZX_ERR_NO_RESOURCES | ZX_ERR_NO_MEMORY
  | ZX_ERR_INTERNAL_INTR_RETRY
  | ZX_ERR_INVALID_ARGS | ZX_ERR_BAD_HANDLE | ZX_ERR_WRONG_TYPE | ZX_ERR_BAD_SYSCALL
  | ZX_ERR_OUT_OF_RANGE | ZX_ERR_BUFFER_TOO_SMALL
  | ZX_ERR_BAD_STATE | ZX_ERR_TIMED_OUT | ZX_ERR_SHOULD_WAIT | ZX_ERR_CANCELED
  | ZX_ERR_PEER_CLOSED | ZX_ERR_NOT_FOUND | ZX_ERR_ALREADY_EXISTS | ZX_ERR_ALREADY_BOUND
  | ZX_ERR_UNAVAILABLE
  | ZX_ERR_ACCESS_DENIED

primrec zx_status_code :: "zx_status \<Rightarrow> int" where
  "zx_status_code ZX_OK = 0"
| "zx_status_code ZX_ERR_INTERNAL = -1"
| "zx_status_code ZX_ERR_NOT_SUPPORTED = -2"
| "zx_status_code ZX_ERR_NO_RESOURCES = -3"
| "zx_status_code ZX_ERR_NO_MEMORY = -4"
| "zx_status_code ZX_ERR_INTERNAL_INTR_RETRY = -6"
| "zx_status_code ZX_ERR_INVALID_ARGS = -10"
| "zx_status_code ZX_ERR_BAD_HANDLE = -11"
| "zx_status_code ZX_ERR_WRONG_TYPE = -12"
| "zx_status_code ZX_ERR_BAD_SYSCALL = -13"
| "zx_status_code ZX_ERR_OUT_OF_RANGE = -14"
| "zx_status_code ZX_ERR_BUFFER_TOO_SMALL = -15"
| "zx_status_code ZX_ERR_BAD_STATE = -20"
| "zx_status_code ZX_ERR_TIMED_OUT = -21"
| "zx_status_code ZX_ERR_SHOULD_WAIT = -22"
| "zx_status_code ZX_ERR_CANCELED = -23"
| "zx_status_code ZX_ERR_PEER_CLOSED = -24"
| "zx_status_code ZX_ERR_NOT_FOUND = -25"
| "zx_status_code ZX_ERR_ALREADY_EXISTS = -26"
| "zx_status_code ZX_ERR_ALREADY_BOUND = -27"
| "zx_status_code ZX_ERR_UNAVAILABLE = -28"
| "zx_status_code ZX_ERR_ACCESS_DENIED = -30"

text \<open>The code writes \<open>if (status)\<close> for \<open>if (status != ZX_OK)\<close>: the two agree.\<close>

lemma zx_status_code_zero_iff [simp]: "zx_status_code st = 0 \<longleftrightarrow> st = ZX_OK"
  by (cases st) auto

subsection \<open>Identifiers, rights and signals\<close>

definition ZX_KOID_INVALID :: zx_koid where [zx_consts]: "ZX_KOID_INVALID = 0"
definition ZX_KOID_FIRST :: zx_koid where [zx_consts]: "ZX_KOID_FIRST = 1024"
definition ZX_HANDLE_INVALID :: zx_handle where [zx_consts]: "ZX_HANDLE_INVALID = 0"

datatype zx_obj_type =
    ZX_OBJ_TYPE_NONE | ZX_OBJ_TYPE_PROCESS | ZX_OBJ_TYPE_THREAD | ZX_OBJ_TYPE_VMO
  | ZX_OBJ_TYPE_CHANNEL | ZX_OBJ_TYPE_EVENT | ZX_OBJ_TYPE_PORT | ZX_OBJ_TYPE_INTERRUPT
  | ZX_OBJ_TYPE_PCI_DEVICE | ZX_OBJ_TYPE_LOG | ZX_OBJ_TYPE_SOCKET | ZX_OBJ_TYPE_RESOURCE
  | ZX_OBJ_TYPE_EVENTPAIR | ZX_OBJ_TYPE_JOB | ZX_OBJ_TYPE_VMAR | ZX_OBJ_TYPE_FIFO
  | ZX_OBJ_TYPE_GUEST | ZX_OBJ_TYPE_VCPU | ZX_OBJ_TYPE_TIMER | ZX_OBJ_TYPE_IOMMU
  | ZX_OBJ_TYPE_BTI | ZX_OBJ_TYPE_PROFILE | ZX_OBJ_TYPE_PMT | ZX_OBJ_TYPE_SUSPEND_TOKEN
  | ZX_OBJ_TYPE_PAGER | ZX_OBJ_TYPE_EXCEPTION | ZX_OBJ_TYPE_CLOCK | ZX_OBJ_TYPE_STREAM
  | ZX_OBJ_TYPE_MSI_ALLOCATION | ZX_OBJ_TYPE_MSI_INTERRUPT

primrec zx_obj_type_code :: "zx_obj_type \<Rightarrow> 32 word" where
  "zx_obj_type_code ZX_OBJ_TYPE_NONE = 0"
| "zx_obj_type_code ZX_OBJ_TYPE_PROCESS = 1"
| "zx_obj_type_code ZX_OBJ_TYPE_THREAD = 2"
| "zx_obj_type_code ZX_OBJ_TYPE_VMO = 3"
| "zx_obj_type_code ZX_OBJ_TYPE_CHANNEL = 4"
| "zx_obj_type_code ZX_OBJ_TYPE_EVENT = 5"
| "zx_obj_type_code ZX_OBJ_TYPE_PORT = 6"
| "zx_obj_type_code ZX_OBJ_TYPE_INTERRUPT = 9"
| "zx_obj_type_code ZX_OBJ_TYPE_PCI_DEVICE = 11"
| "zx_obj_type_code ZX_OBJ_TYPE_LOG = 12"
| "zx_obj_type_code ZX_OBJ_TYPE_SOCKET = 14"
| "zx_obj_type_code ZX_OBJ_TYPE_RESOURCE = 15"
| "zx_obj_type_code ZX_OBJ_TYPE_EVENTPAIR = 16"
| "zx_obj_type_code ZX_OBJ_TYPE_JOB = 17"
| "zx_obj_type_code ZX_OBJ_TYPE_VMAR = 18"
| "zx_obj_type_code ZX_OBJ_TYPE_FIFO = 19"
| "zx_obj_type_code ZX_OBJ_TYPE_GUEST = 20"
| "zx_obj_type_code ZX_OBJ_TYPE_VCPU = 21"
| "zx_obj_type_code ZX_OBJ_TYPE_TIMER = 22"
| "zx_obj_type_code ZX_OBJ_TYPE_IOMMU = 23"
| "zx_obj_type_code ZX_OBJ_TYPE_BTI = 24"
| "zx_obj_type_code ZX_OBJ_TYPE_PROFILE = 25"
| "zx_obj_type_code ZX_OBJ_TYPE_PMT = 26"
| "zx_obj_type_code ZX_OBJ_TYPE_SUSPEND_TOKEN = 27"
| "zx_obj_type_code ZX_OBJ_TYPE_PAGER = 28"
| "zx_obj_type_code ZX_OBJ_TYPE_EXCEPTION = 29"
| "zx_obj_type_code ZX_OBJ_TYPE_CLOCK = 30"
| "zx_obj_type_code ZX_OBJ_TYPE_STREAM = 31"
| "zx_obj_type_code ZX_OBJ_TYPE_MSI_ALLOCATION = 32"
| "zx_obj_type_code ZX_OBJ_TYPE_MSI_INTERRUPT = 33"

lemma zx_obj_type_code_NONE_iff [simp]: "zx_obj_type_code t = 0 \<longleftrightarrow> t = ZX_OBJ_TYPE_NONE"
  by (cases t) simp_all

definition ZX_RIGHT_DUPLICATE :: zx_rights where
  [zx_consts]: "ZX_RIGHT_DUPLICATE = push_bit 0 1"
definition ZX_RIGHT_TRANSFER :: zx_rights where
  [zx_consts]: "ZX_RIGHT_TRANSFER = push_bit 1 1"
definition ZX_RIGHT_READ :: zx_rights where
  [zx_consts]: "ZX_RIGHT_READ = push_bit 2 1"
definition ZX_RIGHT_WRITE :: zx_rights where
  [zx_consts]: "ZX_RIGHT_WRITE = push_bit 3 1"
definition ZX_RIGHT_WAIT :: zx_rights where
  [zx_consts]: "ZX_RIGHT_WAIT = push_bit 14 1"
definition ZX_RIGHT_GET_PROPERTY :: zx_rights where
  [zx_consts]: "ZX_RIGHT_GET_PROPERTY = push_bit 6 1"
definition ZX_RIGHT_SET_PROPERTY :: zx_rights where
  [zx_consts]: "ZX_RIGHT_SET_PROPERTY = push_bit 7 1"
definition ZX_RIGHT_SIGNAL :: zx_rights where
  [zx_consts]: "ZX_RIGHT_SIGNAL = push_bit 12 1"
definition ZX_RIGHT_SIGNAL_PEER :: zx_rights where
  [zx_consts]: "ZX_RIGHT_SIGNAL_PEER = push_bit 13 1"
definition ZX_RIGHT_INSPECT :: zx_rights where
  [zx_consts]: "ZX_RIGHT_INSPECT = push_bit 15 1"
definition ZX_RIGHT_SAME_RIGHTS :: zx_rights where
  [zx_consts]: "ZX_RIGHT_SAME_RIGHTS = push_bit 31 1"

definition ZX_RIGHTS_BASIC :: zx_rights where
  [zx_consts]: "ZX_RIGHTS_BASIC =
     ZX_RIGHT_TRANSFER OR ZX_RIGHT_DUPLICATE OR ZX_RIGHT_WAIT OR ZX_RIGHT_INSPECT"
definition ZX_RIGHTS_IO :: zx_rights where
  [zx_consts]: "ZX_RIGHTS_IO = ZX_RIGHT_READ OR ZX_RIGHT_WRITE"

definition ZX_DEFAULT_CHANNEL_RIGHTS :: zx_rights where
  [zx_consts]: "ZX_DEFAULT_CHANNEL_RIGHTS =
     (ZX_RIGHTS_BASIC AND NOT ZX_RIGHT_DUPLICATE) OR ZX_RIGHTS_IO OR ZX_RIGHT_SIGNAL OR
     ZX_RIGHT_SIGNAL_PEER"
definition ZX_DEFAULT_EVENT_RIGHTS :: zx_rights where
  [zx_consts]: "ZX_DEFAULT_EVENT_RIGHTS = ZX_RIGHTS_BASIC OR ZX_RIGHT_SIGNAL"
definition ZX_DEFAULT_EVENTPAIR_RIGHTS :: zx_rights where
  [zx_consts]: "ZX_DEFAULT_EVENTPAIR_RIGHTS = ZX_RIGHTS_BASIC OR ZX_RIGHT_SIGNAL OR ZX_RIGHT_SIGNAL_PEER"
definition ZX_DEFAULT_FIFO_RIGHTS :: zx_rights where
  [zx_consts]: "ZX_DEFAULT_FIFO_RIGHTS =
     ZX_RIGHTS_BASIC OR ZX_RIGHTS_IO OR ZX_RIGHT_SIGNAL OR ZX_RIGHT_SIGNAL_PEER"
definition ZX_DEFAULT_PORT_RIGHTS :: zx_rights where
  [zx_consts]: "ZX_DEFAULT_PORT_RIGHTS = (ZX_RIGHTS_BASIC AND NOT ZX_RIGHT_WAIT) OR ZX_RIGHTS_IO"
definition ZX_DEFAULT_SOCKET_RIGHTS :: zx_rights where
  [zx_consts]: "ZX_DEFAULT_SOCKET_RIGHTS =
     ZX_RIGHTS_BASIC OR ZX_RIGHTS_IO OR ZX_RIGHT_GET_PROPERTY OR ZX_RIGHT_SET_PROPERTY OR
     ZX_RIGHT_SIGNAL OR ZX_RIGHT_SIGNAL_PEER"
definition ZX_DEFAULT_TIMER_RIGHTS :: zx_rights where
  [zx_consts]: "ZX_DEFAULT_TIMER_RIGHTS = ZX_RIGHTS_BASIC OR ZX_RIGHT_WRITE OR ZX_RIGHT_SIGNAL"

definition ZX_USER_SIGNAL_ALL :: zx_signals where
  [zx_consts]: "ZX_USER_SIGNAL_ALL = 0xff000000"
definition ZX_OBJECT_READABLE :: zx_signals where
  [zx_consts]: "ZX_OBJECT_READABLE = push_bit 0 1"
definition ZX_OBJECT_WRITABLE :: zx_signals where
  [zx_consts]: "ZX_OBJECT_WRITABLE = push_bit 1 1"
definition ZX_OBJECT_PEER_CLOSED :: zx_signals where
  [zx_consts]: "ZX_OBJECT_PEER_CLOSED = push_bit 2 1"
definition ZX_OBJECT_SIGNALED :: zx_signals where
  [zx_consts]: "ZX_OBJECT_SIGNALED = push_bit 3 1"
definition ZX_OBJECT_SIGNAL_4 :: zx_signals where
  [zx_consts]: "ZX_OBJECT_SIGNAL_4 = push_bit 4 1"
definition ZX_OBJECT_SIGNAL_5 :: zx_signals where
  [zx_consts]: "ZX_OBJECT_SIGNAL_5 = push_bit 5 1"
definition ZX_OBJECT_SIGNAL_10 :: zx_signals where
  [zx_consts]: "ZX_OBJECT_SIGNAL_10 = push_bit 10 1"
definition ZX_OBJECT_SIGNAL_11 :: zx_signals where
  [zx_consts]: "ZX_OBJECT_SIGNAL_11 = push_bit 11 1"
definition ZX_SIGNAL_HANDLE_CLOSED :: zx_signals where
  [zx_consts]: "ZX_SIGNAL_HANDLE_CLOSED = push_bit 23 1"

lemma zx_signals_nonzero [simp]:
  "ZX_OBJECT_READABLE \<noteq> 0" "ZX_OBJECT_WRITABLE \<noteq> 0" "ZX_OBJECT_PEER_CLOSED \<noteq> 0"
  "ZX_OBJECT_SIGNALED \<noteq> 0" "ZX_SIGNAL_HANDLE_CLOSED \<noteq> 0"
  by (simp_all add: zx_consts)

text \<open>Testing a signal is testing its bit.\<close>

lemma signal_bits:
  "s AND ZX_OBJECT_READABLE = 0 \<longleftrightarrow> \<not> bit s 0"
  "s AND ZX_OBJECT_WRITABLE = 0 \<longleftrightarrow> \<not> bit s 1"
  "s AND ZX_OBJECT_PEER_CLOSED = 0 \<longleftrightarrow> \<not> bit s 2"
  by (simp_all only: zx_consts bit_iff_and_push_bit_not_eq_0 not_not)

lemma bit_signal_masks:
  "bit ZX_OBJECT_READABLE n \<longleftrightarrow> n = 0" "bit ZX_OBJECT_WRITABLE n \<longleftrightarrow> n = 1" "bit ZX_OBJECT_PEER_CLOSED n \<longleftrightarrow> n = 2"
  by (simp_all only: zx_consts bit_push_bit_iff bit_1_iff) auto

text \<open>Signals a user may set do not touch the signals of the kernel.\<close>

lemma user_signal_mask_bit:
  assumes "m AND NOT ZX_USER_SIGNAL_ALL = 0" "n < 24" shows "\<not> bit m n"
proof -
  have all: "ZX_USER_SIGNAL_ALL = push_bit 24 (mask 8)" by (simp add: ZX_USER_SIGNAL_ALL_def mask_eq_exp_minus_1)
  have "bit (m AND NOT ZX_USER_SIGNAL_ALL) n = bit m n"
    unfolding all using assms(2) by (auto simp: bit_simps dest: bit_imp_le_length)
  with assms(1) show ?thesis by simp
qed

lemma user_signal_mask_bits:
  assumes "m AND NOT ZX_USER_SIGNAL_ALL = 0" shows "\<not> bit m 0" "\<not> bit m 1" "\<not> bit m 2"
  using user_signal_mask_bit [OF assms] by simp_all

subsection \<open>User memory\<close>

type_synonym user_in = "nat \<Rightarrow> byte option"
type_synonym user_out = "nat \<Rightarrow> bool"

text \<open>
  \<open>src.copy_array_from_user(dst, n, pos)\<close>: the \<open>n\<close> elements at offset \<open>pos\<close>, or a failure
  when one of the addresses faults. The elements are bytes, handle values or structs.
\<close>

definition copy_array_from_user :: "(nat \<Rightarrow> 'a option) \<Rightarrow> nat \<Rightarrow> nat \<Rightarrow> 'a list option" where
  "copy_array_from_user src pos n =
     (if list_all (\<lambda>i. src (pos + i) \<noteq> None) [0..<n]
      then Some (map (\<lambda>i. the (src (pos + i))) [0..<n]) else None)"

text \<open>
  \<open>dst.copy_array_to_user(src, n, pos)\<close>: whether the \<open>n\<close> elements reach the user at offset
  \<open>pos\<close>. A copy that faults may have written some of them before the fault. User memory is
  not part of the state, so those bytes are not recorded: the model hands out the elements of
  complete copies.
\<close>

definition copy_array_to_user :: "user_out \<Rightarrow> nat \<Rightarrow> nat \<Rightarrow> zx_status" where
  "copy_array_to_user dst pos n =
     (if list_all (\<lambda>i. dst (pos + i)) [0..<n] then ZX_OK else ZX_ERR_INVALID_ARGS)"

text \<open>The user buffer that holds the elements \<open>bs\<close> and faults behind them.\<close>

definition user_bytes :: "'a list \<Rightarrow> nat \<Rightarrow> 'a option" where
  "user_bytes bs i = (if i < length bs then Some (bs ! i) else None)"

lemma copy_array_from_user_Some_iff:
  "copy_array_from_user src pos n = Some bs \<longleftrightarrow>
   length bs = n \<and> (\<forall>i<n. src (pos + i) = Some (bs ! i))"
proof
  assume "copy_array_from_user src pos n = Some bs"
  then show "length bs = n \<and> (\<forall>i<n. src (pos + i) = Some (bs ! i))"
    by (auto simp: copy_array_from_user_def list_all_iff split: if_splits)
next
  assume *: "length bs = n \<and> (\<forall>i<n. src (pos + i) = Some (bs ! i))"
  then have "map (\<lambda>i. the (src (pos + i))) [0..<n] = bs"
    by (intro nth_equalityI) auto
  with * show "copy_array_from_user src pos n = Some bs"
    by (simp add: copy_array_from_user_def list_all_iff)
qed

lemma length_copy_array_from_user:
  "copy_array_from_user src pos n = Some bs \<Longrightarrow> length bs = n"
  by (simp add: copy_array_from_user_Some_iff)

lemma copy_array_from_user_bytes [simp]:
  "pos + n \<le> length bs \<Longrightarrow>
   copy_array_from_user (user_bytes bs) pos n = Some (take n (drop pos bs))"
  by (auto simp: copy_array_from_user_Some_iff user_bytes_def)

lemma copy_array_from_user_zero [simp]: "copy_array_from_user src pos 0 = Some []"
  by (simp add: copy_array_from_user_def)

lemma copy_array_from_user_append:
  assumes "copy_array_from_user src pos a = Some xs"
    and "copy_array_from_user src (pos + a) b = Some ys"
  shows "copy_array_from_user src pos (a + b) = Some (xs @ ys)"
proof -
  have "src (pos + i) = Some ((xs @ ys) ! i)" if "i < a + b" for i
  proof (cases "i < a")
    case True
    then show ?thesis using assms by (simp add: copy_array_from_user_Some_iff nth_append)
  next
    case False
    define j where "j = i - a"
    from False that have j: "i = a + j" "j < b" by (auto simp: j_def)
    from assms(2) j(2) have "src (pos + a + j) = Some (ys ! j)"
      by (simp add: copy_array_from_user_Some_iff)
    moreover from assms(1) have "length xs = a"
      by (rule length_copy_array_from_user)
    ultimately show ?thesis using j by (simp add: nth_append add.assoc)
  qed
  moreover have "length (xs @ ys) = a + b"
    using assms by (simp add: length_copy_array_from_user)
  ultimately show ?thesis by (simp only: copy_array_from_user_Some_iff) simp
qed

lemma copy_array_from_user_None_iff:
  "copy_array_from_user src pos n = None \<longleftrightarrow> (\<exists>i<n. src (pos + i) = None)"
  by (auto simp: copy_array_from_user_def list_all_iff)

lemma copy_array_from_user_split:
  "copy_array_from_user src pos (a + b) =
     (case copy_array_from_user src pos a of
        None \<Rightarrow> None
      | Some xs \<Rightarrow> (case copy_array_from_user src (pos + a) b of None \<Rightarrow> None | Some ys \<Rightarrow> Some (xs @ ys)))"
proof (cases "copy_array_from_user src pos a")
  case None
  then have "copy_array_from_user src pos (a + b) = None"
    unfolding copy_array_from_user_None_iff by (meson trans_less_add1)
  with None show ?thesis by simp
next
  case xs: (Some xs)
  show ?thesis
  proof (cases "copy_array_from_user src (pos + a) b")
    case None
    then obtain i where "i < b" "src (pos + a + i) = None" by (auto simp: copy_array_from_user_None_iff)
    then have "copy_array_from_user src pos (a + b) = None"
      by (auto simp: copy_array_from_user_None_iff add.assoc intro!: exI [of _ "a + i"])
    with None xs show ?thesis by simp
  qed (simp add: xs copy_array_from_user_append)
qed

lemma copy_array_to_user_OK_iff:
  "copy_array_to_user dst pos n = ZX_OK \<longleftrightarrow> (\<forall>i<n. dst (pos + i))"
  by (auto simp: copy_array_to_user_def list_all_iff)

lemma copy_array_to_user_split:
  "copy_array_to_user dst pos (a + b) = ZX_OK \<longleftrightarrow>
   copy_array_to_user dst pos a = ZX_OK \<and> copy_array_to_user dst (pos + a) b = ZX_OK"
proof -
  have "(\<forall>i<a + b. dst (pos + i)) \<longleftrightarrow> (\<forall>i<a. dst (pos + i)) \<and> (\<forall>i<b. dst (pos + (a + i)))"
    by (metis add_less_cancel_left less_diff_conv2 linorder_not_less ordered_cancel_comm_monoid_diff_class.add_diff_inverse trans_less_add1 add_diff_inverse_nat)
  then show ?thesis by (simp add: copy_array_to_user_OK_iff add.assoc)
qed

lemma copy_array_to_user_total [simp]: "copy_array_to_user (\<lambda>_. True) pos n = ZX_OK"
  by (simp add: copy_array_to_user_OK_iff)

subsection \<open>Fixed-size arrays\<close>

definition write_at :: "nat \<Rightarrow> 'a list \<Rightarrow> 'a list \<Rightarrow> 'a list" where
  "write_at p bs xs = take p xs @ bs @ drop (p + length bs) xs"

lemma length_write_at [simp]:
  "p + length bs \<le> length xs \<Longrightarrow> length (write_at p bs xs) = length xs"
  by (simp add: write_at_def)

lemma nth_write_at:
  "p + length bs \<le> length xs \<Longrightarrow> i < length xs \<Longrightarrow>
   write_at p bs xs ! i = (if p \<le> i \<and> i < p + length bs then bs ! (i - p) else xs ! i)"
  by (auto simp: write_at_def nth_append)

lemma take_drop_write_at_same [simp]:
  "p + length bs \<le> length xs \<Longrightarrow> take (length bs) (drop p (write_at p bs xs)) = bs"
  by (simp add: write_at_def)

lemma take_write_at_before [simp]:
  "p \<le> length xs \<Longrightarrow> n \<le> p \<Longrightarrow> take n (write_at p bs xs) = take n xs"
  by (simp add: write_at_def min_def)

lemma window_write_at_end:
  assumes "off + len + length bs \<le> length xs"
  shows "take (len + length bs) (drop off (write_at (off + len) bs xs)) =
         take len (drop off xs) @ bs"
  using assms by (simp add: write_at_def drop_take)

end
