(* ===== verification/Thread_State.thy ===== *)
theory Thread_State
  imports Zx_Prelude
begin

section \<open>ThreadState: the lifecycle of a thread\<close>

text \<open>
  Model of \<open>zircon/kernel/object/include/object/thread_state.h\<close>. A thread's state is one
  value that joins its lifecycle and its exception state. The two \<open>set\<close> overloads are
  partial: a transition the class forbids runs into \<open>DEBUG_ASSERT(false)\<close>, which is
  \<open>None\<close> here. The step relation takes any transition that does not assert.
\<close>

datatype Lifecycle = INITIAL | INITIALIZED | RUNNING | SUSPENDED | DYING | DEAD

datatype Exception = IDLE | UNPROCESSED | TRY_NEXT | RESUME

datatype ThreadState_Value =
    INITIAL_IDLE
  | INITIALIZED_IDLE
  | RUNNING_IDLE | RUNNING_UNPROCESSED | RUNNING_TRY_NEXT | RUNNING_RESUME
  | SUSPENDED_IDLE | SUSPENDED_UNPROCESSED | SUSPENDED_TRY_NEXT | SUSPENDED_RESUME
  | DYING_IDLE | DYING_UNPROCESSED | DYING_TRY_NEXT | DYING_RESUME
  | DEAD_IDLE

fun ThreadState_lifecycle :: "ThreadState_Value \<Rightarrow> Lifecycle" where
  "ThreadState_lifecycle INITIAL_IDLE = INITIAL"
| "ThreadState_lifecycle INITIALIZED_IDLE = INITIALIZED"
| "ThreadState_lifecycle RUNNING_IDLE = RUNNING"
| "ThreadState_lifecycle RUNNING_UNPROCESSED = RUNNING"
| "ThreadState_lifecycle RUNNING_TRY_NEXT = RUNNING"
| "ThreadState_lifecycle RUNNING_RESUME = RUNNING"
| "ThreadState_lifecycle SUSPENDED_IDLE = SUSPENDED"
| "ThreadState_lifecycle SUSPENDED_UNPROCESSED = SUSPENDED"
| "ThreadState_lifecycle SUSPENDED_TRY_NEXT = SUSPENDED"
| "ThreadState_lifecycle SUSPENDED_RESUME = SUSPENDED"
| "ThreadState_lifecycle DYING_IDLE = DYING"
| "ThreadState_lifecycle DYING_UNPROCESSED = DYING"
| "ThreadState_lifecycle DYING_TRY_NEXT = DYING"
| "ThreadState_lifecycle DYING_RESUME = DYING"
| "ThreadState_lifecycle DEAD_IDLE = DEAD"

text \<open>\<open>exception()\<close> asserts in the initial state, the only value its switch leaves out.\<close>

fun ThreadState_exception :: "ThreadState_Value \<Rightarrow> Exception option" where
  "ThreadState_exception RUNNING_IDLE = Some IDLE"
| "ThreadState_exception SUSPENDED_IDLE = Some IDLE"
| "ThreadState_exception DYING_IDLE = Some IDLE"
| "ThreadState_exception RUNNING_UNPROCESSED = Some UNPROCESSED"
| "ThreadState_exception SUSPENDED_UNPROCESSED = Some UNPROCESSED"
| "ThreadState_exception DYING_UNPROCESSED = Some UNPROCESSED"
| "ThreadState_exception RUNNING_TRY_NEXT = Some TRY_NEXT"
| "ThreadState_exception SUSPENDED_TRY_NEXT = Some TRY_NEXT"
| "ThreadState_exception DYING_TRY_NEXT = Some TRY_NEXT"
| "ThreadState_exception RUNNING_RESUME = Some RESUME"
| "ThreadState_exception SUSPENDED_RESUME = Some RESUME"
| "ThreadState_exception DYING_RESUME = Some RESUME"
| "ThreadState_exception INITIALIZED_IDLE = Some IDLE"
| "ThreadState_exception DEAD_IDLE = Some IDLE"
| "ThreadState_exception INITIAL_IDLE = None"

fun set_lifecycle :: "Lifecycle \<Rightarrow> ThreadState_Value \<Rightarrow> ThreadState_Value option" where
  "set_lifecycle INITIAL v = None"
| "set_lifecycle INITIALIZED INITIAL_IDLE = Some INITIALIZED_IDLE"
| "set_lifecycle INITIALIZED _ = None"
| "set_lifecycle RUNNING INITIALIZED_IDLE = Some RUNNING_IDLE"
| "set_lifecycle RUNNING SUSPENDED_IDLE = Some RUNNING_IDLE"
| "set_lifecycle RUNNING SUSPENDED_UNPROCESSED = Some RUNNING_UNPROCESSED"
| "set_lifecycle RUNNING SUSPENDED_TRY_NEXT = Some RUNNING_TRY_NEXT"
| "set_lifecycle RUNNING SUSPENDED_RESUME = Some RUNNING_RESUME"
| "set_lifecycle RUNNING _ = None"
| "set_lifecycle SUSPENDED RUNNING_IDLE = Some SUSPENDED_IDLE"
| "set_lifecycle SUSPENDED RUNNING_UNPROCESSED = Some SUSPENDED_UNPROCESSED"
| "set_lifecycle SUSPENDED RUNNING_TRY_NEXT = Some SUSPENDED_TRY_NEXT"
| "set_lifecycle SUSPENDED RUNNING_RESUME = Some SUSPENDED_RESUME"
| "set_lifecycle SUSPENDED _ = None"
| "set_lifecycle DYING RUNNING_IDLE = Some DYING_IDLE"
| "set_lifecycle DYING SUSPENDED_IDLE = Some DYING_IDLE"
| "set_lifecycle DYING DYING_IDLE = Some DYING_IDLE"
| "set_lifecycle DYING RUNNING_UNPROCESSED = Some DYING_UNPROCESSED"
| "set_lifecycle DYING SUSPENDED_UNPROCESSED = Some DYING_UNPROCESSED"
| "set_lifecycle DYING DYING_UNPROCESSED = Some DYING_UNPROCESSED"
| "set_lifecycle DYING RUNNING_TRY_NEXT = Some DYING_TRY_NEXT"
| "set_lifecycle DYING SUSPENDED_TRY_NEXT = Some DYING_TRY_NEXT"
| "set_lifecycle DYING DYING_TRY_NEXT = Some DYING_TRY_NEXT"
| "set_lifecycle DYING RUNNING_RESUME = Some DYING_RESUME"
| "set_lifecycle DYING SUSPENDED_RESUME = Some DYING_RESUME"
| "set_lifecycle DYING DYING_RESUME = Some DYING_RESUME"
| "set_lifecycle DYING _ = None"
| "set_lifecycle DEAD DYING_IDLE = Some DEAD_IDLE"
| "set_lifecycle DEAD DYING_UNPROCESSED = Some DEAD_IDLE"
| "set_lifecycle DEAD DYING_TRY_NEXT = Some DEAD_IDLE"
| "set_lifecycle DEAD DYING_RESUME = Some DEAD_IDLE"
| "set_lifecycle DEAD _ = None"

fun set_exception :: "Exception \<Rightarrow> ThreadState_Value \<Rightarrow> ThreadState_Value option" where
  "set_exception IDLE RUNNING_UNPROCESSED = Some RUNNING_IDLE"
| "set_exception IDLE RUNNING_TRY_NEXT = Some RUNNING_IDLE"
| "set_exception IDLE RUNNING_RESUME = Some RUNNING_IDLE"
| "set_exception IDLE SUSPENDED_UNPROCESSED = Some SUSPENDED_IDLE"
| "set_exception IDLE SUSPENDED_TRY_NEXT = Some SUSPENDED_IDLE"
| "set_exception IDLE SUSPENDED_RESUME = Some SUSPENDED_IDLE"
| "set_exception IDLE DYING_UNPROCESSED = Some DYING_IDLE"
| "set_exception IDLE DYING_TRY_NEXT = Some DYING_IDLE"
| "set_exception IDLE DYING_RESUME = Some DYING_IDLE"
| "set_exception IDLE _ = None"
| "set_exception UNPROCESSED RUNNING_IDLE = Some RUNNING_UNPROCESSED"
| "set_exception UNPROCESSED SUSPENDED_IDLE = Some SUSPENDED_UNPROCESSED"
| "set_exception UNPROCESSED DYING_IDLE = Some DYING_UNPROCESSED"
| "set_exception UNPROCESSED _ = None"
| "set_exception TRY_NEXT RUNNING_UNPROCESSED = Some RUNNING_TRY_NEXT"
| "set_exception TRY_NEXT SUSPENDED_UNPROCESSED = Some SUSPENDED_TRY_NEXT"
| "set_exception TRY_NEXT DYING_UNPROCESSED = Some DYING_TRY_NEXT"
| "set_exception TRY_NEXT _ = None"
| "set_exception RESUME RUNNING_UNPROCESSED = Some RUNNING_RESUME"
| "set_exception RESUME SUSPENDED_UNPROCESSED = Some SUSPENDED_RESUME"
| "set_exception RESUME DYING_UNPROCESSED = Some DYING_RESUME"
| "set_exception RESUME _ = None"

subsection \<open>What one transition does\<close>

lemma set_lifecycle_lifecycle: "set_lifecycle l v = Some v' \<Longrightarrow> ThreadState_lifecycle v' = l"
  by (cases l; cases v) auto

lemma set_lifecycle_exception:
  "set_lifecycle l v = Some v' \<Longrightarrow> l \<noteq> DEAD \<Longrightarrow> l \<noteq> INITIALIZED \<Longrightarrow>
   ThreadState_exception v' = ThreadState_exception v"
  by (cases l; cases v) auto

lemma set_exception_exception:
  "set_exception e v = Some v' \<Longrightarrow> ThreadState_exception v' = Some e"
  by (cases e; cases v) auto

lemma set_exception_lifecycle:
  "set_exception e v = Some v' \<Longrightarrow> ThreadState_lifecycle v' = ThreadState_lifecycle v"
  by (cases e; cases v) auto

subsection \<open>The transitions, as the comments of the class describe them\<close>

definition exception_edge :: "Exception \<Rightarrow> Exception \<Rightarrow> bool" where
  "exception_edge a b \<longleftrightarrow>
     (case b of IDLE \<Rightarrow> a \<noteq> IDLE
      | UNPROCESSED \<Rightarrow> a = IDLE
      | TRY_NEXT \<Rightarrow> a = UNPROCESSED
      | RESUME \<Rightarrow> a = UNPROCESSED)"

definition lifecycle_edge :: "Lifecycle \<Rightarrow> Lifecycle \<Rightarrow> bool" where
  "lifecycle_edge a b \<longleftrightarrow>
     (a, b) \<in> {(INITIAL, INITIALIZED), (INITIALIZED, RUNNING), (SUSPENDED, RUNNING),
       (RUNNING, SUSPENDED), (RUNNING, DYING), (SUSPENDED, DYING), (DYING, DYING), (DYING, DEAD)}"

text \<open>\<open>set(Exception)\<close> makes exactly the exception transitions the class documents: it
  applies to a running, suspended or dying thread, an idle thread becomes unprocessed, an
  unprocessed one is told to try the next handler or to resume, any of the three returns to
  idle, and the lifecycle is kept. Every other call hits the assertion.\<close>
theorem set_exception_spec:
  "set_exception e v = Some v' \<longleftrightarrow>
   ThreadState_lifecycle v \<in> {RUNNING, SUSPENDED, DYING} \<and>
   exception_edge (the (ThreadState_exception v)) e \<and>
   ThreadState_lifecycle v' = ThreadState_lifecycle v \<and> ThreadState_exception v' = Some e"
  by (cases e; cases v; cases v') (simp_all add: exception_edge_def)

text \<open>\<open>set(Lifecycle)\<close> makes exactly the edges of the lifecycle graph, and carries the
  exception state over, except that a thread that becomes initialized or dead is idle.\<close>
theorem set_lifecycle_spec:
  "set_lifecycle l v = Some v' \<longleftrightarrow>
   lifecycle_edge (ThreadState_lifecycle v) l \<and> ThreadState_lifecycle v' = l \<and>
   ThreadState_exception v' =
     (if l \<in> {INITIALIZED, DEAD} then Some IDLE else ThreadState_exception v)"
  by (cases l; cases v; cases v') (simp_all add: lifecycle_edge_def)

subsection \<open>Runs\<close>

inductive thread_step :: "ThreadState_Value \<Rightarrow> ThreadState_Value \<Rightarrow> bool" where
  lifecycle: "set_lifecycle l v = Some v' \<Longrightarrow> thread_step v v'"
| exception: "set_exception e v = Some v' \<Longrightarrow> thread_step v v'"

inductive_cases thread_step_elim: "thread_step v v'"

text \<open>The order in which the header lists the lifecycles.\<close>

primrec lifecycle_rank :: "Lifecycle \<Rightarrow> nat" where
  "lifecycle_rank INITIAL = 0"
| "lifecycle_rank INITIALIZED = 1"
| "lifecycle_rank RUNNING = 2"
| "lifecycle_rank SUSPENDED = 3"
| "lifecycle_rank DYING = 4"
| "lifecycle_rank DEAD = 5"

lemma set_lifecycle_rank:
  "set_lifecycle l v = Some v' \<Longrightarrow>
   lifecycle_rank (ThreadState_lifecycle v) \<le> lifecycle_rank (ThreadState_lifecycle v') \<or>
   ThreadState_lifecycle v = SUSPENDED \<and> ThreadState_lifecycle v' = RUNNING"
  by (cases l; cases v) auto

lemma thread_step_rank:
  "thread_step v v' \<Longrightarrow>
   lifecycle_rank (ThreadState_lifecycle v) \<le> lifecycle_rank (ThreadState_lifecycle v') \<or>
   ThreadState_lifecycle v = SUSPENDED \<and> ThreadState_lifecycle v' = RUNNING"
  by (elim thread_step_elim) (auto dest: set_lifecycle_rank set_exception_lifecycle)

lemma thread_step_dying_closed:
  "thread_step v v' \<Longrightarrow> ThreadState_lifecycle v \<in> {DYING, DEAD} \<Longrightarrow>
   ThreadState_lifecycle v' \<in> {DYING, DEAD}"
  by (drule thread_step_rank, cases "ThreadState_lifecycle v'") auto

lemma no_step_from_dead: "\<not> thread_step DEAD_IDLE v"
proof -
  have "set_lifecycle l DEAD_IDLE = None" "set_exception e DEAD_IDLE = None" for l e
    by (cases l; simp) (cases e; simp)
  then show ?thesis by (auto elim: thread_step_elim)
qed

lemma thread_run_parts:
  assumes "thread_step\<^sup>*\<^sup>* v v'"
  shows "ThreadState_lifecycle v \<in> {DYING, DEAD} \<longrightarrow>
           ThreadState_lifecycle v' \<in> {DYING, DEAD} \<and>
           lifecycle_rank (ThreadState_lifecycle v) \<le> lifecycle_rank (ThreadState_lifecycle v')"
    and "v = DEAD_IDLE \<longrightarrow> v' = DEAD_IDLE"
    and "lifecycle_rank (ThreadState_lifecycle v') < lifecycle_rank (ThreadState_lifecycle v) \<longrightarrow>
         ThreadState_lifecycle v = SUSPENDED \<and> ThreadState_lifecycle v' = RUNNING"
  using assms
proof (induction rule: converse_rtranclp_induct)
  case base
  { case 1 show ?case by simp }
  { case 2 show ?case by simp }
  { case 3 show ?case by simp }
next
  case (step v w)
  note step_rank = thread_step_rank [OF step(1)]
  { case 1
    show ?case using step_rank step.IH(1) thread_step_dying_closed [OF step(1)]
      by (auto simp del: lifecycle_rank.simps) }
  { case 2 show ?case using step no_step_from_dead by auto }
  { case 3
    show ?case using step_rank step.IH(1,3)
      by (cases "ThreadState_lifecycle v"; cases "ThreadState_lifecycle w";
          cases "ThreadState_lifecycle v'") auto }
qed

text \<open>C30: In any run of transitions the lifecycle moves from top to bottom of the enumeration
  except when a suspended thread is resumed; a dying thread is never revived, and a dead
  thread takes no transition any more.\<close>
theorem thread_run_lifecycle:
  assumes "thread_step\<^sup>*\<^sup>* v v'"
  shows "(ThreadState_lifecycle v \<in> {DYING, DEAD} \<longrightarrow> ThreadState_lifecycle v' \<in> {DYING, DEAD}) \<and>
         (v = DEAD_IDLE \<longrightarrow> v' = DEAD_IDLE) \<and>
         (lifecycle_rank (ThreadState_lifecycle v') < lifecycle_rank (ThreadState_lifecycle v) \<longrightarrow>
          ThreadState_lifecycle v = SUSPENDED \<and> ThreadState_lifecycle v' = RUNNING)"
  using thread_run_parts [OF assms] by blast

text \<open>A thread that was suspended in an exception and killed there.\<close>

theorem thread_run_lifecycle_witness:
  "thread_step\<^sup>*\<^sup>* SUSPENDED_UNPROCESSED DYING_IDLE \<and>
   lifecycle_rank (ThreadState_lifecycle SUSPENDED_UNPROCESSED)
     \<le> lifecycle_rank (ThreadState_lifecycle DYING_IDLE)"
proof -
  have "thread_step SUSPENDED_UNPROCESSED DYING_UNPROCESSED" "thread_step DYING_UNPROCESSED DYING_IDLE"
    by (auto intro: thread_step.lifecycle [of DYING] thread_step.exception [of IDLE])
  then have run: "thread_step\<^sup>*\<^sup>* SUSPENDED_UNPROCESSED DYING_IDLE" by simp
  with thread_run_lifecycle [OF run] show ?thesis by simp
qed

end
