(* ===== verification/Dispatcher.thy ===== *)
theory Dispatcher
  imports Zx_Prelude
begin

section \<open>Dispatcher: handle counts, signals, observers and peers\<close>

text \<open>
  Model of \<open>zircon/kernel/object/dispatcher.cc\<close>, \<open>include/object/dispatcher.h\<close>,
  \<open>include/object/signal_observer.h\<close> and \<open>wait_signal_observer.cc\<close>.

  \<^item> The record \<open>dispatcher\<close> has the fields of the base class; throughout the library the
    C++ member \<open>foo_\<close> is the record field \<open>foo_m\<close>. Subclasses extend it, as the
    C++ classes inherit it, so every operation here is polymorphic in the extension.
    \<open>type_m\<close>, \<open>default_rights_m\<close> and \<open>extra_signals_m\<close> are the answers of \<open>get_type()\<close> and the
    template arguments of \<open>SoloDispatcher\<close> and \<open>PeeredDispatcher\<close>.
  \<^item> \<open>calls_m\<close> is the sequence of virtual calls \<open>OnMatch\<close> and \<open>OnCancel\<close> the dispatcher has
    made into its observers; the observer's own reaction is a function of it.
  \<^item> A pair of peered endpoints lives in a store from koids to endpoints, and \<open>peer_m\<close> is the
    koid of the other endpoint. The operations run under the lock the two endpoints share,
    so each is one atomic function on the store.
\<close>

type_synonym handle_ref = nat

datatype observer_kind =
    WaitObserver
  | PortObserverKind (ok_port: zx_koid) (ok_key: "64 word")

record SignalObserver =
  obs_id :: nat
  obs_kind :: observer_kind
  triggering_signals_m :: zx_signals
  handle_m :: handle_ref

datatype observer_call = OnMatch (call_id: nat) zx_signals | OnCancel (call_id: nat) zx_signals

record dispatcher =
  koid_m :: zx_koid
  type_m :: zx_obj_type
  default_rights_m :: zx_rights
  extra_signals_m :: zx_signals
  handle_count_m :: "32 word"
  signals_m :: zx_signals
  observers_m :: "SignalObserver list"
  calls_m :: "observer_call list"

definition GenerateKernelObjectId :: "zx_koid \<Rightarrow> zx_koid \<times> zx_koid" where
  "GenerateKernelObjectId global_koid = (global_koid, global_koid + 1)"

definition Dispatcher_new ::
  "zx_koid \<Rightarrow> zx_obj_type \<Rightarrow> zx_rights \<Rightarrow> zx_signals \<Rightarrow> zx_signals \<Rightarrow> dispatcher" where
  "Dispatcher_new koid type rights extra signals =
     \<lparr>koid_m = koid, type_m = type, default_rights_m = rights, extra_signals_m = extra,
      handle_count_m = 0, signals_m = signals, observers_m = [], calls_m = []\<rparr>"

definition increment_handle_count :: "'a dispatcher_scheme \<Rightarrow> 'a dispatcher_scheme" where
  "increment_handle_count d = d\<lparr>handle_count_m := handle_count_m d + 1\<rparr>"

definition decrement_handle_count :: "'a dispatcher_scheme \<Rightarrow> bool \<times> 'a dispatcher_scheme" where
  "decrement_handle_count d =
     (handle_count_m d = 1, d\<lparr>handle_count_m := handle_count_m d - 1\<rparr>)"

definition is_waitable :: "'a dispatcher_scheme \<Rightarrow> bool" where
  "is_waitable d \<longleftrightarrow> default_rights_m d AND ZX_RIGHT_WAIT \<noteq> 0"

fun MatchesKey :: "SignalObserver \<Rightarrow> zx_koid \<Rightarrow> 64 word \<Rightarrow> bool" where
  "MatchesKey observer port key =
     (case obs_kind observer of
        WaitObserver \<Rightarrow> False
      | PortObserverKind p k \<Rightarrow> key = k \<and> port = p)"

subsection \<open>Observers\<close>

definition AddObserver ::
  "SignalObserver \<Rightarrow> handle_ref \<Rightarrow> zx_signals \<Rightarrow> 'a dispatcher_scheme
     \<Rightarrow> zx_status \<times> 'a dispatcher_scheme" where
  "AddObserver observer handle signals d =
     (if \<not> is_waitable d then (ZX_ERR_NOT_SUPPORTED, d)
      else if signals_m d AND signals \<noteq> 0
      then (ZX_OK, d\<lparr>calls_m := calls_m d @ [OnMatch (obs_id observer) (signals_m d)]\<rparr>)
      else (ZX_OK, d\<lparr>observers_m :=
              observer\<lparr>handle_m := handle, triggering_signals_m := signals\<rparr> # observers_m d\<rparr>))"

definition RemoveObserver ::
  "nat \<Rightarrow> 'a dispatcher_scheme \<Rightarrow> bool \<times> zx_signals \<times> 'a dispatcher_scheme" where
  "RemoveObserver observer d =
     (if observer \<in> set (map obs_id (observers_m d))
      then (True, signals_m d, d\<lparr>observers_m := filter (\<lambda>x. obs_id x \<noteq> observer) (observers_m d)\<rparr>)
      else (False, signals_m d, d))"

text \<open>
  The three loops over \<open>observers_m\<close> have the same shape: skip an observer, or erase it and
  call into it. The result is the list that stays and the calls in the order they are made.
\<close>

fun erase_and_call ::
  "(SignalObserver \<Rightarrow> bool) \<Rightarrow> (nat \<Rightarrow> observer_call) \<Rightarrow> SignalObserver list
     \<Rightarrow> SignalObserver list \<times> observer_call list" where
  "erase_and_call sel call [] = ([], [])"
| "erase_and_call sel call (x # xs) =
     (let (stay, calls) = erase_and_call sel call xs in
      if sel x then (stay, call (obs_id x) # calls) else (x # stay, calls))"

definition Dispatcher_Cancel :: "handle_ref \<Rightarrow> 'a dispatcher_scheme \<Rightarrow> 'a dispatcher_scheme" where
  "Dispatcher_Cancel handle d =
     (let (stay, calls) =
        erase_and_call (\<lambda>x. handle_m x = handle) (\<lambda>i. OnCancel i (signals_m d)) (observers_m d)
      in d\<lparr>observers_m := stay, calls_m := calls_m d @ calls\<rparr>)"

definition CancelByKey ::
  "handle_ref \<Rightarrow> zx_koid \<Rightarrow> 64 word \<Rightarrow> 'a dispatcher_scheme \<Rightarrow> bool \<times> 'a dispatcher_scheme" where
  "CancelByKey handle port key d =
     (let (stay, calls) =
        erase_and_call (\<lambda>x. \<not> (handle_m x \<noteq> handle \<or> \<not> MatchesKey x port key))
          (\<lambda>i. OnCancel i (signals_m d)) (observers_m d)
      in (calls \<noteq> [], d\<lparr>observers_m := stay, calls_m := calls_m d @ calls\<rparr>))"

definition UpdateStateLocked ::
  "zx_signals \<Rightarrow> zx_signals \<Rightarrow> 'a dispatcher_scheme \<Rightarrow> 'a dispatcher_scheme" where
  "UpdateStateLocked clear_mask set_mask d =
     (let previous_signals = signals_m d;
          new_signals = (signals_m d AND NOT clear_mask) OR set_mask;
          d = d\<lparr>signals_m := new_signals\<rparr>
      in if previous_signals = new_signals then d
         else let (stay, calls) =
                erase_and_call (\<lambda>x. triggering_signals_m x AND new_signals \<noteq> 0)
                  (\<lambda>i. OnMatch i new_signals) (observers_m d)
              in d\<lparr>observers_m := stay, calls_m := calls_m d @ calls\<rparr>)"

definition UpdateState ::
  "zx_signals \<Rightarrow> zx_signals \<Rightarrow> 'a dispatcher_scheme \<Rightarrow> 'a dispatcher_scheme" where
  "UpdateState clear_mask set_mask d = UpdateStateLocked clear_mask set_mask d"

definition PollSignals :: "'a dispatcher_scheme \<Rightarrow> zx_signals" where
  "PollSignals d = signals_m d"

definition user_signal_self ::
  "zx_signals \<Rightarrow> zx_signals \<Rightarrow> 'a dispatcher_scheme \<Rightarrow> zx_status \<times> 'a dispatcher_scheme" where
  "user_signal_self clear_mask set_mask d =
     (let allowed_signals = ZX_USER_SIGNAL_ALL OR extra_signals_m d in
      if \<not> is_waitable d then (ZX_ERR_NOT_SUPPORTED, d)
      else if set_mask AND NOT allowed_signals \<noteq> 0 \<or> clear_mask AND NOT allowed_signals \<noteq> 0
      then (ZX_ERR_INVALID_ARGS, d)
      else (ZX_OK, UpdateState clear_mask set_mask d))"

subsection \<open>WaitSignalObserver\<close>

text \<open>
  The observer of \<open>object_wait_one\<close> and \<open>object_wait_many\<close>. \<open>event_m\<close> is the result its event
  was first signalled with, \<open>None\<close> for \<open>kNotSignalled\<close> (\<open>kernel/event.cc\<close>).
\<close>

record WaitSignalObserver =
  event_m :: "zx_status option"
  final_signal_state_m :: zx_signals

definition Event_Signal :: "zx_status \<Rightarrow> zx_status option \<Rightarrow> zx_status option" where
  "Event_Signal wait_result result = (case result of None \<Rightarrow> Some wait_result | Some r \<Rightarrow> Some r)"

definition WaitSignalObserver_OnMatch :: "zx_signals \<Rightarrow> WaitSignalObserver \<Rightarrow> WaitSignalObserver" where
  "WaitSignalObserver_OnMatch signals w =
     w\<lparr>final_signal_state_m := signals, event_m := Event_Signal ZX_OK (event_m w)\<rparr>"

definition WaitSignalObserver_OnCancel :: "zx_signals \<Rightarrow> WaitSignalObserver \<Rightarrow> WaitSignalObserver" where
  "WaitSignalObserver_OnCancel signals w =
     w\<lparr>final_signal_state_m := signals OR ZX_SIGNAL_HANDLE_CLOSED,
       event_m := Event_Signal ZX_ERR_CANCELED (event_m w)\<rparr>"

definition wait_observer :: "nat \<Rightarrow> SignalObserver" where
  "wait_observer i = \<lparr>obs_id = i, obs_kind = WaitObserver, triggering_signals_m = 0, handle_m = 0\<rparr>"

text \<open>The virtual call: the entries of the log addressed to the observer reach it in order.\<close>

fun wait_call :: "nat \<Rightarrow> observer_call \<Rightarrow> WaitSignalObserver \<Rightarrow> WaitSignalObserver" where
  "wait_call i (OnMatch j s) w = (if i = j then WaitSignalObserver_OnMatch s w else w)"
| "wait_call i (OnCancel j s) w = (if i = j then WaitSignalObserver_OnCancel s w else w)"

definition wait_state :: "nat \<Rightarrow> 'a dispatcher_scheme \<Rightarrow> WaitSignalObserver" where
  "wait_state i d = fold (wait_call i) (calls_m d) \<lparr>event_m = None, final_signal_state_m = 0\<rparr>"

definition WaitSignalObserver_Begin ::
  "nat \<Rightarrow> handle_ref \<Rightarrow> zx_signals \<Rightarrow> 'a dispatcher_scheme \<Rightarrow> zx_status \<times> 'a dispatcher_scheme" where
  "WaitSignalObserver_Begin i handle watched_signals d =
     AddObserver (wait_observer i) handle watched_signals d"

definition WaitSignalObserver_End ::
  "nat \<Rightarrow> 'a dispatcher_scheme \<Rightarrow> zx_signals \<times> 'a dispatcher_scheme" where
  "WaitSignalObserver_End i d =
     (let (was_removed, signals, d') = RemoveObserver i d in
      if \<not> was_removed then (final_signal_state_m (wait_state i d), d') else (signals, d'))"

subsection \<open>PeeredDispatcher\<close>

record peered = dispatcher +
  peer_m :: "zx_koid option"
  peer_koid_m :: zx_koid

type_synonym 'a peers = "zx_koid \<Rightarrow> 'a peered_scheme"

definition peered_user_signal_self ::
  "zx_koid \<Rightarrow> zx_signals \<Rightarrow> zx_signals \<Rightarrow> 'a peers \<Rightarrow> zx_status \<times> 'a peers" where
  "peered_user_signal_self self clear_mask set_mask s =
     (let allowed_signals = ZX_USER_SIGNAL_ALL OR extra_signals_m (s self) in
      if set_mask AND NOT allowed_signals \<noteq> 0 \<or> clear_mask AND NOT allowed_signals \<noteq> 0
      then (ZX_ERR_INVALID_ARGS, s)
      else (ZX_OK, s(self := UpdateStateLocked clear_mask set_mask (s self))))"

definition user_signal_peer ::
  "zx_koid \<Rightarrow> zx_signals \<Rightarrow> zx_signals \<Rightarrow> 'a peers \<Rightarrow> zx_status \<times> 'a peers" where
  "user_signal_peer self clear_mask set_mask s =
     (let allowed_signals = ZX_USER_SIGNAL_ALL OR extra_signals_m (s self) in
      if set_mask AND NOT allowed_signals \<noteq> 0 \<or> clear_mask AND NOT allowed_signals \<noteq> 0
      then (ZX_ERR_INVALID_ARGS, s)
      else case peer_m (s self) of
             None \<Rightarrow> (ZX_ERR_PEER_CLOSED, s)
           | Some peer \<Rightarrow> (ZX_OK, s(peer := UpdateStateLocked clear_mask set_mask (s peer))))"

text \<open>The two hooks are the methods the subclass supplies to the template.\<close>

definition peered_on_zero_handles ::
  "('a peered_scheme \<Rightarrow> 'a peered_scheme) \<Rightarrow> ('a peered_scheme \<Rightarrow> 'a peered_scheme)
     \<Rightarrow> zx_koid \<Rightarrow> 'a peers \<Rightarrow> 'a peers" where
  "peered_on_zero_handles on_zero_handles_locked OnPeerZeroHandlesLocked self s =
     (let peer = peer_m (s self);
          s = s(self := (s self)\<lparr>peer_m := None\<rparr>);
          s = s(self := on_zero_handles_locked (s self))
      in case peer of
           None \<Rightarrow> s
         | Some p \<Rightarrow>
             (let s = s(p := (s p)\<lparr>peer_m := None\<rparr>)
              in s(p := OnPeerZeroHandlesLocked (s p))))"

definition PeerHasClosed :: "zx_koid \<Rightarrow> 'a peers \<Rightarrow> bool" where
  "PeerHasClosed self s \<longleftrightarrow> peer_m (s self) = None"

subsection \<open>The observer loops\<close>

lemma erase_and_call_filter [simp]:
  "erase_and_call sel call xs = (filter (\<lambda>x. \<not> sel x) xs, map (\<lambda>x. call (obs_id x)) (filter sel xs))"
  by (induction xs) auto

definition updated_signals :: "zx_signals \<Rightarrow> zx_signals \<Rightarrow> 'a dispatcher_scheme \<Rightarrow> zx_signals" where
  "updated_signals clear_mask set_mask d = (signals_m d AND NOT clear_mask) OR set_mask"

definition triggered :: "zx_signals \<Rightarrow> SignalObserver \<Rightarrow> bool" where
  "triggered sigs x \<longleftrightarrow> triggering_signals_m x AND sigs \<noteq> 0"

text \<open>The dispatcher's own fields after an update; every field of a subclass is left alone.\<close>

lemma UpdateStateLocked_eq:
  "UpdateStateLocked c s d =
     (let new = updated_signals c s d in
      if new = signals_m d then d
      else d\<lparr>signals_m := new,
             observers_m := filter (\<lambda>x. \<not> triggered new x) (observers_m d),
             calls_m := calls_m d @ map (\<lambda>x. OnMatch (obs_id x) new) (filter (triggered new) (observers_m d))\<rparr>)"
  by (auto simp: UpdateStateLocked_def updated_signals_def triggered_def [abs_def] Let_def)

lemma UpdateStateLocked_frame [simp]:
  "koid_m (UpdateStateLocked c s d) = koid_m d"
  "type_m (UpdateStateLocked c s d) = type_m d"
  "default_rights_m (UpdateStateLocked c s d) = default_rights_m d"
  "extra_signals_m (UpdateStateLocked c s d) = extra_signals_m d"
  "handle_count_m (UpdateStateLocked c s d) = handle_count_m d"
  "dispatcher.more (UpdateStateLocked c s d) = dispatcher.more d"
  by (simp_all add: UpdateStateLocked_eq Let_def)

lemma signals_UpdateStateLocked [simp]:
  "signals_m (UpdateStateLocked c s d) = (signals_m d AND NOT c) OR s"
  by (simp add: UpdateStateLocked_eq Let_def updated_signals_def)

lemma UpdateStateLocked_peer_frame [simp]:
  "peer_m (UpdateStateLocked c s d) = peer_m d"
  "peer_koid_m (UpdateStateLocked c s d) = peer_koid_m d"
  "peered.more (UpdateStateLocked c s d) = peered.more d"
  by (simp_all add: UpdateStateLocked_eq Let_def)

subsection \<open>No lost wakeup, and at most one call per observer\<close>

definition disp_inv :: "'a dispatcher_scheme \<Rightarrow> bool" where
  "disp_inv d \<longleftrightarrow>
     distinct (map obs_id (observers_m d)) \<and>
     distinct (map call_id (calls_m d)) \<and>
     set (map obs_id (observers_m d)) \<inter> set (map call_id (calls_m d)) = {} \<and>
     (\<forall>x\<in>set (observers_m d). \<not> triggered (signals_m d) x)"

definition disp_ids :: "'a dispatcher_scheme \<Rightarrow> nat set" where
  "disp_ids d = obs_id ` set (observers_m d) \<union> call_id ` set (calls_m d)"

named_theorems disp_inv_intros \<open>operations that keep the observer invariant\<close>

lemma triggered_UNIV_zero [simp]: "\<not> triggered 0 x"
  by (simp add: triggered_def)

text \<open>Moving observers from the list to the log keeps the invariant if those left are quiet.\<close>

lemma disp_inv_erase:
  assumes "disp_inv d"
    and "\<And>i. call_id (call i) = i"
    and "\<And>x. x \<in> set (observers_m d) \<Longrightarrow> \<not> sel x \<Longrightarrow> \<not> triggered new x"
  shows "disp_inv (d\<lparr>signals_m := new, observers_m := filter (\<lambda>x. \<not> sel x) (observers_m d),
           calls_m := calls_m d @ map (\<lambda>x. call (obs_id x)) (filter sel (observers_m d))\<rparr>)"
proof -
  let ?obs = "observers_m d" and ?calls = "calls_m d"
  let ?moved = "map (\<lambda>x. call (obs_id x)) (filter sel ?obs)"
  have ids: "map call_id ?moved = map obs_id (filter sel ?obs)"
    using assms(2) by simp
  have dist: "distinct (map obs_id (filter P ?obs))" for P
    using assms(1) by (simp add: disp_inv_def distinct_map_filter)
  have apart: "set (map obs_id (filter P ?obs)) \<inter> set (map call_id ?calls) = {}" for P
    using assms(1) by (auto simp: disp_inv_def)
  have "obs_id ` {x \<in> set ?obs. \<not> sel x} \<inter> obs_id ` {x \<in> set ?obs. sel x} = {}"
    using assms(1) by (auto simp: disp_inv_def distinct_map inj_on_def)
  then have split: "set (map obs_id (filter (\<lambda>x. \<not> sel x) ?obs)) \<inter> set (map obs_id (filter sel ?obs)) = {}"
    by simp
  have "distinct (map call_id (?calls @ ?moved))"
    unfolding map_append ids using dist [of sel] apart [of sel] assms(1)
    by (auto simp: disp_inv_def)
  moreover have "set (map obs_id (filter (\<lambda>x. \<not> sel x) ?obs)) \<inter> set (map call_id (?calls @ ?moved)) = {}"
    unfolding map_append ids using split apart [of "\<lambda>x. \<not> sel x"] by auto
  ultimately show ?thesis
    using dist [of "\<lambda>x. \<not> sel x"] assms(3) unfolding disp_inv_def by simp
qed

lemma disp_inv_UpdateStateLocked [disp_inv_intros]:
  assumes "disp_inv d" shows "disp_inv (UpdateStateLocked c s d)"
  using disp_inv_erase [OF assms, of "\<lambda>i. OnMatch i (updated_signals c s d)" "triggered (updated_signals c s d)"]
    assms
  by (simp add: UpdateStateLocked_eq Let_def)

lemma disp_inv_Cancel [disp_inv_intros]:
  assumes "disp_inv d" shows "disp_inv (Dispatcher_Cancel h d)"
  using disp_inv_erase [OF assms, of "\<lambda>i. OnCancel i (signals_m d)" "\<lambda>x. handle_m x = h" "signals_m d"] assms
  by (simp add: Dispatcher_Cancel_def disp_inv_def)

lemma disp_inv_CancelByKey [disp_inv_intros]:
  assumes "disp_inv d" shows "disp_inv (snd (CancelByKey h port key d))"
  using disp_inv_erase [OF assms, of "\<lambda>i. OnCancel i (signals_m d)"
      "\<lambda>x. handle_m x = h \<and> MatchesKey x port key" "signals_m d"] assms
  by (simp add: CancelByKey_def disp_inv_def del: MatchesKey.simps)

lemma disp_inv_AddObserver [disp_inv_intros]:
  "disp_inv d \<Longrightarrow> obs_id x \<notin> disp_ids d \<Longrightarrow> disp_inv (snd (AddObserver x h sigs d))"
  by (auto simp: AddObserver_def disp_inv_def disp_ids_def triggered_def and.commute)

lemma disp_inv_RemoveObserver [disp_inv_intros]:
  "disp_inv d \<Longrightarrow> disp_inv (snd (snd (RemoveObserver i d)))"
  by (auto simp: RemoveObserver_def disp_inv_def distinct_map_filter)

text \<open>
  One step of a dispatcher as its clients see it. An observer is registered once: a
  \<open>PortObserver\<close> is deleted after its call and a \<open>WaitSignalObserver\<close> serves one wait.
  Observers in \<open>own\<close> are removed by nobody but their owner, who is not part of the run.
\<close>

inductive disp_step :: "nat set \<Rightarrow> 'a dispatcher_scheme \<Rightarrow> 'a dispatcher_scheme \<Rightarrow> bool"
  for own :: "nat set" where
  add: "obs_id x \<notin> disp_ids d \<Longrightarrow> disp_step own d (snd (AddObserver x h sigs d))"
| remove: "i \<notin> own \<Longrightarrow> disp_step own d (snd (snd (RemoveObserver i d)))"
| cancel: "disp_step own d (Dispatcher_Cancel h d)"
| cancel_key: "disp_step own d (snd (CancelByKey h port key d))"
| update: "disp_step own d (UpdateStateLocked c s d)"

lemma disp_inv_step: "disp_step own d d' \<Longrightarrow> disp_inv d \<Longrightarrow> disp_inv d'"
  by (induction rule: disp_step.induct) (auto intro: disp_inv_intros)

lemma disp_inv_steps: "(disp_step own)\<^sup>*\<^sup>* d d' \<Longrightarrow> disp_inv d \<Longrightarrow> disp_inv d'"
  by (induction rule: rtranclp_induct) (auto intro: disp_inv_step)

subsection \<open>The outcome of a wait\<close>

text \<open>Where observer \<open>i\<close>, registered for \<open>sigs\<close>, is: still queued, or called with its reason.\<close>

definition observer_pending :: "nat \<Rightarrow> zx_signals \<Rightarrow> 'a dispatcher_scheme \<Rightarrow> bool" where
  "observer_pending i sigs d \<longleftrightarrow> (\<exists>x\<in>set (observers_m d). obs_id x = i \<and> triggering_signals_m x = sigs)"

definition observer_called :: "nat \<Rightarrow> zx_signals \<Rightarrow> 'a dispatcher_scheme \<Rightarrow> bool" where
  "observer_called i sigs d \<longleftrightarrow>
     (\<exists>s. OnMatch i s \<in> set (calls_m d) \<and> s AND sigs \<noteq> 0 \<or> OnCancel i s \<in> set (calls_m d))"

lemma observer_tracked_step:
  assumes "disp_step own d d'" "i \<in> own" "observer_pending i sigs d \<or> observer_called i sigs d"
  shows "observer_pending i sigs d' \<or> observer_called i sigs d'"
  using assms
proof (cases rule: disp_step.cases)
  case (add x h sigs')
  then show ?thesis using assms(3)
    by (auto simp: AddObserver_def observer_pending_def observer_called_def)
next
  case (remove j)
  then show ?thesis using assms(2,3)
    by (auto simp: RemoveObserver_def observer_pending_def observer_called_def)
next
  case (cancel h)
  then show ?thesis using assms(3)
    by (auto simp: Dispatcher_Cancel_def observer_pending_def observer_called_def)
next
  case (cancel_key h port key)
  then show ?thesis using assms(3)
    by (fastforce simp: CancelByKey_def observer_pending_def observer_called_def simp del: MatchesKey.simps)
next
  case (update c s)
  then show ?thesis using assms(3)
    by (fastforce simp: UpdateStateLocked_eq Let_def triggered_def and.commute
        observer_pending_def observer_called_def)
qed

lemma observer_tracked:
  assumes "(disp_step own)\<^sup>*\<^sup>* d d'" "i \<in> own" "observer_pending i sigs d \<or> observer_called i sigs d"
  shows "observer_pending i sigs d' \<or> observer_called i sigs d'"
  using assms by (induction rule: rtranclp_induct) (auto dest: observer_tracked_step)

lemma fold_wait_call_other:
  "i \<notin> call_id ` set cs \<Longrightarrow> fold (wait_call i) cs w = w"
proof (induction cs arbitrary: w)
  case (Cons c cs)
  then show ?case by (cases c) auto
qed simp

text \<open>The observer's state is the effect of the one call addressed to it.\<close>

lemma wait_state_called:
  assumes "disp_inv d" "c \<in> set (calls_m d)" "call_id c = i"
  shows "wait_state i d = wait_call i c \<lparr>event_m = None, final_signal_state_m = 0\<rparr>"
proof -
  obtain xs ys where split: "calls_m d = xs @ c # ys" using assms(2) by (meson split_list)
  with assms(1,3) have "i \<notin> call_id ` set xs" "i \<notin> call_id ` set ys"
    by (auto simp: disp_inv_def)
  then show ?thesis by (simp add: wait_state_def split fold_wait_call_other)
qed

lemma wait_state_pending:
  assumes "disp_inv d" "observer_pending i sigs d"
  shows "wait_state i d = \<lparr>event_m = None, final_signal_state_m = 0\<rparr>"
    and "signals_m d AND sigs = 0" and "i \<in> obs_id ` set (observers_m d)"
proof -
  from assms(2) obtain x where x: "x \<in> set (observers_m d)" "obs_id x = i" "triggering_signals_m x = sigs"
    by (auto simp: observer_pending_def)
  with assms(1) have "i \<notin> call_id ` set (calls_m d)" by (force simp: disp_inv_def)
  then show "wait_state i d = \<lparr>event_m = None, final_signal_state_m = 0\<rparr>"
    by (simp add: wait_state_def fold_wait_call_other)
  show "signals_m d AND sigs = 0" using x assms(1) by (auto simp: disp_inv_def triggered_def and.commute)
  show "i \<in> obs_id ` set (observers_m d)" using x by auto
qed

lemma WaitSignalObserver_Begin_tracked:
  "WaitSignalObserver_Begin i h sigs d = (ZX_OK, d1) \<Longrightarrow>
   observer_pending i sigs d1 \<or> observer_called i sigs d1"
  by (auto simp: WaitSignalObserver_Begin_def AddObserver_def wait_observer_def observer_pending_def
      observer_called_def split: if_splits)

lemma WaitSignalObserver_Begin_inv:
  "disp_inv d \<Longrightarrow> i \<notin> disp_ids d \<Longrightarrow> WaitSignalObserver_Begin i h sigs d = (ZX_OK, d1) \<Longrightarrow> disp_inv d1"
  using disp_inv_AddObserver [of d "wait_observer i" h sigs]
  by (simp add: WaitSignalObserver_Begin_def wait_observer_def)

lemma WaitSignalObserver_End_called:
  assumes "disp_inv d" "observer_called i sigs d"
  shows "\<exists>r. event_m (wait_state i d) = Some r \<and>
    (r = ZX_OK \<and> fst (WaitSignalObserver_End i d) AND sigs \<noteq> 0 \<or>
     r = ZX_ERR_CANCELED \<and> fst (WaitSignalObserver_End i d) AND ZX_SIGNAL_HANDLE_CLOSED \<noteq> 0)"
proof -
  from assms(2) obtain c where c: "c \<in> set (calls_m d)" "call_id c = i"
    and why: "(\<exists>s. c = OnMatch i s \<and> s AND sigs \<noteq> 0) \<or> (\<exists>s. c = OnCancel i s)"
    by (force simp: observer_called_def)
  from c assms(1) have "i \<notin> obs_id ` set (observers_m d)" by (force simp: disp_inv_def)
  then have "fst (WaitSignalObserver_End i d) = final_signal_state_m (wait_state i d)"
    by (simp add: WaitSignalObserver_End_def RemoveObserver_def)
  with why wait_state_called [OF assms(1) c] show ?thesis
    by (auto simp: WaitSignalObserver_OnMatch_def WaitSignalObserver_OnCancel_def Event_Signal_def)
qed

text \<open>C7: A wait neither misses a signal nor reports one that did not happen. Between the
  registration of a \<open>WaitSignalObserver\<close> and its \<open>End\<close> any other operations may run on the
  dispatcher. If the event was signalled with \<open>ZX_OK\<close>, a watched signal is in the reported
  state; if it was signalled with \<open>ZX_ERR_CANCELED\<close>, the reported state has
  \<open>ZX_SIGNAL_HANDLE_CLOSED\<close>; if it was not signalled, no watched signal is active and the
  current signals are reported. In every case the observer is gone from the list.\<close>
theorem wait_outcome:
  assumes "disp_inv d" "i \<notin> disp_ids d"
    and "WaitSignalObserver_Begin i h sigs d = (ZX_OK, d1)"
    and "(disp_step {i})\<^sup>*\<^sup>* d1 d2"
    and "WaitSignalObserver_End i d2 = (state, d3)"
  shows "i \<notin> obs_id ` set (observers_m d3) \<and>
    (case event_m (wait_state i d2) of
       None \<Rightarrow> state = signals_m d2 \<and> state AND sigs = 0
     | Some r \<Rightarrow> r = ZX_OK \<and> state AND sigs \<noteq> 0 \<or>
                r = ZX_ERR_CANCELED \<and> state AND ZX_SIGNAL_HANDLE_CLOSED \<noteq> 0)"
proof -
  have inv: "disp_inv d2"
    using disp_inv_steps [OF assms(4)] WaitSignalObserver_Begin_inv [OF assms(1-3)] .
  have gone: "i \<notin> obs_id ` set (observers_m d3)"
    using assms(5) by (auto simp: WaitSignalObserver_End_def RemoveObserver_def split: if_splits)
  from observer_tracked [OF assms(4) _ WaitSignalObserver_Begin_tracked [OF assms(3)]]
  consider "observer_pending i sigs d2" | "observer_called i sigs d2" by auto
  then show ?thesis
  proof cases
    case 1
    then show ?thesis using wait_state_pending [OF inv 1] assms(5) gone
      by (simp add: WaitSignalObserver_End_def RemoveObserver_def)
  next
    case 2
    then show ?thesis using WaitSignalObserver_End_called [OF inv 2] assms(5) gone by auto
  qed
qed

text \<open>An event waited on for \<open>ZX_OBJECT_SIGNALED\<close> and then signalled.\<close>

definition example_dispatcher :: dispatcher where
  "example_dispatcher = Dispatcher_new 1024 ZX_OBJ_TYPE_EVENT ZX_RIGHT_WAIT ZX_OBJECT_SIGNALED 0"

lemma disp_inv_new [disp_inv_intros]: "disp_inv (Dispatcher_new k t r e s)"
  by (simp add: Dispatcher_new_def disp_inv_def)

theorem wait_outcome_witness:
  "let d1 = snd (WaitSignalObserver_Begin 2 7 ZX_OBJECT_SIGNALED example_dispatcher);
       d2 = UpdateStateLocked 0 ZX_OBJECT_SIGNALED d1;
       state = fst (WaitSignalObserver_End 2 d2)
   in event_m (wait_state 2 d2) = Some ZX_OK \<and> state AND ZX_OBJECT_SIGNALED \<noteq> 0"
proof -
  define d1 where "d1 = snd (WaitSignalObserver_Begin 2 7 ZX_OBJECT_SIGNALED example_dispatcher)"
  define d2 where "d2 = UpdateStateLocked 0 ZX_OBJECT_SIGNALED d1"
  have inv: "disp_inv example_dispatcher" "2 \<notin> disp_ids example_dispatcher"
    by (simp_all add: example_dispatcher_def disp_inv_new) (simp add: disp_ids_def Dispatcher_new_def)
  have registered: "WaitSignalObserver_Begin 2 7 ZX_OBJECT_SIGNALED example_dispatcher = (ZX_OK, d1)"
    by (simp add: d1_def WaitSignalObserver_Begin_def AddObserver_def example_dispatcher_def
        Dispatcher_new_def is_waitable_def zx_consts)
  have run: "(disp_step {2})\<^sup>*\<^sup>* d1 d2" unfolding d2_def by (intro r_into_rtranclp disp_step.update)
  have event: "event_m (wait_state 2 d2) = Some ZX_OK"
    by (simp add: d2_def d1_def WaitSignalObserver_Begin_def AddObserver_def example_dispatcher_def
        Dispatcher_new_def is_waitable_def wait_observer_def UpdateStateLocked_eq updated_signals_def
        triggered_def wait_state_def WaitSignalObserver_OnMatch_def Event_Signal_def zx_consts)
  show ?thesis
    using wait_outcome [OF inv registered run, of "fst (WaitSignalObserver_End 2 d2)" "snd (WaitSignalObserver_End 2 d2)"]
    unfolding d1_def [symmetric] Let_def d2_def [symmetric] by (simp add: event)
qed

text \<open>C22: From its construction on, whatever its clients do, a dispatcher never holds an
  observer one of whose triggering signals is active, never calls an observer twice, and
  never calls an observer that it still holds.\<close>
theorem dispatcher_no_lost_wakeup:
  assumes "(disp_step {})\<^sup>*\<^sup>* (Dispatcher_new k t r e s) d"
  shows "(\<forall>x\<in>set (observers_m d). triggering_signals_m x AND signals_m d = 0) \<and>
         distinct (map call_id (calls_m d)) \<and>
         set (map obs_id (observers_m d)) \<inter> set (map call_id (calls_m d)) = {}"
  using disp_inv_steps [OF assms disp_inv_new] by (simp add: disp_inv_def triggered_def)

theorem dispatcher_no_lost_wakeup_witness:
  "let d = UpdateStateLocked 0 ZX_OBJECT_SIGNALED
             (snd (AddObserver (wait_observer 1) 7 ZX_OBJECT_SIGNALED example_dispatcher))
   in map call_id (calls_m d) = [1] \<and> distinct (map call_id (calls_m d))"
proof -
  have "disp_step {} example_dispatcher
      (snd (AddObserver (wait_observer 1) 7 ZX_OBJECT_SIGNALED example_dispatcher))"
    by (rule disp_step.add) (simp add: disp_ids_def example_dispatcher_def Dispatcher_new_def)
  then have "(disp_step {})\<^sup>*\<^sup>* example_dispatcher (UpdateStateLocked 0 ZX_OBJECT_SIGNALED
      (snd (AddObserver (wait_observer 1) 7 ZX_OBJECT_SIGNALED example_dispatcher)))"
    by (meson disp_step.update r_into_rtranclp rtranclp.rtrancl_into_rtrancl)
  from dispatcher_no_lost_wakeup [OF this [unfolded example_dispatcher_def]] show ?thesis
    by (simp add: AddObserver_def example_dispatcher_def Dispatcher_new_def is_waitable_def
        wait_observer_def UpdateStateLocked_eq updated_signals_def triggered_def zx_consts)
qed

subsection \<open>The contract of a pair of peered endpoints\<close>

definition peers_inv :: "'a peers \<Rightarrow> bool" where
  "peers_inv s \<longleftrightarrow> (\<forall>k p. peer_m (s k) = Some p \<longrightarrow> p \<noteq> k \<and> peer_m (s p) = Some k)"

lemma peers_invD:
  "peers_inv s \<Longrightarrow> peer_m (s k) = Some p \<Longrightarrow> p \<noteq> k"
  "peers_inv s \<Longrightarrow> peer_m (s k) = Some p \<Longrightarrow> peer_m (s p) = Some k"
  unfolding peers_inv_def by blast+

text \<open>An operation that leaves every \<open>peer_\<close> alone keeps the pairing.\<close>

lemma peers_inv_frame: "peers_inv s \<Longrightarrow> (\<And>k. peer_m (s' k) = peer_m (s k)) \<Longrightarrow> peers_inv s'"
  unfolding peers_inv_def by metis

lemma user_signal_frame [simp]:
  "peer_m (snd (peered_user_signal_self self c m s) k) = peer_m (s k)"
  "peer_m (snd (user_signal_peer self c m s) k) = peer_m (s k)"
  by (auto simp: peered_user_signal_self_def user_signal_peer_def Let_def split: option.split)

lemma disp_inv_user_signal [disp_inv_intros]:
  "(\<And>k. disp_inv (s k)) \<Longrightarrow> disp_inv (snd (peered_user_signal_self self c m s) k)"
  "(\<And>k. disp_inv (s k)) \<Longrightarrow> disp_inv (snd (user_signal_peer self c m s) k)"
  by (auto simp: peered_user_signal_self_def user_signal_peer_def Let_def
      intro: disp_inv_intros split: option.split)

lemma disp_inv_peer_update [simp]: "disp_inv (d\<lparr>peer_m := p\<rparr>) = disp_inv d"
  by (simp add: disp_inv_def)

locale peered_hooks =
  fixes zero :: "'a peered_scheme \<Rightarrow> 'a peered_scheme"
    and peer_zero :: "'a peered_scheme \<Rightarrow> 'a peered_scheme"
  assumes peer_zero_hook: "peer_m (zero d) = peer_m d"
    and peer_peer_zero_hook: "peer_m (peer_zero d) = peer_m d"
    and disp_inv_zero_hook: "disp_inv d \<Longrightarrow> disp_inv (zero d)"
    and disp_inv_peer_zero_hook: "disp_inv d \<Longrightarrow> disp_inv (peer_zero d)"
    and peer_closed_signal: "signals_m (peer_zero d) AND ZX_OBJECT_PEER_CLOSED \<noteq> 0"
begin

lemma on_zero_handles_peer:
  "peer_m (peered_on_zero_handles zero peer_zero self s k) =
     (if k = self \<or> peer_m (s self) = Some k then None else peer_m (s k))"
  by (auto simp: peered_on_zero_handles_def Let_def peer_zero_hook peer_peer_zero_hook
      split: option.split)

lemma on_zero_handles_other:
  "k \<noteq> self \<Longrightarrow> peer_m (s self) \<noteq> Some k \<Longrightarrow>
   peered_on_zero_handles zero peer_zero self s k = s k"
  by (auto simp: peered_on_zero_handles_def Let_def split: option.split)

lemma on_zero_handles_peers_inv:
  assumes "peers_inv s" shows "peers_inv (peered_on_zero_handles zero peer_zero self s)"
  using assms unfolding peers_inv_def on_zero_handles_peer by (metis option.discI option.inject)

lemma on_zero_handles_disp_inv:
  assumes "\<And>k. disp_inv (s k)"
  shows "disp_inv (peered_on_zero_handles zero peer_zero self s k)"
proof -
  have zero: "disp_inv (zero ((s self)\<lparr>peer_m := None\<rparr>))"
    by (rule disp_inv_zero_hook) (simp add: assms)
  have "disp_inv (peer_zero (d\<lparr>peer_m := None\<rparr>))" if "disp_inv d" for d
    by (rule disp_inv_peer_zero_hook) (simp add: that)
  with zero assms show ?thesis
    by (simp add: peered_on_zero_handles_def Let_def split: option.split)
qed

lemma on_zero_handles_signals_peer:
  "peer_m (s self) = Some p \<Longrightarrow>
   signals_m (peered_on_zero_handles zero peer_zero self s p) AND ZX_OBJECT_PEER_CLOSED \<noteq> 0"
  by (simp add: peered_on_zero_handles_def Let_def peer_closed_signal)

text \<open>Once the last handle is closed, neither side can signal the other.\<close>

lemma on_zero_handles_signal_fails:
  assumes "peer_m (s self) = Some p" "c AND NOT (ZX_USER_SIGNAL_ALL OR extra_signals_m
      (peered_on_zero_handles zero peer_zero self s p)) = 0"
    "m AND NOT (ZX_USER_SIGNAL_ALL OR extra_signals_m (peered_on_zero_handles zero peer_zero self s p)) = 0"
  shows "user_signal_peer p c m (peered_on_zero_handles zero peer_zero self s) =
         (ZX_ERR_PEER_CLOSED, peered_on_zero_handles zero peer_zero self s)"
  using assms by (simp add: user_signal_peer_def Let_def on_zero_handles_peer)

end

lemma peers_inv_Init:
  assumes "peers_inv s" "a \<noteq> b" "peer_m (s a) = None" "peer_m (s b) = None"
    and "peer_m x = Some b" "peer_m y = Some a"
  shows "peers_inv (s(a := x, b := y))"
  using assms unfolding peers_inv_def by (metis fun_upd_apply option.discI option.inject)

end
