(* ===== verification/Event_Pair.thy ===== *)
theory Event_Pair
  imports Dispatcher
begin

section \<open>EventDispatcher and EventPairDispatcher\<close>

text \<open>
  Model of \<open>zircon/kernel/object/event_dispatcher.cc\<close> and \<open>event_pair_dispatcher.cc\<close>. An
  event is a bare dispatcher; an event pair is a pair of peered endpoints with no state of
  their own. \<open>Create\<close> takes the outcomes of its allocations and the global koid counter, and
  returns the new counter, so that the koids the constructors draw are explicit. This theory
  interprets the contract of peered endpoints for event pairs.
\<close>

definition EventDispatcher_new :: "zx_koid \<Rightarrow> dispatcher" where
  "EventDispatcher_new koid =
     Dispatcher_new koid ZX_OBJ_TYPE_EVENT ZX_DEFAULT_EVENT_RIGHTS ZX_OBJECT_SIGNALED 0"

definition EventDispatcher_Create ::
  "bool \<Rightarrow> zx_koid \<Rightarrow> zx_status \<times> (dispatcher \<times> zx_rights) option \<times> zx_koid" where
  "EventDispatcher_Create ac global_koid =
     (if \<not> ac then (ZX_ERR_NO_MEMORY, None, global_koid)
      else let (koid, global_koid) = GenerateKernelObjectId global_koid in
           (ZX_OK, Some (EventDispatcher_new koid, ZX_DEFAULT_EVENT_RIGHTS), global_koid))"

definition EventPairDispatcher_new :: "zx_koid \<Rightarrow> peered" where
  "EventPairDispatcher_new koid =
     \<lparr>koid_m = koid, type_m = ZX_OBJ_TYPE_EVENTPAIR, default_rights_m = ZX_DEFAULT_EVENTPAIR_RIGHTS,
      extra_signals_m = ZX_OBJECT_SIGNALED, handle_count_m = 0, signals_m = 0, observers_m = [],
      calls_m = [], peer_m = None, peer_koid_m = 0\<rparr>"

definition EventPairDispatcher_Init :: "zx_koid \<Rightarrow> peered \<Rightarrow> peered" where
  "EventPairDispatcher_Init other d = d\<lparr>peer_koid_m := other, peer_m := Some other\<rparr>"

definition EventPairDispatcher_Create ::
  "bool \<Rightarrow> bool \<Rightarrow> bool \<Rightarrow> zx_koid \<Rightarrow> unit peers
     \<Rightarrow> zx_status \<times> (zx_koid \<times> zx_koid \<times> zx_rights) option \<times> zx_koid \<times> unit peers" where
  "EventPairDispatcher_Create ac_holder ac0 ac1 global_koid s =
     (if \<not> ac_holder then (ZX_ERR_NO_MEMORY, None, global_koid, s)
      else if \<not> ac0 then (ZX_ERR_NO_MEMORY, None, global_koid, s)
      else let (k0, global_koid) = GenerateKernelObjectId global_koid in
      if \<not> ac1 then (ZX_ERR_NO_MEMORY, None, global_koid, s)
      else let (k1, global_koid) = GenerateKernelObjectId global_koid;
               s = s(k0 := EventPairDispatcher_Init k1 (EventPairDispatcher_new k0));
               s = s(k1 := EventPairDispatcher_Init k0 (EventPairDispatcher_new k1))
      in (ZX_OK, Some (k0, k1, ZX_DEFAULT_EVENTPAIR_RIGHTS), global_koid, s))"

definition EventPairDispatcher_on_zero_handles_locked :: "peered \<Rightarrow> peered" where
  "EventPairDispatcher_on_zero_handles_locked d = d"

definition EventPairDispatcher_OnPeerZeroHandlesLocked :: "peered \<Rightarrow> peered" where
  "EventPairDispatcher_OnPeerZeroHandlesLocked d = UpdateStateLocked 0 ZX_OBJECT_PEER_CLOSED d"

abbreviation EventPairDispatcher_on_zero_handles :: "zx_koid \<Rightarrow> unit peers \<Rightarrow> unit peers" where
  "EventPairDispatcher_on_zero_handles \<equiv>
     peered_on_zero_handles EventPairDispatcher_on_zero_handles_locked
       EventPairDispatcher_OnPeerZeroHandlesLocked"

interpretation eventpair: peered_hooks
  EventPairDispatcher_on_zero_handles_locked EventPairDispatcher_OnPeerZeroHandlesLocked
  by unfold_locales
    (auto simp: EventPairDispatcher_on_zero_handles_locked_def
      EventPairDispatcher_OnPeerZeroHandlesLocked_def intro: disp_inv_intros)

lemmas eventpair_defs =
  EventPairDispatcher_Create_def EventPairDispatcher_new_def EventPairDispatcher_Init_def
  GenerateKernelObjectId_def EventPairDispatcher_on_zero_handles_locked_def
  EventPairDispatcher_OnPeerZeroHandlesLocked_def

lemma koid_succ_neq [simp]: "g + 1 \<noteq> (g :: zx_koid)" "g \<noteq> g + (1 :: zx_koid)"
  by simp_all

lemma eventpair_Create_OK:
  assumes "EventPairDispatcher_Create h a0 a1 g s = (ZX_OK, r, g', s')"
  shows "r = Some (g, g + 1, ZX_DEFAULT_EVENTPAIR_RIGHTS)" "g' = g + 1 + 1"
    "s' = s(g := EventPairDispatcher_Init (g + 1) (EventPairDispatcher_new g),
            g + 1 := EventPairDispatcher_Init g (EventPairDispatcher_new (g + 1)))"
  using assms
  by (simp_all add: EventPairDispatcher_Create_def GenerateKernelObjectId_def split: if_splits)

text \<open>\<open>EventPairDispatcher::Create\<close> makes two endpoints that are each other's peer. The user
  signals one side may set on its peer arrive there. When the last handle of one side is
  closed, the other side shows \<open>ZX_EVENTPAIR_PEER_CLOSED\<close>, its \<open>peer_\<close> is gone, and signalling
  the peer fails with \<open>ZX_ERR_PEER_CLOSED\<close> without any effect; the pairing of all other
  objects is kept.\<close>
theorem eventpair_pair_and_close:
  assumes "peers_inv s" "peer_m (s g) = None" "peer_m (s (g + 1)) = None"
    and "EventPairDispatcher_Create h a0 a1 g s = (ZX_OK, Some (k0, k1, r), g', s')"
    and "m AND NOT (ZX_USER_SIGNAL_ALL OR ZX_OBJECT_SIGNALED) = 0"
  shows "peers_inv s' \<and>
    fst (user_signal_peer k0 0 m s') = ZX_OK \<and> signals_m (snd (user_signal_peer k0 0 m s') k1) = m \<and>
    (let s2 = EventPairDispatcher_on_zero_handles k0 s' in
       peers_inv s2 \<and> PeerHasClosed k1 s2 \<and>
       signals_m (s2 k1) AND ZX_OBJECT_PEER_CLOSED \<noteq> 0 \<and>
       user_signal_peer k1 0 m s2 = (ZX_ERR_PEER_CLOSED, s2))"
proof -
  note ok = eventpair_Create_OK [OF assms(4)]
  from ok(1) have k: "k0 = g" "k1 = g + 1" by simp_all
  have inv: "peers_inv s'"
    unfolding ok(3) by (rule peers_inv_Init [OF assms(1) _ assms(2,3)])
      (simp_all add: EventPairDispatcher_Init_def)
  have peer: "peer_m (s' k0) = Some k1" by (simp add: ok(3) k EventPairDispatcher_Init_def)
  have extra: "extra_signals_m (EventPairDispatcher_on_zero_handles k0 s' k1) = ZX_OBJECT_SIGNALED"
    by (simp add: ok(3) k eventpair_defs peered_on_zero_handles_def)
  have sent: "fst (user_signal_peer k0 0 m s') = ZX_OK"
    "signals_m (snd (user_signal_peer k0 0 m s') k1) = m"
    using assms(5) by (simp_all add: user_signal_peer_def ok(3) k eventpair_defs)
  have "user_signal_peer k1 0 m (EventPairDispatcher_on_zero_handles k0 s') =
      (ZX_ERR_PEER_CLOSED, EventPairDispatcher_on_zero_handles k0 s')"
    by (rule eventpair.on_zero_handles_signal_fails [of s' k0 k1, OF peer]) (use assms(5) in \<open>simp_all add: extra\<close>)
  then show ?thesis
    using inv sent peer eventpair.on_zero_handles_peers_inv [OF inv, of k0]
      eventpair.on_zero_handles_signals_peer [of s' k0 k1, OF peer] eventpair.on_zero_handles_peer [of k0 s' k1]
    by (simp add: Let_def PeerHasClosed_def)
qed

theorem eventpair_pair_and_close_witness:
  "let s = (\<lambda>k. EventPairDispatcher_new k);
       s' = snd (snd (snd (EventPairDispatcher_Create True True True 1024 s)));
       s2 = EventPairDispatcher_on_zero_handles 1024 s'
   in PeerHasClosed 1025 s2 \<and> signals_m (s2 1025) AND ZX_OBJECT_PEER_CLOSED \<noteq> 0"
proof -
  let ?s = "\<lambda>k. EventPairDispatcher_new k"
  have "peers_inv ?s" "peer_m (?s 1024) = None" "peer_m (?s (1024 + 1)) = None"
    by (simp_all add: peers_inv_def EventPairDispatcher_new_def)
  note eventpair_pair_and_close [OF this, of True True True 1024 "1024 + 1"
      ZX_DEFAULT_EVENTPAIR_RIGHTS "1024 + 1 + 1" _ 0]
  then show ?thesis
    by (simp add: EventPairDispatcher_Create_def GenerateKernelObjectId_def Let_def)
qed

end
