(* ===== verification/Timer_Queue.thy ===== *)
theory Timer_Queue
  imports Zx_Prelude "HOL-Library.Multiset"
begin

section \<open>Deadlines, timers and per-CPU timer queues\<close>

text \<open>
  Model of \<open>zircon/time.h\<close> (clamping time arithmetic), \<open>kernel/deadline.cc\<close> and
  \<open>kernel/timer.cc\<close>.

  \<^item> A \<open>zx_time_t\<close> is an \<open>int\<close> in the range of \<open>int64_t\<close>; \<open>add_overflow\<close> and \<open>sub_overflow\<close>
    return the wrapped 64-bit result beside the overflow flag, as the compiler builtins do.
  \<^item> A \<open>TimerQueue\<close> keeps its timers in a list; \<open>platform_m\<close> is the deadline programmed into
    the platform's one-shot timer, \<open>None\<close> when it is stopped or has fired.
  \<^item> The percpu queues are a list indexed by CPU number. A panic or a failed assertion is the
    result \<open>None\<close>.
  \<^item> The callback that \<open>Tick\<close> runs with the timer lock released is a parameter: a function from
    the fired timer to its effect on this queue.
\<close>

type_synonym zx_time = int
type_synonym zx_duration = int

definition ZX_TIME_INFINITE :: zx_time where "ZX_TIME_INFINITE = 2 ^ 63 - 1"
definition ZX_TIME_INFINITE_PAST :: zx_time where "ZX_TIME_INFINITE_PAST = - (2 ^ 63)"

definition wrap_int64 :: "int \<Rightarrow> int" where
  "wrap_int64 x = (x + 2 ^ 63) mod 2 ^ 64 - 2 ^ 63"

definition add_overflow :: "int \<Rightarrow> int \<Rightarrow> bool \<times> int" where
  "add_overflow a b = (wrap_int64 (a + b) \<noteq> a + b, wrap_int64 (a + b))"

definition sub_overflow :: "int \<Rightarrow> int \<Rightarrow> bool \<times> int" where
  "sub_overflow a b = (wrap_int64 (a - b) \<noteq> a - b, wrap_int64 (a - b))"

definition zx_time_add_duration :: "zx_time \<Rightarrow> zx_duration \<Rightarrow> zx_time" where
  "zx_time_add_duration time duration =
     (let (overflow, x) = add_overflow time duration in
      if overflow then if x \<ge> 0 then ZX_TIME_INFINITE_PAST else ZX_TIME_INFINITE
      else x)"

definition zx_time_sub_duration :: "zx_time \<Rightarrow> zx_duration \<Rightarrow> zx_time" where
  "zx_time_sub_duration time duration =
     (let (overflow, x) = sub_overflow time duration in
      if overflow then if x \<ge> 0 then ZX_TIME_INFINITE_PAST else ZX_TIME_INFINITE
      else x)"

definition zx_time_sub_time :: "zx_time \<Rightarrow> zx_time \<Rightarrow> zx_duration" where
  "zx_time_sub_time time1 time2 =
     (let (overflow, x) = sub_overflow time1 time2 in
      if overflow then if x \<ge> 0 then ZX_TIME_INFINITE_PAST else ZX_TIME_INFINITE
      else x)"

datatype slack_mode = TIMER_SLACK_CENTER | TIMER_SLACK_EARLY | TIMER_SLACK_LATE

record TimerSlack =
  amount_m :: zx_duration
  mode_m :: slack_mode

record Deadline =
  when_m :: zx_time
  dslack_m :: TimerSlack

definition Deadline_earliest :: "Deadline \<Rightarrow> zx_time" where
  "Deadline_earliest d =
     (case mode_m (dslack_m d) of
        TIMER_SLACK_CENTER \<Rightarrow> zx_time_sub_duration (when_m d) (amount_m (dslack_m d))
      | TIMER_SLACK_LATE \<Rightarrow> when_m d
      | TIMER_SLACK_EARLY \<Rightarrow> zx_time_sub_duration (when_m d) (amount_m (dslack_m d)))"

definition Deadline_latest :: "Deadline \<Rightarrow> zx_time" where
  "Deadline_latest d =
     (case mode_m (dslack_m d) of
        TIMER_SLACK_CENTER \<Rightarrow> zx_time_add_duration (when_m d) (amount_m (dslack_m d))
      | TIMER_SLACK_LATE \<Rightarrow> zx_time_add_duration (when_m d) (amount_m (dslack_m d))
      | TIMER_SLACK_EARLY \<Rightarrow> when_m d)"

subsection \<open>Timers and queues\<close>

record Timer =
  timer_id :: nat
  scheduled_time_m :: zx_time
  slack_m :: zx_duration
  active_cpu_m :: "nat option"
  cancel_m :: bool

record TimerQueue =
  timer_list_m :: "Timer list"
  preempt_timer_deadline_m :: zx_time
  next_timer_deadline_m :: zx_time
  platform_m :: "zx_time option"

definition UpdatePlatformTimer :: "zx_time \<Rightarrow> TimerQueue \<Rightarrow> TimerQueue" where
  "UpdatePlatformTimer new_deadline q =
     (if new_deadline < next_timer_deadline_m q
      then q\<lparr>platform_m := Some new_deadline, next_timer_deadline_m := new_deadline\<rparr> else q)"

definition timer_coalesce :: "Timer \<Rightarrow> Timer \<Rightarrow> Timer" where
  "timer_coalesce entry timer =
     timer\<lparr>slack_m := zx_time_sub_time (scheduled_time_m entry) (scheduled_time_m timer),
           scheduled_time_m := scheduled_time_m entry\<rparr>"

fun TimerQueue_Insert :: "Timer \<Rightarrow> zx_time \<Rightarrow> zx_time \<Rightarrow> Timer list \<Rightarrow> Timer list" where
  "TimerQueue_Insert timer earliest_deadline latest_deadline [] = [timer\<lparr>slack_m := 0\<rparr>]"
| "TimerQueue_Insert timer earliest_deadline latest_deadline (entry # rest) =
     (if scheduled_time_m entry > latest_deadline
      then timer\<lparr>slack_m := 0\<rparr> # entry # rest
      else if scheduled_time_m entry \<ge> scheduled_time_m timer
      then entry # timer_coalesce entry timer # rest
      else if scheduled_time_m entry < earliest_deadline
      then entry # TimerQueue_Insert timer earliest_deadline latest_deadline rest
      else if rest \<noteq> [] \<and> scheduled_time_m (hd rest) \<le> scheduled_time_m timer
      then entry # TimerQueue_Insert timer earliest_deadline latest_deadline rest
      else if rest \<noteq> [] \<and> scheduled_time_m (hd rest) < latest_deadline \<and>
              zx_time_sub_time (scheduled_time_m (hd rest)) (scheduled_time_m timer) <
              zx_time_sub_time (scheduled_time_m timer) (scheduled_time_m entry)
      then entry # TimerQueue_Insert timer earliest_deadline latest_deadline rest
      else entry # timer_coalesce entry timer # rest)"

definition PreemptReset :: "zx_time \<Rightarrow> TimerQueue \<Rightarrow> TimerQueue" where
  "PreemptReset deadline q = UpdatePlatformTimer deadline (q\<lparr>preempt_timer_deadline_m := deadline\<rparr>)"

definition in_queue :: "nat \<Rightarrow> TimerQueue \<Rightarrow> bool" where
  "in_queue i q \<longleftrightarrow> i \<in> set (map timer_id (timer_list_m q))"

definition InContainer :: "nat \<Rightarrow> TimerQueue list \<Rightarrow> bool" where
  "InContainer i qs \<longleftrightarrow> list_ex (in_queue i) qs"

definition Timer_Set_insert :: "Deadline \<Rightarrow> Timer \<Rightarrow> TimerQueue \<Rightarrow> TimerQueue" where
  "Timer_Set_insert deadline timer q =
     (let timer = timer\<lparr>scheduled_time_m := when_m deadline, cancel_m := False\<rparr>;
          q = q\<lparr>timer_list_m := TimerQueue_Insert timer (Deadline_earliest deadline)
                 (Deadline_latest deadline) (timer_list_m q)\<rparr>
      in if timer_list_m q \<noteq> [] \<and> timer_id (hd (timer_list_m q)) = timer_id timer
         then UpdatePlatformTimer (when_m deadline) q else q)"

definition Timer_Set ::
  "nat \<Rightarrow> Deadline \<Rightarrow> Timer \<Rightarrow> TimerQueue list \<Rightarrow> TimerQueue list option" where
  "Timer_Set cpu deadline timer qs =
     (if amount_m (dslack_m deadline) < 0 then None
      else if InContainer (timer_id timer) qs then None
      else if active_cpu_m timer = Some cpu \<and> cancel_m timer then Some qs
      else if active_cpu_m timer \<noteq> Some cpu \<and> active_cpu_m timer \<noteq> None then None
      else Some (qs[cpu := Timer_Set_insert deadline timer (qs ! cpu)]))"

definition queue_remove :: "nat \<Rightarrow> TimerQueue \<Rightarrow> TimerQueue" where
  "queue_remove i q = q\<lparr>timer_list_m := filter (\<lambda>t. timer_id t \<noteq> i) (timer_list_m q)\<rparr>"

definition Cancel_head_update :: "TimerQueue \<Rightarrow> TimerQueue" where
  "Cancel_head_update q =
     (if timer_list_m q \<noteq> [] then UpdatePlatformTimer (scheduled_time_m (hd (timer_list_m q))) q
      else if next_timer_deadline_m q = ZX_TIME_INFINITE then q\<lparr>platform_m := None\<rparr>
      else q)"

text \<open>
  \<open>Timer::Cancel\<close> called on \<open>cpu\<close>. The wait for a callback that runs on another CPU ends when that
  CPU has set \<open>active_cpu_\<close> back, so the timer it returns is inactive; \<open>callback_\<close> and \<open>arg_\<close> are the
  parameter of \<open>Tick\<close> and need no clearing.
\<close>

definition Timer_Cancel :: "nat \<Rightarrow> Timer \<Rightarrow> TimerQueue list \<Rightarrow> bool \<times> Timer \<times> TimerQueue list" where
  "Timer_Cancel cpu timer qs =
     (let timer = timer\<lparr>cancel_m := True\<rparr> in
      if active_cpu_m timer = Some cpu then (False, timer, qs)
      else
        let (callback_not_running, qs) =
              (if InContainer (timer_id timer) qs
               then let oldhead = timer_list_m (qs ! cpu) \<noteq> [] \<and>
                                  timer_id (hd (timer_list_m (qs ! cpu))) = timer_id timer;
                        qs = map (queue_remove (timer_id timer)) qs
                    in (True, if oldhead then qs[cpu := Cancel_head_update (qs ! cpu)] else qs)
               else (False, qs))
        in (callback_not_running, timer\<lparr>active_cpu_m := None\<rparr>, qs))"

fun Tick_loop ::
  "nat \<Rightarrow> (Timer \<Rightarrow> TimerQueue \<Rightarrow> TimerQueue) \<Rightarrow> zx_time \<Rightarrow> nat \<Rightarrow> TimerQueue
     \<Rightarrow> (Timer list \<times> TimerQueue) option" where
  "Tick_loop 0 callback now cpu q = None"
| "Tick_loop (Suc fuel) callback now cpu q =
     (case timer_list_m q of
        [] \<Rightarrow> Some ([], q)
      | timer # rest \<Rightarrow>
          if now < scheduled_time_m timer then Some ([], q)
          else let timer = timer\<lparr>active_cpu_m := Some cpu\<rparr>;
                   q = callback timer (q\<lparr>timer_list_m := rest\<rparr>)
               in map_option (\<lambda>(fired, q). (timer # fired, q)) (Tick_loop fuel callback now cpu q))"

definition Tick ::
  "nat \<Rightarrow> (Timer \<Rightarrow> TimerQueue \<Rightarrow> TimerQueue) \<Rightarrow> zx_time \<Rightarrow> nat \<Rightarrow> TimerQueue
     \<Rightarrow> (bool \<times> Timer list \<times> TimerQueue) option" where
  "Tick fuel callback now cpu q =
     (let q = q\<lparr>next_timer_deadline_m := ZX_TIME_INFINITE, platform_m := None\<rparr>;
          preempt = now \<ge> preempt_timer_deadline_m q;
          q = (if preempt then q\<lparr>preempt_timer_deadline_m := ZX_TIME_INFINITE\<rparr> else q)
      in case Tick_loop fuel callback now cpu q of
           None \<Rightarrow> None
         | Some (fired, q) \<Rightarrow>
             let deadline = (if timer_list_m q \<noteq> [] then scheduled_time_m (hd (timer_list_m q))
                             else ZX_TIME_INFINITE);
                 deadline = (if preempt_timer_deadline_m q < deadline
                             then preempt_timer_deadline_m q else deadline)
             in Some (preempt, fired, UpdatePlatformTimer deadline q))"

definition TransitionOffCpu :: "TimerQueue \<Rightarrow> TimerQueue \<Rightarrow> TimerQueue \<times> TimerQueue" where
  "TransitionOffCpu source q =
     (let old_head = map timer_id (take 1 (timer_list_m q));
          q = fold (\<lambda>timer q. q\<lparr>timer_list_m := TimerQueue_Insert timer (scheduled_time_m timer)
                       (scheduled_time_m timer) (timer_list_m q)\<rparr>) (timer_list_m source) q;
          new_head = map timer_id (take 1 (timer_list_m q));
          q = (if new_head \<noteq> [] \<and> new_head \<noteq> old_head
               then UpdatePlatformTimer (scheduled_time_m (hd (timer_list_m q))) q else q)
      in (source\<lparr>timer_list_m := [], preempt_timer_deadline_m := ZX_TIME_INFINITE,
                 next_timer_deadline_m := ZX_TIME_INFINITE\<rparr>, q))"

definition ThawPercpu :: "TimerQueue \<Rightarrow> TimerQueue" where
  "ThawPercpu q =
     (let q = q\<lparr>next_timer_deadline_m := ZX_TIME_INFINITE\<rparr>;
          deadline = preempt_timer_deadline_m q;
          deadline = (if timer_list_m q \<noteq> [] \<and> scheduled_time_m (hd (timer_list_m q)) < deadline
                      then scheduled_time_m (hd (timer_list_m q)) else deadline)
      in UpdatePlatformTimer deadline q)"

subsection \<open>Clamping arithmetic\<close>

abbreviation int64_range :: "int \<Rightarrow> bool" where
  "int64_range x \<equiv> - (2 ^ 63) \<le> x \<and> x < 2 ^ 63"

lemma wrap_int64_id [simp]: "int64_range x \<Longrightarrow> wrap_int64 x = x"
  by (simp add: wrap_int64_def)

lemma wrap_int64_above: "2 ^ 63 \<le> x \<Longrightarrow> x < 2 ^ 64 \<Longrightarrow> wrap_int64 x = x - 2 ^ 64"
proof -
  assume "2 ^ 63 \<le> x" "x < 2 ^ 64"
  then have "(x + 2 ^ 63) mod 2 ^ 64 = (x + 2 ^ 63 - 2 ^ 64) mod 2 ^ 64"
    by (metis minus_mod_self2)
  also have "\<dots> = x + 2 ^ 63 - 2 ^ 64"
    using \<open>2 ^ 63 \<le> x\<close> \<open>x < 2 ^ 64\<close> by (intro mod_pos_pos_trivial) simp_all
  finally show ?thesis by (simp add: wrap_int64_def)
qed

lemma wrap_int64_below: "- (2 ^ 64) \<le> x \<Longrightarrow> x < - (2 ^ 63) \<Longrightarrow> wrap_int64 x = x + 2 ^ 64"
proof -
  assume "- (2 ^ 64) \<le> x" "x < - (2 ^ 63)"
  then have "(x + 2 ^ 63) mod 2 ^ 64 = (x + 2 ^ 63 + 2 ^ 64) mod 2 ^ 64"
    by (metis mod_add_self2)
  also have "\<dots> = x + 2 ^ 63 + 2 ^ 64"
    using \<open>- (2 ^ 64) \<le> x\<close> \<open>x < - (2 ^ 63)\<close> by (intro mod_pos_pos_trivial) simp_all
  finally show ?thesis by (simp add: wrap_int64_def)
qed

definition clamp_time :: "int \<Rightarrow> zx_time" where
  "clamp_time x = max ZX_TIME_INFINITE_PAST (min ZX_TIME_INFINITE x)"

lemma overflow_clamp:
  assumes "- (2 ^ 64) \<le> x" "x < 2 ^ 64"
  shows "(if wrap_int64 x \<noteq> x
          then if wrap_int64 x \<ge> 0 then ZX_TIME_INFINITE_PAST else ZX_TIME_INFINITE
          else wrap_int64 x) = clamp_time x"
proof -
  consider "int64_range x" | "2 ^ 63 \<le> x" | "x < - (2 ^ 63)" by linarith
  then show ?thesis
    using assms
    by cases (simp_all add: wrap_int64_above wrap_int64_below clamp_time_def
        ZX_TIME_INFINITE_def ZX_TIME_INFINITE_PAST_def)
qed

lemma zx_time_clamps:
  assumes "int64_range a" "int64_range b"
  shows "zx_time_add_duration a b = clamp_time (a + b)"
    and "zx_time_sub_duration a b = clamp_time (a - b)"
    and "zx_time_sub_time a b = clamp_time (a - b)"
proof -
  have "- (2 ^ 64) \<le> a + b" "a + b < 2 ^ 64" "- (2 ^ 64) \<le> a - b" "a - b < 2 ^ 64"
    using assms by simp_all
  then show "zx_time_add_duration a b = clamp_time (a + b)"
    "zx_time_sub_duration a b = clamp_time (a - b)" "zx_time_sub_time a b = clamp_time (a - b)"
    unfolding zx_time_add_duration_def zx_time_sub_duration_def zx_time_sub_time_def
      add_overflow_def sub_overflow_def Let_def prod.case
    by (simp_all only: overflow_clamp)
qed

text \<open>For all \<open>int64_t\<close> arguments the time arithmetic of \<open>zircon/time.h\<close> is exact addition and
  subtraction clamped to \<open>ZX_TIME_INFINITE_PAST .. ZX_TIME_INFINITE\<close>: the sign of the wrapped
  result decides correctly between the two ends.\<close>
theorem zx_time_arithmetic_clamps:
  assumes "int64_range a" "int64_range b"
  shows "zx_time_add_duration a b = clamp_time (a + b) \<and>
         zx_time_sub_duration a b = clamp_time (a - b) \<and>
         zx_time_sub_time a b = clamp_time (a - b)"
  using zx_time_clamps [OF assms] by simp

theorem zx_time_arithmetic_clamps_witness:
  "zx_time_add_duration (2 ^ 63 - 1) 5 = ZX_TIME_INFINITE \<and>
   zx_time_sub_duration (- (2 ^ 63)) 1 = ZX_TIME_INFINITE_PAST \<and> zx_time_sub_time 7 9 = - 2"
  using zx_time_arithmetic_clamps [of "2 ^ 63 - 1" 5] zx_time_arithmetic_clamps [of "- (2 ^ 63)" 1]
    zx_time_arithmetic_clamps [of 7 9]
  by (simp add: clamp_time_def ZX_TIME_INFINITE_def ZX_TIME_INFINITE_PAST_def)

subsection \<open>Insertion with coalescing\<close>

abbreviation by_time :: "Timer list \<Rightarrow> bool" where
  "by_time \<equiv> sorted_wrt (\<lambda>a b. scheduled_time_m a \<le> scheduled_time_m b)"

lemma zx_time_sub_time_self [simp]: "zx_time_sub_time a a = 0"
  by (simp add: zx_time_sub_time_def sub_overflow_def wrap_int64_def)

text \<open>
  The specification of one insertion of \<open>t\<close> as \<open>t'\<close> between \<open>ys\<close> and \<open>zs\<close>: it falls into the
  slack window, records the adjustment, and moves only when it joins an earlier entry.
\<close>

definition inserted :: "Timer \<Rightarrow> zx_time \<Rightarrow> zx_time \<Rightarrow> Timer list \<Rightarrow> Timer \<Rightarrow> Timer list \<Rightarrow> bool" where
  "inserted t e l ys t' zs \<longleftrightarrow>
     (\<forall>y\<in>set ys. scheduled_time_m y \<le> scheduled_time_m t') \<and>
     (\<forall>z\<in>set zs. scheduled_time_m t' \<le> scheduled_time_m z) \<and>
     e \<le> scheduled_time_m t' \<and> scheduled_time_m t' \<le> l \<and>
     timer_id t' = timer_id t \<and>
     slack_m t' = zx_time_sub_time (scheduled_time_m t') (scheduled_time_m t) \<and>
     (ys = [] \<longrightarrow> scheduled_time_m t' = scheduled_time_m t)"

lemma inserted_here:
  "e \<le> scheduled_time_m t \<Longrightarrow> scheduled_time_m t \<le> l \<Longrightarrow>
   (\<And>z. z \<in> set zs \<Longrightarrow> l < scheduled_time_m z) \<Longrightarrow>
   inserted t e l [] (t\<lparr>slack_m := 0\<rparr>) zs"
  by (force simp: inserted_def)

lemma inserted_coalesced:
  "e \<le> scheduled_time_m x \<Longrightarrow> scheduled_time_m x \<le> l \<Longrightarrow> by_time (x # zs) \<Longrightarrow>
   inserted t e l [x] (timer_coalesce x t) zs"
  by (simp add: inserted_def timer_coalesce_def)

lemma inserted_later:
  assumes "inserted t e l ys t' zs" "by_time (x # ys @ zs)"
    and "scheduled_time_m x < e \<or> scheduled_time_m x \<le> scheduled_time_m t"
  shows "inserted t e l (x # ys) t' zs"
proof -
  have "scheduled_time_m x \<le> scheduled_time_m t'"
  proof (cases ys)
    case Nil
    then show ?thesis using assms(1,3) by (auto simp: inserted_def)
  next
    case (Cons y ys')
    then show ?thesis using assms(1,2) by (force simp: inserted_def)
  qed
  with assms(1) show ?thesis by (simp add: inserted_def)
qed

definition insertion :: "Timer \<Rightarrow> zx_time \<Rightarrow> zx_time \<Rightarrow> Timer list \<Rightarrow> Timer list \<Rightarrow> bool" where
  "insertion t e l xs r \<longleftrightarrow> (\<exists>ys t' zs. xs = ys @ zs \<and> r = ys @ t' # zs \<and> inserted t e l ys t' zs)"

lemma insertionI: "inserted t e l ys t' zs \<Longrightarrow> insertion t e l (ys @ zs) (ys @ t' # zs)"
  by (auto simp: insertion_def)

lemma insertion_later:
  assumes "insertion t e l xs r" "by_time (x # xs)"
    and "scheduled_time_m x < e \<or> scheduled_time_m x \<le> scheduled_time_m t"
  shows "insertion t e l (x # xs) (x # r)"
proof -
  from assms(1) obtain ys t' zs where *: "xs = ys @ zs" "r = ys @ t' # zs" "inserted t e l ys t' zs"
    by (auto simp: insertion_def)
  with assms(2,3) have "inserted t e l (x # ys) t' zs" by (intro inserted_later) simp_all
  with * show ?thesis using insertionI [of t e l "x # ys" t' zs] by simp
qed

lemma insertion_coalesced:
  assumes "e \<le> scheduled_time_m x" "scheduled_time_m x \<le> l" "by_time (x # xs)"
  shows "insertion t e l (x # xs) (x # timer_coalesce x t # xs)"
  using insertionI [OF inserted_coalesced [OF assms]] by simp

lemma TimerQueue_Insert_insertion:
  assumes "by_time xs" "e \<le> scheduled_time_m t" "scheduled_time_m t \<le> l"
  shows "insertion t e l xs (TimerQueue_Insert t e l xs)"
  using assms(1)
proof (induction xs)
  case Nil
  then show ?case using insertionI [OF inserted_here [OF assms(2,3), of "[]"]] by simp
next
  case (Cons x xs)
  then have IH: "insertion t e l xs (TimerQueue_Insert t e l xs)" by simp
  show ?case
  proof (cases "scheduled_time_m x > l")
    case True
    then have "inserted t e l [] (t\<lparr>slack_m := 0\<rparr>) (x # xs)"
      using Cons.prems by (intro inserted_here assms(2,3)) force
    from insertionI [OF this] True show ?thesis by simp
  next
    case False
    note later = insertion_later [OF IH Cons.prems] and
      join = insertion_coalesced [OF _ _ Cons.prems]
    show ?thesis
    proof (cases "scheduled_time_m t \<le> scheduled_time_m x")
      case True
      then show ?thesis using False join assms(2) by simp
    next
      case ge: False
      show ?thesis using False ge later join by auto
    qed
  qed
qed

lemma TimerQueue_Insert_inserted:
  assumes "by_time xs" "e \<le> scheduled_time_m t" "scheduled_time_m t \<le> l"
  obtains ys t' zs where "xs = ys @ zs" "TimerQueue_Insert t e l xs = ys @ t' # zs"
    "inserted t e l ys t' zs"
  using TimerQueue_Insert_insertion [OF assms] by (auto simp: insertion_def)

text \<open>\<open>TimerQueue::Insert\<close> keeps the queue ordered by scheduled time, adds exactly the new
  timer to it, and schedules it inside the window its deadline and slack allow; the recorded
  slack is the distance from the requested time.\<close>
theorem TimerQueue_Insert_correct:
  assumes "by_time xs" "e \<le> scheduled_time_m t" "scheduled_time_m t \<le> l"
  shows "by_time (TimerQueue_Insert t e l xs) \<and>
    (\<exists>t'. mset (TimerQueue_Insert t e l xs) = add_mset t' (mset xs) \<and>
          timer_id t' = timer_id t \<and> e \<le> scheduled_time_m t' \<and> scheduled_time_m t' \<le> l \<and>
          slack_m t' = zx_time_sub_time (scheduled_time_m t') (scheduled_time_m t))"
proof -
  obtain ys t' zs where split: "xs = ys @ zs" "TimerQueue_Insert t e l xs = ys @ t' # zs"
    "inserted t e l ys t' zs"
    by (rule TimerQueue_Insert_inserted [OF assms])
  then have "by_time (ys @ t' # zs)" using assms(1) by (simp add: sorted_wrt_append inserted_def)
  with split show ?thesis by (auto simp: inserted_def)
qed

definition example_timer :: "nat \<Rightarrow> zx_time \<Rightarrow> Timer" where
  "example_timer i w =
     \<lparr>timer_id = i, scheduled_time_m = w, slack_m = 0, active_cpu_m = None, cancel_m = False\<rparr>"

text \<open>A timer wanted at 100 with slack 30 joins the one already scheduled at 120.\<close>

theorem TimerQueue_Insert_correct_witness:
  "let xs = TimerQueue_Insert (example_timer 3 100) 70 130 [example_timer 1 60, example_timer 2 120]
   in map timer_id xs = [1, 2, 3] \<and> map scheduled_time_m xs = [60, 120, 120] \<and> by_time xs"
  using TimerQueue_Insert_correct [of "[example_timer 1 60, example_timer 2 120]" 70 "example_timer 3 100" 130]
  by (simp add: example_timer_def timer_coalesce_def)

subsection \<open>The hardware timer is armed for the first deadline\<close>

definition deadline_ok :: "Deadline \<Rightarrow> bool" where
  "deadline_ok d \<longleftrightarrow> int64_range (when_m d) \<and> 0 \<le> amount_m (dslack_m d) \<and> amount_m (dslack_m d) < 2 ^ 63"

lemma deadline_window:
  assumes "deadline_ok d"
  shows "Deadline_earliest d \<le> when_m d" "when_m d \<le> Deadline_latest d"
    "Deadline_latest d \<le> ZX_TIME_INFINITE"
  using assms zx_time_clamps [of "when_m d" "amount_m (dslack_m d)"]
  by (auto simp: deadline_ok_def Deadline_earliest_def Deadline_latest_def clamp_time_def
      ZX_TIME_INFINITE_def ZX_TIME_INFINITE_PAST_def split: slack_mode.split)

definition tq_wf :: "TimerQueue \<Rightarrow> bool" where
  "tq_wf q \<longleftrightarrow>
     by_time (timer_list_m q) \<and> distinct (map timer_id (timer_list_m q)) \<and>
     (\<forall>t\<in>set (timer_list_m q). scheduled_time_m t \<le> ZX_TIME_INFINITE) \<and>
     next_timer_deadline_m q \<le> ZX_TIME_INFINITE \<and>
     (next_timer_deadline_m q < ZX_TIME_INFINITE \<longrightarrow> platform_m q = Some (next_timer_deadline_m q))"

definition tq_inv :: "TimerQueue \<Rightarrow> bool" where
  "tq_inv q \<longleftrightarrow> tq_wf q \<and>
     (\<forall>t\<in>set (timer_list_m q). next_timer_deadline_m q \<le> scheduled_time_m t) \<and>
     next_timer_deadline_m q \<le> preempt_timer_deadline_m q"

lemma UpdatePlatformTimer_fields [simp]:
  "timer_list_m (UpdatePlatformTimer d q) = timer_list_m q"
  "preempt_timer_deadline_m (UpdatePlatformTimer d q) = preempt_timer_deadline_m q"
  "next_timer_deadline_m (UpdatePlatformTimer d q) = min d (next_timer_deadline_m q)"
  by (simp_all add: UpdatePlatformTimer_def)

lemma tq_wf_UpdatePlatformTimer [simp]: "tq_wf q \<Longrightarrow> tq_wf (UpdatePlatformTimer d q)"
  by (auto simp: tq_wf_def UpdatePlatformTimer_def)

lemma tq_inv_UpdatePlatformTimer:
  assumes "tq_wf q" "\<And>t. t \<in> set (timer_list_m q) \<Longrightarrow> min d (next_timer_deadline_m q) \<le> scheduled_time_m t"
    "min d (next_timer_deadline_m q) \<le> preempt_timer_deadline_m q"
  shows "tq_inv (UpdatePlatformTimer d q)"
  using assms by (simp add: tq_inv_def)

lemma by_time_hd: "by_time xs \<Longrightarrow> t \<in> set xs \<Longrightarrow> scheduled_time_m (hd xs) \<le> scheduled_time_m t"
  by (cases xs) auto

text \<open>Inserting a timer that is not queued keeps the list well formed and no timer comes
  before the old head except the new one at its own time.\<close>

lemma TimerQueue_Insert_wf:
  assumes "tq_wf q" "e \<le> scheduled_time_m t" "scheduled_time_m t \<le> l" "l \<le> ZX_TIME_INFINITE"
    "\<not> in_queue (timer_id t) q"
  shows "tq_wf (q\<lparr>timer_list_m := TimerQueue_Insert t e l (timer_list_m q)\<rparr>)"
    and "timer_id (hd (TimerQueue_Insert t e l (timer_list_m q))) \<noteq> timer_id t \<Longrightarrow>
         u \<in> set (TimerQueue_Insert t e l (timer_list_m q)) \<Longrightarrow>
         \<exists>v\<in>set (timer_list_m q). scheduled_time_m v \<le> scheduled_time_m u"
    and "timer_id (hd (TimerQueue_Insert t e l (timer_list_m q))) = timer_id t \<Longrightarrow>
         u \<in> set (TimerQueue_Insert t e l (timer_list_m q)) \<Longrightarrow>
         scheduled_time_m t \<le> scheduled_time_m u"
    and "TimerQueue_Insert t e l (timer_list_m q) \<noteq> []"
proof -
  from assms(1) have sorted: "by_time (timer_list_m q)" by (simp add: tq_wf_def)
  obtain ys t' zs where split: "timer_list_m q = ys @ zs"
    "TimerQueue_Insert t e l (timer_list_m q) = ys @ t' # zs" "inserted t e l ys t' zs"
    by (rule TimerQueue_Insert_inserted [OF sorted assms(2,3)])
  have ids: "timer_id t' = timer_id t" "timer_id t' \<notin> timer_id ` set (ys @ zs)"
    using split assms(5) by (auto simp: inserted_def in_queue_def)
  show "tq_wf (q\<lparr>timer_list_m := TimerQueue_Insert t e l (timer_list_m q)\<rparr>)"
    using assms(1,4) split ids by (auto simp: tq_wf_def inserted_def sorted_wrt_append)
  show "TimerQueue_Insert t e l (timer_list_m q) \<noteq> []" unfolding split(2) by simp
  show "\<exists>v\<in>set (timer_list_m q). scheduled_time_m v \<le> scheduled_time_m u"
    if "timer_id (hd (TimerQueue_Insert t e l (timer_list_m q))) \<noteq> timer_id t"
      "u \<in> set (TimerQueue_Insert t e l (timer_list_m q))"
  proof -
    from that(1) split ids obtain y ys' where y: "ys = y # ys'" by (cases ys) auto
    have "scheduled_time_m y \<le> scheduled_time_m u"
      using that(2) split sorted y by (auto simp: inserted_def)
    then show ?thesis using split y by auto
  qed
  show "scheduled_time_m t \<le> scheduled_time_m u"
    if "timer_id (hd (TimerQueue_Insert t e l (timer_list_m q))) = timer_id t"
      "u \<in> set (TimerQueue_Insert t e l (timer_list_m q))"
  proof -
    from that(1) split ids have "ys = []" by (cases ys) auto
    then show ?thesis using split that(2) by (auto simp: inserted_def)
  qed
qed

lemma tq_inv_Timer_Set_insert:
  assumes "tq_inv q" "deadline_ok d" "\<not> in_queue (timer_id t) q"
  shows "tq_inv (Timer_Set_insert d t q)"
proof -
  let ?t = "t\<lparr>scheduled_time_m := when_m d, cancel_m := False\<rparr>"
  let ?xs = "TimerQueue_Insert ?t (Deadline_earliest d) (Deadline_latest d) (timer_list_m q)"
  from assms(1) have wf: "tq_wf q" by (simp add: tq_inv_def)
  have "Deadline_earliest d \<le> scheduled_time_m ?t" "scheduled_time_m ?t \<le> Deadline_latest d"
    "Deadline_latest d \<le> ZX_TIME_INFINITE" "\<not> in_queue (timer_id ?t) q"
    using deadline_window [OF assms(2)] assms(3) by simp_all
  note ins = TimerQueue_Insert_wf [OF wf this]
  show ?thesis
  proof (cases "timer_id (hd ?xs) = timer_id ?t")
    case True
    have eq: "Timer_Set_insert d t q = UpdatePlatformTimer (when_m d) (q\<lparr>timer_list_m := ?xs\<rparr>)"
      using True ins(4) by (simp add: Timer_Set_insert_def Let_def)
    have "when_m d \<le> scheduled_time_m u" if "u \<in> set ?xs" for u
      using ins(3) [OF True that] by simp
    then have "min (when_m d) (next_timer_deadline_m q) \<le> scheduled_time_m u" if "u \<in> set ?xs" for u
      using that by (meson min.coboundedI1)
    then show ?thesis unfolding eq using ins(1) assms(1)
      by (intro tq_inv_UpdatePlatformTimer) (simp_all add: tq_inv_def min.coboundedI2)
  next
    case False
    have eq: "Timer_Set_insert d t q = q\<lparr>timer_list_m := ?xs\<rparr>"
      using False by (simp add: Timer_Set_insert_def Let_def)
    have "next_timer_deadline_m q \<le> scheduled_time_m u" if "u \<in> set ?xs" for u
      using ins(2) [OF False that] assms(1) by (auto simp: tq_inv_def)
    then show ?thesis unfolding eq using ins(1) assms(1) by (simp add: tq_inv_def)
  qed
qed

lemma tq_inv_queue_remove: "tq_inv q \<Longrightarrow> tq_inv (queue_remove i q)"
  by (auto simp: tq_inv_def tq_wf_def queue_remove_def sorted_wrt_filter distinct_map_filter)

lemma tq_inv_Cancel_head_update:
  assumes "tq_inv q" shows "tq_inv (Cancel_head_update q)"
proof -
  have "tq_inv (UpdatePlatformTimer d q)" for d
    using assms by (intro tq_inv_UpdatePlatformTimer) (auto simp: tq_inv_def min.coboundedI2)
  with assms show ?thesis by (auto simp: Cancel_head_update_def tq_inv_def tq_wf_def)
qed

lemma tq_inv_PreemptReset: "tq_inv q \<Longrightarrow> tq_inv (PreemptReset d q)"
  unfolding PreemptReset_def
  by (rule tq_inv_UpdatePlatformTimer) (auto simp: tq_inv_def tq_wf_def min.coboundedI2)

lemma tq_inv_ThawPercpu:
  assumes "tq_inv q" shows "tq_inv (ThawPercpu q)"
proof -
  let ?q = "q\<lparr>next_timer_deadline_m := ZX_TIME_INFINITE\<rparr>"
  let ?d = "if timer_list_m q \<noteq> [] \<and> scheduled_time_m (hd (timer_list_m q)) < preempt_timer_deadline_m q
    then scheduled_time_m (hd (timer_list_m q)) else preempt_timer_deadline_m q"
  have "?d \<le> scheduled_time_m t" if "t \<in> set (timer_list_m q)" for t
    using assms that by_time_hd [OF _ that] by (force simp: tq_inv_def tq_wf_def)
  moreover have "?d \<le> preempt_timer_deadline_m q" by simp
  ultimately have "tq_inv (UpdatePlatformTimer ?d ?q)"
    using assms by (intro tq_inv_UpdatePlatformTimer) (auto simp: tq_inv_def tq_wf_def min.coboundedI1)
  then show ?thesis by (auto simp: ThawPercpu_def Let_def split: if_splits)
qed

text \<open>Moving the timers of another CPU over: the ids of the two queues are disjoint.\<close>

definition move_timers :: "Timer list \<Rightarrow> TimerQueue \<Rightarrow> TimerQueue" where
  "move_timers ts q = fold (\<lambda>timer q. q\<lparr>timer_list_m := TimerQueue_Insert timer (scheduled_time_m timer)
                 (scheduled_time_m timer) (timer_list_m q)\<rparr>) ts q"

lemma move_timers_wf:
  assumes "tq_wf q" "distinct (map timer_id ts)" "\<forall>t\<in>set ts. scheduled_time_m t \<le> ZX_TIME_INFINITE"
    "timer_id ` set ts \<inter> timer_id ` set (timer_list_m q) = {}"
  shows "\<exists>xs. move_timers ts q = q\<lparr>timer_list_m := xs\<rparr> \<and> tq_wf (q\<lparr>timer_list_m := xs\<rparr>) \<and>
           (\<forall>u\<in>set xs. u \<in> set (timer_list_m q) \<or> timer_id u \<in> timer_id ` set ts)"
  using assms
proof (induction ts arbitrary: q)
  case Nil
  then show ?case by (intro exI [of _ "timer_list_m q"]) (simp add: move_timers_def)
next
  case (Cons t ts)
  let ?xs = "TimerQueue_Insert t (scheduled_time_m t) (scheduled_time_m t) (timer_list_m q)"
  have "\<not> in_queue (timer_id t) q" using Cons.prems by (auto simp: in_queue_def)
  then have wf: "tq_wf (q\<lparr>timer_list_m := ?xs\<rparr>)"
    using Cons.prems by (intro TimerQueue_Insert_wf(1)) simp_all
  from Cons.prems(1) have "by_time (timer_list_m q)" by (simp add: tq_wf_def)
  then obtain ys t' zs where split: "timer_list_m q = ys @ zs" "?xs = ys @ t' # zs" "timer_id t' = timer_id t"
    by (metis TimerQueue_Insert_inserted inserted_def order_refl)
  have "timer_id ` set ts \<inter> timer_id ` set ?xs = {}"
    unfolding split(2) using split(1,3) Cons.prems(2,4) by auto
  then obtain xs where xs: "move_timers ts (q\<lparr>timer_list_m := ?xs\<rparr>) = q\<lparr>timer_list_m := xs\<rparr>"
    "tq_wf (q\<lparr>timer_list_m := xs\<rparr>)" "\<forall>u\<in>set xs. u \<in> set ?xs \<or> timer_id u \<in> timer_id ` set ts"
    using Cons.IH [OF wf] Cons.prems by auto
  from xs(3) split have "\<forall>u\<in>set xs. u \<in> set (timer_list_m q) \<or> timer_id u \<in> timer_id ` set (t # ts)"
    unfolding split(2) by auto
  with xs(1,2) show ?case by (auto simp: move_timers_def)
qed

lemma tq_inv_TransitionOffCpu:
  assumes "tq_inv src" "tq_inv q"
    "timer_id ` set (timer_list_m src) \<inter> timer_id ` set (timer_list_m q) = {}"
  shows "tq_inv (fst (TransitionOffCpu src q))" "tq_inv (snd (TransitionOffCpu src q))"
proof -
  show "tq_inv (fst (TransitionOffCpu src q))"
    using assms(1) by (simp add: TransitionOffCpu_def Let_def tq_inv_def tq_wf_def)
  have "tq_wf q" "distinct (map timer_id (timer_list_m src))"
    "\<forall>t\<in>set (timer_list_m src). scheduled_time_m t \<le> ZX_TIME_INFINITE"
    using assms(1,2) by (auto simp: tq_inv_def tq_wf_def)
  from move_timers_wf [OF this assms(3)] obtain xs where
    moved: "move_timers (timer_list_m src) q = q\<lparr>timer_list_m := xs\<rparr>" "tq_wf (q\<lparr>timer_list_m := xs\<rparr>)"
    and mem: "\<forall>u\<in>set xs. u \<in> set (timer_list_m q) \<or> timer_id u \<in> timer_id ` set (timer_list_m src)"
    by blast
  have first: "scheduled_time_m (hd xs) \<le> scheduled_time_m u" if "u \<in> set xs" for u
    using moved(2) that by (auto simp: tq_wf_def intro: by_time_hd)
  let ?changed = "map timer_id (take 1 xs) \<noteq> [] \<and> map timer_id (take 1 xs) \<noteq> map timer_id (take 1 (timer_list_m q))"
  have eq: "snd (TransitionOffCpu src q) =
      (if ?changed then UpdatePlatformTimer (scheduled_time_m (hd xs)) (q\<lparr>timer_list_m := xs\<rparr>)
       else q\<lparr>timer_list_m := xs\<rparr>)"
    using moved(1) by (simp add: TransitionOffCpu_def move_timers_def Let_def)
  have "tq_inv (UpdatePlatformTimer (scheduled_time_m (hd xs)) (q\<lparr>timer_list_m := xs\<rparr>))"
    using moved(2) assms(2) first
    by (intro tq_inv_UpdatePlatformTimer) (auto simp: tq_inv_def min.coboundedI1 min.coboundedI2)
  moreover have "next_timer_deadline_m q \<le> scheduled_time_m u" if "u \<in> set xs" "\<not> ?changed" for u
  proof -
    from that obtain x xs' v vs where "xs = x # xs'" "timer_list_m q = v # vs" "timer_id x = timer_id v"
      by (cases xs; cases "timer_list_m q") auto
    then have "hd xs \<in> set (timer_list_m q)" using mem assms(3) by auto
    then show ?thesis using assms(2) first [OF that(1)] by (auto simp: tq_inv_def)
  qed
  ultimately show "tq_inv (snd (TransitionOffCpu src q))"
    unfolding eq using moved(2) assms(2) by (auto simp: tq_inv_def)
qed

subsection \<open>Tick\<close>

definition due :: "zx_time \<Rightarrow> TimerQueue \<Rightarrow> nat" where
  "due now q = length (filter (\<lambda>t. scheduled_time_m t \<le> now) (timer_list_m q))"

text \<open>What \<open>Tick\<close> relies on: a callback keeps the queue well formed and adds no due timer.\<close>

definition callback_ok :: "zx_time \<Rightarrow> (Timer \<Rightarrow> TimerQueue \<Rightarrow> TimerQueue) \<Rightarrow> bool" where
  "callback_ok now callback \<longleftrightarrow>
     (\<forall>t q. tq_wf q \<longrightarrow> tq_wf (callback t q) \<and> due now (callback t q) \<le> due now q)"

lemma tq_wf_tail: "tq_wf q \<Longrightarrow> timer_list_m q = t # ts \<Longrightarrow> tq_wf (q\<lparr>timer_list_m := ts\<rparr>)"
  by (simp add: tq_wf_def)

lemma Tick_loop_returns:
  assumes "callback_ok now callback" "tq_wf q" "due now q < fuel"
  shows "\<exists>fired q'. Tick_loop fuel callback now cpu q = Some (fired, q') \<and> tq_wf q' \<and>
           (\<forall>t\<in>set (timer_list_m q'). now < scheduled_time_m t)"
  using assms(2,3)
proof (induction fuel arbitrary: q)
  case (Suc fuel)
  show ?case
  proof (cases "timer_list_m q")
    case (Cons t ts)
    show ?thesis
    proof (cases "now < scheduled_time_m t")
      case True
      then have "\<forall>u\<in>set (timer_list_m q). now < scheduled_time_m u"
        using Suc.prems(1) Cons by (force simp: tq_wf_def)
      then show ?thesis using True Cons Suc.prems(1) by simp
    next
      case False
      let ?q = "q\<lparr>timer_list_m := ts\<rparr>"
      let ?r = "callback (t\<lparr>active_cpu_m := Some cpu\<rparr>) ?q"
      have "tq_wf ?q" using tq_wf_tail Suc.prems(1) Cons by blast
      with assms(1) have "tq_wf ?r" "due now ?r \<le> due now ?q" by (auto simp: callback_ok_def)
      moreover have "due now ?q < due now q" using Cons False by (simp add: due_def)
      ultimately show ?thesis using Suc.IH [of ?r] Suc.prems(2) False Cons by auto
    qed
  qed (use Suc.prems in simp)
qed simp

lemma Tick_loop_wf:
  "callback_ok now callback \<Longrightarrow> tq_wf q \<Longrightarrow> Tick_loop fuel callback now cpu q = Some (fired, q') \<Longrightarrow> tq_wf q'"
proof (induction fuel arbitrary: q fired)
  case (Suc fuel)
  have wf: "tq_wf (callback u (q\<lparr>timer_list_m := ts\<rparr>))" if "timer_list_m q = t # ts" for t u ts
    using Suc.prems(1) tq_wf_tail [OF Suc.prems(2) that] by (simp add: callback_ok_def)
  from Suc.prems(2,3) show ?case
    by (auto simp: Let_def dest: Suc.IH [OF Suc.prems(1) wf] split: list.splits if_splits)
qed simp

text \<open>The reprogramming at the end of \<open>Tick\<close> restores the invariant the loop suspends.\<close>

definition Tick_deadline :: "TimerQueue \<Rightarrow> zx_time" where
  "Tick_deadline q =
     (let deadline = (if timer_list_m q \<noteq> [] then scheduled_time_m (hd (timer_list_m q))
                      else ZX_TIME_INFINITE)
      in if preempt_timer_deadline_m q < deadline then preempt_timer_deadline_m q else deadline)"

lemma tq_inv_Tick_deadline:
  assumes "tq_wf q" shows "tq_inv (UpdatePlatformTimer (Tick_deadline q) q)"
proof -
  have "Tick_deadline q \<le> scheduled_time_m t" if "t \<in> set (timer_list_m q)" for t
    using assms that by_time_hd [OF _ that] by (force simp: Tick_deadline_def tq_wf_def Let_def)
  moreover have "Tick_deadline q \<le> preempt_timer_deadline_m q" by (simp add: Tick_deadline_def Let_def)
  ultimately show ?thesis
    using assms by (intro tq_inv_UpdatePlatformTimer) (simp_all add: min.coboundedI1)
qed

definition Tick_start :: "zx_time \<Rightarrow> TimerQueue \<Rightarrow> TimerQueue" where
  "Tick_start now q = q\<lparr>next_timer_deadline_m := ZX_TIME_INFINITE, platform_m := None,
     preempt_timer_deadline_m :=
       (if now \<ge> preempt_timer_deadline_m q then ZX_TIME_INFINITE else preempt_timer_deadline_m q)\<rparr>"

lemma Tick_eq:
  "Tick fuel callback now cpu q =
     map_option (\<lambda>(fired, r). (now \<ge> preempt_timer_deadline_m q, fired,
         UpdatePlatformTimer (Tick_deadline r) r))
       (Tick_loop fuel callback now cpu (Tick_start now q))"
  by (auto simp: Tick_def Tick_start_def Tick_deadline_def Let_def split: option.split)

lemma tq_wf_Tick_start: "tq_wf q \<Longrightarrow> tq_wf (Tick_start now q)"
  by (simp add: tq_wf_def Tick_start_def)

lemma Tick_Some_inv:
  "callback_ok now callback \<Longrightarrow> tq_wf q \<Longrightarrow> Tick fuel callback now cpu q = Some (p, fired, q') \<Longrightarrow> tq_inv q'"
  by (auto simp: Tick_eq intro!: tq_inv_Tick_deadline dest: Tick_loop_wf tq_wf_Tick_start)

lemma Tick_returns:
  assumes "callback_ok now callback" "tq_wf q" "due now q < fuel"
  shows "\<exists>p fired q'. Tick fuel callback now cpu q = Some (p, fired, q') \<and> tq_inv q'"
proof -
  have "due now (Tick_start now q) < fuel" using assms(3) by (simp add: due_def Tick_start_def)
  from Tick_loop_returns [OF assms(1) tq_wf_Tick_start [OF assms(2)] this, of cpu]
  obtain fired r where "Tick_loop fuel callback now cpu (Tick_start now q) = Some (fired, r)" by blast
  then have "Tick fuel callback now cpu q = Some (now \<ge> preempt_timer_deadline_m q, fired,
      UpdatePlatformTimer (Tick_deadline r) r)" by (simp add: Tick_eq)
  with Tick_Some_inv [OF assms(1,2) this] show ?thesis by blast
qed

lemma Tick_loop_quiet:
  "by_time xs \<Longrightarrow> timer_list_m q = xs \<Longrightarrow> due now q < fuel \<Longrightarrow>
   Tick_loop fuel (\<lambda>_ q. q) now cpu q =
     Some (map (active_cpu_m_update (\<lambda>_. Some cpu)) (filter (\<lambda>t. scheduled_time_m t \<le> now) xs),
           q\<lparr>timer_list_m := filter (\<lambda>t. now < scheduled_time_m t) xs\<rparr>)"
proof (induction xs arbitrary: q fuel)
  case Nil
  then show ?case by (cases fuel) auto
next
  case (Cons t ts)
  from Cons.prems(3) obtain n where n: "fuel = Suc n" by (cases fuel) auto
  show ?case
  proof (cases "now < scheduled_time_m t")
    case True
    then have later: "now < scheduled_time_m u" if "u \<in> set ts" for u
      using Cons.prems(1) that by force
    then have "filter (\<lambda>t. scheduled_time_m t \<le> now) ts = []" "filter (\<lambda>t. now < scheduled_time_m t) ts = ts"
      by (force simp: filter_empty_conv, simp add: filter_id_conv)
    with True Cons.prems(2) n show ?thesis by simp
  next
    case False
    have "due now (q\<lparr>timer_list_m := ts\<rparr>) < n"
      using Cons.prems(2,3) n False by (simp add: due_def)
    from Cons.IH [OF _ _ this] Cons.prems(1,2) n False show ?thesis by simp
  qed
qed

text \<open>One \<open>Tick\<close> at time \<open>now\<close> always returns. With callbacks that leave the queue alone (the
  callback of \<open>TimerDispatcher\<close> only queues a DPC) it fires exactly the timers that are due, in
  the order of the queue, and keeps the others; the platform timer is programmed again for the
  earliest of the remaining timers and the preemption deadline.\<close>
theorem Tick_fires_due:
  assumes "tq_inv q" "length (timer_list_m q) < fuel"
  shows "\<exists>preempted fired q'. Tick fuel (\<lambda>_ q. q) now cpu q = Some (preempted, fired, q') \<and>
    map timer_id fired = map timer_id (filter (\<lambda>t. scheduled_time_m t \<le> now) (timer_list_m q)) \<and>
    timer_list_m q' = filter (\<lambda>t. now < scheduled_time_m t) (timer_list_m q) \<and> tq_inv q'"
proof -
  have ok: "callback_ok now (\<lambda>_ q. q)" by (simp add: callback_ok_def)
  have "due now q \<le> length (timer_list_m q)" by (simp add: due_def)
  with assms(2) have fuel: "due now q < fuel" by simp
  from assms(1) have wf: "tq_wf q" "by_time (timer_list_m q)" by (simp_all add: tq_inv_def tq_wf_def)
  from Tick_returns [OF ok wf(1) fuel] obtain p fired q' where
    tick: "Tick fuel (\<lambda>_ q. q) now cpu q = Some (p, fired, q')" and inv: "tq_inv q'" by blast
  have "map timer_id fired = map timer_id (filter (\<lambda>t. scheduled_time_m t \<le> now) (timer_list_m q)) \<and>
      timer_list_m q' = filter (\<lambda>t. now < scheduled_time_m t) (timer_list_m q)"
    using tick Tick_loop_quiet [OF wf(2), of "Tick_start now q" now fuel cpu] fuel
    by (auto simp: Tick_eq Tick_start_def due_def)
  with tick inv show ?thesis by blast
qed

definition example_queue :: TimerQueue where
  "example_queue = \<lparr>timer_list_m = [example_timer 1 60, example_timer 2 120],
     preempt_timer_deadline_m = ZX_TIME_INFINITE, next_timer_deadline_m = 60, platform_m = Some 60\<rparr>"

theorem Tick_fires_due_witness:
  "\<exists>preempted fired q'. Tick 5 (\<lambda>_ q. q) 100 0 example_queue = Some (preempted, fired, q') \<and>
     map timer_id fired = [1] \<and> map timer_id (timer_list_m q') = [2]"
proof -
  have "tq_inv example_queue" "length (timer_list_m example_queue) < 5"
    by (simp_all add: example_queue_def example_timer_def tq_inv_def tq_wf_def ZX_TIME_INFINITE_def)
  from Tick_fires_due [OF this, of 100 0] obtain p fired q' where
    *: "Tick 5 (\<lambda>_ q. q) 100 0 example_queue = Some (p, fired, q')"
      "map timer_id fired = map timer_id (filter (\<lambda>t. scheduled_time_m t \<le> 100) (timer_list_m example_queue))"
      "timer_list_m q' = filter (\<lambda>t. 100 < scheduled_time_m t) (timer_list_m example_queue)" by blast
  have "map timer_id fired = [1]" "map timer_id (timer_list_m q') = [2]"
    unfolding *(2,3) by (simp_all add: example_queue_def example_timer_def)
  with *(1) show ?thesis by (intro exI conjI)
qed

subsection \<open>All CPUs\<close>

inductive timer_step :: "TimerQueue list \<Rightarrow> TimerQueue list \<Rightarrow> bool" where
  set: "cpu < length qs \<Longrightarrow> deadline_ok d \<Longrightarrow> Timer_Set cpu d t qs = Some qs' \<Longrightarrow> timer_step qs qs'"
| cancel: "cpu < length qs \<Longrightarrow> timer_step qs (snd (snd (Timer_Cancel cpu t qs)))"
| preempt: "cpu < length qs \<Longrightarrow> timer_step qs (qs[cpu := PreemptReset d (qs ! cpu)])"
| tick: "cpu < length qs \<Longrightarrow> callback_ok now callback \<Longrightarrow>
    Tick fuel callback now cpu (qs ! cpu) = Some (p, fired, q) \<Longrightarrow> timer_step qs (qs[cpu := q])"
| transition: "cpu < length qs \<Longrightarrow> other < length qs \<Longrightarrow> cpu \<noteq> other \<Longrightarrow>
    timer_id ` set (timer_list_m (qs ! other)) \<inter> timer_id ` set (timer_list_m (qs ! cpu)) = {} \<Longrightarrow>
    TransitionOffCpu (qs ! other) (qs ! cpu) = (source, q) \<Longrightarrow>
    timer_step qs (qs[other := source, cpu := q])"
| thaw: "cpu < length qs \<Longrightarrow> timer_step qs (qs[cpu := ThawPercpu (qs ! cpu)])"

definition queues_inv :: "TimerQueue list \<Rightarrow> bool" where
  "queues_inv qs \<longleftrightarrow> (\<forall>q\<in>set qs. tq_inv q)"

lemma queues_inv_update: "queues_inv qs \<Longrightarrow> tq_inv q \<Longrightarrow> queues_inv (qs[i := q])"
  by (auto simp: queues_inv_def dest!: set_update_subset_insert [THEN subsetD])

lemma queues_inv_nth: "queues_inv qs \<Longrightarrow> i < length qs \<Longrightarrow> tq_inv (qs ! i)"
  by (simp add: queues_inv_def)

lemma queues_inv_step: "timer_step qs qs' \<Longrightarrow> queues_inv qs \<Longrightarrow> queues_inv qs'"
proof (induction rule: timer_step.induct)
  case (set cpu qs d t qs')
  then have "\<not> in_queue (timer_id t) (qs ! cpu)" if "\<not> InContainer (timer_id t) qs"
    using that by (simp add: InContainer_def list_ex_iff)
  with set show ?case
    by (auto simp: Timer_Set_def queues_inv_nth tq_inv_Timer_Set_insert intro: queues_inv_update
        split: if_splits)
next
  case (cancel cpu qs t)
  then have "queues_inv (map (queue_remove (timer_id t)) qs)"
    by (simp add: queues_inv_def tq_inv_queue_remove)
  moreover from this cancel have "tq_inv (Cancel_head_update (map (queue_remove (timer_id t)) qs ! cpu))"
    by (intro tq_inv_Cancel_head_update queues_inv_nth) simp_all
  ultimately show ?case
    using cancel by (auto simp: Timer_Cancel_def Let_def intro: queues_inv_update)
next
  case (preempt cpu qs d)
  then show ?case by (simp add: queues_inv_nth queues_inv_update tq_inv_PreemptReset)
next
  case (tick cpu qs now callback fuel p fired q)
  then have "tq_wf (qs ! cpu)" using queues_inv_nth tq_inv_def by blast
  with tick show ?case by (intro queues_inv_update Tick_Some_inv)
next
  case (transition cpu qs other source q)
  then have "tq_inv source" "tq_inv q"
    using tq_inv_TransitionOffCpu [of "qs ! other" "qs ! cpu"] by (simp_all add: queues_inv_nth)
  with transition show ?case by (simp add: queues_inv_update)
next
  case (thaw cpu qs)
  then show ?case by (simp add: queues_inv_nth queues_inv_update tq_inv_ThawPercpu)
qed

text \<open>C8: No timer is forgotten. Whatever sequence of \<open>Timer::Set\<close>, \<open>Timer::Cancel\<close>, preemption
  resets, ticks, CPU hand-overs and thaws runs, on every CPU the queue is ordered by time, and
  if it holds a timer with a finite deadline, the platform timer of that CPU is programmed for
  that deadline or an earlier one.\<close>
theorem timers_always_armed:
  assumes "timer_step\<^sup>*\<^sup>* qs qs'" "queues_inv qs" "q \<in> set qs'" "t \<in> set (timer_list_m q)"
    "scheduled_time_m t < ZX_TIME_INFINITE"
  shows "by_time (timer_list_m q) \<and> (\<exists>d. platform_m q = Some d \<and> d \<le> scheduled_time_m t)"
proof -
  have "queues_inv qs'"
    using assms(1,2) by (induction rule: rtranclp_induct) (auto intro: queues_inv_step)
  then have inv: "tq_inv q" using assms(3) by (simp add: queues_inv_def)
  then have "next_timer_deadline_m q \<le> scheduled_time_m t" using assms(4) by (simp add: tq_inv_def)
  with inv assms(5) show ?thesis by (auto simp: tq_inv_def tq_wf_def)
qed

theorem timers_always_armed_witness:
  "let q = PreemptReset 40 example_queue
   in \<exists>d. platform_m q = Some d \<and> d \<le> scheduled_time_m (example_timer 1 60)"
proof -
  have inv: "queues_inv [example_queue]"
    by (simp add: queues_inv_def example_queue_def example_timer_def tq_inv_def tq_wf_def ZX_TIME_INFINITE_def)
  have step: "timer_step [example_queue] [PreemptReset 40 example_queue]"
    using timer_step.preempt [of 0 "[example_queue]" 40] by simp
  have mem: "example_timer 1 60 \<in> set (timer_list_m (PreemptReset 40 example_queue))"
    by (simp add: PreemptReset_def example_queue_def)
  show ?thesis
    using timers_always_armed [OF r_into_rtranclp [of timer_step, OF step] inv _ mem]
    by (simp add: Let_def example_timer_def ZX_TIME_INFINITE_def)
qed

end
