(* ===== verification/Timer_Dispatcher.thy ===== *)
theory Timer_Dispatcher
  imports Dispatcher Timer_Queue
begin

section \<open>TimerDispatcher\<close>

text \<open>
  Model of \<open>zircon/kernel/object/timer_dispatcher.cc\<close>. \<open>timer_m\<close> is the deadline under which the
  embedded \<open>Timer\<close> is queued (\<open>None\<close> when it is in no queue), \<open>timer_dpc_m\<close> says that the DPC has
  been queued and has not taken the lock yet, and \<open>ref_count_m\<close> is the reference count of the
  object. A panic or a failed \<open>ASSERT\<close> is the result \<open>None\<close>, among them the assertions of
  \<open>TimerSlack\<close> and \<open>Timer::Set\<close> that the slack is not negative. The operations hold the
  dispatcher's lock; the interrupt and the DPC are steps of their own, so every interleaving
  of the three contexts is a sequence of these functions. The \<open>Release\<close> at the end of
  \<open>OnTimerFired\<close> comes after the lock is dropped, but it is the last thing the DPC does with the
  object and its reference is counted nowhere else, so it is part of the same step.
\<close>

definition ZX_TIMER_SLACK_CENTER :: nat where [zx_consts]: "ZX_TIMER_SLACK_CENTER = 0"
definition ZX_TIMER_SLACK_EARLY :: nat where [zx_consts]: "ZX_TIMER_SLACK_EARLY = 1"
definition ZX_TIMER_SLACK_LATE :: nat where [zx_consts]: "ZX_TIMER_SLACK_LATE = 2"

record TimerDispatcher = dispatcher +
  options_m :: nat
  deadline_m :: zx_time
  slack_amount_m :: zx_duration
  cancel_pending_m :: bool
  timer_m :: "Deadline option"
  timer_dpc_m :: bool
  ref_count_m :: nat

definition TimerDispatcher_new :: "nat \<Rightarrow> zx_koid \<Rightarrow> TimerDispatcher" where
  "TimerDispatcher_new options koid =
     \<lparr>koid_m = koid, type_m = ZX_OBJ_TYPE_TIMER, default_rights_m = ZX_DEFAULT_TIMER_RIGHTS,
      extra_signals_m = 0, handle_count_m = 0, signals_m = 0, observers_m = [], calls_m = [],
      options_m = options, deadline_m = 0, slack_amount_m = 0, cancel_pending_m = False,
      timer_m = None, timer_dpc_m = False, ref_count_m = 1\<rparr>"

definition TimerDispatcher_Create ::
  "nat \<Rightarrow> bool \<Rightarrow> zx_koid \<Rightarrow> zx_status \<times> (TimerDispatcher \<times> zx_rights) option \<times> zx_koid" where
  "TimerDispatcher_Create options ac global_koid =
     (if options > ZX_TIMER_SLACK_LATE then (ZX_ERR_INVALID_ARGS, None, global_koid)
      else if options \<notin> {ZX_TIMER_SLACK_CENTER, ZX_TIMER_SLACK_EARLY, ZX_TIMER_SLACK_LATE}
      then (ZX_ERR_INVALID_ARGS, None, global_koid)
      else if \<not> ac then (ZX_ERR_NO_MEMORY, None, global_koid)
      else let (koid, global_koid) = GenerateKernelObjectId global_koid in
           (ZX_OK, Some (TimerDispatcher_new options koid, ZX_DEFAULT_TIMER_RIGHTS), global_koid))"

definition timer_slack_mode :: "nat \<Rightarrow> slack_mode option" where
  "timer_slack_mode options =
     (if options = ZX_TIMER_SLACK_CENTER then Some TIMER_SLACK_CENTER
      else if options = ZX_TIMER_SLACK_EARLY then Some TIMER_SLACK_EARLY
      else if options = ZX_TIMER_SLACK_LATE then Some TIMER_SLACK_LATE
      else None)"

definition SetTimerLocked :: "bool \<Rightarrow> TimerDispatcher \<Rightarrow> TimerDispatcher option" where
  "SetTimerLocked cancel_first d =
     (let d = (if cancel_first then d\<lparr>timer_m := None\<rparr> else d) in
      case timer_slack_mode (options_m d) of
        None \<Rightarrow> None
      | Some mode \<Rightarrow>
          if slack_amount_m d < 0 then None
          else if timer_m d \<noteq> None then None
          else Some (d\<lparr>timer_m := Some \<lparr>when_m = deadline_m d,
                 dslack_m = \<lparr>amount_m = slack_amount_m d, mode_m = mode\<rparr>\<rparr>\<rparr>))"

definition CancelTimerLocked :: "TimerDispatcher \<Rightarrow> (bool \<times> TimerDispatcher) option" where
  "CancelTimerLocked d =
     (let d = UpdateStateLocked ZX_OBJECT_SIGNALED 0 d in
      if deadline_m d = 0 then Some (False, d)
      else let d = d\<lparr>deadline_m := 0, slack_amount_m := 0\<rparr> in
      if cancel_pending_m d then Some (False, d)
      else let timer_canceled = timer_m d \<noteq> None; d = d\<lparr>timer_m := None\<rparr> in
      if timer_canceled
      then let d = d\<lparr>ref_count_m := ref_count_m d - 1\<rparr>
           in if ref_count_m d = 0 then None else Some (True, d)
      else Some (True, d\<lparr>cancel_pending_m := True\<rparr>))"

definition TimerDispatcher_on_zero_handles :: "TimerDispatcher \<Rightarrow> TimerDispatcher option" where
  "TimerDispatcher_on_zero_handles d =
     (case CancelTimerLocked d of
        None \<Rightarrow> None
      | Some (did_cancel, d) \<Rightarrow> Some (if did_cancel then d else d\<lparr>timer_m := None\<rparr>))"

definition TimerDispatcher_Set ::
  "zx_time \<Rightarrow> zx_time \<Rightarrow> zx_duration \<Rightarrow> TimerDispatcher \<Rightarrow> (zx_status \<times> TimerDispatcher) option" where
  "TimerDispatcher_Set current_time deadline slack_amount d =
     (case CancelTimerLocked d of
        None \<Rightarrow> None
      | Some (did_cancel, d) \<Rightarrow>
          if deadline = 0 \<or> deadline \<le> current_time
          then Some (ZX_OK, UpdateStateLocked 0 ZX_OBJECT_SIGNALED d)
          else let d = d\<lparr>deadline_m := deadline, slack_amount_m := slack_amount\<rparr> in
          if cancel_pending_m d then Some (ZX_OK, d)
          else let d = d\<lparr>ref_count_m := ref_count_m d + 1\<rparr> in
               map_option (\<lambda>d. (ZX_OK, d)) (SetTimerLocked (\<not> did_cancel) d))"

definition TimerDispatcher_Cancel :: "TimerDispatcher \<Rightarrow> (zx_status \<times> TimerDispatcher) option" where
  "TimerDispatcher_Cancel d = map_option (\<lambda>(_, d). (ZX_OK, d)) (CancelTimerLocked d)"

text \<open>The timer interrupt takes the timer off its queue and queues the DPC.\<close>

definition timer_irq_callback :: "TimerDispatcher \<Rightarrow> TimerDispatcher" where
  "timer_irq_callback d = d\<lparr>timer_m := None, timer_dpc_m := True\<rparr>"

text \<open>The DPC thread has dequeued the DPC. The first component: the object deletes itself.\<close>

definition OnTimerFired :: "TimerDispatcher \<Rightarrow> (bool \<times> TimerDispatcher) option" where
  "OnTimerFired d =
     (let d = d\<lparr>timer_dpc_m := False\<rparr>;
          release = (\<lambda>d. Some (ref_count_m d = 1, d\<lparr>ref_count_m := ref_count_m d - 1\<rparr>)) in
      if cancel_pending_m d
      then let d = d\<lparr>cancel_pending_m := False\<rparr> in
           if deadline_m d \<noteq> 0 then map_option (\<lambda>d. (False, d)) (SetTimerLocked True d)
           else release d
      else let d = UpdateStateLocked 0 ZX_OBJECT_SIGNALED d;
               d = d\<lparr>deadline_m := 0, slack_amount_m := 0\<rparr>
           in release d)"

definition TimerDispatcher_GetInfo :: "TimerDispatcher \<Rightarrow> nat \<times> zx_time \<times> zx_duration" where
  "TimerDispatcher_GetInfo d = (options_m d, deadline_m d, slack_amount_m d)"

subsection \<open>The state machine of timer, DPC and reference count\<close>

lemma UpdateStateLocked_timer_frame [simp]:
  "options_m (UpdateStateLocked c m d) = options_m d"
  "deadline_m (UpdateStateLocked c m d) = deadline_m d"
  "slack_amount_m (UpdateStateLocked c m d) = slack_amount_m d"
  "cancel_pending_m (UpdateStateLocked c m d) = cancel_pending_m d"
  "timer_m (UpdateStateLocked c m d) = timer_m d"
  "timer_dpc_m (UpdateStateLocked c m d) = timer_dpc_m d"
  "ref_count_m (UpdateStateLocked c m d) = ref_count_m d"
  by (simp_all add: UpdateStateLocked_eq Let_def)

text \<open>
  \<open>ext\<close> counts the references held by handles and by threads inside an operation. The timer
  and the DPC together hold one reference while one of them is pending; a pending
  cancellation means that the DPC is on its way; the armed timer carries the current
  deadline and slack, which is not negative.
\<close>

definition timer_inv :: "nat \<Rightarrow> TimerDispatcher \<Rightarrow> bool" where
  "timer_inv ext d \<longleftrightarrow>
     options_m d \<le> ZX_TIMER_SLACK_LATE \<and> 0 \<le> slack_amount_m d \<and>
     ref_count_m d = ext + (if timer_m d \<noteq> None \<or> timer_dpc_m d then 1 else 0) \<and>
     \<not> (timer_m d \<noteq> None \<and> timer_dpc_m d) \<and>
     (cancel_pending_m d \<longrightarrow> timer_dpc_m d) \<and>
     (deadline_m d = 0 \<longrightarrow> slack_amount_m d = 0) \<and>
     (\<not> cancel_pending_m d \<longrightarrow> (deadline_m d \<noteq> 0 \<longleftrightarrow> timer_m d \<noteq> None \<or> timer_dpc_m d)) \<and>
     (\<forall>t. timer_m d = Some t \<longrightarrow> when_m t = deadline_m d \<and> amount_m (dslack_m t) = slack_amount_m d)"

lemma timer_slack_mode_ok:
  "n \<le> ZX_TIMER_SLACK_LATE \<Longrightarrow> \<exists>mode. timer_slack_mode n = Some mode"
  by (auto simp: timer_slack_mode_def zx_consts)

lemma SetTimerLocked_ok:
  assumes "options_m d \<le> ZX_TIMER_SLACK_LATE" "0 \<le> slack_amount_m d" "cancel_first \<or> timer_m d = None"
  shows "\<exists>mode. SetTimerLocked cancel_first d =
           Some (d\<lparr>timer_m := Some \<lparr>when_m = deadline_m d,
             dslack_m = \<lparr>amount_m = slack_amount_m d, mode_m = mode\<rparr>\<rparr>\<rparr>)"
  using timer_slack_mode_ok [OF assms(1)] assms(2,3) by (auto simp: SetTimerLocked_def Let_def)

text \<open>A caller of \<open>CancelTimerLocked\<close> holds a reference, so the assertion on \<open>Release\<close> holds.\<close>

lemma CancelTimerLocked_ok:
  assumes "timer_inv ext d" "0 < ext"
  obtains did_cancel d' where "CancelTimerLocked d = Some (did_cancel, d')" "timer_inv ext d'"
    "deadline_m d' = 0" "timer_m d' = None" "signals_m d' = signals_m d AND NOT ZX_OBJECT_SIGNALED"
    "cancel_pending_m d' = timer_dpc_m d'"
  using assms
  by (cases "deadline_m d = 0"; cases "cancel_pending_m d"; cases "timer_m d")
    (auto simp: CancelTimerLocked_def timer_inv_def Let_def)

lemma Set_ok:
  assumes "timer_inv ext d" "0 < ext" "0 \<le> slack"
  obtains d' where "TimerDispatcher_Set now deadline slack d = Some (ZX_OK, d')" "timer_inv ext d'"
    "if deadline = 0 \<or> deadline \<le> now
     then signals_m d' AND ZX_OBJECT_SIGNALED \<noteq> 0 \<and> deadline_m d' = 0
     else signals_m d' AND ZX_OBJECT_SIGNALED = 0 \<and> deadline_m d' = deadline \<and> slack_amount_m d' = slack"
proof -
  obtain did_cancel d1 where cancel: "CancelTimerLocked d = Some (did_cancel, d1)" "timer_inv ext d1"
    "deadline_m d1 = 0" "timer_m d1 = None" "signals_m d1 = signals_m d AND NOT ZX_OBJECT_SIGNALED"
    "cancel_pending_m d1 = timer_dpc_m d1"
    using assms(1,2) by (rule CancelTimerLocked_ok)
  let ?d2 = "d1\<lparr>deadline_m := deadline, slack_amount_m := slack\<rparr>"
  have "options_m (?d2\<lparr>ref_count_m := ref_count_m ?d2 + 1\<rparr>) \<le> ZX_TIMER_SLACK_LATE"
    "0 \<le> slack_amount_m (?d2\<lparr>ref_count_m := ref_count_m ?d2 + 1\<rparr>)"
    using cancel(2) assms(3) by (simp_all add: timer_inv_def)
  from SetTimerLocked_ok [OF this, of "\<not> did_cancel"] cancel(4) obtain mode where
    armed: "SetTimerLocked (\<not> did_cancel) (?d2\<lparr>ref_count_m := ref_count_m ?d2 + 1\<rparr>) =
      Some (?d2\<lparr>ref_count_m := ref_count_m ?d2 + 1, timer_m := Some \<lparr>when_m = deadline,
        dslack_m = \<lparr>amount_m = slack, mode_m = mode\<rparr>\<rparr>\<rparr>)" by auto
  have masked: "signals_m d1 AND ZX_OBJECT_SIGNALED = 0"
    unfolding cancel(5) by (simp add: and.assoc)
  consider "deadline = 0 \<or> deadline \<le> now"
    | "\<not> (deadline = 0 \<or> deadline \<le> now)" "cancel_pending_m d1"
    | "\<not> (deadline = 0 \<or> deadline \<le> now)" "\<not> cancel_pending_m d1" by blast
  then show ?thesis
  proof cases
    case 1
    with cancel show ?thesis
      by (intro that [of "UpdateStateLocked 0 ZX_OBJECT_SIGNALED d1"])
        (auto simp: TimerDispatcher_Set_def timer_inv_def)
  next
    case 2
    with cancel masked assms(3) show ?thesis
      by (intro that [of ?d2]) (auto simp: TimerDispatcher_Set_def timer_inv_def Let_def)
  next
    case 3
    with cancel masked armed assms(3) show ?thesis
      by (intro that [of "?d2\<lparr>ref_count_m := ref_count_m ?d2 + 1, timer_m := Some \<lparr>when_m = deadline,
            dslack_m = \<lparr>amount_m = slack, mode_m = mode\<rparr>\<rparr>\<rparr>"])
        (auto simp: TimerDispatcher_Set_def timer_inv_def Let_def)
  qed
qed

lemma OnTimerFired_ok:
  assumes "timer_inv ext d" "timer_dpc_m d"
  obtains deleted d' where "OnTimerFired d = Some (deleted, d')" "timer_inv ext d'"
    "deleted \<longleftrightarrow> ref_count_m d' = 0" "\<not> timer_dpc_m d'" "\<not> cancel_pending_m d'"
    "if cancel_pending_m d then signals_m d' = signals_m d \<and> deadline_m d' = deadline_m d
     else signals_m d' AND ZX_OBJECT_SIGNALED \<noteq> 0 \<and> deadline_m d' = 0"
proof (cases "cancel_pending_m d \<and> deadline_m d \<noteq> 0")
  case True
  let ?d = "d\<lparr>timer_dpc_m := False, cancel_pending_m := False\<rparr>"
  have "options_m ?d \<le> ZX_TIMER_SLACK_LATE" "0 \<le> slack_amount_m ?d"
    using assms(1) by (simp_all add: timer_inv_def)
  from SetTimerLocked_ok [OF this, of True] obtain e where
    e: "SetTimerLocked True ?d = Some e" "\<exists>mode. e = ?d\<lparr>timer_m := Some \<lparr>when_m = deadline_m d,
        dslack_m = \<lparr>amount_m = slack_amount_m d, mode_m = mode\<rparr>\<rparr>\<rparr>" by auto
  show ?thesis
  proof (rule that [of False e])
    show "OnTimerFired d = Some (False, e)" using True e(1) by (simp add: OnTimerFired_def Let_def)
    show "timer_inv ext e" using True assms e(2) by (auto simp: timer_inv_def)
  qed (use True assms e(2) in \<open>auto simp: timer_inv_def\<close>)
next
  case False
  let ?d = "if cancel_pending_m d then d\<lparr>timer_dpc_m := False, cancel_pending_m := False\<rparr>
    else (UpdateStateLocked 0 ZX_OBJECT_SIGNALED (d\<lparr>timer_dpc_m := False\<rparr>))\<lparr>deadline_m := 0, slack_amount_m := 0\<rparr>"
  let ?e = "?d\<lparr>ref_count_m := ref_count_m d - 1\<rparr>"
  show ?thesis
  proof (rule that [of "ref_count_m d = 1" ?e])
    show "OnTimerFired d = Some (ref_count_m d = 1, ?e)" using False by (simp add: OnTimerFired_def Let_def)
    show "timer_inv ext ?e" using False assms by (auto simp: timer_inv_def)
  qed (use False assms in \<open>auto simp: timer_inv_def\<close>)
qed

lemma irq_ok: "timer_inv ext d \<Longrightarrow> timer_m d \<noteq> None \<Longrightarrow> timer_inv ext (timer_irq_callback d)"
  by (auto simp: timer_irq_callback_def timer_inv_def)

definition example_armed_timer :: TimerDispatcher where
  "example_armed_timer = (TimerDispatcher_new 0 1024)\<lparr>deadline_m := 50, slack_amount_m := 0,
     timer_m := Some \<lparr>when_m = 50, dslack_m = \<lparr>amount_m = 0, mode_m = TIMER_SLACK_CENTER\<rparr>\<rparr>,
     ref_count_m := 2\<rparr>"

lemma timer_inv_example: "timer_inv 1 example_armed_timer"
  by (simp add: timer_inv_def example_armed_timer_def TimerDispatcher_new_def zx_consts)

subsection \<open>What a client observes\<close>

text \<open>The next step of interrupt and DPC: a queued DPC runs, otherwise an armed timer expires.\<close>

definition timer_event :: "TimerDispatcher \<Rightarrow> TimerDispatcher" where
  "timer_event d =
     (if timer_dpc_m d then (case OnTimerFired d of None \<Rightarrow> d | Some (_, d') \<Rightarrow> d')
      else if timer_m d \<noteq> None then timer_irq_callback d else d)"

definition timer_quiet :: "nat \<Rightarrow> TimerDispatcher \<Rightarrow> bool" where
  "timer_quiet ext d \<longleftrightarrow> timer_inv ext d \<and> deadline_m d = 0 \<and> timer_m d = None \<and>
     cancel_pending_m d = timer_dpc_m d \<and> signals_m d AND ZX_OBJECT_SIGNALED = 0"

lemma timer_quiet_event: "timer_quiet ext d \<Longrightarrow> timer_quiet ext (timer_event d)"
  by (auto simp: timer_quiet_def timer_event_def OnTimerFired_def timer_inv_def Let_def)

lemma timer_quiet_events: "timer_quiet ext d \<Longrightarrow> timer_quiet ext ((timer_event ^^ n) d)"
  by (induction n) (auto simp: timer_quiet_event)

text \<open>C17: A cancelled timer stays silent: after \<open>Cancel\<close> has returned, no later interrupt or DPC,
  not even one that was already on its way, sets \<open>ZX_TIMER_SIGNALED\<close>.\<close>
theorem timer_cancel_is_final:
  assumes "timer_inv ext d" "0 < ext" "TimerDispatcher_Cancel d = Some (st, d')"
  shows "signals_m ((timer_event ^^ n) d') AND ZX_OBJECT_SIGNALED = 0 \<and>
         deadline_m ((timer_event ^^ n) d') = 0"
proof -
  obtain did_cancel d1 where c: "CancelTimerLocked d = Some (did_cancel, d1)" "timer_inv ext d1"
    "deadline_m d1 = 0" "timer_m d1 = None" "signals_m d1 = signals_m d AND NOT ZX_OBJECT_SIGNALED"
    "cancel_pending_m d1 = timer_dpc_m d1"
    using assms(1,2) by (rule CancelTimerLocked_ok)
  then have "timer_quiet ext d'"
    using assms(3) by (simp add: TimerDispatcher_Cancel_def timer_quiet_def and.assoc)
  from timer_quiet_events [OF this, of n] show ?thesis by (simp add: timer_quiet_def)
qed

theorem timer_cancel_is_final_witness:
  "\<exists>d'. TimerDispatcher_Cancel (timer_irq_callback example_armed_timer) = Some (ZX_OK, d') \<and>
     timer_dpc_m d' \<and> signals_m ((timer_event ^^ 2) d') AND ZX_OBJECT_SIGNALED = 0"
proof -
  let ?d = "timer_irq_callback example_armed_timer"
  have inv: "timer_inv 1 ?d"
    by (rule irq_ok [OF timer_inv_example]) (simp add: example_armed_timer_def TimerDispatcher_new_def)
  have "\<exists>d'. TimerDispatcher_Cancel ?d = Some (ZX_OK, d') \<and> timer_dpc_m d'"
    by (simp add: TimerDispatcher_Cancel_def CancelTimerLocked_def Let_def timer_irq_callback_def
        example_armed_timer_def TimerDispatcher_new_def)
  then obtain d' where d': "TimerDispatcher_Cancel ?d = Some (ZX_OK, d')" "timer_dpc_m d'" by blast
  from timer_cancel_is_final [OF inv _ d'(1), of 2] d' show ?thesis by auto
qed

lemma timer_event_dpc:
  assumes "timer_inv ext d" "timer_dpc_m d" "\<not> cancel_pending_m d"
  shows "signals_m (timer_event d) AND ZX_OBJECT_SIGNALED \<noteq> 0"
proof -
  obtain deleted d' where "OnTimerFired d = Some (deleted, d')"
    "if cancel_pending_m d then signals_m d' = signals_m d \<and> deadline_m d' = deadline_m d
     else signals_m d' AND ZX_OBJECT_SIGNALED \<noteq> 0 \<and> deadline_m d' = 0"
    using assms(1,2) by (rule OnTimerFired_ok)
  with assms(2,3) show ?thesis by (simp add: timer_event_def)
qed

lemma timer_event_irq:
  assumes "timer_inv ext d" "timer_m d \<noteq> None"
  shows "signals_m ((timer_event ^^ 2) d) AND ZX_OBJECT_SIGNALED \<noteq> 0"
proof -
  have "timer_event d = timer_irq_callback d" using assms by (auto simp: timer_event_def timer_inv_def)
  moreover have "\<not> cancel_pending_m (timer_irq_callback d)" "timer_dpc_m (timer_irq_callback d)"
    using assms by (auto simp: timer_inv_def timer_irq_callback_def)
  ultimately show ?thesis
    using timer_event_dpc [OF irq_ok [OF assms]] by (simp add: numeral_2_eq_2)
qed

text \<open>C25: A timer that was set fires: from the state \<open>Set\<close> with a future deadline and a slack that
  is not negative (as \<open>sys_timer_set\<close> passes it) returns, even if
  the DPC of an earlier, cancelled deadline is still pending, at most three interrupt and DPC
  steps lead to \<open>ZX_TIMER_SIGNALED\<close>.\<close>
theorem timer_set_fires:
  assumes "timer_inv ext d" "0 < ext" "now < deadline" "deadline \<noteq> 0" "0 \<le> slack"
    "TimerDispatcher_Set now deadline slack d = Some (st, d')"
  shows "deadline_m d' = deadline \<and> signals_m d' AND ZX_OBJECT_SIGNALED = 0 \<and>
         (\<exists>n\<le>3. signals_m ((timer_event ^^ n) d') AND ZX_OBJECT_SIGNALED \<noteq> 0)"
proof -
  from Set_ok [OF assms(1,2,5), of now deadline] assms(3,4,6)
  have d': "timer_inv ext d'" "deadline_m d' = deadline" "signals_m d' AND ZX_OBJECT_SIGNALED = 0"
    by auto
  have "\<exists>n\<le>3. signals_m ((timer_event ^^ n) d') AND ZX_OBJECT_SIGNALED \<noteq> 0"
  proof (cases "cancel_pending_m d'")
    case True
    with d'(1) have dpc: "timer_dpc_m d'" by (simp add: timer_inv_def)
    obtain deleted e where e: "OnTimerFired d' = Some (deleted, e)" "timer_inv ext e"
      "\<not> timer_dpc_m e" "\<not> cancel_pending_m e"
      "if cancel_pending_m d' then signals_m e = signals_m d' \<and> deadline_m e = deadline_m d'
       else signals_m e AND ZX_OBJECT_SIGNALED \<noteq> 0 \<and> deadline_m e = 0"
      using d'(1) dpc by (rule OnTimerFired_ok)
    with True d'(2) assms(4) have "timer_m e \<noteq> None" by (simp add: timer_inv_def)
    moreover have "timer_event d' = e" using e(1) dpc by (simp add: timer_event_def)
    ultimately have "signals_m ((timer_event ^^ 3) d') AND ZX_OBJECT_SIGNALED \<noteq> 0"
      using timer_event_irq [OF e(2)] by (simp add: numeral_3_eq_3 numeral_2_eq_2)
    then show ?thesis by blast
  next
    case False
    with d' assms(4) consider "timer_m d' \<noteq> None" | "timer_dpc_m d'" by (auto simp: timer_inv_def)
    then show ?thesis
    proof cases
      case 1
      then show ?thesis using timer_event_irq [OF d'(1)] by (intro exI [of _ 2]) simp
    next
      case 2
      then show ?thesis using timer_event_dpc [OF d'(1) 2 False] by (intro exI [of _ 1]) simp
    qed
  qed
  with d' show ?thesis by blast
qed

theorem timer_set_fires_witness:
  "\<exists>d'. TimerDispatcher_Set 10 90 0 (timer_irq_callback example_armed_timer) = Some (ZX_OK, d') \<and>
     cancel_pending_m d' \<and> deadline_m d' = 90 \<and>
     (\<exists>n\<le>3. signals_m ((timer_event ^^ n) d') AND ZX_OBJECT_SIGNALED \<noteq> 0)"
proof -
  let ?d = "timer_irq_callback example_armed_timer"
  have inv: "timer_inv 1 ?d"
    by (rule irq_ok [OF timer_inv_example]) (simp add: example_armed_timer_def TimerDispatcher_new_def)
  have "\<exists>d'. TimerDispatcher_Set 10 90 0 ?d = Some (ZX_OK, d') \<and> cancel_pending_m d'"
    by (simp add: TimerDispatcher_Set_def CancelTimerLocked_def Let_def timer_irq_callback_def
        example_armed_timer_def TimerDispatcher_new_def)
  then obtain d' where d': "TimerDispatcher_Set 10 90 0 ?d = Some (ZX_OK, d')" "cancel_pending_m d'" by blast
  from timer_set_fires [OF inv _ _ _ _ d'(1)] d' show ?thesis by auto
qed

text \<open>The object dies exactly once and with nothing pending. When the last handle is closed
  and its reference dropped, either no reference is left, or the only one is the DPC's, and
  \<open>OnTimerFired\<close> deletes the object; in both cases the destructor's assertions on \<open>deadline_\<close>
  and \<open>slack_amount_\<close> hold and the timer is in no queue.\<close>
theorem timer_dies_once:
  assumes "timer_inv 1 d" "TimerDispatcher_on_zero_handles d = Some d1"
  shows "let d2 = d1\<lparr>ref_count_m := ref_count_m d1 - 1\<rparr> in
    deadline_m d2 = 0 \<and> slack_amount_m d2 = 0 \<and> timer_m d2 = None \<and>
    (if ref_count_m d2 = 0 then \<not> timer_dpc_m d2
     else timer_dpc_m d2 \<and>
       (\<exists>d3. OnTimerFired d2 = Some (True, d3) \<and> deadline_m d3 = 0 \<and> slack_amount_m d3 = 0 \<and>
             timer_m d3 = None \<and> \<not> timer_dpc_m d3))"
proof -
  obtain did_cancel e where c: "CancelTimerLocked d = Some (did_cancel, e)" "timer_inv 1 e"
    "deadline_m e = 0" "timer_m e = None" "cancel_pending_m e = timer_dpc_m e"
    using CancelTimerLocked_ok [OF assms(1)] by (metis zero_less_one)
  with assms(2) have "d1 = e" by (auto simp: TimerDispatcher_on_zero_handles_def split: if_splits)
  with c show ?thesis
    by (cases "timer_dpc_m e") (simp_all add: timer_inv_def OnTimerFired_def Let_def)
qed

theorem timer_dies_once_witness:
  "\<exists>d1. TimerDispatcher_on_zero_handles (timer_irq_callback example_armed_timer) = Some d1 \<and>
     ref_count_m d1 = 2 \<and>
     (\<exists>d3. OnTimerFired (d1\<lparr>ref_count_m := ref_count_m d1 - 1\<rparr>) = Some (True, d3))"
proof -
  let ?d = "timer_irq_callback example_armed_timer"
  have inv: "timer_inv 1 ?d"
    by (rule irq_ok [OF timer_inv_example]) (simp add: example_armed_timer_def TimerDispatcher_new_def)
  have "\<exists>d1. TimerDispatcher_on_zero_handles ?d = Some d1 \<and> ref_count_m d1 = 2"
    by (simp add: TimerDispatcher_on_zero_handles_def CancelTimerLocked_def Let_def
        timer_irq_callback_def example_armed_timer_def TimerDispatcher_new_def)
  then obtain d1 where "TimerDispatcher_on_zero_handles ?d = Some d1" "ref_count_m d1 = 2" by blast
  with timer_dies_once [OF inv this(1)] show ?thesis by (auto simp: Let_def)
qed

end
