(* ===== verification/Job_Policy.thy ===== *)
theory Job_Policy
  imports Timer_Queue
begin

section \<open>JobPolicy: the packed policy of a job\<close>

text \<open>
  Model of \<open>zircon/kernel/object/job_policy.cc\<close>, of the bit fields of \<open>fbl/bits.h\<close> it packs
  its conditions into, and of the policy setters of \<open>job_dispatcher.cc\<close>. The policy is one
  64-bit word; a condition has a field of three bits for its action and the bit above it for
  the override. \<open>BitFieldMember\<close> assigns without masking the new value, as a release build
  does. Conditions, actions and flags are the 32-bit words the system call passes in.
\<close>

type_synonym uint32 = "32 word"
type_synonym uint64 = "64 word"

definition bitfield_get :: "nat \<Rightarrow> nat \<Rightarrow> uint64 \<Rightarrow> uint64" where
  "bitfield_get off cnt v = drop_bit off v AND mask cnt"

definition bitfield_set :: "nat \<Rightarrow> nat \<Rightarrow> uint64 \<Rightarrow> uint64 \<Rightarrow> uint64" where
  "bitfield_set off cnt new_value v = (v AND NOT (push_bit off (mask cnt))) OR push_bit off new_value"

definition ZX_JOB_POL_RELATIVE :: uint32 where [zx_consts]: "ZX_JOB_POL_RELATIVE = 0"
definition ZX_JOB_POL_ABSOLUTE :: uint32 where [zx_consts]: "ZX_JOB_POL_ABSOLUTE = 1"

definition ZX_POL_BAD_HANDLE :: uint32 where [zx_consts]: "ZX_POL_BAD_HANDLE = 0"
definition ZX_POL_WRONG_OBJECT :: uint32 where [zx_consts]: "ZX_POL_WRONG_OBJECT = 1"
definition ZX_POL_VMAR_WX :: uint32 where [zx_consts]: "ZX_POL_VMAR_WX = 2"
definition ZX_POL_NEW_ANY :: uint32 where [zx_consts]: "ZX_POL_NEW_ANY = 3"
definition ZX_POL_NEW_VMO :: uint32 where [zx_consts]: "ZX_POL_NEW_VMO = 4"
definition ZX_POL_NEW_CHANNEL :: uint32 where [zx_consts]: "ZX_POL_NEW_CHANNEL = 5"
definition ZX_POL_NEW_EVENT :: uint32 where [zx_consts]: "ZX_POL_NEW_EVENT = 6"
definition ZX_POL_NEW_EVENTPAIR :: uint32 where [zx_consts]: "ZX_POL_NEW_EVENTPAIR = 7"
definition ZX_POL_NEW_PORT :: uint32 where [zx_consts]: "ZX_POL_NEW_PORT = 8"
definition ZX_POL_NEW_SOCKET :: uint32 where [zx_consts]: "ZX_POL_NEW_SOCKET = 9"
definition ZX_POL_NEW_FIFO :: uint32 where [zx_consts]: "ZX_POL_NEW_FIFO = 10"
definition ZX_POL_NEW_TIMER :: uint32 where [zx_consts]: "ZX_POL_NEW_TIMER = 11"
definition ZX_POL_NEW_PROCESS :: uint32 where [zx_consts]: "ZX_POL_NEW_PROCESS = 12"
definition ZX_POL_NEW_PROFILE :: uint32 where [zx_consts]: "ZX_POL_NEW_PROFILE = 13"
definition ZX_POL_AMBIENT_MARK_VMO_EXEC :: uint32 where [zx_consts]: "ZX_POL_AMBIENT_MARK_VMO_EXEC = 14"
definition ZX_POL_MAX :: nat where [zx_consts]: "ZX_POL_MAX = 15"

definition ZX_POL_ACTION_ALLOW :: uint32 where [zx_consts]: "ZX_POL_ACTION_ALLOW = 0"
definition ZX_POL_ACTION_DENY :: uint32 where [zx_consts]: "ZX_POL_ACTION_DENY = 1"
definition ZX_POL_ACTION_KILL :: uint32 where [zx_consts]: "ZX_POL_ACTION_KILL = 4"
definition ZX_POL_ACTION_MAX :: uint32 where [zx_consts]: "ZX_POL_ACTION_MAX = 5"
definition ZX_POL_OVERRIDE_ALLOW :: uint32 where [zx_consts]: "ZX_POL_OVERRIDE_ALLOW = 0"
definition ZX_POL_OVERRIDE_DENY :: uint32 where [zx_consts]: "ZX_POL_OVERRIDE_DENY = 1"

definition kNewObjectPolicies :: "uint32 list" where
  "kNewObjectPolicies =
     [ZX_POL_NEW_VMO, ZX_POL_NEW_CHANNEL, ZX_POL_NEW_EVENT, ZX_POL_NEW_EVENTPAIR,
      ZX_POL_NEW_PORT, ZX_POL_NEW_SOCKET, ZX_POL_NEW_FIFO, ZX_POL_NEW_TIMER,
      ZX_POL_NEW_PROCESS, ZX_POL_NEW_PROFILE]"

text \<open>The offsets of the action fields of \<open>JobPolicyBits\<close>; the override bit is three above.\<close>

definition JobPolicyBits :: "(uint32 \<times> nat) list" where
  "JobPolicyBits =
     [(ZX_POL_BAD_HANDLE, 0), (ZX_POL_WRONG_OBJECT, 4), (ZX_POL_VMAR_WX, 8), (ZX_POL_NEW_VMO, 12),
      (ZX_POL_NEW_CHANNEL, 16), (ZX_POL_NEW_EVENT, 20), (ZX_POL_NEW_EVENTPAIR, 24),
      (ZX_POL_NEW_PORT, 28), (ZX_POL_NEW_SOCKET, 32), (ZX_POL_NEW_FIFO, 36),
      (ZX_POL_NEW_TIMER, 40), (ZX_POL_NEW_PROCESS, 44), (ZX_POL_NEW_PROFILE, 48),
      (ZX_POL_AMBIENT_MARK_VMO_EXEC, 52)]"

definition FieldSelector :: "uint32 \<Rightarrow> nat option" where
  "FieldSelector condition = map_of JobPolicyBits condition"

definition AddPartial ::
  "uint32 \<Rightarrow> uint32 \<Rightarrow> uint32 \<Rightarrow> uint32 \<Rightarrow> uint64 \<Rightarrow> zx_status \<times> uint64" where
  "AddPartial mode condition action ovr bits =
     (if action \<ge> ZX_POL_ACTION_MAX then (ZX_ERR_NOT_SUPPORTED, bits)
      else if ovr > ZX_POL_OVERRIDE_DENY then (ZX_ERR_INVALID_ARGS, bits)
      else case FieldSelector condition of
        None \<Rightarrow> (ZX_ERR_INVALID_ARGS, bits)
      | Some off \<Rightarrow>
          if bitfield_get (off + 3) 1 bits = ucast ZX_POL_OVERRIDE_ALLOW
          then (ZX_OK, bitfield_set (off + 3) 1 (ucast ovr) (bitfield_set off 3 (ucast action) bits))
          else if bitfield_get off 3 bits = ucast action \<and> ovr = ZX_POL_OVERRIDE_DENY
          then (ZX_OK, bits)
          else (if mode = ZX_JOB_POL_ABSOLUTE then ZX_ERR_ALREADY_EXISTS else ZX_OK, bits))"

definition SetOverride :: "uint64 \<Rightarrow> uint32 \<Rightarrow> uint32 \<Rightarrow> zx_status \<times> uint64" where
  "SetOverride policy condition ovr =
     (case FieldSelector condition of
        None \<Rightarrow> (ZX_ERR_INVALID_ARGS, policy)
      | Some off \<Rightarrow> (ZX_OK, bitfield_set (off + 3) 1 (ucast ovr) policy))"

definition GetAction :: "uint64 \<Rightarrow> uint32 \<Rightarrow> uint64" where
  "GetAction policy condition =
     (case FieldSelector condition of
        None \<Rightarrow> ucast ZX_POL_ACTION_DENY
      | Some off \<Rightarrow> bitfield_get off 3 policy)"

definition GetOverride :: "uint64 \<Rightarrow> uint32 \<Rightarrow> uint64" where
  "GetOverride policy condition =
     (case FieldSelector condition of
        None \<Rightarrow> ucast ZX_POL_OVERRIDE_DENY
      | Some off \<Rightarrow> bitfield_get (off + 3) 1 policy)"

subsection \<open>The policy object\<close>

record zx_policy_basic_v2 =
  pol_condition :: uint32
  pol_action :: uint32
  pol_flags :: uint32

record JobPolicy =
  cookie_m :: uint64
  policy_slack_m :: TimerSlack

definition TimerSlack_none :: TimerSlack where
  "TimerSlack_none = \<lparr>amount_m = 0, mode_m = TIMER_SLACK_CENTER\<rparr>"

definition CreateRootPolicy :: JobPolicy where
  "CreateRootPolicy = \<lparr>cookie_m = 0, policy_slack_m = TimerSlack_none\<rparr>"

text \<open>The inner loops: stop at the first status that is not \<open>ZX_OK\<close>.\<close>

fun AddPartial_all ::
  "uint32 \<Rightarrow> uint32 list \<Rightarrow> uint32 \<Rightarrow> uint32 \<Rightarrow> uint64 \<Rightarrow> zx_status \<times> uint64" where
  "AddPartial_all mode [] action ovr bits = (ZX_OK, bits)"
| "AddPartial_all mode (cond # conds) action ovr bits =
     (let (res, bits) = AddPartial mode cond action ovr bits in
      if res \<noteq> ZX_OK then (res, bits) else AddPartial_all mode conds action ovr bits)"

fun SetOverride_all :: "uint32 list \<Rightarrow> uint32 \<Rightarrow> uint64 \<Rightarrow> zx_status \<times> uint64" where
  "SetOverride_all [] ovr bits = (ZX_OK, bits)"
| "SetOverride_all (cond # conds) ovr bits =
     (let (res, bits) = SetOverride bits cond ovr in
      if res \<noteq> ZX_OK then (res, bits) else SetOverride_all conds ovr bits)"

text \<open>The outer loop, with \<open>new_any_override\<close> as an option for \<open>has_new_any\<close>.\<close>

fun AddBasicPolicy_loop ::
  "uint32 \<Rightarrow> zx_policy_basic_v2 list \<Rightarrow> uint32 option \<Rightarrow> uint64 \<Rightarrow> zx_status \<times> uint32 option \<times> uint64" where
  "AddBasicPolicy_loop mode [] new_any bits = (ZX_OK, new_any, bits)"
| "AddBasicPolicy_loop mode (entry # rest) new_any bits =
     (if pol_condition entry = ZX_POL_NEW_ANY
      then let (res, bits) =
             AddPartial_all mode kNewObjectPolicies (pol_action entry) ZX_POL_OVERRIDE_ALLOW bits in
           if res \<noteq> ZX_OK then (res, new_any, bits)
           else AddBasicPolicy_loop mode rest (Some (pol_flags entry)) bits
      else let (res, bits) =
             AddPartial mode (pol_condition entry) (pol_action entry) (pol_flags entry) bits in
           if res \<noteq> ZX_OK then (res, new_any, bits)
           else AddBasicPolicy_loop mode rest new_any bits)"

definition AddBasicPolicy ::
  "uint32 \<Rightarrow> zx_policy_basic_v2 list \<Rightarrow> JobPolicy \<Rightarrow> zx_status \<times> JobPolicy" where
  "AddBasicPolicy mode policy_input p =
     (if length policy_input > ZX_POL_MAX then (ZX_ERR_OUT_OF_RANGE, p)
      else let (res, new_any, pol_new) = AddBasicPolicy_loop mode policy_input None (cookie_m p) in
      if res \<noteq> ZX_OK then (res, p)
      else case new_any of
        None \<Rightarrow> (ZX_OK, p\<lparr>cookie_m := pol_new\<rparr>)
      | Some ovr \<Rightarrow>
          let (res, pol_new) = SetOverride_all kNewObjectPolicies ovr pol_new in
          if res \<noteq> ZX_OK then (res, p) else (ZX_OK, p\<lparr>cookie_m := pol_new\<rparr>))"

definition QueryBasicPolicy :: "uint32 \<Rightarrow> JobPolicy \<Rightarrow> uint32" where
  "QueryBasicPolicy condition p = ucast (GetAction (cookie_m p) condition)"

definition QueryBasicPolicyOverride :: "uint32 \<Rightarrow> JobPolicy \<Rightarrow> uint32" where
  "QueryBasicPolicyOverride condition p = ucast (GetOverride (cookie_m p) condition)"

definition SetTimerSlack :: "TimerSlack \<Rightarrow> JobPolicy \<Rightarrow> JobPolicy" where
  "SetTimerSlack sl p = p\<lparr>policy_slack_m := sl\<rparr>"

subsection \<open>The setters of JobDispatcher\<close>

text \<open>\<open>CanSetPolicy\<close>: the job has neither processes nor child jobs.\<close>

record zx_policy_basic_v1 =
  pol1_condition :: uint32
  pol1_policy :: uint32

record zx_policy_timer_slack =
  min_slack :: zx_duration
  default_mode :: nat

definition CanSetPolicy :: "nat \<Rightarrow> nat \<Rightarrow> bool" where
  "CanSetPolicy procs jobs \<longleftrightarrow> procs = 0 \<and> jobs = 0"

definition SetBasicPolicy_v2 ::
  "nat \<Rightarrow> nat \<Rightarrow> uint32 \<Rightarrow> zx_policy_basic_v2 list \<Rightarrow> JobPolicy \<Rightarrow> zx_status \<times> JobPolicy" where
  "SetBasicPolicy_v2 procs jobs mode in_policy p =
     (if \<not> CanSetPolicy procs jobs then (ZX_ERR_BAD_STATE, p) else AddBasicPolicy mode in_policy p)"

definition SetBasicPolicy_v1 ::
  "bool \<Rightarrow> nat \<Rightarrow> nat \<Rightarrow> uint32 \<Rightarrow> zx_policy_basic_v1 list \<Rightarrow> JobPolicy \<Rightarrow> zx_status \<times> JobPolicy" where
  "SetBasicPolicy_v1 ac procs jobs mode in_policy p =
     (if \<not> ac then (ZX_ERR_NO_MEMORY, p)
      else SetBasicPolicy_v2 procs jobs mode
             (map (\<lambda>e. \<lparr>pol_condition = pol1_condition e, pol_action = pol1_policy e,
                        pol_flags = ZX_POL_OVERRIDE_DENY\<rparr>) in_policy) p)"

definition SetTimerSlackPolicy ::
  "nat \<Rightarrow> nat \<Rightarrow> zx_policy_timer_slack \<Rightarrow> JobPolicy \<Rightarrow> zx_status \<times> JobPolicy" where
  "SetTimerSlackPolicy procs jobs policy p =
     (if \<not> CanSetPolicy procs jobs then (ZX_ERR_BAD_STATE, p)
      else if min_slack policy < 0 then (ZX_ERR_INVALID_ARGS, p)
      else case (if default_mode policy = 0 then Some TIMER_SLACK_CENTER
                 else if default_mode policy = 1 then Some TIMER_SLACK_EARLY
                 else if default_mode policy = 2 then Some TIMER_SLACK_LATE
                 else None) of
        None \<Rightarrow> (ZX_ERR_INVALID_ARGS, p)
      | Some new_mode \<Rightarrow>
          let new_amount = max (amount_m (policy_slack_m p)) (min_slack policy)
          in (ZX_OK, SetTimerSlack \<lparr>amount_m = new_amount, mode_m = new_mode\<rparr> p))"

subsection \<open>Bit fields\<close>

lemma bit_bitfield_get: "bit (bitfield_get off cnt v) n \<longleftrightarrow> n < cnt \<and> bit v (off + n)"
  by (auto simp: bitfield_get_def bit_simps dest: bit_imp_le_length)

lemma bitfield_get_set_same:
  assumes "take_bit cnt new = new" "off + cnt \<le> 64"
  shows "bitfield_get off cnt (bitfield_set off cnt new v) = new"
proof (rule bit_eqI)
  fix n
  from assms(1) have "bit new n \<Longrightarrow> n < cnt" by (metis bit_take_bit_iff)
  then show "bit (bitfield_get off cnt (bitfield_set off cnt new v)) n = bit new n"
    using assms(2) by (auto simp: bit_bitfield_get bitfield_set_def bit_simps)
qed

lemma bitfield_get_set_other:
  assumes "take_bit cnt new = new" "off' + cnt' \<le> off \<or> off + cnt \<le> off'"
  shows "bitfield_get off' cnt' (bitfield_set off cnt new v) = bitfield_get off' cnt' v"
proof (rule bit_eqI)
  fix n
  from assms(1) have "\<And>n. bit new n \<Longrightarrow> n < cnt" by (metis bit_take_bit_iff)
  then show "bit (bitfield_get off' cnt' (bitfield_set off cnt new v)) n = bit (bitfield_get off' cnt' v) n"
    using assms(2)
    by (force simp: bit_bitfield_get bitfield_set_def bit_simps dest: bit_imp_le_length)
qed

subsection \<open>The fields of the conditions\<close>

lemma ucast_fits:
  assumes "unat (a :: uint32) < 2 ^ n" shows "take_bit n (ucast a :: uint64) = ucast a"
proof -
  have "unat a < 2 ^ 32" using unsigned_less [of a] by simp
  then have "take_bit 64 (unat a) = unat a" by (simp add: take_bit_nat_eq_self)
  with assms show ?thesis
    by (simp add: word_unat_eq_iff unsigned_take_bit_eq unsigned_ucast_eq take_bit_nat_eq_self)
qed

lemma action_fits: "(a :: uint32) < ZX_POL_ACTION_MAX \<Longrightarrow> take_bit 3 (ucast a :: uint64) = ucast a"
  by (rule ucast_fits) (simp add: zx_consts word_less_nat_alt)

lemma override_fits: "(v :: uint32) \<le> ZX_POL_OVERRIDE_DENY \<Longrightarrow> take_bit 1 (ucast v :: uint64) = ucast v"
  by (rule ucast_fits) (simp add: zx_consts word_le_nat_alt)

lemma FieldSelector_range: "FieldSelector c = Some off \<Longrightarrow> off \<le> 52 \<and> 4 dvd off"
  by (auto simp: FieldSelector_def JobPolicyBits_def zx_consts split: if_splits)

lemma FieldSelector_inj: "FieldSelector c = Some off \<Longrightarrow> FieldSelector c' = Some off \<Longrightarrow> c = c'"
proof -
  have "distinct (map snd JobPolicyBits)" by (simp add: JobPolicyBits_def)
  moreover assume "FieldSelector c = Some off" "FieldSelector c' = Some off"
  then have "(c, off) \<in> set JobPolicyBits" "(c', off) \<in> set JobPolicyBits"
    by (auto simp: FieldSelector_def dest: map_of_SomeD)
  ultimately show ?thesis unfolding distinct_map inj_on_def by (metis prod.inject snd_conv)
qed

lemma FieldSelector_apart:
  assumes "FieldSelector c = Some off" "FieldSelector c' = Some off'" "c \<noteq> c'"
  shows "off + 4 \<le> off' \<or> off' + 4 \<le> off"
proof -
  have "off \<noteq> off'" using assms FieldSelector_inj by blast
  with FieldSelector_range [OF assms(1)] FieldSelector_range [OF assms(2)] show ?thesis
    by (elim conjE dvdE) auto
qed

lemma FieldSelector_new: "c \<in> set kNewObjectPolicies \<Longrightarrow> FieldSelector c \<noteq> None"
  by (auto simp: kNewObjectPolicies_def FieldSelector_def JobPolicyBits_def zx_consts)

text \<open>Writing the field of one condition changes the entry of that condition only.\<close>

lemma entry_set_override:
  assumes "FieldSelector c = Some off" "take_bit 1 v = v"
  shows "GetOverride (bitfield_set (off + 3) 1 v bits) c = v"
    and "GetAction (bitfield_set (off + 3) 1 v bits) c' = GetAction bits c'"
    and "c' \<noteq> c \<Longrightarrow> GetOverride (bitfield_set (off + 3) 1 v bits) c' = GetOverride bits c'"
proof -
  show "GetOverride (bitfield_set (off + 3) 1 v bits) c = v"
    using assms FieldSelector_range [OF assms(1)] by (simp add: GetOverride_def bitfield_get_set_same)
  show "GetAction (bitfield_set (off + 3) 1 v bits) c' = GetAction bits c'"
    using assms FieldSelector_apart [OF assms(1)]
    by (cases "c' = c") (fastforce simp: GetAction_def intro!: bitfield_get_set_other split: option.split)+
  show "c' \<noteq> c \<Longrightarrow> GetOverride (bitfield_set (off + 3) 1 v bits) c' = GetOverride bits c'"
    using assms FieldSelector_apart [OF assms(1)]
    by (fastforce simp: GetOverride_def intro!: bitfield_get_set_other split: option.split)
qed

lemma entry_set_action:
  assumes "FieldSelector c = Some off" "take_bit 3 v = v"
  shows "GetAction (bitfield_set off 3 v bits) c = v"
    and "GetOverride (bitfield_set off 3 v bits) c' = GetOverride bits c'"
    and "c' \<noteq> c \<Longrightarrow> GetAction (bitfield_set off 3 v bits) c' = GetAction bits c'"
proof -
  show "GetAction (bitfield_set off 3 v bits) c = v"
    using assms FieldSelector_range [OF assms(1)] by (simp add: GetAction_def bitfield_get_set_same)
  show "GetOverride (bitfield_set off 3 v bits) c' = GetOverride bits c'"
    using assms FieldSelector_apart [OF assms(1)]
    by (cases "c' = c") (fastforce simp: GetOverride_def intro!: bitfield_get_set_other split: option.split)+
  show "c' \<noteq> c \<Longrightarrow> GetAction (bitfield_set off 3 v bits) c' = GetAction bits c'"
    using assms FieldSelector_apart [OF assms(1)]
    by (fastforce simp: GetAction_def intro!: bitfield_get_set_other split: option.split)
qed

subsection \<open>Locked conditions\<close>

definition locked :: "uint64 \<Rightarrow> uint32 \<Rightarrow> bool" where
  "locked bits c \<longleftrightarrow> FieldSelector c \<noteq> None \<and> GetOverride bits c \<noteq> ucast ZX_POL_OVERRIDE_ALLOW"

definition keeps_locked :: "uint64 \<Rightarrow> uint64 \<Rightarrow> bool" where
  "keeps_locked bits bits' \<longleftrightarrow>
     (\<forall>c. locked bits c \<longrightarrow> locked bits' c \<and> GetAction bits' c = GetAction bits c)"

lemma keeps_locked_refl [simp]: "keeps_locked bits bits"
  by (simp add: keeps_locked_def)

lemma keeps_locked_trans [trans]: "keeps_locked a b \<Longrightarrow> keeps_locked b c \<Longrightarrow> keeps_locked a c"
  by (simp add: keeps_locked_def)

text \<open>The effect of \<open>AddPartial\<close> on the entries: an unlocked condition is set, a locked one is not.\<close>

lemma AddPartial_OK:
  assumes "AddPartial mode c a ovr bits = (ZX_OK, bits')"
  shows "FieldSelector c \<noteq> None" "a < ZX_POL_ACTION_MAX" "ovr \<le> ZX_POL_OVERRIDE_DENY"
    and "locked bits c \<Longrightarrow> bits' = bits"
    and "\<not> locked bits c \<Longrightarrow> GetAction bits' c = ucast a \<and> GetOverride bits' c = ucast ovr"
    and "c' \<noteq> c \<Longrightarrow> GetAction bits' c' = GetAction bits c' \<and> GetOverride bits' c' = GetOverride bits c'"
proof -
  from assms show sel: "FieldSelector c \<noteq> None" "a < ZX_POL_ACTION_MAX" "ovr \<le> ZX_POL_OVERRIDE_DENY"
    by (auto simp: AddPartial_def split: if_splits option.splits)
  then obtain off where off: "FieldSelector c = Some off" by blast
  let ?set = "bitfield_set (off + 3) 1 (ucast ovr) (bitfield_set off 3 (ucast a) bits)"
  have bits': "bits' = (if locked bits c then bits else ?set)"
    using assms sel off by (auto simp: AddPartial_def locked_def GetOverride_def split: if_splits)
  note fits = entry_set_override [OF off override_fits [OF sel(3)]]
    entry_set_action [OF off action_fits [OF sel(2)]]
  show "locked bits c \<Longrightarrow> bits' = bits" by (simp add: bits')
  show "\<not> locked bits c \<Longrightarrow> GetAction bits' c = ucast a \<and> GetOverride bits' c = ucast ovr"
    by (simp add: bits' fits del: One_nat_def)
  show "c' \<noteq> c \<Longrightarrow> GetAction bits' c' = GetAction bits c' \<and> GetOverride bits' c' = GetOverride bits c'"
    by (simp add: bits' fits del: One_nat_def)
qed

lemma AddPartial_error: "AddPartial mode c a ovr bits = (res, bits') \<Longrightarrow> res \<noteq> ZX_OK \<Longrightarrow> bits' = bits"
  by (auto simp: AddPartial_def split: if_splits option.splits)

lemma AddPartial_keeps_locked:
  assumes "AddPartial mode c a ovr bits = (res, bits')" shows "keeps_locked bits bits'"
proof (cases "res = ZX_OK")
  case True
  note ok = AddPartial_OK [OF assms [unfolded True]]
  show ?thesis unfolding keeps_locked_def
  proof (intro allI impI)
    fix d assume d: "locked bits d"
    show "locked bits' d \<and> GetAction bits' d = GetAction bits d"
      using ok(4) ok(6) [of d] d by (cases "d = c") (auto simp: locked_def)
  qed
next
  case False
  then show ?thesis using AddPartial_error [OF assms] by simp
qed

lemma AddPartial_all_keeps_locked:
  "AddPartial_all mode cs a ovr bits = (res, bits') \<Longrightarrow> keeps_locked bits bits'"
  by (induction cs arbitrary: bits)
    (auto split: prod.splits if_splits dest: AddPartial_keeps_locked intro: keeps_locked_trans)

lemma SetOverride_deny_keeps_locked:
  assumes "SetOverride bits c ZX_POL_OVERRIDE_DENY = (res, bits')" shows "keeps_locked bits bits'"
proof (cases "FieldSelector c")
  case (Some off)
  have fits: "take_bit 1 (ucast ZX_POL_OVERRIDE_DENY :: uint64) = ucast ZX_POL_OVERRIDE_DENY"
    by (rule override_fits) simp
  have bits': "bits' = bitfield_set (off + 3) 1 (ucast ZX_POL_OVERRIDE_DENY) bits"
    using assms Some by (simp add: SetOverride_def)
  show ?thesis unfolding keeps_locked_def
  proof (intro allI impI)
    fix d assume d: "locked bits d"
    show "locked bits' d \<and> GetAction bits' d = GetAction bits d"
      using entry_set_override [OF Some fits] d
      by (cases "d = c") (auto simp: bits' locked_def zx_consts simp del: One_nat_def)
  qed
qed (use assms in \<open>simp add: SetOverride_def\<close>)

lemma SetOverride_all_keeps_locked:
  "SetOverride_all cs ZX_POL_OVERRIDE_DENY bits = (res, bits') \<Longrightarrow> keeps_locked bits bits'"
  by (induction cs arbitrary: bits)
    (auto split: prod.splits if_splits dest: SetOverride_deny_keeps_locked intro: keeps_locked_trans)

lemma AddBasicPolicy_loop_keeps_locked:
  "AddBasicPolicy_loop mode input new_any bits = (res, new_any', bits') \<Longrightarrow> keeps_locked bits bits'"
  by (induction input arbitrary: new_any bits)
    (auto split: prod.splits if_splits
      dest: AddPartial_keeps_locked AddPartial_all_keeps_locked intro: keeps_locked_trans)

text \<open>The override in effect for \<open>ZX_POL_NEW_ANY\<close> is that of one of the entries.\<close>

lemma AddBasicPolicy_loop_new_any:
  "AddBasicPolicy_loop mode input new_any bits = (res, Some ovr, bits') \<Longrightarrow>
   new_any = Some ovr \<or> (\<exists>e\<in>set input. pol_condition e = ZX_POL_NEW_ANY \<and> pol_flags e = ovr)"
  by (induction input arbitrary: new_any bits)
    (fastforce split: prod.splits if_splits)+

text \<open>C18: A condition that was locked with \<open>ZX_POL_OVERRIDE_DENY\<close> keeps its action and stays locked
  through every call of \<open>AddBasicPolicy\<close>, in both modes and whether it succeeds or fails,
  provided that entries for \<open>ZX_POL_NEW_ANY\<close> are themselves \<open>ZX_POL_OVERRIDE_DENY\<close>.\<close>
theorem AddBasicPolicy_no_widening:
  assumes "\<forall>e\<in>set input. pol_condition e = ZX_POL_NEW_ANY \<longrightarrow> pol_flags e = ZX_POL_OVERRIDE_DENY"
    and "AddBasicPolicy mode input p = (res, p')"
  shows "keeps_locked (cookie_m p) (cookie_m p')"
proof -
  obtain r new_any bits where loop: "AddBasicPolicy_loop mode input None (cookie_m p) = (r, new_any, bits)"
    by (metis prod_cases3)
  have step: "keeps_locked (cookie_m p) bits" by (rule AddBasicPolicy_loop_keeps_locked [OF loop])
  show ?thesis
  proof (cases new_any)
    case None
    then show ?thesis using assms(2) loop step by (auto simp: AddBasicPolicy_def split: if_splits)
  next
    case (Some ovr)
    with loop AddBasicPolicy_loop_new_any [of mode input None "cookie_m p" r ovr bits] assms(1)
    have "ovr = ZX_POL_OVERRIDE_DENY" by auto
    then show ?thesis
      using assms(2) loop Some step SetOverride_all_keeps_locked
      by (auto simp: AddBasicPolicy_def split: if_splits prod.splits intro: keeps_locked_trans)
  qed
qed

definition policy_entry :: "uint32 \<Rightarrow> uint32 \<Rightarrow> uint32 \<Rightarrow> zx_policy_basic_v2" where
  "policy_entry c a f = \<lparr>pol_condition = c, pol_action = a, pol_flags = f\<rparr>"

definition example_policy :: JobPolicy where
  "example_policy = snd (AddBasicPolicy ZX_JOB_POL_ABSOLUTE
     [policy_entry ZX_POL_NEW_EVENT ZX_POL_ACTION_DENY ZX_POL_OVERRIDE_DENY] CreateRootPolicy)"

lemma example_policy_locked:
  "locked (cookie_m example_policy) ZX_POL_NEW_EVENT"
  "QueryBasicPolicy ZX_POL_NEW_EVENT example_policy = ZX_POL_ACTION_DENY"
  by code_simp+

theorem AddBasicPolicy_no_widening_witness:
  "let p' = snd (AddBasicPolicy ZX_JOB_POL_RELATIVE
      [policy_entry ZX_POL_NEW_ANY ZX_POL_ACTION_ALLOW ZX_POL_OVERRIDE_DENY] example_policy)
   in keeps_locked (cookie_m example_policy) (cookie_m p') \<and> locked (cookie_m p') ZX_POL_NEW_EVENT"
proof -
  let ?in = "[policy_entry ZX_POL_NEW_ANY ZX_POL_ACTION_ALLOW ZX_POL_OVERRIDE_DENY]"
  have "\<forall>e\<in>set ?in. pol_condition e = ZX_POL_NEW_ANY \<longrightarrow> pol_flags e = ZX_POL_OVERRIDE_DENY"
    by (simp add: policy_entry_def)
  note AddBasicPolicy_no_widening
    [where mode = ZX_JOB_POL_RELATIVE and p = example_policy, OF this prod.collapse [symmetric]]
  then show ?thesis using example_policy_locked(1) by (auto simp: keeps_locked_def Let_def)
qed

subsection \<open>One entry\<close>

lemma AddPartial_cases:
  "fst (AddPartial mode c a ovr bits) =
     (if a \<ge> ZX_POL_ACTION_MAX then ZX_ERR_NOT_SUPPORTED
      else if ovr > ZX_POL_OVERRIDE_DENY \<or> FieldSelector c = None then ZX_ERR_INVALID_ARGS
      else if locked bits c \<and> mode = ZX_JOB_POL_ABSOLUTE \<and>
              \<not> (GetAction bits c = ucast a \<and> ovr = ZX_POL_OVERRIDE_DENY)
      then ZX_ERR_ALREADY_EXISTS else ZX_OK)"
  by (auto simp: AddPartial_def locked_def GetOverride_def GetAction_def split: option.splits)

lemma ucast_ucast_32 [simp]: "ucast (ucast (a :: uint32) :: uint64) = a"
  by (rule bit_word_eqI) (simp add: bit_ucast_iff)

text \<open>One entry that does not name \<open>ZX_POL_NEW_ANY\<close>: an action or flag out of range and an
  unknown condition are refused; a locked condition is never changed and a conflict with it
  fails exactly in absolute mode; an unlocked condition afterwards answers a query with the
  action and override of the entry, while the answers for all other conditions stay.\<close>
theorem AddBasicPolicy_entry:
  assumes "c \<noteq> ZX_POL_NEW_ANY"
  shows "let (st, p') = AddBasicPolicy mode [policy_entry c a f] p in
    st = (if a \<ge> ZX_POL_ACTION_MAX then ZX_ERR_NOT_SUPPORTED
          else if f > ZX_POL_OVERRIDE_DENY \<or> FieldSelector c = None then ZX_ERR_INVALID_ARGS
          else if locked (cookie_m p) c \<and> mode = ZX_JOB_POL_ABSOLUTE \<and>
                  \<not> (GetAction (cookie_m p) c = ucast a \<and> f = ZX_POL_OVERRIDE_DENY)
          then ZX_ERR_ALREADY_EXISTS else ZX_OK) \<and>
    (st = ZX_OK \<and> \<not> locked (cookie_m p) c \<longrightarrow>
       QueryBasicPolicy c p' = a \<and> QueryBasicPolicyOverride c p' = f) \<and>
    (st \<noteq> ZX_OK \<or> locked (cookie_m p) c \<longrightarrow> p' = p) \<and>
    (\<forall>d. d \<noteq> c \<longrightarrow> QueryBasicPolicy d p' = QueryBasicPolicy d p \<and>
                    QueryBasicPolicyOverride d p' = QueryBasicPolicyOverride d p)"
proof -
  obtain st bits where part: "AddPartial mode c a f (cookie_m p) = (st, bits)" by fastforce
  have add: "AddBasicPolicy mode [policy_entry c a f] p =
      (if st \<noteq> ZX_OK then (st, p) else (ZX_OK, p\<lparr>cookie_m := bits\<rparr>))"
    using assms part by (simp add: AddBasicPolicy_def policy_entry_def ZX_POL_MAX_def)
  have st: "st = fst (AddPartial mode c a f (cookie_m p))" by (simp add: part)
  note cases = AddPartial_cases [of mode c a f "cookie_m p", folded st]
  show ?thesis
  proof (cases "st = ZX_OK")
    case True
    note ok = AddPartial_OK [OF part [unfolded True]]
    show ?thesis
      using True cases ok(4-6)
      by (simp add: add QueryBasicPolicy_def QueryBasicPolicyOverride_def)
  next
    case False
    then show ?thesis using cases by (simp add: add)
  qed
qed

theorem AddBasicPolicy_entry_witness:
  "QueryBasicPolicy ZX_POL_NEW_FIFO
     (snd (AddBasicPolicy ZX_JOB_POL_ABSOLUTE
        [policy_entry ZX_POL_NEW_FIFO ZX_POL_ACTION_KILL ZX_POL_OVERRIDE_DENY] CreateRootPolicy))
   = ZX_POL_ACTION_KILL"
proof -
  have "ZX_POL_NEW_FIFO \<noteq> ZX_POL_NEW_ANY" by (simp add: zx_consts)
  moreover have "\<not> locked (cookie_m CreateRootPolicy) ZX_POL_NEW_FIFO"
    "\<not> ZX_POL_ACTION_KILL \<ge> ZX_POL_ACTION_MAX" "FieldSelector ZX_POL_NEW_FIFO \<noteq> None"
    by code_simp+
  ultimately show ?thesis
    using AddBasicPolicy_entry [of ZX_POL_NEW_FIFO ZX_JOB_POL_ABSOLUTE ZX_POL_ACTION_KILL
        ZX_POL_OVERRIDE_DENY CreateRootPolicy]
    by (auto split: prod.splits)
qed

subsection \<open>NEW_ANY\<close>

lemma AddPartial_all_relative:
  assumes "a < ZX_POL_ACTION_MAX" "ovr \<le> ZX_POL_OVERRIDE_DENY" "\<forall>c\<in>set cs. FieldSelector c \<noteq> None"
  shows "fst (AddPartial_all ZX_JOB_POL_RELATIVE cs a ovr bits) = ZX_OK"
  using assms(3)
proof (induction cs arbitrary: bits)
  case (Cons c cs)
  have "fst (AddPartial ZX_JOB_POL_RELATIVE c a ovr bits) = ZX_OK"
    unfolding AddPartial_cases using assms(1,2) Cons.prems
    by (auto simp: ZX_JOB_POL_RELATIVE_def ZX_JOB_POL_ABSOLUTE_def)
  with Cons show ?case by (auto split: prod.splits)
qed simp

lemma SetOverride_all_unlocks:
  assumes "\<forall>c\<in>set cs. FieldSelector c \<noteq> None"
  shows "\<exists>bits'. SetOverride_all cs ZX_POL_OVERRIDE_ALLOW bits = (ZX_OK, bits') \<and>
           (\<forall>c. c \<in> set cs \<or> \<not> locked bits c \<longrightarrow> \<not> locked bits' c) \<and>
           (\<forall>c. GetAction bits' c = GetAction bits c)"
  using assms
proof (induction cs arbitrary: bits)
  case (Cons c cs)
  then obtain off where off: "FieldSelector c = Some off" by auto
  let ?b = "bitfield_set (off + 3) 1 (ucast ZX_POL_OVERRIDE_ALLOW) bits"
  have fits: "take_bit 1 (ucast ZX_POL_OVERRIDE_ALLOW :: uint64) = ucast ZX_POL_OVERRIDE_ALLOW"
    by (rule override_fits) (simp add: zx_consts)
  note entry = entry_set_override [OF off fits]
  have unlocked: "\<not> locked ?b d" if "d = c \<or> \<not> locked bits d" for d
    using entry(1) entry(3) [of d] that by (cases "d = c") (auto simp: locked_def simp del: One_nat_def)
  obtain bits' where "SetOverride_all cs ZX_POL_OVERRIDE_ALLOW ?b = (ZX_OK, bits')"
    "\<forall>d. d \<in> set cs \<or> \<not> locked ?b d \<longrightarrow> \<not> locked bits' d" "\<forall>d. GetAction bits' d = GetAction ?b d"
    using Cons by (metis list.set_intros(2))
  moreover have "SetOverride bits c ZX_POL_OVERRIDE_ALLOW = (ZX_OK, ?b)"
    using off by (simp add: SetOverride_def)
  ultimately show ?case using unlocked entry(2) by auto
qed auto

text \<open>C40: A later call can widen a locked policy. In relative mode an entry for \<open>ZX_POL_NEW_ANY\<close> with
  \<open>ZX_POL_OVERRIDE_ALLOW\<close> succeeds on every policy and unlocks every new-object condition,
  including those locked with \<open>ZX_POL_OVERRIDE_DENY\<close>; a following entry for such a condition is
  then accepted and replaces its action.\<close>
theorem new_any_unlocks_policy:
  assumes "c \<in> set kNewObjectPolicies" "a < ZX_POL_ACTION_MAX" "b < ZX_POL_ACTION_MAX"
  shows "\<exists>p1 p2. AddBasicPolicy ZX_JOB_POL_RELATIVE [policy_entry ZX_POL_NEW_ANY a ZX_POL_OVERRIDE_ALLOW] p = (ZX_OK, p1) \<and>
           \<not> locked (cookie_m p1) c \<and>
           AddBasicPolicy ZX_JOB_POL_ABSOLUTE [policy_entry c b ZX_POL_OVERRIDE_DENY] p1 = (ZX_OK, p2) \<and>
           QueryBasicPolicy c p2 = b"
proof -
  have known: "\<forall>c\<in>set kNewObjectPolicies. FieldSelector c \<noteq> None" using FieldSelector_new by blast
  have "ZX_POL_OVERRIDE_ALLOW \<le> ZX_POL_OVERRIDE_DENY" by (simp add: zx_consts)
  from AddPartial_all_relative [OF assms(2) this known, of "cookie_m p"] obtain bits where
    all: "AddPartial_all ZX_JOB_POL_RELATIVE kNewObjectPolicies a ZX_POL_OVERRIDE_ALLOW (cookie_m p) = (ZX_OK, bits)"
    by (metis prod.collapse)
  from SetOverride_all_unlocks [OF known, of bits] obtain bits' where
    set: "SetOverride_all kNewObjectPolicies ZX_POL_OVERRIDE_ALLOW bits = (ZX_OK, bits')"
      "\<not> locked bits' c" using assms(1) by blast
  let ?p1 = "p\<lparr>cookie_m := bits'\<rparr>"
  have first: "AddBasicPolicy ZX_JOB_POL_RELATIVE [policy_entry ZX_POL_NEW_ANY a ZX_POL_OVERRIDE_ALLOW] p = (ZX_OK, ?p1)"
    using all set(1) by (simp add: AddBasicPolicy_def policy_entry_def ZX_POL_MAX_def)
  have "fst (AddPartial ZX_JOB_POL_ABSOLUTE c b ZX_POL_OVERRIDE_DENY bits') = ZX_OK"
    unfolding AddPartial_cases using assms known set(2) by simp
  then obtain bits'' where part: "AddPartial ZX_JOB_POL_ABSOLUTE c b ZX_POL_OVERRIDE_DENY bits' = (ZX_OK, bits'')"
    by (metis prod.collapse)
  have "c \<noteq> ZX_POL_NEW_ANY" using assms(1) by (auto simp: kNewObjectPolicies_def zx_consts)
  with part have "AddBasicPolicy ZX_JOB_POL_ABSOLUTE [policy_entry c b ZX_POL_OVERRIDE_DENY] ?p1 =
      (ZX_OK, p\<lparr>cookie_m := bits''\<rparr>)"
    by (simp add: AddBasicPolicy_def policy_entry_def ZX_POL_MAX_def)
  with first set(2) AddPartial_OK(5) [OF part set(2)] show ?thesis by (simp add: QueryBasicPolicy_def)
qed

theorem new_any_unlocks_policy_witness:
  "QueryBasicPolicy ZX_POL_NEW_EVENT example_policy = ZX_POL_ACTION_DENY \<and>
   locked (cookie_m example_policy) ZX_POL_NEW_EVENT \<and>
   (\<exists>p1 p2. AddBasicPolicy ZX_JOB_POL_RELATIVE
          [policy_entry ZX_POL_NEW_ANY ZX_POL_ACTION_ALLOW ZX_POL_OVERRIDE_ALLOW] example_policy = (ZX_OK, p1) \<and>
      AddBasicPolicy ZX_JOB_POL_ABSOLUTE
          [policy_entry ZX_POL_NEW_EVENT ZX_POL_ACTION_ALLOW ZX_POL_OVERRIDE_DENY] p1 = (ZX_OK, p2) \<and>
      QueryBasicPolicy ZX_POL_NEW_EVENT p2 = ZX_POL_ACTION_ALLOW)"
proof -
  have "ZX_POL_NEW_EVENT \<in> set kNewObjectPolicies" "ZX_POL_ACTION_ALLOW < ZX_POL_ACTION_MAX"
    by (simp_all add: kNewObjectPolicies_def zx_consts)
  from new_any_unlocks_policy [OF this(1) this(2) this(2), of example_policy] example_policy_locked
  show ?thesis by blast
qed

text \<open>The flags of a \<open>ZX_POL_NEW_ANY\<close> entry are not validated: the flag value 2, which any other
  entry has refused with \<open>ZX_ERR_INVALID_ARGS\<close>, is accepted and shifted into the neighbouring
  field, so that a condition the call did not name changes from allow to deny.\<close>
theorem new_any_flags_spill:
  "let (st, p') = AddBasicPolicy ZX_JOB_POL_ABSOLUTE [policy_entry ZX_POL_NEW_ANY ZX_POL_ACTION_ALLOW 2] CreateRootPolicy
   in st = ZX_OK \<and>
      QueryBasicPolicy ZX_POL_AMBIENT_MARK_VMO_EXEC CreateRootPolicy = ZX_POL_ACTION_ALLOW \<and>
      QueryBasicPolicy ZX_POL_AMBIENT_MARK_VMO_EXEC p' = ZX_POL_ACTION_DENY \<and>
      fst (AddBasicPolicy ZX_JOB_POL_ABSOLUTE [policy_entry ZX_POL_NEW_VMO ZX_POL_ACTION_ALLOW 2] CreateRootPolicy)
        = ZX_ERR_INVALID_ARGS"
  by code_simp

text \<open>The slack of a job only grows: the new amount is at least the old one and the requested one.\<close>

lemma SetTimerSlackPolicy_grows:
  "SetTimerSlackPolicy procs jobs pol p = (st, p') \<Longrightarrow>
   amount_m (policy_slack_m p) \<le> amount_m (policy_slack_m p') \<and>
   (st = ZX_OK \<longrightarrow> min_slack pol \<le> amount_m (policy_slack_m p'))"
  by (auto simp: SetTimerSlackPolicy_def SetTimerSlack_def Let_def split: if_splits option.splits)

end
