(* ===== verification/Handle_Arena.thy ===== *)
theory Handle_Arena
  imports Dispatcher
begin

section \<open>Handles and the arena they live in\<close>

text \<open>
  Model of \<open>zircon/kernel/object/handle.cc\<close>, \<open>include/object/handle.h\<close> and of the arena
  \<open>lib/fbl/include/fbl/gparena.h\<close>.

  \<^item> Arena addresses are byte offsets from \<open>start_\<close>. The free list is a list of addresses, its
    head first; the compare-and-swap loops of \<open>Alloc\<close> and \<open>Free\<close> take effect in the exchange
    that succeeds, so each is one step. Whether the page mapping in \<open>Grow\<close> succeeds is an
    argument.
  \<^item> A handle is identified by its slot, the index of its address. The memory of a slot is kept
    when it is freed, as the persistent area of the arena keeps it.
  \<^item> \<open>hstate\<close> joins the arena, the slots and the dispatchers; \<open>zero_handles_m\<close> records the calls
    of the virtual \<open>on_zero_handles\<close> and \<open>owner_m\<close> the last argument of the virtual \<open>set_owner\<close>.
\<close>

definition PAGE_SIZE :: nat where "PAGE_SIZE = 4096"
definition kMaxHandleCount :: nat where "kMaxHandleCount = 256 * 1024"
definition sizeof_Handle :: nat where "sizeof_Handle = 40"
definition kHandleReservedBits :: nat where "kHandleReservedBits = 2"

definition kHandleIndexMask :: "32 word" where "kHandleIndexMask = of_nat (kMaxHandleCount - 1)"
definition kHandleReservedBitsMask :: "32 word" where
  "kHandleReservedBitsMask = push_bit (32 - kHandleReservedBits) (push_bit kHandleReservedBits 1 - 1)"
definition kHandleGenerationMask :: "32 word" where
  "kHandleGenerationMask = NOT kHandleIndexMask AND NOT kHandleReservedBitsMask"
definition kHandleGenerationShift :: nat where "kHandleGenerationShift = 18"

definition NewHandleValue :: "32 word \<Rightarrow> 32 word \<Rightarrow> 32 word" where
  "NewHandleValue index old_value =
     (let old_gen = (if old_value \<noteq> 0
                     then drop_bit kHandleGenerationShift (old_value AND kHandleGenerationMask) else 0);
          new_gen = push_bit kHandleGenerationShift (old_gen + 1) AND kHandleGenerationMask
      in index OR new_gen)"

definition HandleValueToIndex :: "32 word \<Rightarrow> 32 word" where
  "HandleValueToIndex v = v AND kHandleIndexMask"

subsection \<open>The arena\<close>

record GPArena =
  top_m :: nat
  committed_m :: nat
  end_m :: nat
  count_m :: nat
  free_m :: "nat list"

definition GPArena_Init :: "nat \<Rightarrow> GPArena" where
  "GPArena_Init max_count =
     \<lparr>top_m = 0, committed_m = 0,
      end_m = (max_count * sizeof_Handle + PAGE_SIZE - 1) div PAGE_SIZE * PAGE_SIZE,
      count_m = 0, free_m = []\<rparr>"

definition GPArena_Grow :: "bool \<Rightarrow> nat \<Rightarrow> GPArena \<Rightarrow> bool \<times> GPArena" where
  "GPArena_Grow map_ok next_top a =
     (if next_top > committed_m a
      then let nc = committed_m a + 4 * PAGE_SIZE;
               nc = (if nc > end_m a then end_m a else nc)
           in if nc = committed_m a then (False, a)
              else if \<not> map_ok then (False, a)
              else (True, a\<lparr>committed_m := nc\<rparr>)
      else (True, a))"

definition GPArena_Alloc :: "bool \<Rightarrow> GPArena \<Rightarrow> nat option \<times> GPArena" where
  "GPArena_Alloc map_ok a =
     (case free_m a of
        addr # rest \<Rightarrow> (Some addr, a\<lparr>free_m := rest, count_m := count_m a + 1\<rparr>)
      | [] \<Rightarrow>
          let next_top = top_m a + sizeof_Handle;
              (grown, a) = (if next_top > committed_m a then GPArena_Grow map_ok next_top a else (True, a))
          in if \<not> grown then (None, a)
             else (Some (top_m a), a\<lparr>top_m := next_top, count_m := count_m a + 1\<rparr>))"

definition GPArena_Free :: "nat \<Rightarrow> GPArena \<Rightarrow> GPArena" where
  "GPArena_Free node a = a\<lparr>free_m := node # free_m a, count_m := count_m a - 1\<rparr>"

definition Committed :: "nat \<Rightarrow> GPArena \<Rightarrow> bool" where
  "Committed node a \<longleftrightarrow> node < top_m a"

subsection \<open>Handles\<close>

record Handle =
  process_id_m :: zx_koid
  dispatcher_m :: "zx_koid option"
  rights_m :: zx_rights
  base_value_m :: "32 word"

record hstate =
  arena_m :: GPArena
  slots_m :: "nat \<Rightarrow> Handle"
  dispatchers_m :: "zx_koid \<Rightarrow> dispatcher"
  zero_handles_m :: "zx_koid list"
  owner_m :: "zx_koid \<Rightarrow> zx_koid"

definition HandleToIndex :: "nat \<Rightarrow> nat" where
  "HandleToIndex addr = addr div sizeof_Handle"

definition IndexToHandle :: "nat \<Rightarrow> nat" where
  "IndexToHandle index = index * sizeof_Handle"

definition HasRights :: "zx_rights \<Rightarrow> Handle \<Rightarrow> bool" where
  "HasRights desired h \<longleftrightarrow> rights_m h AND desired = desired"

definition set_process_id :: "nat \<Rightarrow> zx_koid \<Rightarrow> hstate \<Rightarrow> hstate" where
  "set_process_id i pid s =
     s\<lparr>slots_m := (slots_m s)(i := (slots_m s i)\<lparr>process_id_m := pid\<rparr>),
       owner_m := (owner_m s)(the (dispatcher_m (slots_m s i)) := pid)\<rparr>"

definition GetNewBaseValue :: "nat \<Rightarrow> hstate \<Rightarrow> 32 word" where
  "GetNewBaseValue addr s =
     NewHandleValue (of_nat (HandleToIndex addr)) (base_value_m (slots_m s (HandleToIndex addr)))"

definition HandleTableArena_Alloc ::
  "bool \<Rightarrow> zx_koid \<Rightarrow> hstate \<Rightarrow> (nat \<times> 32 word) option \<times> hstate" where
  "HandleTableArena_Alloc map_ok disp s =
     (let (addr, arena) = GPArena_Alloc map_ok (arena_m s);
          s = s\<lparr>arena_m := arena\<rparr>
      in case addr of
           None \<Rightarrow> (None, s)
         | Some addr \<Rightarrow>
             let s = s\<lparr>dispatchers_m :=
                   (dispatchers_m s)(disp := increment_handle_count (dispatchers_m s disp))\<rparr>
             in (Some (addr, GetNewBaseValue addr s), s))"

definition construct_handle :: "nat \<Rightarrow> Handle \<Rightarrow> hstate \<Rightarrow> hstate" where
  "construct_handle i h s = s\<lparr>slots_m := (slots_m s)(i := h)\<rparr>"

definition Handle_Make :: "bool \<Rightarrow> zx_koid \<Rightarrow> zx_rights \<Rightarrow> hstate \<Rightarrow> nat option \<times> hstate" where
  "Handle_Make map_ok disp rights s =
     (case HandleTableArena_Alloc map_ok disp s of
        (None, s) \<Rightarrow> (None, s)
      | (Some (addr, base_value), s) \<Rightarrow>
          (Some (HandleToIndex addr),
           construct_handle (HandleToIndex addr)
             \<lparr>process_id_m = ZX_KOID_INVALID, dispatcher_m = Some disp, rights_m = rights,
              base_value_m = base_value\<rparr> s))"

definition Handle_Dup :: "bool \<Rightarrow> nat \<Rightarrow> zx_rights \<Rightarrow> hstate \<Rightarrow> nat option \<times> hstate" where
  "Handle_Dup map_ok source rights s =
     (let disp = the (dispatcher_m (slots_m s source)) in
      case HandleTableArena_Alloc map_ok disp s of
        (None, s) \<Rightarrow> (None, s)
      | (Some (addr, base_value), s) \<Rightarrow>
          (Some (HandleToIndex addr),
           construct_handle (HandleToIndex addr)
             \<lparr>process_id_m = ZX_KOID_INVALID, dispatcher_m = dispatcher_m (slots_m s source),
              rights_m = rights, base_value_m = base_value\<rparr> s))"

definition Handle_TearDown :: "nat \<Rightarrow> hstate \<Rightarrow> hstate" where
  "Handle_TearDown i s = s\<lparr>slots_m := (slots_m s)(i := (slots_m s i)\<lparr>dispatcher_m := None\<rparr>)\<rparr>"

definition HandleTableArena_Delete :: "nat \<Rightarrow> hstate \<Rightarrow> hstate" where
  "HandleTableArena_Delete i s =
     (let disp = the (dispatcher_m (slots_m s i));
          s = (if is_waitable (dispatchers_m s disp)
               then s\<lparr>dispatchers_m := (dispatchers_m s)(disp := Dispatcher_Cancel i (dispatchers_m s disp))\<rparr>
               else s);
          s = Handle_TearDown i s;
          (zero_handles, d) = decrement_handle_count (dispatchers_m s disp);
          s = s\<lparr>dispatchers_m := (dispatchers_m s)(disp := d),
                arena_m := GPArena_Free (IndexToHandle i) (arena_m s)\<rparr>
      in if zero_handles then s\<lparr>zero_handles_m := zero_handles_m s @ [disp]\<rparr> else s)"

definition FromU32 :: "32 word \<Rightarrow> hstate \<Rightarrow> nat option" where
  "FromU32 v s =
     (let index = unat (HandleValueToIndex v) in
      if \<not> Committed (IndexToHandle index) (arena_m s) then None
      else if base_value_m (slots_m s index) = v then Some index else None)"

definition Handle_Count :: "zx_koid \<Rightarrow> hstate \<Rightarrow> 32 word" where
  "Handle_Count disp s = handle_count_m (dispatchers_m s disp)"

subsection \<open>Handle values\<close>

lemma kHandleIndexMask_eq: "kHandleIndexMask = mask 18"
  by (simp add: kHandleIndexMask_def kMaxHandleCount_def mask_eq_exp_minus_1)

lemma kHandleGenerationMask_eq: "kHandleGenerationMask = push_bit 18 (mask 12)"
  by (simp add: kHandleGenerationMask_def kHandleIndexMask_def kMaxHandleCount_def
      kHandleReservedBitsMask_def kHandleReservedBits_def mask_eq_exp_minus_1)

lemma handle_generation:
  "drop_bit 18 (v AND kHandleGenerationMask) = take_bit 12 (drop_bit 18 (v :: 32 word))"
  unfolding kHandleGenerationMask_eq
  by (rule bit_word_eqI) (auto simp: bit_simps)

lemma generation_field:
  "push_bit 18 g AND kHandleGenerationMask = push_bit 18 (take_bit 12 (g :: 32 word))"
  unfolding kHandleGenerationMask_eq
  by (rule bit_word_eqI) (auto simp: bit_simps)

definition generation :: "32 word \<Rightarrow> 32 word" where
  "generation v = (if v \<noteq> 0 then take_bit 12 (drop_bit 18 v) else 0)"

lemma generation_eq: "generation v = take_bit 12 (drop_bit 18 v)"
  by (simp add: generation_def)

lemma NewHandleValue_eq:
  "NewHandleValue index old = index OR push_bit 18 (take_bit 12 (generation old + 1))"
  unfolding NewHandleValue_def Let_def kHandleGenerationShift_def handle_generation generation_field
    generation_def by simp

lemma generation_field_inverse:
  "take_bit 12 (drop_bit 18 (push_bit 18 (take_bit 12 x))) = take_bit 12 (x :: 32 word)"
  by (rule bit_word_eqI) (auto simp: bit_simps)

lemma HandleValueToIndex_New:
  "take_bit 18 index = index \<Longrightarrow> HandleValueToIndex (NewHandleValue index old) = index"
proof -
  assume *: "take_bit 18 index = index"
  have "HandleValueToIndex (NewHandleValue index old) = take_bit 18 (NewHandleValue index old)"
    by (simp add: HandleValueToIndex_def kHandleIndexMask_eq take_bit_eq_mask)
  also have "\<dots> = take_bit 18 index"
    unfolding NewHandleValue_eq by (simp add: take_bit_push_bit)
  finally show ?thesis using * by simp
qed

lemma generation_New:
  assumes "take_bit 18 index = index"
  shows "generation (NewHandleValue index old) = take_bit 12 (generation old + 1)"
proof -
  have "drop_bit 18 index = 0" using assms by (metis drop_bit_take_bit cancel_comm_monoid_add_class.diff_cancel take_bit_0)
  then show ?thesis
    by (simp add: generation_eq NewHandleValue_eq generation_field_inverse)
qed

lemma generation_step: "take_bit 12 (g + 1) \<noteq> (g :: 32 word)" if "take_bit 12 g = g"
proof
  assume "take_bit 12 (g + 1) = g"
  then have "bit (take_bit 12 (g + 1)) 0 = bit g 0" by simp
  then have "even (g + 1) = even g" by (simp add: bit_0 bit_take_bit_iff)
  then show False by simp
qed

lemma NewHandleValue_reserved:
  "take_bit 18 index = index \<Longrightarrow> NewHandleValue index old AND kHandleReservedBitsMask = 0"
proof -
  assume *: "take_bit 18 index = index"
  have low: "n < 18" if "bit index n" for n using * that by (metis bit_take_bit_iff)
  have mask: "kHandleReservedBitsMask = push_bit 30 (mask 2)"
    by (simp add: kHandleReservedBitsMask_def kHandleReservedBits_def mask_eq_exp_minus_1)
  show ?thesis
  proof (rule bit_word_eqI)
    fix n
    show "bit (NewHandleValue index old AND kHandleReservedBitsMask) n = bit (0 :: 32 word) n"
      using low [of n] by (auto simp: mask NewHandleValue_eq bit_simps)
  qed
qed

lemma NewHandleValue_neq:
  assumes "take_bit 18 index = index" shows "NewHandleValue index old \<noteq> old"
proof
  assume "NewHandleValue index old = old"
  then have "take_bit 12 (generation old + 1) = generation old"
    using generation_New [OF assms, of old] by metis
  moreover have "take_bit 12 (generation old) = generation old" by (simp add: generation_eq)
  ultimately show False using generation_step by blast
qed

text \<open>The value given to a reused slot: it differs from the value of the slot's previous handle,
  carries the index of the slot, and leaves the reserved bits zero, so that shifting it by the
  reserved bits loses nothing.\<close>
theorem NewHandleValue_correct:
  assumes "take_bit 18 index = index"
  shows "NewHandleValue index old \<noteq> old \<and>
         HandleValueToIndex (NewHandleValue index old) = index \<and>
         NewHandleValue index old AND kHandleReservedBitsMask = 0"
  using NewHandleValue_neq [OF assms] HandleValueToIndex_New [OF assms] NewHandleValue_reserved [OF assms]
  by simp

theorem NewHandleValue_correct_witness:
  "NewHandleValue 5 (5 OR push_bit 18 4095) = 5 \<and> NewHandleValue 5 (5 OR push_bit 18 4095) \<noteq> 5 OR push_bit 18 4095"
proof -
  have "take_bit 18 (5 :: 32 word) = 5" by simp
  from NewHandleValue_correct [OF this, of "5 OR push_bit 18 4095"]
  have "NewHandleValue 5 (5 OR push_bit 18 4095) \<noteq> 5 OR push_bit 18 4095" by blast
  moreover have "NewHandleValue 5 (5 OR push_bit 18 4095) = 5"
    by (simp add: NewHandleValue_eq generation_def)
  ultimately show ?thesis by (intro conjI)
qed

subsection \<open>The arena invariant\<close>

lemmas size_defs = PAGE_SIZE_def kMaxHandleCount_def sizeof_Handle_def

definition arena_inv :: "GPArena \<Rightarrow> bool" where
  "arena_inv a \<longleftrightarrow>
     sizeof_Handle dvd top_m a \<and> top_m a \<le> committed_m a \<and> committed_m a \<le> end_m a \<and>
     PAGE_SIZE dvd committed_m a \<and> end_m a = kMaxHandleCount * sizeof_Handle \<and>
     distinct (free_m a) \<and> (\<forall>x\<in>set (free_m a). sizeof_Handle dvd x \<and> x < top_m a)"

definition live :: "GPArena \<Rightarrow> nat set" where
  "live a = {i. IndexToHandle i < top_m a \<and> IndexToHandle i \<notin> set (free_m a)}"

lemma arena_inv_Init: "arena_inv (GPArena_Init kMaxHandleCount)"
  by (simp add: arena_inv_def GPArena_Init_def size_defs)

lemma live_Init [simp]: "live (GPArena_Init n) = {}"
  by (simp add: live_def GPArena_Init_def)

lemma HandleToIndex_inverse [simp]: "HandleToIndex (IndexToHandle i) = i"
  by (simp add: HandleToIndex_def IndexToHandle_def sizeof_Handle_def)

lemma IndexToHandle_inverse: "sizeof_Handle dvd x \<Longrightarrow> IndexToHandle (HandleToIndex x) = x"
  by (simp add: HandleToIndex_def IndexToHandle_def)

lemma IndexToHandle_inject [simp]: "IndexToHandle i = IndexToHandle j \<longleftrightarrow> i = j"
  by (simp add: IndexToHandle_def sizeof_Handle_def)

lemma live_less:
  assumes "arena_inv a" "i \<in> live a" shows "i < kMaxHandleCount"
  using assms by (auto simp: arena_inv_def live_def IndexToHandle_def sizeof_Handle_def)

lemma finite_live: "arena_inv a \<Longrightarrow> finite (live a)"
  by (rule finite_subset [of _ "{..<kMaxHandleCount}"]) (auto dest: live_less)

text \<open>Growing commits at least one page, and a handle is smaller than a page.\<close>

lemma Grow_ok:
  assumes "arena_inv a" "next_top = top_m a + sizeof_Handle" "GPArena_Grow map_ok next_top a = (True, a')"
  shows "arena_inv (a'\<lparr>top_m := next_top\<rparr>)" "free_m a' = free_m a" "top_m a' = top_m a"
    "count_m a' = count_m a" "next_top \<le> committed_m a'"
proof -
  let ?nc = "min (committed_m a + 4 * PAGE_SIZE) (end_m a)"
  show more: "free_m a' = free_m a" "top_m a' = top_m a" "count_m a' = count_m a"
    using assms(3) by (auto simp: GPArena_Grow_def Let_def split: if_splits)
  have dvd: "PAGE_SIZE dvd end_m a" "PAGE_SIZE dvd committed_m a" "top_m a \<le> committed_m a"
    using assms(1) by (auto simp: arena_inv_def size_defs)
  have eq: "a' = (if next_top > committed_m a then a\<lparr>committed_m := ?nc\<rparr> else a)"
    and grown: "next_top > committed_m a \<Longrightarrow> ?nc \<noteq> committed_m a"
    using assms(3) by (auto simp: GPArena_Grow_def Let_def min_def split: if_splits)
  have "committed_m a + PAGE_SIZE \<le> ?nc" if "next_top > committed_m a"
  proof -
    have "committed_m a < end_m a" using grown [OF that] assms(1) by (auto simp: arena_inv_def min_def split: if_splits)
    then have "committed_m a + PAGE_SIZE \<le> end_m a" using dvd by (auto elim!: dvdE simp: PAGE_SIZE_def)
    then show ?thesis by (simp add: min_def PAGE_SIZE_def)
  qed
  then show bound: "next_top \<le> committed_m a'"
    using dvd(3) assms(2) by (auto simp: eq size_defs)
  have "PAGE_SIZE dvd ?nc" using dvd by (auto simp: min_def)
  then show "arena_inv (a'\<lparr>top_m := next_top\<rparr>)"
    using assms(1,2) bound dvd unfolding arena_inv_def eq by (auto simp: min_def)
qed

lemma aligned_top:
  assumes "arena_inv a"
  shows "IndexToHandle i < top_m a + sizeof_Handle \<longleftrightarrow> IndexToHandle i < top_m a \<or> IndexToHandle i = top_m a"
  using assms by (auto simp: arena_inv_def IndexToHandle_def sizeof_Handle_def elim!: dvdE)

lemma Alloc_ok:
  assumes "arena_inv a" "GPArena_Alloc map_ok a = (Some addr, a')"
  shows "arena_inv a'" "addr + sizeof_Handle \<le> committed_m a'" "sizeof_Handle dvd addr"
    "HandleToIndex addr \<notin> live a" "live a' = insert (HandleToIndex addr) (live a)"
    "top_m a \<le> top_m a'" "addr < top_m a'" "top_m a' \<le> top_m a + sizeof_Handle"
    "addr < top_m a \<and> top_m a' = top_m a \<or> addr = top_m a \<and> top_m a' = top_m a + sizeof_Handle"
proof -
  have pos: "0 < sizeof_Handle" by (simp add: sizeof_Handle_def)
  consider (reuse) rest where "free_m a = addr # rest" "a' = a\<lparr>free_m := rest, count_m := count_m a + 1\<rparr>"
    | (grow) b where "free_m a = []" "addr = top_m a" "arena_inv (b\<lparr>top_m := top_m a + sizeof_Handle\<rparr>)"
      "free_m b = []" "top_m b = top_m a" "top_m a + sizeof_Handle \<le> committed_m b"
      "a' = b\<lparr>top_m := top_m a + sizeof_Handle, count_m := count_m b + 1\<rparr>"
  proof (cases "free_m a")
    case Nil
    show ?thesis
    proof (cases "top_m a + sizeof_Handle > committed_m a")
      case True
      with Nil assms(2) obtain b where "GPArena_Grow map_ok (top_m a + sizeof_Handle) a = (True, b)"
        "addr = top_m b" "a' = b\<lparr>top_m := top_m a + sizeof_Handle, count_m := count_m b + 1\<rparr>"
        by (auto simp: GPArena_Alloc_def Let_def split: prod.splits if_splits)
      then show ?thesis using Grow_ok [OF assms(1) refl] Nil grow by metis
    next
      case False
      then show ?thesis using assms Nil
        by (intro grow [of a]) (auto simp: GPArena_Alloc_def arena_inv_def)
    qed
  qed (use assms(2) in \<open>auto simp: GPArena_Alloc_def\<close>)
  then have "arena_inv a' \<and> addr + sizeof_Handle \<le> committed_m a' \<and> sizeof_Handle dvd addr \<and>
    HandleToIndex addr \<notin> live a \<and> live a' = insert (HandleToIndex addr) (live a) \<and>
    top_m a \<le> top_m a' \<and> addr < top_m a' \<and> top_m a' \<le> top_m a + sizeof_Handle \<and>
    (addr < top_m a \<and> top_m a' = top_m a \<or> addr = top_m a \<and> top_m a' = top_m a + sizeof_Handle)"
  proof cases
    case reuse
    then have addr: "sizeof_Handle dvd addr" "addr < top_m a" using assms(1) by (auto simp: arena_inv_def)
    have "top_m a \<le> committed_m a" "sizeof_Handle dvd top_m a" using assms(1) by (auto simp: arena_inv_def)
    then have "addr + sizeof_Handle \<le> committed_m a"
      using addr pos by (auto elim!: dvdE simp: sizeof_Handle_def)
    moreover have "live a' = insert (HandleToIndex addr) (live a)"
      using reuse addr assms(1) IndexToHandle_inverse [OF addr(1)]
      by (auto simp: live_def arena_inv_def)
    ultimately show ?thesis
      using reuse addr assms(1) IndexToHandle_inverse [OF addr(1)] by (auto simp: arena_inv_def live_def)
  next
    case grow
    then have dvd: "sizeof_Handle dvd addr" using assms(1) by (simp add: arena_inv_def)
    then have top: "\<not> IndexToHandle (HandleToIndex (top_m a)) < top_m a"
      using IndexToHandle_inverse grow(2) by simp
    have idx: "IndexToHandle x = top_m a \<longleftrightarrow> x = HandleToIndex (top_m a)" for x
      using IndexToHandle_inverse [OF dvd] grow(2) by (metis HandleToIndex_inverse)
    show ?thesis
      using grow dvd pos top by (auto simp: live_def arena_inv_def aligned_top [OF assms(1)] idx)
  qed
  then show "arena_inv a'" "addr + sizeof_Handle \<le> committed_m a'" "sizeof_Handle dvd addr"
    "HandleToIndex addr \<notin> live a" "live a' = insert (HandleToIndex addr) (live a)"
    "top_m a \<le> top_m a'" "addr < top_m a'" "top_m a' \<le> top_m a + sizeof_Handle"
    "addr < top_m a \<and> top_m a' = top_m a \<or> addr = top_m a \<and> top_m a' = top_m a + sizeof_Handle" by blast+
qed

lemma Alloc_fail: "GPArena_Alloc map_ok a = (None, a') \<Longrightarrow> a' = a"
  by (auto simp: GPArena_Alloc_def GPArena_Grow_def Let_def split: list.splits if_splits)

lemma Free_ok:
  assumes "arena_inv a" "i \<in> live a"
  shows "arena_inv (GPArena_Free (IndexToHandle i) a)"
    "live (GPArena_Free (IndexToHandle i) a) = live a - {i}"
  using assms by (auto simp: arena_inv_def live_def GPArena_Free_def IndexToHandle_def sizeof_Handle_def)

subsection \<open>The handle invariant\<close>

definition handles_of :: "zx_koid \<Rightarrow> hstate \<Rightarrow> nat set" where
  "handles_of k s = {i. dispatcher_m (slots_m s i) = Some k}"

definition slot_value_ok :: "nat \<Rightarrow> 32 word \<Rightarrow> bool" where
  "slot_value_ok i v \<longleftrightarrow> HandleValueToIndex v = of_nat i \<and> v AND kHandleReservedBitsMask = 0"

definition hs_inv :: "hstate \<Rightarrow> bool" where
  "hs_inv s \<longleftrightarrow>
     arena_inv (arena_m s) \<and>
     (\<forall>i. i \<in> live (arena_m s) \<longleftrightarrow> dispatcher_m (slots_m s i) \<noteq> None) \<and>
     (\<forall>i. IndexToHandle i < top_m (arena_m s) \<longrightarrow> slot_value_ok i (base_value_m (slots_m s i))) \<and>
     (\<forall>k. unat (handle_count_m (dispatchers_m s k)) = card (handles_of k s))"

lemma handles_of_subset: "hs_inv s \<Longrightarrow> handles_of k s \<subseteq> live (arena_m s)"
  by (auto simp: hs_inv_def handles_of_def)

lemma finite_handles_of: "hs_inv s \<Longrightarrow> finite (handles_of k s)"
  using handles_of_subset finite_live by (metis hs_inv_def finite_subset)

lemma card_handles_of_less:
  assumes "hs_inv s" shows "card (handles_of k s) \<le> kMaxHandleCount"
proof -
  have "handles_of k s \<subseteq> {..<kMaxHandleCount}"
    using handles_of_subset [OF assms] live_less assms by (auto simp: hs_inv_def)
  then show ?thesis using card_mono [of "{..<kMaxHandleCount}"] by fastforce
qed

lemma unat_count_inc:
  assumes "unat (c :: 32 word) = n" "n \<le> kMaxHandleCount" shows "unat (c + 1) = Suc n"
  using assms by (simp add: unat_word_ariths kMaxHandleCount_def)

lemma unat_count_dec: "unat (c :: 32 word) = n \<Longrightarrow> 0 < n \<Longrightarrow> unat (c - 1) = n - 1"
  using unat_minus_one [of c] by (metis unat_0 less_irrefl)

lemma index_fits: "i < kMaxHandleCount \<Longrightarrow> take_bit 18 (of_nat i :: 32 word) = of_nat i"
  by (simp add: kMaxHandleCount_def word_unat_eq_iff unsigned_take_bit_eq unsigned_of_nat
      take_bit_nat_eq_self)

lemma unat_index: "i < kMaxHandleCount \<Longrightarrow> unat (of_nat i :: 32 word) = i"
  by (simp add: kMaxHandleCount_def unsigned_of_nat take_bit_nat_eq_self)

text \<open>Allocating a slot for dispatcher \<open>k\<close> and constructing a handle in it.\<close>

lemma make_handle_inv:
  assumes inv: "hs_inv s" and alloc: "HandleTableArena_Alloc map_ok k s = (Some (addr, base), s1)"
    and s2: "s2 = construct_handle (HandleToIndex addr)
        \<lparr>process_id_m = pid, dispatcher_m = Some k, rights_m = r, base_value_m = base\<rparr> s1"
  shows "hs_inv s2" "HandleToIndex addr \<notin> live (arena_m s)"
    "live (arena_m s2) = insert (HandleToIndex addr) (live (arena_m s))"
    "base \<noteq> base_value_m (slots_m s (HandleToIndex addr))"
    "FromU32 base s2 = Some (HandleToIndex addr)"
    "zero_handles_m s2 = zero_handles_m s"
    "\<And>j. j \<noteq> HandleToIndex addr \<Longrightarrow> slots_m s2 j = slots_m s j"
proof -
  let ?i = "HandleToIndex addr"
  from alloc obtain a where a: "GPArena_Alloc map_ok (arena_m s) = (Some addr, a)"
    and s1: "s1 = s\<lparr>arena_m := a, dispatchers_m :=
        (dispatchers_m s)(k := increment_handle_count (dispatchers_m s k))\<rparr>"
    and base: "base = NewHandleValue (of_nat ?i) (base_value_m (slots_m s ?i))"
    by (auto simp: HandleTableArena_Alloc_def GetNewBaseValue_def Let_def split: prod.splits option.splits)
  have ainv: "arena_inv (arena_m s)" using inv by (simp add: hs_inv_def)
  note ok = Alloc_ok [OF ainv a]
  have small: "?i < kMaxHandleCount" using live_less [OF ok(1)] ok(5) by simp
  note fits = index_fits [OF small]
  show "?i \<notin> live (arena_m s)" by (rule ok(4))
  have arena: "arena_m s2 = a" by (simp add: s2 s1 construct_handle_def)
  show live: "live (arena_m s2) = insert ?i (live (arena_m s))" using ok(5) by (simp add: arena)
  show "zero_handles_m s2 = zero_handles_m s" by (simp add: s2 s1 construct_handle_def)
  show others: "\<And>j. j \<noteq> ?i \<Longrightarrow> slots_m s2 j = slots_m s j" by (simp add: s2 s1 construct_handle_def)
  have here: "slots_m s2 ?i = \<lparr>process_id_m = pid, dispatcher_m = Some k, rights_m = r, base_value_m = base\<rparr>"
    by (simp add: s2 construct_handle_def)
  have idx: "slot_value_ok ?i base"
    unfolding base slot_value_ok_def
    by (simp only: HandleValueToIndex_New [OF fits] NewHandleValue_reserved [OF fits])
  have free: "dispatcher_m (slots_m s ?i) = None" using inv ok(4) by (simp add: hs_inv_def)
  have "i \<in> handles_of j s2 \<longleftrightarrow> (if i = ?i then j = k else i \<in> handles_of j s)" for i j
    using here others by (cases "i = ?i") (auto simp: handles_of_def)
  then have of: "handles_of j s2 = (if j = k then insert ?i (handles_of j s) else handles_of j s)" for j
    using free by (auto simp: handles_of_def split: if_splits)
  have new: "?i \<notin> handles_of k s" using free by (simp add: handles_of_def)
  have count: "unat (handle_count_m (dispatchers_m s j)) = card (handles_of j s)" for j
    using inv by (simp add: hs_inv_def)
  have disp: "handle_count_m (dispatchers_m s2 j) =
      (if j = k then handle_count_m (dispatchers_m s k) + 1 else handle_count_m (dispatchers_m s j))" for j
    by (simp add: s2 s1 construct_handle_def increment_handle_count_def)
  have "unat (handle_count_m (dispatchers_m s2 j)) = card (handles_of j s2)" for j
    using unat_count_inc [OF count card_handles_of_less [OF inv]] new finite_handles_of [OF inv, of k]
      count [of j] by (simp add: of disp)
  moreover have "slot_value_ok j (base_value_m (slots_m s2 j))"
    if "IndexToHandle j < top_m (arena_m s2)" for j
  proof (cases "j = ?i")
    case False
    have "IndexToHandle j \<noteq> addr" using False by auto
    then have "IndexToHandle j < top_m (arena_m s)"
      using that ok(9) aligned_top [OF ainv, of j] unfolding arena by (elim disjE) auto
    then show ?thesis using inv False others by (simp add: hs_inv_def)
  qed (simp add: here idx)
  moreover have "j \<in> live (arena_m s2) \<longleftrightarrow> dispatcher_m (slots_m s2 j) \<noteq> None" for j
    using inv others here by (cases "j = ?i") (auto simp: live hs_inv_def)
  ultimately show "hs_inv s2" using ok(1) by (simp add: hs_inv_def arena)
  show "base \<noteq> base_value_m (slots_m s ?i)" unfolding base by (rule NewHandleValue_neq [OF fits])
  show "FromU32 base s2 = Some ?i"
    using ok(7) here idx small
    by (simp add: FromU32_def slot_value_ok_def arena Committed_def unat_index IndexToHandle_inverse [OF ok(3)])
qed

text \<open>Destroying a handle: its slot is free again, keeps its base value, and the last handle of a
  dispatcher, and only the last one, triggers \<open>on_zero_handles\<close>.\<close>

lemma Delete_dispatchers:
  assumes "dispatcher_m (slots_m s i) = Some k"
  shows "handle_count_m (dispatchers_m (HandleTableArena_Delete i s) j) =
           (if j = k then handle_count_m (dispatchers_m s k) - 1 else handle_count_m (dispatchers_m s j))"
    and "slots_m (HandleTableArena_Delete i s) = (slots_m s)(i := (slots_m s i)\<lparr>dispatcher_m := None\<rparr>)"
    and "arena_m (HandleTableArena_Delete i s) = GPArena_Free (IndexToHandle i) (arena_m s)"
    and "zero_handles_m (HandleTableArena_Delete i s) =
           zero_handles_m s @ (if handle_count_m (dispatchers_m s k) = 1 then [k] else [])"
    and "observers_m (dispatchers_m (HandleTableArena_Delete i s) k) =
           (if is_waitable (dispatchers_m s k) then filter (\<lambda>x. handle_m x \<noteq> i) (observers_m (dispatchers_m s k))
            else observers_m (dispatchers_m s k))"
  using assms
  by (simp_all add: HandleTableArena_Delete_def Handle_TearDown_def decrement_handle_count_def
      Dispatcher_Cancel_def Let_def)

lemma delete_handle_inv:
  assumes inv: "hs_inv s" and i: "dispatcher_m (slots_m s i) = Some k"
  shows "hs_inv (HandleTableArena_Delete i s)"
    "live (arena_m (HandleTableArena_Delete i s)) = live (arena_m s) - {i}"
    "zero_handles_m (HandleTableArena_Delete i s) =
       zero_handles_m s @ (if handles_of k s = {i} then [k] else [])"
proof -
  let ?s = "HandleTableArena_Delete i s"
  note del = Delete_dispatchers [OF i]
  have ainv: "arena_inv (arena_m s)" and live: "i \<in> live (arena_m s)"
    using inv i by (auto simp: hs_inv_def)
  note free = Free_ok [OF ainv live]
  show live': "live (arena_m ?s) = live (arena_m s) - {i}" using free(2) by (simp add: del(3))
  have count: "unat (handle_count_m (dispatchers_m s j)) = card (handles_of j s)" for j
    using inv by (simp add: hs_inv_def)
  have mem: "i \<in> handles_of k s" using i by (simp add: handles_of_def)
  have of: "handles_of j ?s = (if j = k then handles_of k s - {i} else handles_of j s)" for j
    using i by (auto simp: handles_of_def del(2))
  have pos: "0 < card (handles_of k s)" using mem finite_handles_of [OF inv] by (auto simp: card_gt_0_iff)
  have "unat (handle_count_m (dispatchers_m ?s j)) = card (handles_of j ?s)" for j
    using unat_count_dec [OF count pos] mem finite_handles_of [OF inv, of k] count [of j]
    by (simp add: of del(1))
  moreover have "slot_value_ok j (base_value_m (slots_m ?s j))"
    if "IndexToHandle j < top_m (arena_m ?s)" for j
    using inv that by (auto simp: hs_inv_def del(2,3) GPArena_Free_def)
  moreover have "j \<in> live (arena_m ?s) \<longleftrightarrow> dispatcher_m (slots_m ?s j) \<noteq> None" for j
    using inv by (simp add: live' hs_inv_def del(2))
  ultimately show "hs_inv ?s" using free(1) by (simp add: hs_inv_def del(3))
  have "handle_count_m (dispatchers_m s k) = 1 \<longleftrightarrow> card (handles_of k s) = 1"
    using count [of k] by (metis unat_1 word_unat_eq_iff)
  also have "\<dots> \<longleftrightarrow> handles_of k s = {i}" using mem by (auto simp: card_1_singleton_iff)
  finally show "zero_handles_m ?s = zero_handles_m s @ (if handles_of k s = {i} then [k] else [])"
    by (simp add: del(4))
qed

lemma FromU32_live:
  assumes "hs_inv s" "i \<in> live (arena_m s)" shows "FromU32 (base_value_m (slots_m s i)) s = Some i"
proof -
  have "i < kMaxHandleCount" using live_less [OF _ assms(2)] assms(1) unfolding hs_inv_def by blast
  moreover have "HandleValueToIndex (base_value_m (slots_m s i)) = of_nat i"
    using assms unfolding hs_inv_def live_def slot_value_ok_def by blast
  ultimately show ?thesis
    using assms(2) by (simp add: FromU32_def unat_index Committed_def live_def)
qed

lemma Alloc_None: "HandleTableArena_Alloc map_ok k s = (None, s') \<Longrightarrow> s' = s"
  by (auto simp: HandleTableArena_Alloc_def Let_def dest: Alloc_fail split: prod.splits option.splits)

lemma Alloc_slots: "HandleTableArena_Alloc map_ok k s = (r, s') \<Longrightarrow> slots_m s' = slots_m s"
  by (auto simp: HandleTableArena_Alloc_def Let_def split: prod.splits option.splits)

lemma Handle_Make_cases:
  assumes "Handle_Make map_ok k rights s = (r, s')"
  obtains "r = None" "s' = s"
  | addr base s1 where "r = Some (HandleToIndex addr)"
      "HandleTableArena_Alloc map_ok k s = (Some (addr, base), s1)"
      "s' = construct_handle (HandleToIndex addr) \<lparr>process_id_m = ZX_KOID_INVALID,
         dispatcher_m = Some k, rights_m = rights, base_value_m = base\<rparr> s1"
  using assms by (auto simp: Handle_Make_def dest: Alloc_None split: prod.splits option.splits)

lemma Handle_Dup_eq:
  "dispatcher_m (slots_m s i) = Some k \<Longrightarrow> Handle_Dup map_ok i rights s = Handle_Make map_ok k rights s"
  by (auto simp: Handle_Dup_def Handle_Make_def dest: Alloc_slots split: prod.splits option.splits)

lemma hs_inv_Make: "hs_inv s \<Longrightarrow> Handle_Make map_ok k rights s = (r, s') \<Longrightarrow> hs_inv s'"
  by (erule Handle_Make_cases) (auto intro: make_handle_inv(1))

lemma Handle_Make_Some:
  assumes "hs_inv s" "Handle_Make map_ok k rights s = (Some i, s')"
  shows "hs_inv s'" "i \<notin> live (arena_m s)" "live (arena_m s') = insert i (live (arena_m s))"
    "dispatcher_m (slots_m s' i) = Some k" "rights_m (slots_m s' i) = rights"
    "process_id_m (slots_m s' i) = ZX_KOID_INVALID"
    "base_value_m (slots_m s' i) \<noteq> base_value_m (slots_m s i)"
    "FromU32 (base_value_m (slots_m s' i)) s' = Some i"
    "\<And>j. j \<noteq> i \<Longrightarrow> slots_m s' j = slots_m s j" "zero_handles_m s' = zero_handles_m s"
proof -
  from assms(2) obtain addr base s1 where i: "i = HandleToIndex addr"
    and alloc: "HandleTableArena_Alloc map_ok k s = (Some (addr, base), s1)"
    and s': "s' = construct_handle (HandleToIndex addr) \<lparr>process_id_m = ZX_KOID_INVALID,
         dispatcher_m = Some k, rights_m = rights, base_value_m = base\<rparr> s1"
    by (auto elim: Handle_Make_cases)
  have slot: "slots_m s' i = \<lparr>process_id_m = ZX_KOID_INVALID,
         dispatcher_m = Some k, rights_m = rights, base_value_m = base\<rparr>"
    by (simp add: s' i construct_handle_def)
  note made = make_handle_inv [OF assms(1) alloc s', folded i]
  show "hs_inv s'" "i \<notin> live (arena_m s)" "live (arena_m s') = insert i (live (arena_m s))"
    "zero_handles_m s' = zero_handles_m s" "\<And>j. j \<noteq> i \<Longrightarrow> slots_m s' j = slots_m s j"
    by (fact made)+
  show "dispatcher_m (slots_m s' i) = Some k" "rights_m (slots_m s' i) = rights"
    "process_id_m (slots_m s' i) = ZX_KOID_INVALID"
    "base_value_m (slots_m s' i) \<noteq> base_value_m (slots_m s i)"
    "FromU32 (base_value_m (slots_m s' i)) s' = Some i"
    using made by (simp_all add: slot)
qed

text \<open>A new handle takes a slot no live handle uses, refers to the dispatcher with the requested
  rights, and is found again under its base value, while the value of the slot's previous
  handle no longer leads to it; every other handle is untouched. When the arena is exhausted
  nothing changes.\<close>
theorem Handle_Make_fresh:
  assumes "hs_inv s"
  shows "case Handle_Make map_ok k rights s of
      (None, s') \<Rightarrow> s' = s
    | (Some i, s') \<Rightarrow>
        hs_inv s' \<and> i \<notin> live (arena_m s) \<and> live (arena_m s') = insert i (live (arena_m s)) \<and>
        dispatcher_m (slots_m s' i) = Some k \<and> rights_m (slots_m s' i) = rights \<and>
        FromU32 (base_value_m (slots_m s' i)) s' = Some i \<and>
        FromU32 (base_value_m (slots_m s i)) s' \<noteq> Some i \<and>
        (\<forall>j. j \<noteq> i \<longrightarrow> slots_m s' j = slots_m s j)"
proof (cases "Handle_Make map_ok k rights s")
  case (Pair r s')
  show ?thesis
  proof (cases r)
    case None
    then show ?thesis using Pair by (auto elim: Handle_Make_cases)
  next
    case (Some i)
    note made = Handle_Make_Some [OF assms Pair [unfolded Some]]
    have "FromU32 (base_value_m (slots_m s i)) s' \<noteq> Some i"
      using made(7) by (auto simp: FromU32_def Let_def split: if_splits)
    with made show ?thesis using Pair Some by simp
  qed
qed

definition empty_hstate :: hstate where
  "empty_hstate = \<lparr>arena_m = GPArena_Init kMaxHandleCount,
     slots_m = (\<lambda>_. \<lparr>process_id_m = ZX_KOID_INVALID, dispatcher_m = None, rights_m = 0, base_value_m = 0\<rparr>),
     dispatchers_m = (\<lambda>k. Dispatcher_new k ZX_OBJ_TYPE_EVENT ZX_DEFAULT_EVENT_RIGHTS ZX_OBJECT_SIGNALED 0),
     zero_handles_m = [], owner_m = (\<lambda>_. ZX_KOID_INVALID)\<rparr>"

lemma hs_inv_empty: "hs_inv empty_hstate"
proof -
  have "live (GPArena_Init kMaxHandleCount) = {}" "top_m (GPArena_Init kMaxHandleCount) = 0"
    by (simp_all add: live_def GPArena_Init_def)
  then show ?thesis
    by (simp add: hs_inv_def empty_hstate_def arena_inv_Init handles_of_def Dispatcher_new_def)
qed

lemma Make_empty: "Handle_Make True 1024 ZX_RIGHT_WAIT empty_hstate \<noteq> (None, s)"
  by (simp add: Handle_Make_def HandleTableArena_Alloc_def GPArena_Alloc_def GPArena_Grow_def
      GPArena_Init_def empty_hstate_def size_defs Let_def)

theorem Handle_Make_fresh_witness:
  "\<exists>i s'. Handle_Make True 1024 ZX_RIGHT_WAIT empty_hstate = (Some i, s') \<and>
     FromU32 (base_value_m (slots_m s' i)) s' = Some i"
  using Handle_Make_fresh [OF hs_inv_empty, where map_ok = True and k = 1024 and rights = ZX_RIGHT_WAIT] Make_empty
  by (auto split: prod.splits option.splits)

text \<open>C20: The handle count is exact and the last close is noticed exactly once. Making or
  duplicating a handle and destroying one keep the count of every dispatcher equal to the
  number of its handles; \<open>on_zero_handles\<close> is called when the destroyed handle was the only one
  of its dispatcher, and never otherwise. Waits registered through the handle are cancelled.\<close>
theorem handle_counts_exact:
  assumes "hs_inv s" "dispatcher_m (slots_m s i) = Some k"
  shows "hs_inv (HandleTableArena_Delete i s) \<and> hs_inv (snd (Handle_Dup map_ok i rights s)) \<and>
    unat (Handle_Count j s) = card (handles_of j s) \<and>
    zero_handles_m (snd (Handle_Dup map_ok i rights s)) = zero_handles_m s \<and>
    zero_handles_m (HandleTableArena_Delete i s) =
      zero_handles_m s @ (if handles_of k s = {i} then [k] else []) \<and>
    (is_waitable (dispatchers_m s k) \<longrightarrow>
       (\<forall>x\<in>set (observers_m (dispatchers_m (HandleTableArena_Delete i s) k)). handle_m x \<noteq> i))"
proof -
  obtain r s' where make: "Handle_Make map_ok k rights s = (r, s')" by fastforce
  have "zero_handles_m s' = zero_handles_m s"
    using make Handle_Make_Some(10) [OF assms(1)] by (cases r) (auto elim: Handle_Make_cases)
  with make have "hs_inv (snd (Handle_Dup map_ok i rights s))"
    "zero_handles_m (snd (Handle_Dup map_ok i rights s)) = zero_handles_m s"
    using hs_inv_Make [OF assms(1)] by (simp_all add: Handle_Dup_eq [OF assms(2)])
  moreover have "unat (Handle_Count j s) = card (handles_of j s)"
    using assms(1) unfolding hs_inv_def Handle_Count_def by blast
  ultimately show ?thesis
    using delete_handle_inv(1,3) [OF assms] Delete_dispatchers(5) [OF assms(2)] by simp
qed

theorem handle_counts_exact_witness:
  "\<exists>i s'. Handle_Make True 1024 ZX_RIGHT_WAIT empty_hstate = (Some i, s') \<and>
     zero_handles_m (HandleTableArena_Delete i s') = [1024]"
proof -
  obtain i s' where make: "Handle_Make True 1024 ZX_RIGHT_WAIT empty_hstate = (Some i, s')"
    using Make_empty by (metis option.exhaust prod.exhaust_sel)
  note made = Handle_Make_Some [OF hs_inv_empty make]
  have "dispatcher_m (slots_m s' j) = None" if "j \<noteq> i" for j
    using made(9) [OF that] by (simp add: empty_hstate_def)
  then have "handles_of 1024 s' = {i}" using made(4) unfolding handles_of_def by fastforce
  moreover have "zero_handles_m s' = []" using made(10) by (simp add: empty_hstate_def)
  ultimately have "zero_handles_m (HandleTableArena_Delete i s') = [1024]"
    using handle_counts_exact [OF made(1,4)] by simp
  with make show ?thesis by blast
qed

end
