(* ===== verification/Handle_Table.thy ===== *)
theory Handle_Table
  imports Handle_Arena
begin

section \<open>The handle table of a process\<close>

text \<open>
  Model of \<open>zircon/kernel/object/handle_table.cc\<close> and \<open>handle_table.h\<close>,
  \<open>object/user_handles.cc\<close> and \<open>user_handles.h\<close>, \<open>lib/syscalls/handle_ops.cc\<close> and
  \<open>user_out_handle\<close> of \<open>lib/syscalls/priv.h\<close>.

  \<^item> \<open>HandleTable\<close> has the members of the class. A \<open>Handle*\<close> is the index of its slot in the
    arena, the intrusive list \<open>handles_\<close> is the list of the slots it links, and the iterator of a
    cursor is the slot it points to, or \<open>None\<close> for \<open>end()\<close>. \<open>process_m\<close> is the koid of the process.
  \<^item> \<open>policy_calls_m\<close> counts the calls of \<open>process_->EnforceBasicPolicy(ZX_POL_BAD_HANDLE)\<close>, whose
    result the code ignores.
  \<^item> An operation runs with the table's lock held, so it is one function on the table and the
    handle state all tables share. Destroying a \<open>HandleOwner\<close> is \<open>HandleTableArena_Delete\<close>.
  \<^item> \<open>table_inv\<close> ties a table to the slots: it links exactly the slots that carry its koid.
\<close>

subsection \<open>Handle values\<close>

definition kHandleMustBeOneMask :: "32 word" where
  "kHandleMustBeOneMask = push_bit kHandleReservedBits 1 - 1"

definition map_handle_to_value :: "Handle \<Rightarrow> 32 word \<Rightarrow> zx_handle" where
  "map_handle_to_value handle mixer =
     (let handle_id = push_bit kHandleReservedBits (base_value_m handle) OR kHandleMustBeOneMask
      in mixer XOR handle_id)"

definition map_value_to_handle :: "zx_handle \<Rightarrow> 32 word \<Rightarrow> hstate \<Rightarrow> nat option" where
  "map_value_to_handle value mixer s =
     (if value AND kHandleMustBeOneMask \<noteq> kHandleMustBeOneMask then None
      else FromU32 (drop_bit kHandleReservedBits (value XOR mixer)) s)"

subsection \<open>The table\<close>

type_synonym cursor = "nat \<times> nat option"

record HandleTable =
  random_value_m :: "32 word"
  table_count_m :: "32 word"
  handles_m :: "nat list"
  process_m :: zx_koid
  cursors_m :: "cursor list"
  policy_calls_m :: nat

definition HandleTable_new :: "zx_koid \<Rightarrow> 32 word \<Rightarrow> HandleTable" where
  "HandleTable_new process secret =
     \<lparr>random_value_m = push_bit kHandleReservedBits secret, table_count_m = 0, handles_m = [],
      process_m = process, cursors_m = [], policy_calls_m = 0\<rparr>"

definition MapHandleToValue :: "nat \<Rightarrow> HandleTable \<Rightarrow> hstate \<Rightarrow> zx_handle" where
  "MapHandleToValue handle t s = map_handle_to_value (slots_m s handle) (random_value_m t)"

definition GetHandleLocked ::
  "zx_handle \<Rightarrow> bool \<Rightarrow> HandleTable \<Rightarrow> hstate \<Rightarrow> nat option \<times> HandleTable" where
  "GetHandleLocked handle_value skip_policy t s =
     (let handle = map_value_to_handle handle_value (random_value_m t) s in
      if (case handle of None \<Rightarrow> False | Some h \<Rightarrow> process_id_m (slots_m s h) = process_m t) then (handle, t)
      else if \<not> skip_policy then (None, t\<lparr>policy_calls_m := policy_calls_m t + 1\<rparr>)
      else (None, t))"

definition AddHandleLocked :: "nat \<Rightarrow> HandleTable \<times> hstate \<Rightarrow> HandleTable \<times> hstate" where
  "AddHandleLocked handle ts =
     (let (t, s) = ts;
          s = set_process_id handle (process_m t) s
      in (t\<lparr>handles_m := handle # handles_m t, table_count_m := table_count_m t + 1\<rparr>, s))"

text \<open>\<open>iter_++\<close>: the element behind \<open>x\<close> in the list.\<close>

fun list_next :: "'a list \<Rightarrow> 'a \<Rightarrow> 'a option" where
  "list_next [] x = None"
| "list_next (y # ys) x = (if y = x then (case ys of [] \<Rightarrow> None | z # _ \<Rightarrow> Some z) else list_next ys x)"

definition HandleCursor_new :: "nat \<Rightarrow> HandleTable \<Rightarrow> HandleTable" where
  "HandleCursor_new c t =
     t\<lparr>cursors_m := (c, case handles_m t of [] \<Rightarrow> None | h # _ \<Rightarrow> Some h) # cursors_m t\<rparr>"

definition HandleCursor_destroy :: "nat \<Rightarrow> HandleTable \<Rightarrow> HandleTable" where
  "HandleCursor_destroy c t = t\<lparr>cursors_m := filter (\<lambda>x. fst x \<noteq> c) (cursors_m t)\<rparr>"

definition HandleCursor_Invalidate :: "cursor \<Rightarrow> cursor" where
  "HandleCursor_Invalidate x = (fst x, None)"

definition HandleCursor_AdvanceIf :: "nat list \<Rightarrow> nat \<Rightarrow> cursor \<Rightarrow> cursor" where
  "HandleCursor_AdvanceIf handles h x =
     (case snd x of
        None \<Rightarrow> x
      | Some i \<Rightarrow> if i = h then (fst x, list_next handles i) else x)"

definition HandleCursor_Next :: "nat \<Rightarrow> HandleTable \<Rightarrow> nat option \<times> HandleTable" where
  "HandleCursor_Next c t =
     (case map_of (cursors_m t) c of
        Some (Some i) \<Rightarrow>
          (Some i, t\<lparr>cursors_m := map (\<lambda>x. if fst x = c then (c, list_next (handles_m t) i) else x) (cursors_m t)\<rparr>)
      | _ \<Rightarrow> (None, t))"

text \<open>\<open>RemoveHandleLocked(Handle*)\<close>; the caller owns the slot afterwards.\<close>

definition RemoveHandleLocked :: "nat \<Rightarrow> HandleTable \<times> hstate \<Rightarrow> HandleTable \<times> hstate" where
  "RemoveHandleLocked handle ts =
     (let (t, s) = ts;
          s = set_process_id handle ZX_KOID_INVALID s;
          t = t\<lparr>cursors_m := map (HandleCursor_AdvanceIf (handles_m t) handle) (cursors_m t)\<rparr>;
          t = t\<lparr>handles_m := remove1 handle (handles_m t)\<rparr>
      in (t\<lparr>table_count_m := table_count_m t - 1\<rparr>, s))"

definition RemoveHandle_value ::
  "zx_handle \<Rightarrow> HandleTable \<times> hstate \<Rightarrow> nat option \<times> HandleTable \<times> hstate" where
  "RemoveHandle_value handle_value ts =
     (let (handle, t) = GetHandleLocked handle_value False (fst ts) (snd ts) in
      case handle of
        None \<Rightarrow> (None, t, snd ts)
      | Some h \<Rightarrow> (Some h, RemoveHandleLocked h (t, snd ts)))"

definition delete_owned :: "nat \<Rightarrow> HandleTable \<times> hstate \<Rightarrow> HandleTable \<times> hstate" where
  "delete_owned handle ts = (fst ts, HandleTableArena_Delete handle (snd ts))"

fun RemoveHandles_loop ::
  "zx_status \<Rightarrow> zx_handle list \<Rightarrow> HandleTable \<times> hstate \<Rightarrow> zx_status \<times> HandleTable \<times> hstate" where
  "RemoveHandles_loop status [] ts = (status, ts)"
| "RemoveHandles_loop status (handle_value # rest) ts =
     (if handle_value = ZX_HANDLE_INVALID then RemoveHandles_loop status rest ts
      else case RemoveHandle_value handle_value ts of
             (None, ts) \<Rightarrow> RemoveHandles_loop ZX_ERR_BAD_HANDLE rest ts
           | (Some h, ts) \<Rightarrow> RemoveHandles_loop status rest (delete_owned h ts))"

definition RemoveHandles ::
  "zx_handle list \<Rightarrow> HandleTable \<times> hstate \<Rightarrow> zx_status \<times> HandleTable \<times> hstate" where
  "RemoveHandles handles ts = RemoveHandles_loop ZX_OK handles ts"

definition HandleTable_Clean :: "HandleTable \<times> hstate \<Rightarrow> HandleTable \<times> hstate" where
  "HandleTable_Clean ts =
     (let (t, s) = ts;
          t = t\<lparr>cursors_m := map HandleCursor_Invalidate (cursors_m t)\<rparr>;
          s = fold (\<lambda>h. set_process_id h ZX_KOID_INVALID) (handles_m t) s;
          t = t\<lparr>table_count_m := 0\<rparr>;
          to_clean = handles_m t;
          t = t\<lparr>handles_m := []\<rparr>
      in (t, fold HandleTableArena_Delete to_clean s))"

subsection \<open>Lookups\<close>

text \<open>\<open>type = None\<close> is the instance for \<open>T = Dispatcher\<close>, to which every dispatcher downcasts.\<close>

definition DownCastDispatcher :: "zx_obj_type option \<Rightarrow> zx_koid \<Rightarrow> hstate \<Rightarrow> zx_koid option" where
  "DownCastDispatcher type disp s =
     (if type = None \<or> type = Some (type_m (dispatchers_m s disp)) then Some disp else None)"

definition GetDispatcherInternal ::
  "zx_handle \<Rightarrow> HandleTable \<Rightarrow> hstate \<Rightarrow> zx_status \<times> (zx_koid \<times> zx_rights) option \<times> HandleTable" where
  "GetDispatcherInternal handle_value t s =
     (let (handle, t) = GetHandleLocked handle_value False t s in
      case handle of
        None \<Rightarrow> (ZX_ERR_BAD_HANDLE, None, t)
      | Some h \<Rightarrow> (ZX_OK, Some (the (dispatcher_m (slots_m s h)), rights_m (slots_m s h)), t))"

definition GetDispatcherAndRights ::
  "zx_obj_type option \<Rightarrow> zx_handle \<Rightarrow> HandleTable \<Rightarrow> hstate
     \<Rightarrow> zx_status \<times> (zx_koid \<times> zx_rights) option \<times> HandleTable" where
  "GetDispatcherAndRights type handle_value t s =
     (let (status, out, t) = GetDispatcherInternal handle_value t s in
      if status \<noteq> ZX_OK then (status, None, t)
      else case DownCastDispatcher type (fst (the out)) s of
             None \<Rightarrow> (ZX_ERR_WRONG_TYPE, None, t)
           | Some d \<Rightarrow> (ZX_OK, Some (d, snd (the out)), t))"

definition GetDispatcherWithRightsImpl ::
  "zx_obj_type option \<Rightarrow> zx_handle \<Rightarrow> zx_rights \<Rightarrow> bool \<Rightarrow> HandleTable \<Rightarrow> hstate
     \<Rightarrow> zx_status \<times> (zx_koid \<times> zx_rights) option \<times> HandleTable" where
  "GetDispatcherWithRightsImpl type handle_value desired_rights skip_policy t s =
     (let (handle, t) = GetHandleLocked handle_value skip_policy t s in
      case handle of
        None \<Rightarrow> (ZX_ERR_BAD_HANDLE, None, t)
      | Some h \<Rightarrow>
          let has_desired_rights = HasRights desired_rights (slots_m s h);
              rights = rights_m (slots_m s h)
          in case DownCastDispatcher type (the (dispatcher_m (slots_m s h))) s of
               None \<Rightarrow> (ZX_ERR_WRONG_TYPE, None, t)
             | Some d \<Rightarrow>
                 if \<not> has_desired_rights then (ZX_ERR_ACCESS_DENIED, None, t)
                 else (ZX_OK, Some (d, rights), t))"

definition GetKoidForHandle :: "zx_handle \<Rightarrow> HandleTable \<Rightarrow> hstate \<Rightarrow> zx_koid \<times> HandleTable" where
  "GetKoidForHandle handle_value t s =
     (let (handle, t) = GetHandleLocked handle_value False t s in
      case handle of
        None \<Rightarrow> (ZX_KOID_INVALID, t)
      | Some h \<Rightarrow> (koid_m (dispatchers_m s (the (dispatcher_m (slots_m s h)))), t))"

definition IsHandleValid :: "zx_handle \<Rightarrow> HandleTable \<Rightarrow> hstate \<Rightarrow> bool \<times> HandleTable" where
  "IsHandleValid handle_value t s =
     (let (handle, t) = GetHandleLocked handle_value False t s in (handle \<noteq> None, t))"

subsection \<open>Handles in user arrays\<close>

definition ZX_HANDLE_OP_MOVE :: "32 word" where [zx_consts]: "ZX_HANDLE_OP_MOVE = 0"
definition ZX_HANDLE_OP_DUPLICATE :: "32 word" where [zx_consts]: "ZX_HANDLE_OP_DUPLICATE = 1"
definition kMaxMessageHandles :: nat where "kMaxMessageHandles = 64"

record zx_handle_disposition =
  hd_operation :: "32 word"
  hd_handle :: zx_handle
  hd_type :: "32 word"
  hd_rights :: zx_rights
  hd_result :: zx_status

definition handle_checks_locked ::
  "nat option \<Rightarrow> zx_koid option \<Rightarrow> 32 word \<Rightarrow> zx_rights \<Rightarrow> 32 word \<Rightarrow> hstate \<Rightarrow> zx_status" where
  "handle_checks_locked handle channel operation desired_rights type s =
     (case handle of
        None \<Rightarrow> ZX_ERR_BAD_HANDLE
      | Some h \<Rightarrow>
          let hd = slots_m s h in
          if \<not> HasRights ZX_RIGHT_TRANSFER hd then ZX_ERR_ACCESS_DENIED
          else if dispatcher_m hd = channel then ZX_ERR_NOT_SUPPORTED
          else if type \<noteq> zx_obj_type_code ZX_OBJ_TYPE_NONE \<and>
                  zx_obj_type_code (type_m (dispatchers_m s (the (dispatcher_m hd)))) \<noteq> type
          then ZX_ERR_WRONG_TYPE
          else if operation \<noteq> ZX_HANDLE_OP_MOVE \<and> operation \<noteq> ZX_HANDLE_OP_DUPLICATE
          then ZX_ERR_INVALID_ARGS
          else if desired_rights \<noteq> ZX_RIGHT_SAME_RIGHTS \<and> rights_m hd AND desired_rights \<noteq> desired_rights
          then ZX_ERR_INVALID_ARGS
          else if operation = ZX_HANDLE_OP_DUPLICATE \<and> \<not> HasRights ZX_RIGHT_DUPLICATE hd
          then ZX_ERR_ACCESS_DENIED
          else ZX_OK)"

text \<open>The array the handles are copied to is a local of the caller: entries that are not written
  keep what they had, at first what the compiler fills it with.\<close>

definition get_user_handles_to_consume ::
  "(nat \<Rightarrow> zx_handle option) \<Rightarrow> nat \<Rightarrow> nat \<Rightarrow> zx_handle list \<Rightarrow> zx_status \<times> zx_handle list" where
  "get_user_handles_to_consume user_handles offset chunk_size handles =
     (case copy_array_from_user user_handles offset chunk_size of
        None \<Rightarrow> (ZX_ERR_INVALID_ARGS, handles)
      | Some hs \<Rightarrow> (ZX_OK, write_at 0 hs handles))"

fun consume_dispositions :: "zx_handle_disposition list \<Rightarrow> zx_handle list \<Rightarrow> zx_handle list" where
  "consume_dispositions (d # ds) (h # hs) =
     (if hd_operation d \<noteq> ZX_HANDLE_OP_DUPLICATE then hd_handle d else h) # consume_dispositions ds hs"
| "consume_dispositions _ hs = hs"

definition get_user_dispositions_to_consume ::
  "(nat \<Rightarrow> zx_handle_disposition option) \<Rightarrow> nat \<Rightarrow> nat \<Rightarrow> zx_handle list \<Rightarrow> zx_status \<times> zx_handle list" where
  "get_user_dispositions_to_consume user_handles offset chunk_size handles =
     (let chunk_size = min chunk_size kMaxMessageHandles in
      case copy_array_from_user user_handles offset chunk_size of
        None \<Rightarrow> (ZX_ERR_INVALID_ARGS, handles)
      | Some ds \<Rightarrow> (ZX_OK, consume_dispositions ds handles))"

text \<open>\<open>get\<close> is the overload of \<open>get_user_handles_to_consume\<close> the template is used with.\<close>

function RemoveUserHandles_loop ::
  "(nat \<Rightarrow> nat \<Rightarrow> zx_handle list \<Rightarrow> zx_status \<times> zx_handle list) \<Rightarrow> nat \<Rightarrow> nat \<Rightarrow> zx_status
     \<Rightarrow> zx_handle list \<Rightarrow> HandleTable \<times> hstate \<Rightarrow> zx_status \<times> HandleTable \<times> hstate" where
  "RemoveUserHandles_loop get num_handles offset status handles ts =
     (if offset < num_handles
      then let chunk_size = min (num_handles - offset) kMaxMessageHandles;
               (status, handles) = get offset chunk_size handles
           in if status \<noteq> ZX_OK then (status, ts)
              else let (status, ts) = RemoveHandles (take chunk_size handles) ts
                   in RemoveUserHandles_loop get num_handles (offset + chunk_size) status handles ts
      else (status, ts))"
  by pat_completeness auto
termination
  by (relation "measure (\<lambda>(_, n, off, _). n - off)") (auto simp: kMaxMessageHandles_def)

declare RemoveUserHandles_loop.simps [simp del]

definition RemoveUserHandles ::
  "zx_handle list \<Rightarrow> (nat \<Rightarrow> nat \<Rightarrow> zx_handle list \<Rightarrow> zx_status \<times> zx_handle list) \<Rightarrow> nat
     \<Rightarrow> HandleTable \<times> hstate \<Rightarrow> zx_status \<times> HandleTable \<times> hstate" where
  "RemoveUserHandles stack get num_handles ts =
     RemoveUserHandles_loop get num_handles 0 ZX_OK stack ts"

text \<open>
  The two overloads of \<open>get_handle_for_message_locked\<close>. The second also returns the disposition,
  whose \<open>result\<close> it sets when the checks fail.
\<close>

definition get_handle_for_message_locked ::
  "zx_koid option \<Rightarrow> zx_handle \<Rightarrow> HandleTable \<times> hstate \<Rightarrow> (zx_status + nat) \<times> HandleTable \<times> hstate" where
  "get_handle_for_message_locked channel handle_val ts =
     (let s = snd ts;
          (source, t) = GetHandleLocked handle_val False (fst ts) s;
          status = handle_checks_locked source channel ZX_HANDLE_OP_MOVE ZX_RIGHT_SAME_RIGHTS
                     (zx_obj_type_code ZX_OBJ_TYPE_NONE) s
      in if status \<noteq> ZX_OK then (Inl status, t, s)
         else (Inr (the source), RemoveHandleLocked (the source) (t, s)))"

definition get_disposition_for_message_locked ::
  "bool \<Rightarrow> zx_koid option \<Rightarrow> zx_handle_disposition \<Rightarrow> HandleTable \<times> hstate
     \<Rightarrow> (zx_status + nat) \<times> zx_handle_disposition \<times> HandleTable \<times> hstate" where
  "get_disposition_for_message_locked map_ok channel d ts =
     (let s = snd ts;
          (source, t) = GetHandleLocked (hd_handle d) False (fst ts) s;
          operation = hd_operation d;
          desired_rights = hd_rights d;
          status = handle_checks_locked source channel operation desired_rights (hd_type d) s
      in if status \<noteq> ZX_OK then (Inl status, d\<lparr>hd_result := status\<rparr>, t, s)
         else if operation = ZX_HANDLE_OP_MOVE \<and> desired_rights = ZX_RIGHT_SAME_RIGHTS
         then (Inr (the source), d, RemoveHandleLocked (the source) (t, s))
         else
           let dest_rights = (if desired_rights = ZX_RIGHT_SAME_RIGHTS
                              then rights_m (slots_m s (the source)) else desired_rights);
               (raw_handle, s) = Handle_Dup map_ok (the source) dest_rights s
           in case raw_handle of
                None \<Rightarrow> (Inl ZX_ERR_NO_MEMORY, d, t, s)
              | Some h \<Rightarrow>
                  if operation \<noteq> ZX_HANDLE_OP_DUPLICATE
                  then (Inr h, d, delete_owned (the source) (RemoveHandleLocked (the source) (t, s)))
                  else (Inr h, d, t, s))"

subsection \<open>Handle system calls\<close>

definition sys_handle_close :: "zx_handle \<Rightarrow> HandleTable \<times> hstate \<Rightarrow> zx_status \<times> HandleTable \<times> hstate" where
  "sys_handle_close handle_value ts =
     (if handle_value = ZX_HANDLE_INVALID then (ZX_OK, ts)
      else case RemoveHandle_value handle_value ts of
             (None, ts) \<Rightarrow> (ZX_ERR_BAD_HANDLE, ts)
           | (Some h, ts) \<Rightarrow> (ZX_OK, delete_owned h ts))"

definition sys_handle_close_many ::
  "zx_handle list \<Rightarrow> (nat \<Rightarrow> zx_handle option) \<Rightarrow> nat \<Rightarrow> HandleTable \<times> hstate
     \<Rightarrow> zx_status \<times> HandleTable \<times> hstate" where
  "sys_handle_close_many stack handles num_handles ts =
     RemoveUserHandles stack (get_user_handles_to_consume handles) num_handles ts"

text \<open>\<open>user_out_handle\<close> is the handle \<open>h_\<close> it owns.\<close>

definition user_out_handle_dup ::
  "bool \<Rightarrow> nat \<Rightarrow> zx_rights \<Rightarrow> hstate \<Rightarrow> zx_status \<times> nat option \<times> hstate" where
  "user_out_handle_dup map_ok source rights s =
     (let (h, s) = Handle_Dup map_ok source rights s in
      (if h \<noteq> None then ZX_OK else ZX_ERR_NO_MEMORY, h, s))"

definition user_out_handle_make ::
  "bool \<Rightarrow> zx_koid \<Rightarrow> zx_rights \<Rightarrow> hstate \<Rightarrow> zx_status \<times> nat option \<times> hstate" where
  "user_out_handle_make map_ok dispatcher rights s =
     (let (h, s) = Handle_Make map_ok dispatcher rights s in
      (if h \<noteq> None then ZX_OK else ZX_ERR_NO_MEMORY, h, s))"

definition user_out_handle_begin_copyout :: "nat option \<Rightarrow> HandleTable \<times> hstate \<Rightarrow> zx_handle option" where
  "user_out_handle_begin_copyout out ts =
     (case out of None \<Rightarrow> None | Some h \<Rightarrow> Some (MapHandleToValue h (fst ts) (snd ts)))"

definition user_out_handle_finish_copyout ::
  "nat option \<Rightarrow> HandleTable \<times> hstate \<Rightarrow> HandleTable \<times> hstate" where
  "user_out_handle_finish_copyout out ts =
     (case out of None \<Rightarrow> ts | Some h \<Rightarrow> AddHandleLocked h ts)"

definition handle_dup_replace ::
  "bool \<Rightarrow> bool \<Rightarrow> zx_handle \<Rightarrow> zx_rights \<Rightarrow> HandleTable \<times> hstate
     \<Rightarrow> zx_status \<times> nat option \<times> HandleTable \<times> hstate" where
  "handle_dup_replace map_ok is_replace handle_value rights ts =
     (let s = snd ts;
          (source, t) = GetHandleLocked handle_value False (fst ts) s
      in case source of
           None \<Rightarrow> (ZX_ERR_BAD_HANDLE, None, t, s)
         | Some source \<Rightarrow>
             if \<not> is_replace \<and> \<not> HasRights ZX_RIGHT_DUPLICATE (slots_m s source)
             then (ZX_ERR_ACCESS_DENIED, None, t, s)
             else if rights \<noteq> ZX_RIGHT_SAME_RIGHTS \<and> rights_m (slots_m s source) AND rights \<noteq> rights
             then (ZX_ERR_INVALID_ARGS, None,
                   if is_replace then delete_owned source (RemoveHandleLocked source (t, s)) else (t, s))
             else
               let rights = (if rights = ZX_RIGHT_SAME_RIGHTS then rights_m (slots_m s source) else rights);
                   (status, out, s) = user_out_handle_dup map_ok source rights s
               in (status, out,
                   if is_replace then delete_owned source (RemoveHandleLocked source (t, s)) else (t, s)))"

definition sys_handle_duplicate ::
  "bool \<Rightarrow> zx_handle \<Rightarrow> zx_rights \<Rightarrow> HandleTable \<times> hstate \<Rightarrow> zx_status \<times> nat option \<times> HandleTable \<times> hstate" where
  "sys_handle_duplicate map_ok handle_value rights ts = handle_dup_replace map_ok False handle_value rights ts"

definition sys_handle_replace ::
  "bool \<Rightarrow> zx_handle \<Rightarrow> zx_rights \<Rightarrow> HandleTable \<times> hstate \<Rightarrow> zx_status \<times> nat option \<times> HandleTable \<times> hstate" where
  "sys_handle_replace map_ok handle_value rights ts = handle_dup_replace map_ok True handle_value rights ts"

subsection \<open>Handle values round trip\<close>

lemma kHandleMustBeOneMask_eq: "kHandleMustBeOneMask = mask 2"
  by (simp add: kHandleMustBeOneMask_def kHandleReservedBits_def mask_eq_exp_minus_1)

text \<open>The low two bits of the mixer are clear, and so are the two reserved bits of a base value.\<close>

definition mixer_ok :: "32 word \<Rightarrow> bool" where
  "mixer_ok mixer \<longleftrightarrow> take_bit 2 mixer = 0"

lemma mixer_ok_new: "mixer_ok (random_value_m (HandleTable_new p secret))"
  by (simp add: mixer_ok_def HandleTable_new_def kHandleReservedBits_def take_bit_push_bit)

lemma handle_value_fixed_bits:
  assumes "mixer_ok mixer"
  shows "map_handle_to_value h mixer AND kHandleMustBeOneMask = kHandleMustBeOneMask"
proof (rule bit_word_eqI)
  fix n assume n: "n < LENGTH(32)"
  have "n < 2 \<Longrightarrow> \<not> bit mixer n"
    using assms unfolding mixer_ok_def by (metis bit_take_bit_iff bit_0_eq bot_apply bot_bool_def)
  then show "bit (map_handle_to_value h mixer AND kHandleMustBeOneMask) n = bit kHandleMustBeOneMask n"
    using n by (auto simp: map_handle_to_value_def kHandleMustBeOneMask_eq Let_def bit_simps)
qed

lemma handle_value_base:
  assumes "base_value_m h AND kHandleReservedBitsMask = 0"
  shows "drop_bit kHandleReservedBits (map_handle_to_value h mixer XOR mixer) = base_value_m h"
proof (rule bit_word_eqI)
  fix n assume n: "n < LENGTH(32)"
  have res: "kHandleReservedBitsMask = push_bit 30 (mask 2)"
    by (simp add: kHandleReservedBitsMask_def kHandleReservedBits_def mask_eq_exp_minus_1)
  have "bit (base_value_m h AND push_bit 30 (mask 2)) n = bit (base_value_m h) n" if "30 \<le> n"
    using n that by (auto simp: bit_simps)
  then have "\<not> bit (base_value_m h) n" if "30 \<le> n"
    using that assms unfolding res by simp
  then show "bit (drop_bit kHandleReservedBits (map_handle_to_value h mixer XOR mixer)) n = bit (base_value_m h) n"
    using n by (auto simp: map_handle_to_value_def kHandleMustBeOneMask_eq kHandleReservedBits_def Let_def bit_simps)
qed

lemma handle_value_unique:
  assumes "mixer_ok mixer" "value AND kHandleMustBeOneMask = kHandleMustBeOneMask"
    and "drop_bit kHandleReservedBits (value XOR mixer) = base_value_m h"
  shows "value = map_handle_to_value h mixer"
proof (rule bit_word_eqI)
  fix n assume n: "n < LENGTH(32)"
  show "bit value n = bit (map_handle_to_value h mixer) n"
  proof (cases "n < 2")
    case True
    have "bit (value AND kHandleMustBeOneMask) n = bit kHandleMustBeOneMask n"
      "bit (map_handle_to_value h mixer AND kHandleMustBeOneMask) n = bit kHandleMustBeOneMask n"
      using assms(2) handle_value_fixed_bits [OF assms(1)] by simp_all
    then show ?thesis using True n by (simp add: kHandleMustBeOneMask_eq bit_simps)
  next
    case False
    define m where "m = n - 2"
    have m: "n = Suc (Suc m)" using False by (simp add: m_def)
    then have "bit (drop_bit kHandleReservedBits (value XOR mixer)) m = (bit value n \<noteq> bit mixer n)"
      using n by (simp add: kHandleReservedBits_def bit_simps)
    then have "bit value n = (bit (base_value_m h) m \<noteq> bit mixer n)"
      using assms(3) by auto
    then show ?thesis using m n
      by (auto simp: map_handle_to_value_def kHandleMustBeOneMask_eq kHandleReservedBits_def Let_def bit_simps)
  qed
qed

lemma FromU32_Some: "FromU32 v s = Some i \<Longrightarrow> base_value_m (slots_m s i) = v"
  by (auto simp: FromU32_def Let_def split: if_splits)

lemma map_value_to_handle_iff:
  assumes "hs_inv s" "mixer_ok mixer" "i \<in> live (arena_m s)"
  shows "map_value_to_handle v mixer s = Some i \<longleftrightarrow> v = map_handle_to_value (slots_m s i) mixer"
proof
  assume "map_value_to_handle v mixer s = Some i"
  then have "v AND kHandleMustBeOneMask = kHandleMustBeOneMask"
    "FromU32 (drop_bit kHandleReservedBits (v XOR mixer)) s = Some i"
    by (auto simp: map_value_to_handle_def split: if_splits)
  then show "v = map_handle_to_value (slots_m s i) mixer"
    using handle_value_unique [OF assms(2)] by (metis FromU32_Some)
next
  assume v: "v = map_handle_to_value (slots_m s i) mixer"
  have "slot_value_ok i (base_value_m (slots_m s i))"
    using assms(1,3) unfolding hs_inv_def live_def by blast
  then have "drop_bit kHandleReservedBits (v XOR mixer) = base_value_m (slots_m s i)"
    unfolding v slot_value_ok_def by (intro handle_value_base) blast
  then show "map_value_to_handle v mixer s = Some i"
    using FromU32_live [OF assms(1,3)] handle_value_fixed_bits [OF assms(2)]
    by (simp add: map_value_to_handle_def v)
qed

subsection \<open>The table invariant\<close>

text \<open>A slot that carries the koid of a process holds a handle.\<close>

definition heap_inv :: "hstate \<Rightarrow> bool" where
  "heap_inv s \<longleftrightarrow> hs_inv s \<and>
     (\<forall>i. process_id_m (slots_m s i) \<noteq> ZX_KOID_INVALID \<longrightarrow> dispatcher_m (slots_m s i) \<noteq> None)"

definition table_inv :: "HandleTable \<Rightarrow> hstate \<Rightarrow> bool" where
  "table_inv t s \<longleftrightarrow>
     heap_inv s \<and> process_m t \<noteq> ZX_KOID_INVALID \<and> mixer_ok (random_value_m t) \<and>
     distinct (handles_m t) \<and> unat (table_count_m t) = length (handles_m t) \<and>
     set (handles_m t) = {i. process_id_m (slots_m s i) = process_m t}"

lemma table_inv_disp: "table_inv t s \<Longrightarrow> i \<in> set (handles_m t) \<Longrightarrow> dispatcher_m (slots_m s i) \<noteq> None"
  unfolding table_inv_def heap_inv_def by auto

lemma table_inv_hs: "table_inv t s \<Longrightarrow> hs_inv s"
  by (simp add: table_inv_def heap_inv_def)

lemma table_inv_heap: "table_inv t s \<Longrightarrow> heap_inv s"
  by (simp add: table_inv_def)

lemma table_inv_live: "table_inv t s \<Longrightarrow> i \<in> set (handles_m t) \<Longrightarrow> i \<in> live (arena_m s)"
  using table_inv_disp table_inv_hs unfolding hs_inv_def by blast

lemma GetHandleLocked_iff:
  assumes "table_inv t s"
  shows "fst (GetHandleLocked v skip t s) = Some i \<longleftrightarrow> i \<in> set (handles_m t) \<and> v = MapHandleToValue i t s"
proof -
  have "fst (GetHandleLocked v skip t s) = Some i \<longleftrightarrow>
      map_value_to_handle v (random_value_m t) s = Some i \<and> process_id_m (slots_m s i) = process_m t"
    by (auto simp: GetHandleLocked_def Let_def split: option.splits)
  also have "\<dots> \<longleftrightarrow> i \<in> set (handles_m t) \<and> map_value_to_handle v (random_value_m t) s = Some i"
    using assms by (auto simp: table_inv_def)
  also have "\<dots> \<longleftrightarrow> i \<in> set (handles_m t) \<and> v = MapHandleToValue i t s"
    using map_value_to_handle_iff [OF table_inv_hs [OF assms]] table_inv_live [OF assms] assms
    unfolding MapHandleToValue_def table_inv_def by blast
  finally show ?thesis .
qed

lemma GetHandleLocked_table:
  "GetHandleLocked v skip t s = (h, t') \<Longrightarrow> \<exists>n. t' = t\<lparr>policy_calls_m := n\<rparr>"
  by (auto simp: GetHandleLocked_def Let_def split: if_splits intro: exI [of _ "policy_calls_m t"])

lemma table_inv_policy [simp]: "table_inv (t\<lparr>policy_calls_m := n\<rparr>) s = table_inv t s"
  by (simp add: table_inv_def)

text \<open>What an operation of the table of process \<open>p\<close> may do to the slots.\<close>

definition slots_frame :: "zx_koid \<Rightarrow> hstate \<Rightarrow> hstate \<Rightarrow> bool" where
  "slots_frame p s s' \<longleftrightarrow> heap_inv s' \<and>
     (\<forall>i. slots_m s' i = slots_m s i \<or>
          process_id_m (slots_m s i) \<in> {ZX_KOID_INVALID, p} \<and> process_id_m (slots_m s' i) \<in> {ZX_KOID_INVALID, p})"

lemma slots_frame_refl: "heap_inv s \<Longrightarrow> slots_frame p s s"
  by (simp add: slots_frame_def)

lemma slots_frame_trans: "slots_frame p s s' \<Longrightarrow> slots_frame p s' s'' \<Longrightarrow> slots_frame p s s''"
  unfolding slots_frame_def by metis

lemma table_inv_other:
  assumes "table_inv t s" "slots_frame p s s'" "process_m t \<noteq> p"
  shows "table_inv t s'" "\<And>i. i \<in> set (handles_m t) \<Longrightarrow> slots_m s' i = slots_m s i"
proof -
  show same: "slots_m s' i = slots_m s i" if "i \<in> set (handles_m t)" for i
  proof -
    have "process_id_m (slots_m s i) = process_m t" "process_m t \<noteq> ZX_KOID_INVALID"
      using assms(1) that by (auto simp: table_inv_def)
    with assms(2,3) show ?thesis unfolding slots_frame_def by (metis insertE singletonD)
  qed
  have "process_id_m (slots_m s' i) = process_m t \<longleftrightarrow> process_id_m (slots_m s i) = process_m t" for i
    using assms unfolding slots_frame_def table_inv_def by (metis insertE singletonD)
  then show "table_inv t s'" using assms same unfolding table_inv_def slots_frame_def by simp
qed

text \<open>An operation of a table that keeps the invariant and stays within its own slots.\<close>

definition table_ok :: "HandleTable \<times> hstate \<Rightarrow> HandleTable \<times> hstate \<Rightarrow> bool" where
  "table_ok ts ts' \<longleftrightarrow>
     table_inv (fst ts') (snd ts') \<and> process_m (fst ts') = process_m (fst ts) \<and>
     random_value_m (fst ts') = random_value_m (fst ts) \<and>
     slots_frame (process_m (fst ts)) (snd ts) (snd ts')"

lemma table_ok_trans: "table_ok a b \<Longrightarrow> table_ok b c \<Longrightarrow> table_ok a c"
  using slots_frame_trans by (fastforce simp: table_ok_def)

lemma table_ok_refl: "table_inv t s \<Longrightarrow> table_ok (t, s) (t\<lparr>policy_calls_m := n\<rparr>, s)"
  by (simp add: table_ok_def slots_frame_refl table_inv_heap)

lemma table_ok_inv: "table_ok ts (t', s') \<Longrightarrow> table_inv t' s'"
  by (simp add: table_ok_def)

lemma length_handles:
  assumes "table_inv t s" shows "length (handles_m t) \<le> kMaxHandleCount"
proof -
  have "set (handles_m t) \<subseteq> {..<kMaxHandleCount}"
    using table_inv_live [OF assms] live_less table_inv_hs [OF assms] unfolding hs_inv_def by blast
  moreover have "card (set (handles_m t)) = length (handles_m t)"
    using assms unfolding table_inv_def by (blast intro: distinct_card)
  ultimately show ?thesis by (metis card_lessThan card_mono finite_lessThan)
qed

lemma slots_set_process_id:
  "slots_m (set_process_id i p s) = (slots_m s)(i := (slots_m s i)\<lparr>process_id_m := p\<rparr>)"
  by (simp add: set_process_id_def)

lemma hs_inv_set_process_id: "hs_inv (set_process_id i p s) = hs_inv s"
proof -
  have "handles_of k (set_process_id i p s) = handles_of k s" for k
    by (auto simp: handles_of_def slots_set_process_id)
  moreover have "dispatcher_m (slots_m (set_process_id i p s) j) = dispatcher_m (slots_m s j)"
    "base_value_m (slots_m (set_process_id i p s) j) = base_value_m (slots_m s j)" for j
    by (auto simp: slots_set_process_id)
  ultimately show ?thesis by (simp add: hs_inv_def) (simp add: set_process_id_def)
qed

lemma heap_inv_set_process_id:
  "heap_inv s \<Longrightarrow> dispatcher_m (slots_m s i) \<noteq> None \<Longrightarrow> heap_inv (set_process_id i p s)"
  by (auto simp: heap_inv_def hs_inv_set_process_id slots_set_process_id)

lemma AddHandleLocked_ok:
  assumes "table_inv t s" "process_id_m (slots_m s i) = ZX_KOID_INVALID" "dispatcher_m (slots_m s i) \<noteq> None"
  shows "table_ok (t, s) (AddHandleLocked i (t, s))"
proof -
  let ?s = "set_process_id i (process_m t) s"
  have "i \<notin> set (handles_m t)" using assms by (auto simp: table_inv_def)
  moreover have "unat (table_count_m t + 1) = Suc (length (handles_m t))"
    using assms(1) length_handles [OF assms(1)] by (intro unat_count_inc) (auto simp: table_inv_def)
  ultimately have "table_inv (fst (AddHandleLocked i (t, s))) ?s"
    using assms unfolding table_inv_def
    by (auto simp: AddHandleLocked_def heap_inv_set_process_id slots_set_process_id)
  moreover have "slots_frame (process_m t) s ?s"
    using assms by (auto simp: slots_frame_def heap_inv_set_process_id slots_set_process_id table_inv_def)
  ultimately show ?thesis by (simp add: table_ok_def AddHandleLocked_def)
qed

lemma RemoveHandleLocked_ok:
  assumes "table_inv t s" "i \<in> set (handles_m t)"
  shows "table_ok (t, s) (RemoveHandleLocked i (t, s))"
    "snd (RemoveHandleLocked i (t, s)) = set_process_id i ZX_KOID_INVALID s"
    "handles_m (fst (RemoveHandleLocked i (t, s))) = remove1 i (handles_m t)"
proof -
  let ?s = "set_process_id i ZX_KOID_INVALID s"
  note heap = heap_inv_set_process_id [OF table_inv_heap [OF assms(1)] table_inv_disp [OF assms]]
  show state: "snd (RemoveHandleLocked i (t, s)) = ?s"
    "handles_m (fst (RemoveHandleLocked i (t, s))) = remove1 i (handles_m t)"
    by (simp_all add: RemoveHandleLocked_def Let_def)
  have "unat (table_count_m t - 1) = length (handles_m t) - 1"
    using assms by (intro unat_count_dec) (auto simp: table_inv_def length_pos_if_in_set)
  then have "table_inv (fst (RemoveHandleLocked i (t, s))) ?s"
    using assms heap unfolding table_inv_def
    by (auto simp: RemoveHandleLocked_def Let_def slots_set_process_id length_remove1)
  moreover have "slots_frame (process_m t) s ?s"
    using assms heap by (auto simp: slots_frame_def slots_set_process_id table_inv_def)
  ultimately show "table_ok (t, s) (RemoveHandleLocked i (t, s))"
    by (simp add: table_ok_def RemoveHandleLocked_def Let_def)
qed

lemma slots_Delete:
  "dispatcher_m (slots_m s i) \<noteq> None \<Longrightarrow>
   slots_m (HandleTableArena_Delete i s) = (slots_m s)(i := (slots_m s i)\<lparr>dispatcher_m := None\<rparr>)"
  using Delete_dispatchers(2) by blast

lemma hs_inv_Delete: "hs_inv s \<Longrightarrow> dispatcher_m (slots_m s i) \<noteq> None \<Longrightarrow> hs_inv (HandleTableArena_Delete i s)"
  using delete_handle_inv(1) by blast

lemma delete_owned_ok:
  assumes "table_inv t s" "process_id_m (slots_m s i) = ZX_KOID_INVALID" "dispatcher_m (slots_m s i) \<noteq> None"
  shows "table_ok (t, s) (delete_owned i (t, s))"
proof -
  have "i \<notin> set (handles_m t)" "heap_inv s" using assms by (auto simp: table_inv_def)
  then have "table_inv t (HandleTableArena_Delete i s)" "slots_frame (process_m t) s (HandleTableArena_Delete i s)"
    using assms hs_inv_Delete [OF _ assms(3)] unfolding table_inv_def slots_frame_def heap_inv_def
    by (auto simp: slots_Delete)
  then show ?thesis by (simp add: table_ok_def delete_owned_def)
qed

text \<open>Closing a handle of the table.\<close>

lemma remove_and_delete_ok:
  assumes "table_inv t s" "i \<in> set (handles_m t)"
  shows "table_ok (t, s) (delete_owned i (RemoveHandleLocked i (t, s)))"
    "handles_m (fst (delete_owned i (RemoveHandleLocked i (t, s)))) = remove1 i (handles_m t)"
proof -
  obtain t' s' where r: "RemoveHandleLocked i (t, s) = (t', s')" by fastforce
  note ok = RemoveHandleLocked_ok [OF assms, unfolded r, simplified]
  have "dispatcher_m (slots_m s i) \<noteq> None" using assms by (rule table_inv_disp)
  then have "table_ok (t', s') (delete_owned i (t', s'))"
    using ok(1,2) by (intro delete_owned_ok) (auto simp: table_ok_def slots_set_process_id)
  with ok(1) show "table_ok (t, s) (delete_owned i (RemoveHandleLocked i (t, s)))"
    unfolding r by (rule table_ok_trans)
  show "handles_m (fst (delete_owned i (RemoveHandleLocked i (t, s)))) = remove1 i (handles_m t)"
    using ok(3) by (simp add: delete_owned_def r)
qed

text \<open>A lookup changes nothing but the count of policy calls.\<close>

lemma GetHandleLocked_ok:
  assumes "table_inv t s" "GetHandleLocked v skip t s = (h, t')"
  shows "table_ok (t, s) (t', s)" "table_inv t' s" "handles_m t' = handles_m t"
    "\<And>i. h = Some i \<Longrightarrow> i \<in> set (handles_m t')"
proof -
  from GetHandleLocked_table [OF assms(2)] obtain n where t': "t' = t\<lparr>policy_calls_m := n\<rparr>" by blast
  show "table_ok (t, s) (t', s)" "table_inv t' s" "handles_m t' = handles_m t"
    using assms(1) table_ok_refl by (simp_all add: t')
  show "i \<in> set (handles_m t')" if "h = Some i" for i
    using GetHandleLocked_iff [OF assms(1), of v skip i] assms(2) that by (simp add: t')
qed

lemma RemoveHandle_value_ok:
  assumes "table_inv t s" "RemoveHandle_value v (t, s) = (h, ts')"
  shows "table_ok (t, s) (case h of None \<Rightarrow> ts' | Some i \<Rightarrow> delete_owned i ts')"
proof -
  obtain h' t' where g: "GetHandleLocked v False t s = (h', t')" by fastforce
  note get = GetHandleLocked_ok [OF assms(1) g]
  show ?thesis
  proof (cases h')
    case None
    then show ?thesis using assms(2) g get by (auto simp: RemoveHandle_value_def)
  next
    case (Some i)
    then show ?thesis
      using assms(2) g table_ok_trans [OF get(1) remove_and_delete_ok(1) [OF get(2) get(4)]]
      by (auto simp: RemoveHandle_value_def)
  qed
qed

lemma RemoveHandles_loop_ok:
  "table_inv t s \<Longrightarrow> table_ok (t, s) (snd (RemoveHandles_loop status vs (t, s)))"
proof (induction vs arbitrary: status t s)
  case Nil
  then show ?case using table_ok_refl [of t s "policy_calls_m t"] by simp
next
  case (Cons v vs)
  obtain h ts' where r: "RemoveHandle_value v (t, s) = (h, ts')" by (rule prod.exhaust)
  note step = RemoveHandle_value_ok [OF Cons.prems r]
  show ?case
  proof (cases "v = ZX_HANDLE_INVALID")
    case True
    then show ?thesis using Cons by simp
  next
    case False
    obtain t2 s2 where n: "(case h of None \<Rightarrow> ts' | Some i \<Rightarrow> delete_owned i ts') = (t2, s2)" by fastforce
    have "table_ok (t2, s2) (snd (RemoveHandles_loop st vs (t2, s2)))" for st
      using step unfolding n by (intro Cons.IH) (simp add: table_ok_def)
    then show ?thesis using False n step
      by (auto simp: r split: option.splits intro: table_ok_trans)
  qed
qed

lemma RemoveUserHandles_loop_ok:
  "table_inv t s \<Longrightarrow> table_ok (t, s) (snd (RemoveUserHandles_loop get n off status hs (t, s)))"
proof (induction get n off status hs "(t, s)" arbitrary: t s rule: RemoveUserHandles_loop.induct)
  case (1 get n off status hs)
  show ?case
  proof (cases "off < n \<and> fst (get off (min (n - off) kMaxMessageHandles) hs) = ZX_OK")
    case False
    then show ?thesis using table_ok_refl [OF 1(2), of "policy_calls_m t"]
      by (subst RemoveUserHandles_loop.simps) (auto simp: Let_def split: prod.splits)
  next
    case True
    let ?c = "min (n - off) kMaxMessageHandles"
    obtain hs' where g: "get off ?c hs = (ZX_OK, hs')" using True by (metis prod.collapse)
    obtain st t' s' where r: "RemoveHandles (take ?c hs') (t, s) = (st, t', s')" by (metis prod.collapse)
    have ok: "table_ok (t, s) (t', s')"
      using RemoveHandles_loop_ok [OF 1(2)] r by (metis RemoveHandles_def snd_conv)
    have "table_ok (t', s') (snd (RemoveUserHandles_loop get n (off + ?c) st hs' (t', s')))"
      using True g r table_ok_inv [OF ok] by (intro 1(1)) auto
    with ok True g r show ?thesis
      by (subst RemoveUserHandles_loop.simps) (auto simp: Let_def intro: table_ok_trans)
  qed
qed

text \<open>A handle of the table is duplicated; the new handle is not yet in any table.\<close>

lemma Handle_Dup_ok:
  assumes "table_inv t s" "i \<in> set (handles_m t)" "Handle_Dup map_ok i r s = (h, s')"
  shows "table_ok (t, s) (t, s')"
    "\<And>j. h = Some j \<Longrightarrow> j \<notin> set (handles_m t) \<and> process_id_m (slots_m s' j) = ZX_KOID_INVALID \<and>
       dispatcher_m (slots_m s' j) = dispatcher_m (slots_m s i) \<and> rights_m (slots_m s' j) = r \<and>
       (\<forall>j'. j' \<noteq> j \<longrightarrow> slots_m s' j' = slots_m s j')"
    "h = None \<Longrightarrow> s' = s"
proof -
  from table_inv_disp [OF assms(1,2)] obtain k where k: "dispatcher_m (slots_m s i) = Some k" by blast
  note inv = table_inv_hs [OF assms(1)]
  have make: "Handle_Make map_ok k r s = (h, s')" using assms(3) Handle_Dup_eq [OF k] by metis
  show none: "s' = s" if "h = None" using make that by (auto elim: Handle_Make_cases)
  have some: "j \<notin> live (arena_m s) \<and> process_id_m (slots_m s' j) = ZX_KOID_INVALID \<and>
      dispatcher_m (slots_m s' j) = Some k \<and> rights_m (slots_m s' j) = r \<and> hs_inv s' \<and>
      (\<forall>j'. j' \<noteq> j \<longrightarrow> slots_m s' j' = slots_m s j')" if "h = Some j" for j
    using Handle_Make_Some [OF inv make [unfolded that]] by blast
  then show "j \<notin> set (handles_m t) \<and> process_id_m (slots_m s' j) = ZX_KOID_INVALID \<and>
       dispatcher_m (slots_m s' j) = dispatcher_m (slots_m s i) \<and> rights_m (slots_m s' j) = r \<and>
       (\<forall>j'. j' \<noteq> j \<longrightarrow> slots_m s' j' = slots_m s j')" if "h = Some j" for j
    using table_inv_live [OF assms(1)] that by (metis k)
  show "table_ok (t, s) (t, s')"
  proof (cases h)
    case None
    then show ?thesis using none table_ok_refl [OF assms(1), of "policy_calls_m t"] by simp
  next
    case (Some j)
    note new = some [OF Some]
    have notin: "j \<notin> set (handles_m t)" using new table_inv_live [OF assms(1)] by blast
    have free: "process_id_m (slots_m s j) = ZX_KOID_INVALID"
      using new inv table_inv_heap [OF assms(1)] unfolding heap_inv_def hs_inv_def by metis
    have heap: "heap_inv s'" using new table_inv_heap [OF assms(1)] unfolding heap_inv_def by (metis option.distinct(1))
    have "process_id_m (slots_m s' x) = process_id_m (slots_m s x)" for x
      using new free by (cases "x = j") auto
    with heap have "table_inv t s'" using assms(1) unfolding table_inv_def by simp
    moreover have "slots_frame (process_m t) s s'"
      unfolding slots_frame_def using heap new free by (metis insertI1)
    ultimately show ?thesis by (simp add: table_ok_def)
  qed
qed

lemma slots_remove_and_delete:
  "dispatcher_m (slots_m s i) \<noteq> None \<Longrightarrow> j \<noteq> i \<Longrightarrow>
   slots_m (snd (delete_owned i (RemoveHandleLocked i (t, s)))) j = slots_m s j"
  by (simp add: delete_owned_def RemoveHandleLocked_def Let_def slots_Delete slots_set_process_id)

text \<open>What duplicating or replacing handle \<open>i\<close> of the table does once the checks have passed.\<close>

lemma dup_then_remove:
  assumes "table_inv t s" "i \<in> set (handles_m t)" "Handle_Dup map_ok i r s = (h, s1)"
    and ts': "ts' = (if remove then delete_owned i (RemoveHandleLocked i (t, s1)) else (t, s1))"
  shows "table_ok (t, s) ts'" "handles_m (fst ts') = (if remove then remove1 i (handles_m t) else handles_m t)"
    "\<And>j. h = Some j \<Longrightarrow> j \<notin> set (handles_m t) \<and> process_id_m (slots_m (snd ts') j) = ZX_KOID_INVALID \<and>
       dispatcher_m (slots_m (snd ts') j) = dispatcher_m (slots_m s i) \<and> rights_m (slots_m (snd ts') j) = r"
proof -
  note dup = Handle_Dup_ok [OF assms(1-3)]
  note inv = table_ok_inv [OF dup(1)]
  note rm = remove_and_delete_ok [OF inv assms(2)]
  show "table_ok (t, s) ts'" using dup(1) rm(1) table_ok_trans by (auto simp: ts')
  show "handles_m (fst ts') = (if remove then remove1 i (handles_m t) else handles_m t)"
    using rm(2) by (simp add: ts')
  fix j assume j: "h = Some j"
  with dup(2) have "j \<noteq> i" using assms(2) by metis
  then have "slots_m (snd ts') j = slots_m s1 j"
    using slots_remove_and_delete [OF table_inv_disp [OF inv assms(2)]] by (simp add: ts')
  then show "j \<notin> set (handles_m t) \<and> process_id_m (slots_m (snd ts') j) = ZX_KOID_INVALID \<and>
       dispatcher_m (slots_m (snd ts') j) = dispatcher_m (slots_m s i) \<and> rights_m (slots_m (snd ts') j) = r"
    using dup(2) [OF j] by metis
qed

text \<open>The new handle \<open>j\<close> of a successful call: not yet in a table, to the same object, and with no
  right its source does not have.\<close>

definition dup_of :: "HandleTable \<Rightarrow> hstate \<Rightarrow> bool \<Rightarrow> zx_handle \<Rightarrow> zx_rights \<Rightarrow> nat \<Rightarrow> hstate \<Rightarrow> bool" where
  "dup_of t s is_replace v r j s' \<longleftrightarrow>
     j \<notin> set (handles_m t) \<and> process_id_m (slots_m s' j) = ZX_KOID_INVALID \<and>
     (\<exists>i\<in>set (handles_m t). v = MapHandleToValue i t s \<and>
        dispatcher_m (slots_m s' j) = dispatcher_m (slots_m s i) \<and>
        rights_m (slots_m s i) AND rights_m (slots_m s' j) = rights_m (slots_m s' j) \<and>
        rights_m (slots_m s' j) = (if r = ZX_RIGHT_SAME_RIGHTS then rights_m (slots_m s i) else r) \<and>
        (is_replace \<or> HasRights ZX_RIGHT_DUPLICATE (slots_m s i)))"

lemma handle_dup_replace_ok:
  assumes "table_inv t s" "handle_dup_replace map_ok is_replace v r (t, s) = (st, out, ts')"
  shows "table_ok (t, s) ts' \<and>
    handles_m (fst ts') = (case fst (GetHandleLocked v False t s) of None \<Rightarrow> handles_m t
       | Some i \<Rightarrow> if is_replace then remove1 i (handles_m t) else handles_m t) \<and>
    (case out of None \<Rightarrow> st \<noteq> ZX_OK | Some j \<Rightarrow> st = ZX_OK \<and> dup_of t s is_replace v r j (snd ts'))"
proof -
  obtain h t1 where g: "GetHandleLocked v False t s = (h, t1)" by fastforce
  then have gf: "fst (GetHandleLocked v False t s) = h" by simp
  note get = GetHandleLocked_ok [OF assms(1) g]
  show ?thesis
  proof (cases h)
    case None
    then show ?thesis using assms(2) get(1,3) by (auto simp: handle_dup_replace_def g)
  next
    case (Some i)
    have i: "i \<in> set (handles_m t1)" "v = MapHandleToValue i t s"
      using get(4) Some GetHandleLocked_iff [OF assms(1), of v False i] g by auto
    let ?h = "slots_m s i" and ?r = "if r = ZX_RIGHT_SAME_RIGHTS then rights_m (slots_m s i) else r"
    note rm = remove_and_delete_ok [OF get(2) i(1)]
    consider "\<not> is_replace \<and> \<not> HasRights ZX_RIGHT_DUPLICATE ?h"
      | "is_replace \<or> HasRights ZX_RIGHT_DUPLICATE ?h" "rights_m ?h AND ?r \<noteq> ?r"
      | "is_replace \<or> HasRights ZX_RIGHT_DUPLICATE ?h" "rights_m ?h AND ?r = ?r" by blast
    then show ?thesis
    proof cases
      case 1
      then show ?thesis using assms(2) get(1,3) Some by (auto simp: handle_dup_replace_def g)
    next
      case 2
      then show ?thesis using assms(2) get(1,3) Some rm table_ok_trans [OF get(1)]
        by (auto simp: handle_dup_replace_def g split: if_splits)
    next
      case 3
      obtain h' s1 where d: "Handle_Dup map_ok i ?r s = (h', s1)" by (rule prod.exhaust)
      have ts': "ts' = (if is_replace then delete_owned i (RemoveHandleLocked i (t1, s1)) else (t1, s1))"
        and out: "out = h'" "st = (if h' \<noteq> None then ZX_OK else ZX_ERR_NO_MEMORY)"
        using assms(2) 3 d Some by (auto simp: handle_dup_replace_def user_out_handle_dup_def g split: if_splits)
      note dup = dup_then_remove [OF get(2) i(1) d ts']
      have "dup_of t s is_replace v r j (snd ts')" if "h' = Some j" for j
        unfolding dup_of_def using dup(3) [OF that] 3 i get(3) by auto
      then show ?thesis
        using table_ok_trans [OF get(1) dup(1)] dup(2) out Some get(3) unfolding gf by (cases h') auto
    qed
  qed
qed

subsection \<open>Handles in messages\<close>

lemma handle_checks_OK:
  "handle_checks_locked h channel op r ty s = ZX_OK \<Longrightarrow>
   \<exists>i. h = Some i \<and> HasRights ZX_RIGHT_TRANSFER (slots_m s i) \<and> dispatcher_m (slots_m s i) \<noteq> channel \<and>
     op \<in> {ZX_HANDLE_OP_MOVE, ZX_HANDLE_OP_DUPLICATE} \<and>
     (r = ZX_RIGHT_SAME_RIGHTS \<or> rights_m (slots_m s i) AND r = r) \<and>
     (op = ZX_HANDLE_OP_DUPLICATE \<longrightarrow> HasRights ZX_RIGHT_DUPLICATE (slots_m s i)) \<and>
     (ty \<noteq> 0 \<longrightarrow> ty = zx_obj_type_code (type_m (dispatchers_m s (the (dispatcher_m (slots_m s i))))))"
  by (auto simp: handle_checks_locked_def Let_def split: option.splits if_splits)

text \<open>Handle \<open>j\<close> is in flight: it belongs to no table and was made from handle \<open>i\<close> of the sender.\<close>

definition in_flight_from :: "hstate \<Rightarrow> nat \<Rightarrow> hstate \<Rightarrow> nat \<Rightarrow> bool" where
  "in_flight_from s i s' j \<longleftrightarrow>
     process_id_m (slots_m s' j) = ZX_KOID_INVALID \<and>
     dispatcher_m (slots_m s' j) = dispatcher_m (slots_m s i) \<and> dispatcher_m (slots_m s' j) \<noteq> None \<and>
     rights_m (slots_m s i) AND rights_m (slots_m s' j) = rights_m (slots_m s' j) \<and>
     HasRights ZX_RIGHT_TRANSFER (slots_m s i)"

lemma RemoveHandleLocked_in_flight:
  assumes "table_inv t s" "i \<in> set (handles_m t)" "HasRights ZX_RIGHT_TRANSFER (slots_m s i)"
  shows "in_flight_from s i (snd (RemoveHandleLocked i (t, s))) i"
  using assms table_inv_disp [OF assms(1,2)]
  by (simp add: in_flight_from_def RemoveHandleLocked_ok(2) slots_set_process_id)

lemma get_handle_for_message_ok:
  assumes "table_inv t s" "get_handle_for_message_locked channel v (t, s) = (r, ts')"
  shows "table_ok (t, s) ts' \<and>
    (case r of Inl e \<Rightarrow> e \<noteq> ZX_OK \<and> snd ts' = s \<and> handles_m (fst ts') = handles_m t
     | Inr j \<Rightarrow> j \<in> set (handles_m t) \<and> v = MapHandleToValue j t s \<and> in_flight_from s j (snd ts') j \<and>
         dispatcher_m (slots_m s j) \<noteq> channel \<and> handles_m (fst ts') = remove1 j (handles_m t))"
proof -
  obtain h t1 where g: "GetHandleLocked v False t s = (h, t1)" by fastforce
  note get = GetHandleLocked_ok [OF assms(1) g]
  let ?checks = "handle_checks_locked h channel ZX_HANDLE_OP_MOVE ZX_RIGHT_SAME_RIGHTS
    (zx_obj_type_code ZX_OBJ_TYPE_NONE) s"
  show ?thesis
  proof (cases "?checks = ZX_OK")
    case False
    then show ?thesis using assms(2) get by (auto simp: get_handle_for_message_locked_def g)
  next
    case True
    from handle_checks_OK [OF this] obtain i where i: "h = Some i" "HasRights ZX_RIGHT_TRANSFER (slots_m s i)"
      "dispatcher_m (slots_m s i) \<noteq> channel" by blast
    have mem: "i \<in> set (handles_m t1)" and v: "v = MapHandleToValue i t s"
      using get(4) i(1) GetHandleLocked_iff [OF assms(1), of v False i] g by auto
    note rm = RemoveHandleLocked_ok [OF get(2) mem]
    have ts': "ts' = RemoveHandleLocked i (t1, s)" "r = Inr i"
      using assms(2) True i(1) by (auto simp: get_handle_for_message_locked_def g)
    show ?thesis
      using table_ok_trans [OF get(1) rm(1)] rm(3) RemoveHandleLocked_in_flight [OF get(2) mem i(2)] i(3) mem v get(3)
      by (simp add: ts')
  qed
qed

lemma get_disposition_for_message_ok:
  assumes "table_inv t s" "get_disposition_for_message_locked map_ok channel d (t, s) = (r, d', ts')"
  shows "table_ok (t, s) ts' \<and>
    (case r of Inl e \<Rightarrow> e \<noteq> ZX_OK \<and> snd ts' = s \<and> handles_m (fst ts') = handles_m t
     | Inr j \<Rightarrow> (\<exists>i\<in>set (handles_m t). hd_handle d = MapHandleToValue i t s \<and> in_flight_from s i (snd ts') j \<and>
         dispatcher_m (slots_m s i) \<noteq> channel \<and>
         (hd_rights d \<noteq> ZX_RIGHT_SAME_RIGHTS \<longrightarrow> rights_m (slots_m (snd ts') j) = hd_rights d) \<and>
         (if hd_operation d = ZX_HANDLE_OP_DUPLICATE
          then HasRights ZX_RIGHT_DUPLICATE (slots_m s i) \<and> handles_m (fst ts') = handles_m t
          else hd_operation d = ZX_HANDLE_OP_MOVE \<and> handles_m (fst ts') = remove1 i (handles_m t))))"
proof -
  obtain h t1 where g: "GetHandleLocked (hd_handle d) False t s = (h, t1)" by fastforce
  note get = GetHandleLocked_ok [OF assms(1) g]
  let ?checks = "handle_checks_locked h channel (hd_operation d) (hd_rights d) (hd_type d) s"
  show ?thesis
  proof (cases "?checks = ZX_OK")
    case False
    then show ?thesis using assms(2) get by (auto simp: get_disposition_for_message_locked_def g Let_def)
  next
    case True
    from handle_checks_OK [OF this] obtain i where h: "h = Some i"
      and ok: "HasRights ZX_RIGHT_TRANSFER (slots_m s i)" "dispatcher_m (slots_m s i) \<noteq> channel"
        "hd_operation d \<in> {ZX_HANDLE_OP_MOVE, ZX_HANDLE_OP_DUPLICATE}"
        "hd_rights d = ZX_RIGHT_SAME_RIGHTS \<or> rights_m (slots_m s i) AND hd_rights d = hd_rights d"
        "hd_operation d = ZX_HANDLE_OP_DUPLICATE \<longrightarrow> HasRights ZX_RIGHT_DUPLICATE (slots_m s i)" by blast
    have mem: "i \<in> set (handles_m t1)" and v: "hd_handle d = MapHandleToValue i t s"
      using get(4) h GetHandleLocked_iff [OF assms(1), of "hd_handle d" False i] g by auto
    have ops: "ZX_HANDLE_OP_MOVE \<noteq> ZX_HANDLE_OP_DUPLICATE" by (simp add: zx_consts)
    show ?thesis
    proof (cases "hd_operation d = ZX_HANDLE_OP_MOVE \<and> hd_rights d = ZX_RIGHT_SAME_RIGHTS")
      case fast: True
      note rm = RemoveHandleLocked_ok [OF get(2) mem]
      have ts': "ts' = RemoveHandleLocked i (t1, s)" "r = Inr i"
        using assms(2) True fast h by (auto simp: get_disposition_for_message_locked_def g Let_def)
      show ?thesis
        using table_ok_trans [OF get(1) rm(1)] rm(3) RemoveHandleLocked_in_flight [OF get(2) mem ok(1)] ok(2)
          mem v get(3) fast ops by (auto simp: ts')
    next
      case slow: False
      let ?r = "if hd_rights d = ZX_RIGHT_SAME_RIGHTS then rights_m (slots_m s i) else hd_rights d"
      obtain h' s1 where d: "Handle_Dup map_ok i ?r s = (h', s1)" by (rule prod.exhaust)
      note unf = get_disposition_for_message_locked_def Let_def fst_conv snd_conv g h case_prod_conv option.sel d
      show ?thesis
      proof (cases h')
        case None
        then have "ts' = (t1, s1)" "r = Inl ZX_ERR_NO_MEMORY"
          using assms(2) True slow unfolding unf by (auto split: if_splits)
        then show ?thesis
          using Handle_Dup_ok(3) [OF get(2) mem d] None get(1,3) by simp
      next
        case (Some j)
        have ts': "ts' = (if hd_operation d \<noteq> ZX_HANDLE_OP_DUPLICATE
            then delete_owned i (RemoveHandleLocked i (t1, s1)) else (t1, s1))" "r = Inr j"
          using assms(2) True slow Some unfolding unf by (auto split: if_splits)
        note dup = dup_then_remove [OF get(2) mem d ts'(1)]
        have "in_flight_from s i (snd ts') j"
          using dup(3) [OF Some] ok(1,4) table_inv_disp [OF get(2) mem] by (auto simp: in_flight_from_def)
        then show ?thesis
          using table_ok_trans [OF get(1) dup(1)] dup(2) dup(3) [OF Some] ok mem v get(3) ts'(2)
          by (auto split: if_splits)
      qed
    qed
  qed
qed

subsection \<open>Emptying a table\<close>

lemma fold_set_process_id:
  "heap_inv s \<Longrightarrow> \<forall>i\<in>set hs. dispatcher_m (slots_m s i) \<noteq> None \<Longrightarrow>
   heap_inv (fold (\<lambda>h. set_process_id h p) hs s) \<and>
   slots_m (fold (\<lambda>h. set_process_id h p) hs s) =
     (\<lambda>i. if i \<in> set hs then (slots_m s i)\<lparr>process_id_m := p\<rparr> else slots_m s i)"
proof (induction hs arbitrary: s)
  case (Cons h hs)
  have "heap_inv (set_process_id h p s)" using Cons.prems by (simp add: heap_inv_set_process_id)
  moreover have "\<forall>i\<in>set hs. dispatcher_m (slots_m (set_process_id h p s) i) \<noteq> None"
    using Cons.prems by (simp add: slots_set_process_id)
  ultimately show ?case using Cons.IH by (fastforce simp: slots_set_process_id)
qed simp

lemma fold_Delete:
  "heap_inv s \<Longrightarrow> distinct hs \<Longrightarrow>
   \<forall>i\<in>set hs. dispatcher_m (slots_m s i) \<noteq> None \<and> process_id_m (slots_m s i) = ZX_KOID_INVALID \<Longrightarrow>
   heap_inv (fold HandleTableArena_Delete hs s) \<and>
   slots_m (fold HandleTableArena_Delete hs s) =
     (\<lambda>i. if i \<in> set hs then (slots_m s i)\<lparr>dispatcher_m := None\<rparr> else slots_m s i)"
proof (induction hs arbitrary: s)
  case (Cons h hs)
  have h: "dispatcher_m (slots_m s h) \<noteq> None" using Cons.prems by simp
  note slots = slots_Delete [OF h]
  have "heap_inv (HandleTableArena_Delete h s)"
    using Cons.prems hs_inv_Delete [OF _ h] by (auto simp: heap_inv_def slots)
  moreover have "\<forall>i\<in>set hs. dispatcher_m (slots_m (HandleTableArena_Delete h s) i) \<noteq> None \<and>
      process_id_m (slots_m (HandleTableArena_Delete h s) i) = ZX_KOID_INVALID"
    using Cons.prems by (auto simp: slots)
  ultimately show ?case using Cons.IH Cons.prems(2) by (fastforce simp: slots)
qed simp

lemma HandleTable_Clean_ok:
  assumes "table_inv t s"
  shows "table_ok (t, s) (HandleTable_Clean (t, s))" "handles_m (fst (HandleTable_Clean (t, s))) = []"
    "\<forall>i\<in>set (handles_m t). dispatcher_m (slots_m (snd (HandleTable_Clean (t, s))) i) = None"
proof -
  let ?hs = "handles_m t"
  let ?s1 = "fold (\<lambda>h. set_process_id h ZX_KOID_INVALID) ?hs s"
  have disp: "\<forall>i\<in>set ?hs. dispatcher_m (slots_m s i) \<noteq> None" using table_inv_disp [OF assms] by blast
  note one = fold_set_process_id [OF table_inv_heap [OF assms] disp, of ZX_KOID_INVALID]
  have "distinct ?hs" using assms by (simp add: table_inv_def)
  with one disp have two: "heap_inv (fold HandleTableArena_Delete ?hs ?s1) \<and>
      slots_m (fold HandleTableArena_Delete ?hs ?s1) =
        (\<lambda>i. if i \<in> set ?hs then (slots_m ?s1 i)\<lparr>dispatcher_m := None\<rparr> else slots_m ?s1 i)"
    by (intro fold_Delete) auto
  have clean: "snd (HandleTable_Clean (t, s)) = fold HandleTableArena_Delete ?hs ?s1"
    "fst (HandleTable_Clean (t, s)) =
       t\<lparr>cursors_m := map HandleCursor_Invalidate (cursors_m t), table_count_m := 0, handles_m := []\<rparr>"
    by (simp_all add: HandleTable_Clean_def Let_def)
  have mem: "i \<in> set ?hs \<longleftrightarrow> process_id_m (slots_m s i) = process_m t" for i
    using assms by (simp add: table_inv_def)
  show "handles_m (fst (HandleTable_Clean (t, s))) = []" by (simp add: clean)
  show "\<forall>i\<in>set ?hs. dispatcher_m (slots_m (snd (HandleTable_Clean (t, s))) i) = None"
    using two by (simp add: clean)
  have "table_inv (fst (HandleTable_Clean (t, s))) (snd (HandleTable_Clean (t, s)))"
    using assms two one mem unfolding table_inv_def clean by (auto dest: sym)
  moreover have "slots_frame (process_m t) s (snd (HandleTable_Clean (t, s)))"
    using two one mem unfolding slots_frame_def clean by simp
  ultimately show "table_ok (t, s) (HandleTable_Clean (t, s))"
    unfolding table_ok_def by (simp add: clean)
qed

subsection \<open>Runs of a process\<close>

text \<open>
  What the threads of one process do to its handles: close, close many, duplicate and replace
  (with the copy of the new handle value succeeding or failing), move handles into messages,
  take handles out of messages or from object creation, and exit.
\<close>

inductive handle_step :: "HandleTable \<times> hstate \<Rightarrow> HandleTable \<times> hstate \<Rightarrow> bool" where
  close: "handle_step ts (snd (sys_handle_close v ts))"
| close_many: "handle_step ts (snd (sys_handle_close_many stack user n ts))"
| close_dispositions: "handle_step ts (snd (RemoveUserHandles stack (get_user_dispositions_to_consume user') n ts))"
| dup_replace: "handle_dup_replace map_ok is_replace v r ts = (st, out, ts') \<Longrightarrow>
    handle_step ts (user_out_handle_finish_copyout out ts')"
| dup_replace_fault: "handle_dup_replace map_ok is_replace v r ts = (st, Some j, ts') \<Longrightarrow>
    handle_step ts (delete_owned j ts')"
| send: "handle_step ts (snd (get_handle_for_message_locked channel v ts))"
| send_disposition: "handle_step ts (snd (snd (get_disposition_for_message_locked map_ok channel d ts)))"
| receive: "process_id_m (slots_m s i) = ZX_KOID_INVALID \<Longrightarrow> dispatcher_m (slots_m s i) \<noteq> None \<Longrightarrow>
    handle_step (t, s) (AddHandleLocked i (t, s))"
| exit: "handle_step ts (HandleTable_Clean ts)"

lemma sys_handle_close_eq:
  "snd (sys_handle_close v ts) = snd (RemoveHandles_loop ZX_OK [v] ts)"
  by (auto simp: sys_handle_close_def split: prod.splits option.splits)

lemma dup_of_disp:
  "table_inv t s \<Longrightarrow> dup_of t s rep v r j s' \<Longrightarrow>
   dispatcher_m (slots_m s' j) \<noteq> None \<and> process_id_m (slots_m s' j) = ZX_KOID_INVALID"
  using table_inv_disp by (fastforce simp: dup_of_def)

lemma handle_step_ok:
  assumes "handle_step (t, s) ts'" "table_inv t s" shows "table_ok (t, s) ts'"
  using assms(1)
proof (cases rule: handle_step.cases)
  case (dup_replace map_ok rep v r st out ts1)
  obtain t1 s1 where p: "ts1 = (t1, s1)" by fastforce
  note ok = handle_dup_replace_ok [OF assms(2) dup_replace(2)]
  show ?thesis
  proof (cases out)
    case None
    then show ?thesis using ok dup_replace(1) by (simp add: user_out_handle_finish_copyout_def)
  next
    case (Some j)
    have "table_ok (t1, s1) (AddHandleLocked j (t1, s1))"
      using ok Some dup_of_disp [OF assms(2)] unfolding p by (intro AddHandleLocked_ok) (auto simp: table_ok_def)
    with ok Some dup_replace(1) show ?thesis
      unfolding p by (auto simp: user_out_handle_finish_copyout_def intro: table_ok_trans)
  qed
next
  case (dup_replace_fault map_ok rep v r st j ts1)
  obtain t1 s1 where p: "ts1 = (t1, s1)" by fastforce
  note ok = handle_dup_replace_ok [OF assms(2) dup_replace_fault(2)]
  have "table_ok (t1, s1) (delete_owned j (t1, s1))"
    using ok dup_of_disp [OF assms(2)] unfolding p by (intro delete_owned_ok) (auto simp: table_ok_def)
  with ok dup_replace_fault(1) show ?thesis unfolding p by (auto intro: table_ok_trans)
next
  case (send channel v)
  then show ?thesis using get_handle_for_message_ok [OF assms(2)] by (metis prod.collapse)
next
  case (send_disposition map_ok channel d)
  then show ?thesis using get_disposition_for_message_ok [OF assms(2)] by (metis prod.collapse)
qed (use assms(2) in \<open>auto simp: sys_handle_close_eq sys_handle_close_many_def RemoveUserHandles_def
       simp del: RemoveHandles_loop.simps
       intro: RemoveHandles_loop_ok RemoveUserHandles_loop_ok AddHandleLocked_ok HandleTable_Clean_ok(1)\<close>)

lemma handle_steps_ok:
  assumes "handle_step\<^sup>*\<^sup>* ts ts'" "table_inv (fst ts) (snd ts)" shows "table_ok ts ts'"
  using assms
proof (induction rule: rtranclp_induct)
  case base
  then show ?case using table_ok_refl [of "fst ts" "snd ts" "policy_calls_m (fst ts)"] by simp
next
  case (step ts1 ts2)
  then have "table_ok ts1 ts2" using handle_step_ok [of "fst ts1" "snd ts1" ts2] by (simp add: table_ok_def)
  with step show ?case using table_ok_trans by blast
qed

subsection \<open>Removing many handles\<close>

lemma MapHandleToValue_neq_0: "table_inv t s \<Longrightarrow> MapHandleToValue i t s \<noteq> ZX_HANDLE_INVALID"
  using handle_value_fixed_bits [of "random_value_m t" "slots_m s i"]
  by (auto simp: table_inv_def MapHandleToValue_def zx_consts kHandleMustBeOneMask_eq)

lemma MapHandleToValue_inject:
  assumes "table_inv t s" "i \<in> set (handles_m t)" "j \<in> set (handles_m t)"
    "MapHandleToValue i t s = MapHandleToValue j t s" shows "i = j"
  using GetHandleLocked_iff [OF assms(1), of "MapHandleToValue i t s" True] assms by (metis option.inject)

text \<open>Closing one value: it was one of the table's handles, which is gone, or nothing changes.\<close>

lemma close_value:
  assumes "table_inv t s" "RemoveHandle_value v (t, s) = (h, ts')"
    and "(t1, s1) = (case h of None \<Rightarrow> ts' | Some i \<Rightarrow> delete_owned i ts')"
  shows "table_inv t1 s1" "set (handles_m t1) = set (handles_m t) - {i. MapHandleToValue i t s = v}"
    "h = None \<longleftrightarrow> v \<notin> (\<lambda>i. MapHandleToValue i t s) ` set (handles_m t)"
    "\<And>j. j \<in> set (handles_m t1) \<Longrightarrow> MapHandleToValue j t1 s1 = MapHandleToValue j t s"
proof -
  have ok: "table_ok (t, s) (t1, s1)" using RemoveHandle_value_ok [OF assms(1,2)] assms(3) by simp
  then show inv: "table_inv t1 s1" by (rule table_ok_inv)
  obtain h' t2 where g: "GetHandleLocked v False t s = (h', t2)" by fastforce
  note get = GetHandleLocked_ok [OF assms(1) g]
  have h: "h' = h" using assms(2) g by (auto simp: RemoveHandle_value_def split: option.splits)
  have iff: "h = Some i \<longleftrightarrow> i \<in> set (handles_m t) \<and> v = MapHandleToValue i t s" for i
    using GetHandleLocked_iff [OF assms(1), of v False i] g h by simp
  then show "h = None \<longleftrightarrow> v \<notin> (\<lambda>i. MapHandleToValue i t s) ` set (handles_m t)"
    by (cases h) auto
  have rv: "random_value_m t1 = random_value_m t" using ok by (simp add: table_ok_def)
  have dist: "distinct (handles_m t)" using assms(1) by (simp add: table_inv_def)
  show "set (handles_m t1) = set (handles_m t) - {i. MapHandleToValue i t s = v}"
  proof (cases h)
    case None
    then have "handles_m t1 = handles_m t" using assms(2,3) g h get(3) by (auto simp: RemoveHandle_value_def)
    then show ?thesis using iff None by auto
  next
    case (Some i)
    then have "(t1, s1) = delete_owned i (RemoveHandleLocked i (t2, s))"
      using assms(2,3) g h by (auto simp: RemoveHandle_value_def)
    then have "handles_m t1 = remove1 i (handles_m t)"
      using remove_and_delete_ok(2) [OF get(2) get(4)] h Some get(3) by (metis fst_conv)
    then show ?thesis using dist iff [of i] Some MapHandleToValue_inject [OF assms(1)] by auto
  qed
  then have sub: "set (handles_m t1) \<subseteq> set (handles_m t)" by blast
  fix j assume j: "j \<in> set (handles_m t1)"
  have "slots_m s1 j = slots_m s j"
  proof (cases h)
    case None
    then show ?thesis using assms(2,3) g h by (auto simp: RemoveHandle_value_def)
  next
    case (Some i)
    then have "(t1, s1) = delete_owned i (RemoveHandleLocked i (t2, s))"
      using assms(2,3) g h by (auto simp: RemoveHandle_value_def)
    moreover have "i \<in> set (handles_m t2)" using get(4) h Some by simp
    moreover have "j \<noteq> i"
      using j iff [of i] Some \<open>set (handles_m t1) = set (handles_m t) - {i. MapHandleToValue i t s = v}\<close> by auto
    ultimately show ?thesis
      using slots_remove_and_delete [OF table_inv_disp [OF get(2)]] by (metis snd_conv)
  qed
  then show "MapHandleToValue j t1 s1 = MapHandleToValue j t s"
    by (simp add: MapHandleToValue_def rv)
qed

abbreviation table_values :: "HandleTable \<Rightarrow> hstate \<Rightarrow> zx_handle set" where
  "table_values t s \<equiv> (\<lambda>i. MapHandleToValue i t s) ` set (handles_m t)"

lemma RemoveHandles_loop_spec:
  assumes "table_inv t s" "RemoveHandles_loop st0 vs (t, s) = (st, t', s')"
  shows "set (handles_m t') = set (handles_m t) - {i. MapHandleToValue i t s \<in> set vs}"
    "st = (if distinct (filter (\<lambda>v. v \<noteq> ZX_HANDLE_INVALID) vs) \<and>
              set (filter (\<lambda>v. v \<noteq> ZX_HANDLE_INVALID) vs) \<subseteq> table_values t s
           then st0 else ZX_ERR_BAD_HANDLE)"
  using assms
proof (induction vs arbitrary: st0 t s)
  case (Cons v vs)
  { case 1
    obtain h ts1 where r: "RemoveHandle_value v (t, s) = (h, ts1)" by (rule prod.exhaust)
    obtain t1 s1 where n: "(t1, s1) = (case h of None \<Rightarrow> ts1 | Some i \<Rightarrow> delete_owned i ts1)" by (metis prod.collapse)
    note one = close_value [OF 1(1) r n]
    show ?case
    proof (cases "v = ZX_HANDLE_INVALID")
      case True
      then show ?thesis using 1 Cons.IH(1) MapHandleToValue_neq_0 [OF 1(1)] by auto
    next
      case False
      then have "RemoveHandles_loop (if h = None then ZX_ERR_BAD_HANDLE else st0) vs (t1, s1) = (st, t', s')"
        using 1(2) n by (auto simp: r split: option.splits)
      from Cons.IH(1) [OF one(1) this] one(2,4) show ?thesis by auto
    qed }
  { case 2
    obtain h ts1 where r: "RemoveHandle_value v (t, s) = (h, ts1)" by (rule prod.exhaust)
    obtain t1 s1 where n: "(t1, s1) = (case h of None \<Rightarrow> ts1 | Some i \<Rightarrow> delete_owned i ts1)" by (metis prod.collapse)
    note one = close_value [OF 2(1) r n]
    show ?case
    proof (cases "v = ZX_HANDLE_INVALID")
      case True
      then show ?thesis using 2 Cons.IH(2) by auto
    next
      case False
      then have "RemoveHandles_loop (if h = None then ZX_ERR_BAD_HANDLE else st0) vs (t1, s1) = (st, t', s')"
        using 2(2) n by (auto simp: r split: option.splits)
      note st = Cons.IH(2) [OF one(1) this]
      have "table_values t1 s1 = table_values t s - {v}" using one(2,4) by auto
      then show ?thesis using st False one(3) by auto
    qed }
qed auto

subsection \<open>Properties\<close>

text \<open>C4: Processes are isolated. Whatever the threads of one process do with its handles (close, close
  many, duplicate, replace, send, receive, exit), its own table stays consistent with the handle
  slots, no handle of another process is changed, and every value the other process holds
  resolves to the same handle as before; a value of one table resolves only to handles of
  that table.\<close>
theorem handle_tables_isolated:
  assumes "handle_step\<^sup>*\<^sup>* (t, s) (t', s')" "table_inv t s" "table_inv other s" "process_m other \<noteq> process_m t"
  shows "table_inv t' s' \<and> table_inv other s' \<and>
    (\<forall>i\<in>set (handles_m other). slots_m s' i = slots_m s i) \<and>
    (\<forall>v. fst (GetHandleLocked v True other s') = fst (GetHandleLocked v True other s)) \<and>
    (\<forall>v i. fst (GetHandleLocked v True t' s') = Some i \<longrightarrow> i \<notin> set (handles_m other))"
proof -
  have ok: "table_ok (t, s) (t', s')" using handle_steps_ok [OF assms(1)] assms(2) by simp
  then have inv: "table_inv t' s'" and proc: "process_m t' = process_m t"
    and frame: "slots_frame (process_m t) s s'" by (auto simp: table_ok_def)
  note other = table_inv_other [OF assms(3) frame assms(4)]
  have "fst (GetHandleLocked v True other s') = Some i \<longleftrightarrow> fst (GetHandleLocked v True other s) = Some i" for v i
    using other(2) unfolding GetHandleLocked_iff [OF other(1)] GetHandleLocked_iff [OF assms(3)]
    by (auto simp: MapHandleToValue_def)
  then have "fst (GetHandleLocked v True other s') = fst (GetHandleLocked v True other s)" for v
    by (metis option.exhaust)
  moreover have "i \<notin> set (handles_m other)" if "fst (GetHandleLocked v True t' s') = Some i" for v i
  proof -
    have "i \<in> set (handles_m t')" using that GetHandleLocked_iff [OF inv] by blast
    then have "process_id_m (slots_m s' i) = process_m t'" using inv by (simp add: table_inv_def)
    then show ?thesis using other(1) assms(4) by (simp add: table_inv_def proc)
  qed
  ultimately show ?thesis using inv other by blast
qed

text \<open>Two processes, the first with one handle to object 1024.\<close>

definition example_tables :: "HandleTable \<times> HandleTable \<times> hstate" where
  "example_tables =
     (let (out, s) = Handle_Make True 1024 (ZX_RIGHT_TRANSFER OR ZX_RIGHT_DUPLICATE) empty_hstate;
          (t, s) = user_out_handle_finish_copyout out (HandleTable_new 1 0x2468ace, s)
      in (t, HandleTable_new 2 0x13579bd, s))"

lemma heap_inv_empty: "heap_inv empty_hstate"
  using hs_inv_empty by (simp add: heap_inv_def empty_hstate_def)

lemma example_Make:
  obtains i s where "Handle_Make True 1024 (ZX_RIGHT_TRANSFER OR ZX_RIGHT_DUPLICATE) empty_hstate = (Some i, s)"
    "example_tables = (fst (AddHandleLocked i (HandleTable_new 1 0x2468ace, s)), HandleTable_new 2 0x13579bd,
       set_process_id i 1 s)"
    "table_inv (HandleTable_new 1 0x2468ace) s" "table_inv (HandleTable_new 2 0x13579bd) s"
    "process_id_m (slots_m s i) = ZX_KOID_INVALID" "dispatcher_m (slots_m s i) = Some 1024"
    "rights_m (slots_m s i) = ZX_RIGHT_TRANSFER OR ZX_RIGHT_DUPLICATE"
proof -
  let ?r = "ZX_RIGHT_TRANSFER OR ZX_RIGHT_DUPLICATE"
  have "fst (Handle_Make True 1024 ?r empty_hstate) \<noteq> None"
    by (simp add: Handle_Make_def HandleTableArena_Alloc_def GPArena_Alloc_def GPArena_Grow_def
        GPArena_Init_def empty_hstate_def size_defs Let_def)
  then obtain i s where m: "Handle_Make True 1024 ?r empty_hstate = (Some i, s)" by (metis option.exhaust prod.collapse)
  note made = Handle_Make_Some [OF hs_inv_empty m]
  have ids: "process_id_m (slots_m s j) = ZX_KOID_INVALID" for j
    using made(6,9) by (cases "j = i") (simp_all add: empty_hstate_def)
  then have inv: "table_inv (HandleTable_new p r) s" if "p \<noteq> 0" for p r
    using made(1) that mixer_ok_new [of p r]
    by (auto simp: table_inv_def heap_inv_def HandleTable_new_def ZX_KOID_INVALID_def)
  show thesis
    by (rule that [OF m]) (use inv made ids in
      \<open>simp_all add: example_tables_def m user_out_handle_finish_copyout_def AddHandleLocked_def HandleTable_new_def\<close>)
qed

lemma example_tables_inv:
  "case example_tables of (t, other, s) \<Rightarrow> table_inv t s \<and> table_inv other s \<and>
     process_m t = 1 \<and> process_m other = 2 \<and> length (handles_m t) = 1 \<and> cursors_m t = [] \<and>
     (\<forall>i\<in>set (handles_m t). rights_m (slots_m s i) = ZX_RIGHT_TRANSFER OR ZX_RIGHT_DUPLICATE)"
proof (rule example_Make)
  fix i s
  assume ex: "example_tables = (fst (AddHandleLocked i (HandleTable_new 1 0x2468ace, s)),
      HandleTable_new 2 0x13579bd, set_process_id i 1 s)"
    and inv: "table_inv (HandleTable_new 1 0x2468ace) s" "table_inv (HandleTable_new 2 0x13579bd) s"
    and i: "process_id_m (slots_m s i) = ZX_KOID_INVALID" "dispatcher_m (slots_m s i) = Some 1024"
      "rights_m (slots_m s i) = ZX_RIGHT_TRANSFER OR ZX_RIGHT_DUPLICATE"
  have ok: "table_ok (HandleTable_new 1 0x2468ace, s) (AddHandleLocked i (HandleTable_new 1 0x2468ace, s))"
    using inv(1) i by (intro AddHandleLocked_ok) auto
  have "snd (AddHandleLocked i (HandleTable_new 1 0x2468ace, s)) = set_process_id i 1 s"
    by (simp add: AddHandleLocked_def HandleTable_new_def)
  with ok have "table_inv (fst (AddHandleLocked i (HandleTable_new 1 0x2468ace, s))) (set_process_id i 1 s)"
    "slots_frame 1 s (set_process_id i 1 s)"
    by (simp_all add: table_ok_def) (simp add: HandleTable_new_def)
  moreover have "table_inv (HandleTable_new 2 0x13579bd) (set_process_id i 1 s)"
    using calculation(2) by (rule table_inv_other(1) [OF inv(2)]) (simp add: HandleTable_new_def)
  ultimately show ?thesis using i
    by (simp add: ex AddHandleLocked_def HandleTable_new_def slots_set_process_id)
qed

theorem handle_tables_isolated_witness:
  "case example_tables of (t, other, s) \<Rightarrow>
     table_inv other (snd (HandleTable_Clean (t, s))) \<and> length (handles_m t) = 1"
proof -
  obtain t other s where ex: "example_tables = (t, other, s)" by (metis prod.exhaust)
  note inv = example_tables_inv [unfolded ex, simplified]
  have step: "handle_step\<^sup>*\<^sup>* (t, s) (fst (HandleTable_Clean (t, s)), snd (HandleTable_Clean (t, s)))"
    using handle_step.exit [of "(t, s)"] by auto
  have "table_inv other (snd (HandleTable_Clean (t, s)))"
    using handle_tables_isolated [OF step, of other] inv by auto
  then show ?thesis using inv by (simp add: ex)
qed

text \<open>Handle values and handles of a table correspond one to one: a lookup finds handle \<open>i\<close> exactly
  for the value the table maps it to, that value has the two fixed low bits set (so it is
  never \<open>ZX_HANDLE_INVALID\<close>), and a lookup that fails asks the job policy exactly once, unless
  the caller opted out.\<close>
theorem handle_value_lookup:
  assumes "table_inv t s"
  shows "(fst (GetHandleLocked v skip_policy t s) = Some i \<longleftrightarrow>
            i \<in> set (handles_m t) \<and> v = MapHandleToValue i t s) \<and>
    MapHandleToValue i t s AND 3 = 3 \<and>
    snd (GetHandleLocked v skip_policy t s) =
      (if fst (GetHandleLocked v skip_policy t s) = None \<and> \<not> skip_policy
       then t\<lparr>policy_calls_m := policy_calls_m t + 1\<rparr> else t)"
proof -
  have "mixer_ok (random_value_m t)" using assms by (simp add: table_inv_def)
  then have "MapHandleToValue i t s AND 3 = 3"
    using handle_value_fixed_bits [of "random_value_m t" "slots_m s i"]
    by (simp add: MapHandleToValue_def kHandleMustBeOneMask_eq mask_eq_exp_minus_1)
  moreover have "snd (GetHandleLocked v skip_policy t s) =
      (if fst (GetHandleLocked v skip_policy t s) = None \<and> \<not> skip_policy
       then t\<lparr>policy_calls_m := policy_calls_m t + 1\<rparr> else t)"
    by (auto simp: GetHandleLocked_def Let_def split: option.splits)
  ultimately show ?thesis using GetHandleLocked_iff [OF assms] by blast
qed

theorem handle_value_lookup_witness:
  "case example_tables of (t, other, s) \<Rightarrow>
     \<exists>i. fst (GetHandleLocked (MapHandleToValue i t s) False t s) = Some i"
proof -
  obtain t other s where ex: "example_tables = (t, other, s)" by (metis prod.exhaust)
  note inv = example_tables_inv [unfolded ex, simplified]
  then obtain i where "i \<in> set (handles_m t)" by (cases "handles_m t") auto
  then show ?thesis using handle_value_lookup [of t s] inv by (auto simp: ex)
qed

text \<open>C19: Duplicating or replacing a handle never adds a right. When the call succeeds, the value was
  one of the table, the new handle refers to the same object, has the requested rights (or the
  same ones), all of which the source has, and the source had the right to be duplicated unless
  it was replaced. A replaced handle leaves the table even if the call fails; no other
  handle does, and nothing is created on failure.\<close>
theorem dup_replace_never_adds_rights:
  assumes "table_inv t s" "handle_dup_replace map_ok is_replace v rights (t, s) = (st, out, t', s')"
  shows "table_inv t' s' \<and> (st = ZX_OK \<longleftrightarrow> out \<noteq> None) \<and>
    handles_m t' = (case fst (GetHandleLocked v False t s) of None \<Rightarrow> handles_m t
       | Some i \<Rightarrow> if is_replace then remove1 i (handles_m t) else handles_m t) \<and>
    (\<forall>j. out = Some j \<longrightarrow>
       (\<exists>i\<in>set (handles_m t). v = MapHandleToValue i t s \<and>
          dispatcher_m (slots_m s' j) = dispatcher_m (slots_m s i) \<and>
          rights_m (slots_m s i) AND rights_m (slots_m s' j) = rights_m (slots_m s' j) \<and>
          rights_m (slots_m s' j) =
            (if rights = ZX_RIGHT_SAME_RIGHTS then rights_m (slots_m s i) else rights) \<and>
          (is_replace \<or> HasRights ZX_RIGHT_DUPLICATE (slots_m s i))))"
  using handle_dup_replace_ok [OF assms] table_ok_inv [of "(t, s)" t' s']
  by (auto simp: dup_of_def split: option.splits)

theorem dup_replace_never_adds_rights_witness:
  "case example_tables of (t, other, s) \<Rightarrow>
     \<exists>i\<in>set (handles_m t).
       handle_dup_replace True False (MapHandleToValue i t s) ZX_RIGHT_WRITE (t, s) = (ZX_ERR_INVALID_ARGS, None, t, s) \<and>
       handles_m (fst (snd (snd (handle_dup_replace True True (MapHandleToValue i t s) ZX_RIGHT_WRITE (t, s))))) = []"
proof -
  obtain t other s where ex: "example_tables = (t, other, s)" by (metis prod.exhaust)
  note inv = example_tables_inv [unfolded ex, simplified]
  then obtain i where hs: "handles_m t = [i]" by (cases "handles_m t") auto
  have r: "rights_m (slots_m s i) = ZX_RIGHT_TRANSFER OR ZX_RIGHT_DUPLICATE" using inv hs by simp
  let ?v = "MapHandleToValue i t s"
  have get: "fst (GetHandleLocked ?v False t s) = Some i"
    using GetHandleLocked_iff [of t s] inv hs by auto
  then have get': "GetHandleLocked ?v False t s = (Some i, t)"
    using inv by (auto simp: GetHandleLocked_def Let_def split: if_splits)
  have "handle_dup_replace True False ?v ZX_RIGHT_WRITE (t, s) = (ZX_ERR_INVALID_ARGS, None, t, s)"
    by (simp add: handle_dup_replace_def get' HasRights_def r) (simp add: zx_consts)
  moreover obtain st out t' s' where rep: "handle_dup_replace True True ?v ZX_RIGHT_WRITE (t, s) = (st, out, t', s')"
    by (metis prod.exhaust)
  then have "handles_m t' = []"
    using dup_replace_never_adds_rights [OF _ rep] inv by (simp add: get hs)
  ultimately show ?thesis using rep hs by (simp add: ex)
qed

text \<open>\<open>RemoveHandles\<close> closes exactly the handles of the table whose values the array names, skips
  \<open>ZX_HANDLE_INVALID\<close>, and returns \<open>ZX_OK\<close> exactly when every other entry was a value of the
  table and none was named twice.\<close>
theorem RemoveHandles_exact:
  assumes "table_inv t s" "RemoveHandles vs (t, s) = (st, t', s')"
  shows "table_inv t' s' \<and>
    set (handles_m t') = set (handles_m t) - {i. MapHandleToValue i t s \<in> set vs} \<and>
    st = (if distinct (filter (\<lambda>v. v \<noteq> ZX_HANDLE_INVALID) vs) \<and>
             set (filter (\<lambda>v. v \<noteq> ZX_HANDLE_INVALID) vs) \<subseteq> (\<lambda>i. MapHandleToValue i t s) ` set (handles_m t)
          then ZX_OK else ZX_ERR_BAD_HANDLE)"
  using RemoveHandles_loop_spec [of t s ZX_OK vs st t' s'] RemoveHandles_loop_ok [OF assms(1), of ZX_OK vs] assms
  by (auto simp: RemoveHandles_def table_ok_def)

theorem RemoveHandles_exact_witness:
  "case example_tables of (t, other, s) \<Rightarrow>
     \<exists>i. handles_m t = [i] \<and>
       (let v = MapHandleToValue i t s; (st, t', s') = RemoveHandles [ZX_HANDLE_INVALID, v, v] (t, s)
        in st = ZX_ERR_BAD_HANDLE \<and> handles_m t' = [])"
proof -
  obtain t other s where ex: "example_tables = (t, other, s)" by (metis prod.exhaust)
  note inv = example_tables_inv [unfolded ex, simplified]
  then obtain i where hs: "handles_m t = [i]" by (cases "handles_m t") auto
  let ?v = "MapHandleToValue i t s"
  obtain st t' s' where r: "RemoveHandles [ZX_HANDLE_INVALID, ?v, ?v] (t, s) = (st, t', s')" by (metis prod.exhaust)
  from inv have "?v \<noteq> ZX_HANDLE_INVALID" by (simp add: MapHandleToValue_neq_0)
  then show ?thesis
    using RemoveHandles_exact [OF _ r] inv hs by (auto simp: ex r)
qed

subsection \<open>Closing the handles of a user array\<close>

lemma RemoveHandles_loop_append:
  "RemoveHandles_loop st (xs @ ys) ts =
     (case RemoveHandles_loop st xs ts of (st', ts') \<Rightarrow> RemoveHandles_loop st' ys ts')"
  by (induction st xs ts rule: RemoveHandles_loop.induct) (auto split: prod.split option.split)

text \<open>The initial status only shows when no entry fails.\<close>

lemma RemoveHandles_loop_status:
  "RemoveHandles_loop st vs ts =
     (if fst (RemoveHandles vs ts) = ZX_OK then st else ZX_ERR_BAD_HANDLE, snd (RemoveHandles vs ts))"
proof -
  have "RemoveHandles_loop st vs ts =
      (if fst (RemoveHandles_loop ZX_OK vs ts) = ZX_OK then st else fst (RemoveHandles_loop ZX_OK vs ts),
       snd (RemoveHandles_loop ZX_OK vs ts)) \<and>
     fst (RemoveHandles_loop ZX_OK vs ts) \<in> {ZX_OK, ZX_ERR_BAD_HANDLE}"
    for st
  proof (induction vs arbitrary: st ts)
    case (Cons v vs)
    obtain h ts' where r: "RemoveHandle_value v ts = (h, ts')" by (rule prod.exhaust)
    have bad: "ZX_ERR_BAD_HANDLE \<noteq> ZX_OK" by (simp add: zx_consts)
    show ?case
      using Cons.IH [of ZX_ERR_BAD_HANDLE ts'] Cons.IH [of st ts] Cons.IH [of st "delete_owned (the h) ts'"] bad
      by (cases h) (auto simp: r)
  qed simp
  from this [of st] show ?thesis by (auto simp: RemoveHandles_def)
qed

lemma RemoveHandles_append:
  "RemoveHandles (xs @ ys) ts =
     (case RemoveHandles xs ts of (st, ts') \<Rightarrow>
        (if st = ZX_OK \<and> fst (RemoveHandles ys ts') = ZX_OK then ZX_OK else ZX_ERR_BAD_HANDLE,
         snd (RemoveHandles ys ts')))"
proof -
  obtain st ts' where r: "RemoveHandles xs ts = (st, ts')" by (rule prod.exhaust)
  have "st = (if fst (RemoveHandles xs ts) = ZX_OK then ZX_OK else ZX_ERR_BAD_HANDLE)"
    using RemoveHandles_loop_status [of ZX_OK xs ts] r by (simp add: RemoveHandles_def)
  then have "st = ZX_OK \<or> st = ZX_ERR_BAD_HANDLE" by simp
  moreover have "RemoveHandles (xs @ ys) ts = RemoveHandles_loop st ys ts'"
    using r by (simp add: RemoveHandles_def RemoveHandles_loop_append)
  ultimately show ?thesis using r RemoveHandles_loop_status [of st ys ts'] by auto
qed

text \<open>Where the last chunk of an array of \<open>n\<close> entries starts.\<close>

definition last_chunk :: "nat \<Rightarrow> nat" where
  "last_chunk n = (n - 1) div kMaxMessageHandles * kMaxMessageHandles"

lemma last_chunk_first: "n \<le> kMaxMessageHandles \<Longrightarrow> last_chunk n = 0"
  by (cases n) (simp_all add: last_chunk_def kMaxMessageHandles_def)

lemma last_chunk_next:
  "kMaxMessageHandles < n \<Longrightarrow> last_chunk n = kMaxMessageHandles + last_chunk (n - kMaxMessageHandles)"
proof -
  assume "kMaxMessageHandles < n"
  then obtain k where "n = Suc (64 + k)"
    by (metis add.commute add_Suc_right kMaxMessageHandles_def less_imp_Suc_add)
  then show ?thesis by (simp add: last_chunk_def kMaxMessageHandles_def div_add_self1)
qed

lemma take_write_at_0: "length hs \<le> length stack \<Longrightarrow> take (length hs) (write_at 0 hs stack) = hs"
  by (simp add: write_at_def)

lemma close_many_loop:
  assumes "drop off vs \<noteq> []" "length stack = kMaxMessageHandles"
  shows "RemoveUserHandles_loop (get_user_handles_to_consume (user_bytes vs)) (length vs) off st stack ts =
    (let ws = drop off vs; m = last_chunk (length ws)
     in (fst (RemoveHandles (drop m ws) (snd (RemoveHandles (take m ws) ts))), snd (RemoveHandles ws ts)))"
  using assms
proof (induction "length vs - off" arbitrary: off st stack ts rule: less_induct)
  case less
  let ?n = "min (length vs - off) kMaxMessageHandles"
  let ?ws = "drop off vs"
  let ?c = "take ?n ?ws"
  let ?stack = "write_at 0 ?c stack"
  have len: "length ?c = ?n" by simp
  have "off + ?n \<le> length vs" using less.prems(1) by auto
  then have get: "get_user_handles_to_consume (user_bytes vs) off ?n stack = (ZX_OK, ?stack)"
    by (simp add: get_user_handles_to_consume_def)
  have chunk: "take ?n ?stack = ?c"
    using take_write_at_0 [of ?c stack] less.prems(2) unfolding len by simp
  have size: "length ?stack = kMaxMessageHandles" using less.prems(2) by (simp add: write_at_def)
  obtain st' ts' where r: "RemoveHandles ?c ts = (st', ts')" by (rule prod.exhaust)
  have step: "RemoveUserHandles_loop (get_user_handles_to_consume (user_bytes vs)) (length vs) off st stack ts =
      RemoveUserHandles_loop (get_user_handles_to_consume (user_bytes vs)) (length vs) (off + ?n) st' ?stack ts'"
    using less.prems(1) r by (subst RemoveUserHandles_loop.simps) (simp add: Let_def get chunk)
  show ?case
  proof (cases "length vs - off \<le> kMaxMessageHandles")
    case True
    then have "?c = ?ws" "off + ?n = length vs" using less.prems(1) by simp_all
    then show ?thesis
      using step r True by (simp add: RemoveUserHandles_loop.simps Let_def last_chunk_first RemoveHandles_def)
  next
    case False
    then have n: "?n = kMaxMessageHandles" by simp
    let ?m = "last_chunk (length vs - (off + kMaxMessageHandles))"
    have more: "drop (off + ?n) vs \<noteq> []" "length vs - (off + ?n) < length vs - off"
      using False by (auto simp: n kMaxMessageHandles_def)
    have m: "last_chunk (length ?ws) = kMaxMessageHandles + ?m"
      using last_chunk_next [of "length vs - off"] False by simp
    have split: "take (kMaxMessageHandles + ?m) ?ws = ?c @ take ?m (drop (off + kMaxMessageHandles) vs)"
      by (simp add: take_add n add.commute)
    have all: "RemoveHandles ?ws ts = RemoveHandles (?c @ drop (off + kMaxMessageHandles) vs) ts"
      by (simp add: n add.commute flip: drop_drop)
    show ?thesis
      unfolding step less.hyps [OF more(2,1) size] Let_def m split all
      using r [unfolded n] by (simp add: RemoveHandles_append n add.commute [of off] add.assoc add.left_commute)
  qed
qed

text \<open>C38: Closing an array of any length closes the same handles as closing it in one go, but the status
  returned is the status of the last chunk of at most \<open>kMaxMessageHandles\<close> entries alone, closed after
  all others. An entry of an earlier chunk that is no handle of the process makes closing in one go
  return \<open>ZX_ERR_BAD_HANDLE\<close>; here its error is forgotten.\<close>
theorem close_many_forgets_errors:
  assumes "length stack = kMaxMessageHandles" "vs \<noteq> []"
  shows "let m = (length vs - 1) div kMaxMessageHandles * kMaxMessageHandles;
             before = RemoveHandles (take m vs) ts
         in sys_handle_close_many stack (user_bytes vs) (length vs) ts =
              (fst (RemoveHandles (drop m vs) (snd before)), snd (RemoveHandles vs ts)) \<and>
            (fst before \<noteq> ZX_OK \<longrightarrow> fst (RemoveHandles vs ts) = ZX_ERR_BAD_HANDLE)"
proof -
  let ?m = "last_chunk (length vs)"
  have "sys_handle_close_many stack (user_bytes vs) (length vs) ts =
      (fst (RemoveHandles (drop ?m vs) (snd (RemoveHandles (take ?m vs) ts))), snd (RemoveHandles vs ts))"
    using close_many_loop [of 0 vs stack ZX_OK ts] assms
    by (simp add: sys_handle_close_many_def RemoveUserHandles_def Let_def)
  moreover have "fst (RemoveHandles vs ts) = ZX_ERR_BAD_HANDLE" if "fst (RemoveHandles (take ?m vs) ts) \<noteq> ZX_OK"
    using that RemoveHandles_append [of "take ?m vs" "drop ?m vs" ts] by (simp add: split_beta)
  ultimately show ?thesis by (simp add: Let_def last_chunk_def)
qed

text \<open>65 entries, the first no handle of the process.\<close>

theorem close_many_forgets_errors_witness:
  "let vs = 2 # replicate 64 ZX_HANDLE_INVALID; ts = (HandleTable_new 1 7, empty_hstate)
   in fst (sys_handle_close_many (replicate 64 0) (user_bytes vs) (length vs) ts) = ZX_OK \<and>
      fst (RemoveHandles vs ts) = ZX_ERR_BAD_HANDLE"
proof -
  let ?t = "HandleTable_new 1 7"
  have skip: "RemoveHandles_loop st (replicate n ZX_HANDLE_INVALID) ts = (st, ts)" for st n ts
    by (induction n) auto
  have "(2 :: 32 word) AND kHandleMustBeOneMask \<noteq> kHandleMustBeOneMask"
    by (simp add: kHandleMustBeOneMask_eq mask_eq_exp_minus_1)
  then obtain t1 where g: "GetHandleLocked 2 False ?t empty_hstate = (None, t1)"
    by (simp add: GetHandleLocked_def map_value_to_handle_def)
  have bad: "RemoveHandles (2 # replicate n ZX_HANDLE_INVALID) (?t, empty_hstate) = (ZX_ERR_BAD_HANDLE, t1, empty_hstate)" for n
    using g skip by (simp add: RemoveHandles_def RemoveHandle_value_def zx_consts)
  have last: "RemoveHandles [ZX_HANDLE_INVALID] ts = (ZX_OK, ts)" for ts by (simp add: RemoveHandles_def)
  have cut: "take 64 (2 # replicate 64 ZX_HANDLE_INVALID) = 2 # replicate 63 ZX_HANDLE_INVALID"
    "drop 64 (2 # replicate 64 ZX_HANDLE_INVALID) = [ZX_HANDLE_INVALID]"
    by (simp_all add: take_Cons' drop_Cons')
  show ?thesis
    using close_many_forgets_errors [of "replicate 64 0" "2 # replicate 64 ZX_HANDLE_INVALID" "(?t, empty_hstate)"]
    by (simp add: kMaxMessageHandles_def Let_def bad last cut)
qed

text \<open>
  The clean-up after a failed \<open>zx_channel_write_etc\<close>. The kernel is built with
  \<open>-ftrivial-auto-var-init=pattern\<close>, which fills a local array of 32-bit integers with this value.
\<close>

definition auto_var_init :: zx_handle where "auto_var_init = 0xAAAAAAAA"

lemma auto_var_init_bad: "auto_var_init AND kHandleMustBeOneMask \<noteq> kHandleMustBeOneMask" "auto_var_init \<noteq> ZX_HANDLE_INVALID"
  by (simp_all add: auto_var_init_def kHandleMustBeOneMask_eq mask_eq_exp_minus_1 zx_consts)

lemma MapHandleToValue_neq_pattern: "table_inv t s \<Longrightarrow> MapHandleToValue i t s \<noteq> auto_var_init"
  using handle_value_fixed_bits [of "random_value_m t"] auto_var_init_bad(1)
  by (metis MapHandleToValue_def table_inv_def)

lemma RemoveHandles_loop_policy:
  "policy_calls_m (fst ts) + count_list vs auto_var_init \<le> policy_calls_m (fst (snd (RemoveHandles_loop st vs ts)))"
proof (induction st vs ts rule: RemoveHandles_loop.induct)
  case (2 status v rest ts)
  obtain h t1 where g: "GetHandleLocked v False (fst ts) (snd ts) = (h, t1)" by fastforce
  have pol: "policy_calls_m t1 = policy_calls_m (fst ts) + (if h = None then 1 else 0)"
    using g by (auto simp: GetHandleLocked_def Let_def split: if_splits option.splits)
  have pattern: "h = None" if "v = auto_var_init"
    using g that auto_var_init_bad(1) by (simp add: GetHandleLocked_def map_value_to_handle_def)
  show ?case
  proof (cases "v = ZX_HANDLE_INVALID")
    case True
    then show ?thesis using 2(1) auto_var_init_bad(2) by auto
  next
    case False
    show ?thesis
    proof (cases h)
      case None
      then show ?thesis
        using 2(2) [OF False, of None "(t1, snd ts)"] False pol by (simp add: RemoveHandle_value_def g)
    next
      case (Some i)
      then have "v \<noteq> auto_var_init" using pattern by blast
      then show ?thesis
        using 2(3) [OF False, of "Some i" "RemoveHandleLocked i (t1, snd ts)" i] False pol Some
        by (simp add: RemoveHandle_value_def g RemoveHandleLocked_def delete_owned_def Let_def)
    qed
  qed
qed simp

definition is_duplicate :: "zx_handle_disposition \<Rightarrow> bool" where
  "is_duplicate d \<longleftrightarrow> hd_operation d = ZX_HANDLE_OP_DUPLICATE"

definition consumed :: "zx_handle_disposition \<Rightarrow> zx_handle" where
  "consumed d = (if is_duplicate d then auto_var_init else hd_handle d)"

lemma consume_dispositions_pattern:
  "length ds \<le> n \<Longrightarrow> take (length ds) (consume_dispositions ds (replicate n auto_var_init)) = map consumed ds"
proof (induction ds arbitrary: n)
  case (Cons d ds)
  then show ?case by (cases n) (simp_all add: consumed_def is_duplicate_def)
qed simp

lemma count_consumed: "length (filter is_duplicate ds) \<le> count_list (map consumed ds) auto_var_init"
  by (induction ds) (auto simp: consumed_def)

text \<open>C39: The clean-up of a disposition array of up to \<open>kMaxMessageHandles\<close> entries closes exactly the handles
  that the entries with another operation than duplicate name, so the handles to duplicate stay
  open. But it also looks up the slot of each duplicate entry, which nobody wrote: each of them
  counts as a bad handle, is reported to the bad-handle policy of the job, and turns the status
  into \<open>ZX_ERR_BAD_HANDLE\<close>, however valid the entries are.\<close>
theorem duplicate_entries_blamed:
  assumes "table_inv t s" "length ds \<le> kMaxMessageHandles" "d \<in> set ds" "hd_operation d = ZX_HANDLE_OP_DUPLICATE"
    and "RemoveUserHandles (replicate kMaxMessageHandles auto_var_init) (get_user_dispositions_to_consume (user_bytes ds))
           (length ds) (t, s) = (st, t', s')"
  shows "set (handles_m t') = set (handles_m t) -
           {i. \<exists>d\<in>set ds. hd_operation d \<noteq> ZX_HANDLE_OP_DUPLICATE \<and> MapHandleToValue i t s = hd_handle d} \<and>
         policy_calls_m t + length (filter (\<lambda>d. hd_operation d = ZX_HANDLE_OP_DUPLICATE) ds) \<le> policy_calls_m t' \<and>
         st = ZX_ERR_BAD_HANDLE"
proof -
  let ?get = "get_user_dispositions_to_consume (user_bytes ds)"
  let ?stack = "replicate kMaxMessageHandles auto_var_init"
  have n: "0 < length ds" "min (length ds) kMaxMessageHandles = length ds" using assms(2,3) by auto
  have get: "?get 0 (length ds) ?stack = (ZX_OK, consume_dispositions ds ?stack)"
    by (simp add: get_user_dispositions_to_consume_def n Let_def)
  have "RemoveHandles (map consumed ds) (t, s) = (st, t', s')"
    using assms(5) n unfolding RemoveUserHandles_def
    by (simp add: RemoveUserHandles_loop.simps [of _ _ 0] RemoveUserHandles_loop.simps [of _ "length ds" "length ds"]
        get Let_def consume_dispositions_pattern [OF assms(2)] split: prod.splits)
  then have r: "RemoveHandles_loop ZX_OK (map consumed ds) (t, s) = (st, t', s')" by (simp add: RemoveHandles_def)
  have neq: "MapHandleToValue i t s \<noteq> auto_var_init" for i by (rule MapHandleToValue_neq_pattern [OF assms(1)])
  note spec = RemoveHandles_loop_spec [OF assms(1) r]
  have "set (handles_m t') = set (handles_m t) - {i. MapHandleToValue i t s \<in> consumed ` set ds}"
    using spec by auto
  moreover have "MapHandleToValue i t s \<in> consumed ` set ds \<longleftrightarrow>
      (\<exists>d\<in>set ds. hd_operation d \<noteq> ZX_HANDLE_OP_DUPLICATE \<and> MapHandleToValue i t s = hd_handle d)" for i
    using neq by (auto simp: consumed_def is_duplicate_def split: if_splits)
  moreover have "policy_calls_m t + length (filter is_duplicate ds) \<le> policy_calls_m t'"
    using RemoveHandles_loop_policy [of "(t, s)" "map consumed ds" ZX_OK] count_consumed [of ds] by (simp add: r)
  moreover have "st = ZX_ERR_BAD_HANDLE"
  proof -
    have "auto_var_init \<in> set (filter (\<lambda>v. v \<noteq> ZX_HANDLE_INVALID) (map consumed ds))"
      using assms(3,4) auto_var_init_bad(2) by (force simp: consumed_def is_duplicate_def)
    moreover have "auto_var_init \<notin> (\<lambda>i. MapHandleToValue i t s) ` set (handles_m t)" using neq by (auto simp: image_iff dest: sym)
    ultimately show ?thesis using spec by (auto split: if_splits)
  qed
  ultimately show ?thesis by (simp add: is_duplicate_def [abs_def])
qed

theorem duplicate_entries_blamed_witness:
  "case example_tables of (t, other, s) \<Rightarrow>
     \<exists>i st t' s'. handles_m t = [i] \<and>
       RemoveUserHandles (replicate kMaxMessageHandles auto_var_init)
         (get_user_dispositions_to_consume (user_bytes
           [\<lparr>hd_operation = ZX_HANDLE_OP_DUPLICATE, hd_handle = MapHandleToValue i t s, hd_type = 0,
             hd_rights = ZX_RIGHT_SAME_RIGHTS, hd_result = ZX_OK\<rparr>])) 1 (t, s) = (st, t', s') \<and>
       st = ZX_ERR_BAD_HANDLE \<and> set (handles_m t') = {i} \<and> policy_calls_m t < policy_calls_m t'"
proof -
  obtain t other s where ex: "example_tables = (t, other, s)" by (metis prod.exhaust)
  note inv = example_tables_inv [unfolded ex, simplified]
  then obtain i where hs: "handles_m t = [i]" by (cases "handles_m t") auto
  let ?d = "\<lparr>hd_operation = ZX_HANDLE_OP_DUPLICATE, hd_handle = MapHandleToValue i t s, hd_type = 0,
             hd_rights = ZX_RIGHT_SAME_RIGHTS, hd_result = ZX_OK\<rparr>"
  obtain st t' s' where r: "RemoveUserHandles (replicate kMaxMessageHandles auto_var_init)
      (get_user_dispositions_to_consume (user_bytes [?d])) 1 (t, s) = (st, t', s')" by (metis prod.exhaust)
  have "set (handles_m t') = {i} \<and> policy_calls_m t < policy_calls_m t' \<and> st = ZX_ERR_BAD_HANDLE"
    using duplicate_entries_blamed [of t s "[?d]" ?d st t' s'] r inv hs by (simp add: kMaxMessageHandles_def)
  then show ?thesis using r hs by (simp add: ex)
qed

subsection \<open>Checks on handles\<close>

text \<open>C21: A handle enters a message only if the sender holds it, may transfer it and it is not the
  channel itself, and it carries no right the sender's handle does not have. With the move
  operation the sender loses the handle, with the duplicate operation it keeps it and must have
  the right to duplicate it. On any error the handles of the sender are unchanged.\<close>
theorem message_handles_checked:
  assumes "table_inv t s" "get_disposition_for_message_locked map_ok channel d (t, s) = (r, d', t', s')"
  shows "table_inv t' s' \<and>
    (case r of Inl e \<Rightarrow> e \<noteq> ZX_OK \<and> s' = s \<and> handles_m t' = handles_m t
     | Inr j \<Rightarrow> (\<exists>i\<in>set (handles_m t). hd_handle d = MapHandleToValue i t s \<and>
         HasRights ZX_RIGHT_TRANSFER (slots_m s i) \<and> dispatcher_m (slots_m s i) \<noteq> channel \<and>
         dispatcher_m (slots_m s' j) = dispatcher_m (slots_m s i) \<and>
         process_id_m (slots_m s' j) = ZX_KOID_INVALID \<and>
         rights_m (slots_m s i) AND rights_m (slots_m s' j) = rights_m (slots_m s' j) \<and>
         (hd_rights d \<noteq> ZX_RIGHT_SAME_RIGHTS \<longrightarrow> rights_m (slots_m s' j) = hd_rights d) \<and>
         (if hd_operation d = ZX_HANDLE_OP_DUPLICATE
          then HasRights ZX_RIGHT_DUPLICATE (slots_m s i) \<and> handles_m t' = handles_m t
          else hd_operation d = ZX_HANDLE_OP_MOVE \<and> handles_m t' = remove1 i (handles_m t))))"
  using get_disposition_for_message_ok [OF assms] table_ok_inv [of "(t, s)" t' s']
  by (cases r) (auto simp: in_flight_from_def)

theorem message_handles_checked_witness:
  "case example_tables of (t, other, s) \<Rightarrow>
     \<exists>i r d' t' s'. handles_m t = [i] \<and>
       get_disposition_for_message_locked True None
         \<lparr>hd_operation = ZX_HANDLE_OP_MOVE, hd_handle = MapHandleToValue i t s, hd_type = 0,
          hd_rights = ZX_RIGHT_SAME_RIGHTS, hd_result = ZX_OK\<rparr> (t, s) = (Inr i, d', t', s') \<and> handles_m t' = []"
proof -
  obtain t other s where ex: "example_tables = (t, other, s)" by (metis prod.exhaust)
  note inv = example_tables_inv [unfolded ex, simplified]
  then obtain i where hs: "handles_m t = [i]" by (cases "handles_m t") auto
  have r: "rights_m (slots_m s i) = ZX_RIGHT_TRANSFER OR ZX_RIGHT_DUPLICATE" using inv hs by simp
  let ?d = "\<lparr>hd_operation = ZX_HANDLE_OP_MOVE, hd_handle = MapHandleToValue i t s, hd_type = 0,
          hd_rights = ZX_RIGHT_SAME_RIGHTS, hd_result = ZX_OK\<rparr>"
  obtain res d' t' s' where g: "get_disposition_for_message_locked True None ?d (t, s) = (res, d', t', s')"
    by (metis prod.exhaust)
  have "fst (GetHandleLocked (MapHandleToValue i t s) False t s) = Some i"
    using GetHandleLocked_iff [of t s] inv hs by auto
  then have "GetHandleLocked (MapHandleToValue i t s) False t s = (Some i, t)"
    using inv by (auto simp: GetHandleLocked_def Let_def split: if_splits)
  moreover have "dispatcher_m (slots_m s i) \<noteq> None" using table_inv_disp [of t s i] inv hs by simp
  ultimately have res: "res = Inr i"
    using g r by (auto simp: get_disposition_for_message_locked_def handle_checks_locked_def HasRights_def Let_def zx_consts)
  have "handles_m t' = []"
    using message_handles_checked [OF _ g] inv res hs by (auto simp: zx_consts)
  then show ?thesis using g res hs by (simp add: ex)
qed

text \<open>The lookup every system call goes through gives out an object only for a value of the caller's
  own table, of the requested type, with all requested rights, and reports the wrong type before
  missing rights and an unknown value before both.\<close>
theorem GetDispatcherWithRights_checked:
  assumes "table_inv t s"
  shows "case GetDispatcherWithRightsImpl type v desired skip_policy t s of (st, out, t') \<Rightarrow>
    (case fst (GetHandleLocked v skip_policy t s) of
       None \<Rightarrow> st = ZX_ERR_BAD_HANDLE \<and> out = None
     | Some i \<Rightarrow> i \<in> set (handles_m t) \<and>
         (\<exists>k. dispatcher_m (slots_m s i) = Some k \<and>
           (if type \<noteq> None \<and> type \<noteq> Some (type_m (dispatchers_m s k)) then st = ZX_ERR_WRONG_TYPE \<and> out = None
            else if rights_m (slots_m s i) AND desired \<noteq> desired then st = ZX_ERR_ACCESS_DENIED \<and> out = None
            else st = ZX_OK \<and> out = Some (k, rights_m (slots_m s i)))))"
proof -
  obtain h t1 where g: "GetHandleLocked v skip_policy t s = (h, t1)" by fastforce
  show ?thesis
  proof (cases h)
    case None
    then show ?thesis by (simp add: GetDispatcherWithRightsImpl_def g)
  next
    case (Some i)
    have i: "i \<in> set (handles_m t)" using GetHandleLocked_iff [OF assms, of v skip_policy i] g Some by simp
    then obtain k where "dispatcher_m (slots_m s i) = Some k" using table_inv_disp [OF assms] by blast
    then show ?thesis
      using i by (auto simp: GetDispatcherWithRightsImpl_def g Some DownCastDispatcher_def HasRights_def Let_def)
  qed
qed

theorem GetDispatcherWithRights_checked_witness:
  "case example_tables of (t, other, s) \<Rightarrow>
     fst (GetDispatcherWithRightsImpl None 2 ZX_RIGHT_WAIT True t s) = ZX_ERR_BAD_HANDLE"
proof -
  obtain t other s where ex: "example_tables = (t, other, s)" by (metis prod.exhaust)
  note inv = example_tables_inv [unfolded ex, simplified]
  have "2 AND kHandleMustBeOneMask \<noteq> kHandleMustBeOneMask"
    by (simp add: kHandleMustBeOneMask_eq mask_eq_exp_minus_1)
  then have "fst (GetHandleLocked 2 True t s) = None"
    by (simp add: GetHandleLocked_def map_value_to_handle_def)
  then show ?thesis
    using GetDispatcherWithRights_checked [where t = t and s = s and type = None and v = 2 and desired = ZX_RIGHT_WAIT
        and skip_policy = True] inv by (auto simp: ex)
qed

end
