(* ===== verification/Timer_Syscalls.thy ===== *)
theory Timer_Syscalls
  imports Timer_Dispatcher Job_Policy Handle_Table
begin

section \<open>Timer system calls\<close>

text \<open>
  Model of \<open>zx_timer_set\<close> and \<open>zx_timer_cancel\<close> in \<open>zircon/kernel/lib/syscalls/timer.cc\<close>: the lookup
  in the handle table of the calling process, the slack policy of its job, and the operation on
  the timer object. \<open>timers\<close> gives the timer object of each koid; \<open>None\<close> is a failed assertion.
\<close>

type_synonym timer_calls = "HandleTable \<times> (zx_koid \<Rightarrow> TimerDispatcher)"

definition sys_timer_set ::
  "zx_time \<Rightarrow> JobPolicy \<Rightarrow> hstate \<Rightarrow> zx_handle \<Rightarrow> zx_time \<Rightarrow> zx_duration \<Rightarrow> timer_calls \<Rightarrow> (zx_status \<times> timer_calls) option" where
  "sys_timer_set now policy s handle deadline slack st =
     (if slack < 0 then Some (ZX_ERR_OUT_OF_RANGE, st)
      else
        let (t, timers) = st;
            (status, out, t) = GetDispatcherWithRightsImpl (Some ZX_OBJ_TYPE_TIMER) handle ZX_RIGHT_WRITE False t s
        in if status \<noteq> ZX_OK then Some (status, t, timers)
           else
             let timer = fst (the out);
                 policySlack = amount_m (policy_slack_m policy);
                 effectiveSlack = max slack policySlack
             in map_option (\<lambda>(status, d). (status, t, timers(timer := d)))
                  (TimerDispatcher_Set now deadline effectiveSlack (timers timer)))"

definition sys_timer_cancel ::
  "hstate \<Rightarrow> zx_handle \<Rightarrow> timer_calls \<Rightarrow> (zx_status \<times> timer_calls) option" where
  "sys_timer_cancel s handle st =
     (let (t, timers) = st;
          (status, out, t) = GetDispatcherWithRightsImpl (Some ZX_OBJ_TYPE_TIMER) handle ZX_RIGHT_WRITE False t s
      in if status \<noteq> ZX_OK then Some (status, t, timers)
         else
           let timer = fst (the out)
           in map_option (\<lambda>(status, d). (status, t, timers(timer := d))) (TimerDispatcher_Cancel (timers timer)))"

text \<open>The references of each timer: an object that a handle of the table names has one.\<close>

definition timers_inv :: "(zx_koid \<Rightarrow> nat) \<Rightarrow> hstate \<Rightarrow> timer_calls \<Rightarrow> bool" where
  "timers_inv ext s st \<longleftrightarrow>
     table_inv (fst st) s \<and> (\<forall>k. timer_inv (ext k) (snd st k)) \<and>
     (\<forall>i\<in>set (handles_m (fst st)). \<forall>k. dispatcher_m (slots_m s i) = Some k \<longrightarrow> 0 < ext k)"

lemma timers_inv_update:
  "timers_inv ext s (t, timers) \<Longrightarrow> timer_inv (ext k) d \<Longrightarrow> timers_inv ext s (t\<lparr>policy_calls_m := n\<rparr>, timers(k := d))"
  by (simp add: timers_inv_def)

text \<open>What the lookup gives: an error, or a timer with a reference.\<close>

lemma timer_lookup:
  assumes "timers_inv ext s (t, timers)"
    and "GetDispatcherWithRightsImpl type v desired False t s = (status, out, t')"
  obtains n where "t' = t\<lparr>policy_calls_m := n\<rparr>" "status = ZX_OK \<longrightarrow> out \<noteq> None \<and> 0 < ext (fst (the out))"
proof -
  obtain h t1 where g: "GetHandleLocked v False t s = (h, t1)" by (rule prod.exhaust)
  obtain n where n: "t1 = t\<lparr>policy_calls_m := n\<rparr>" using GetHandleLocked_table [OF g] by blast
  have "t' = t1" using assms(2)
    by (auto simp: GetDispatcherWithRightsImpl_def g Let_def split: option.splits if_splits)
  moreover have "out \<noteq> None \<and> 0 < ext (fst (the out))" if "status = ZX_OK"
  proof -
    from assms(2) that obtain i where i: "h = Some i" "out = Some (the (dispatcher_m (slots_m s i)), rights_m (slots_m s i))"
      by (auto simp: GetDispatcherWithRightsImpl_def g Let_def DownCastDispatcher_def zx_consts split: option.splits if_splits)
    have inv: "table_inv t s" using assms(1) by (simp add: timers_inv_def)
    have "i \<in> set (handles_m t)" using GetHandleLocked_iff [OF inv, of v False i] g i(1) by simp
    then show ?thesis using assms(1) table_inv_disp [OF inv] i(2) by (fastforce simp: timers_inv_def)
  qed
  ultimately show ?thesis using n by (intro that) simp_all
qed

lemma sys_timer_set_ok:
  assumes "timers_inv ext s st"
  shows "\<exists>status st'. sys_timer_set now policy s v deadline slack st = Some (status, st') \<and> timers_inv ext s st'"
proof (cases "slack < 0")
  case True
  then show ?thesis using assms by (simp add: sys_timer_set_def)
next
  case False
  obtain t timers where st: "st = (t, timers)" by (rule prod.exhaust)
  obtain status out t' where l: "GetDispatcherWithRightsImpl (Some ZX_OBJ_TYPE_TIMER) v ZX_RIGHT_WRITE False t s = (status, out, t')"
    by (rule prod_cases3)
  obtain n where n: "t' = t\<lparr>policy_calls_m := n\<rparr>" "status = ZX_OK \<longrightarrow> out \<noteq> None \<and> 0 < ext (fst (the out))"
    using assms [unfolded st] l by (rule timer_lookup)
  let ?k = "fst (the out)"
  have inv: "timers_inv ext s (t, timers)" "timer_inv (ext ?k) (timers ?k)" using assms by (simp_all add: st timers_inv_def)
  show ?thesis
  proof (cases "status = ZX_OK")
    case True
    have "0 \<le> max slack (amount_m (policy_slack_m policy))" using False by simp
    then obtain d where d: "TimerDispatcher_Set now deadline (max slack (amount_m (policy_slack_m policy))) (timers ?k) = Some (ZX_OK, d)"
      "timer_inv (ext ?k) d"
      using Set_ok [OF inv(2)] n(2) True by blast
    then show ?thesis using False True timers_inv_update [OF inv(1) d(2), of n]
      by (simp add: sys_timer_set_def st l n(1) Let_def)
  qed (use False inv(1) in \<open>simp add: sys_timer_set_def st l n(1) timers_inv_def\<close>)
qed

lemma TimerDispatcher_Cancel_ok:
  assumes "timer_inv ext d" "0 < ext"
  shows "\<exists>d'. TimerDispatcher_Cancel d = Some (ZX_OK, d') \<and> timer_inv ext d'"
    and "\<exists>d'. TimerDispatcher_on_zero_handles d = Some d' \<and> timer_inv ext d'"
proof -
  obtain did_cancel d1 where c: "CancelTimerLocked d = Some (did_cancel, d1)" "timer_inv ext d1"
    "timer_m d1 = None" using assms by (rule CancelTimerLocked_ok)
  then show "\<exists>d'. TimerDispatcher_Cancel d = Some (ZX_OK, d') \<and> timer_inv ext d'"
    by (simp add: TimerDispatcher_Cancel_def)
  show "\<exists>d'. TimerDispatcher_on_zero_handles d = Some d' \<and> timer_inv ext d'"
    using c by (simp add: TimerDispatcher_on_zero_handles_def timer_inv_def)
qed

lemma sys_timer_cancel_ok:
  assumes "timers_inv ext s st"
  shows "\<exists>status st'. sys_timer_cancel s v st = Some (status, st') \<and> timers_inv ext s st'"
proof -
  obtain t timers where st: "st = (t, timers)" by (rule prod.exhaust)
  obtain status out t' where l: "GetDispatcherWithRightsImpl (Some ZX_OBJ_TYPE_TIMER) v ZX_RIGHT_WRITE False t s = (status, out, t')"
    by (rule prod_cases3)
  obtain n where n: "t' = t\<lparr>policy_calls_m := n\<rparr>" "status = ZX_OK \<longrightarrow> out \<noteq> None \<and> 0 < ext (fst (the out))"
    using assms [unfolded st] l by (rule timer_lookup)
  let ?k = "fst (the out)"
  have inv: "timers_inv ext s (t, timers)" "timer_inv (ext ?k) (timers ?k)" using assms by (simp_all add: st timers_inv_def)
  show ?thesis
  proof (cases "status = ZX_OK")
    case True
    then obtain d where d: "TimerDispatcher_Cancel (timers ?k) = Some (ZX_OK, d)" "timer_inv (ext ?k) d"
      using TimerDispatcher_Cancel_ok(1) [OF inv(2)] n(2) by blast
    then show ?thesis using True timers_inv_update [OF inv(1) d(2), of n]
      by (simp add: sys_timer_cancel_def st l n(1) Let_def)
  qed (use inv(1) in \<open>simp add: sys_timer_cancel_def st l n(1) timers_inv_def\<close>)
qed

text \<open>C26: The timer's contexts never corrupt each other. Whatever handle value, deadline and slack a
  process passes to \<open>zx_timer_set\<close> and \<open>zx_timer_cancel\<close>, no panic and no assertion is hit (neither
  the one on \<open>Release\<close> nor those on a negative slack), and the same holds for \<open>on_zero_handles\<close> of a
  referenced timer and for a DPC that is queued; a negative slack is refused. All of them, and the
  interrupt, keep the invariant that timer and DPC together hold exactly one reference while one
  of them is pending, with a slack that is not negative.\<close>
theorem timer_operations_safe:
  assumes "timers_inv ext s (t, timers)"
  shows "(\<exists>status st'. sys_timer_set now policy s v deadline slack (t, timers) = Some (status, st') \<and>
            timers_inv ext s st' \<and> (slack < 0 \<longrightarrow> status = ZX_ERR_OUT_OF_RANGE \<and> st' = (t, timers))) \<and>
         (\<exists>status st'. sys_timer_cancel s v (t, timers) = Some (status, st') \<and> timers_inv ext s st') \<and>
         (0 < ext k \<longrightarrow> (\<exists>d'. TimerDispatcher_on_zero_handles (timers k) = Some d' \<and>
            timers_inv ext s (t, timers(k := d')))) \<and>
         (timer_m (timers k) \<noteq> None \<longrightarrow> timers_inv ext s (t, timers(k := timer_irq_callback (timers k)))) \<and>
         (timer_dpc_m (timers k) \<longrightarrow> (\<exists>deleted d'. OnTimerFired (timers k) = Some (deleted, d') \<and>
            timers_inv ext s (t, timers(k := d'))))"
proof -
  have inv: "timer_inv (ext k) (timers k)" using assms by (simp add: timers_inv_def)
  have upd: "timers_inv ext s (t, timers(k := d))" if "timer_inv (ext k) d" for d
    using timers_inv_update [OF assms that, of "policy_calls_m t"] by simp
  have "slack < 0 \<Longrightarrow> sys_timer_set now policy s v deadline slack (t, timers) = Some (ZX_ERR_OUT_OF_RANGE, t, timers)"
    by (simp add: sys_timer_set_def)
  moreover have "\<exists>deleted d'. OnTimerFired (timers k) = Some (deleted, d') \<and> timers_inv ext s (t, timers(k := d'))"
    if "timer_dpc_m (timers k)"
    using OnTimerFired_ok [OF inv that] upd by metis
  ultimately show ?thesis
    using sys_timer_set_ok [OF assms, of now policy v deadline slack] sys_timer_cancel_ok [OF assms, of v]
      TimerDispatcher_Cancel_ok(2) [OF inv] irq_ok [OF inv] upd
    by (auto split: if_splits)
qed

text \<open>One process whose only handle names an armed timer.\<close>

theorem timer_operations_safe_witness:
  "case example_tables of (t, other, s) \<Rightarrow>
     (\<exists>status st'. sys_timer_set 10 CreateRootPolicy s 3 90 (- 1) (t, \<lambda>k. example_armed_timer) = Some (status, st') \<and>
        status = ZX_ERR_OUT_OF_RANGE) \<and>
     (\<exists>d'. TimerDispatcher_on_zero_handles example_armed_timer = Some d') \<and>
     timers_inv (\<lambda>k. 1) s (t, (\<lambda>k. example_armed_timer)(1024 := timer_irq_callback example_armed_timer))"
proof -
  obtain t other s where ex: "example_tables = (t, other, s)" by (metis prod.exhaust)
  note tab = example_tables_inv [unfolded ex, simplified]
  have inv: "timers_inv (\<lambda>k. 1) s (t, \<lambda>k. example_armed_timer)"
    using tab timer_inv_example by (simp add: timers_inv_def)
  show ?thesis
    using timer_operations_safe [OF inv, of 10 CreateRootPolicy 3 90 "- 1" 1024]
    by (auto simp: ex example_armed_timer_def TimerDispatcher_new_def)
qed

end
