(* ===== verification/Handle_Iteration.thy ===== *)
theory Handle_Iteration
  imports Handle_Table
begin

section \<open>Iterating over a handle table\<close>

text \<open>
  Model of \<open>ForEachHandleLocked\<close> and \<open>ForEachHandleBatched\<close> of
  \<open>zircon/kernel/object/include/object/handle_table.h\<close>. The batched version gives up the lock
  between batches, so the model runs arbitrary operations of other threads there; the cursor is
  kept valid by \<open>RemoveHandleLocked\<close> and \<open>Clean\<close>. The theorem says what such an iteration sees.
\<close>

subsection \<open>Iterating over a table\<close>

record Args =
  args_handle_value :: zx_handle
  args_rights :: zx_rights
  args_dispatcher :: zx_koid

definition handle_args :: "HandleTable \<Rightarrow> hstate \<Rightarrow> nat \<Rightarrow> Args" where
  "handle_args t s h =
     \<lparr>args_handle_value = MapHandleToValue h t s, args_rights = rights_m (slots_m s h),
      args_dispatcher = the (dispatcher_m (slots_m s h))\<rparr>"

text \<open>The calls of \<open>func\<close> in order, up to and including the one that returned an error.\<close>

fun call_each :: "('a \<Rightarrow> zx_status) \<Rightarrow> 'a list \<Rightarrow> zx_status \<times> 'a list" where
  "call_each func [] = (ZX_OK, [])"
| "call_each func (x # xs) =
     (if func x \<noteq> ZX_OK then (func x, [x])
      else let (status, calls) = call_each func xs in (status, x # calls))"

definition ForEachHandleLocked ::
  "(Args \<Rightarrow> zx_status) \<Rightarrow> HandleTable \<Rightarrow> hstate \<Rightarrow> zx_status \<times> Args list" where
  "ForEachHandleLocked func t s = call_each func (map (handle_args t s) (handles_m t))"

definition kMaxBatchSize :: nat where "kMaxBatchSize = 64"

text \<open>
  One critical section of \<open>ForEachHandleBatched\<close>: at most \<open>n\<close> more calls of \<open>Next\<close>. Each entry of
  the batch is kept with the slot it was read from; the flag is \<open>done\<close>.
\<close>

fun gather_batch ::
  "nat \<Rightarrow> nat \<Rightarrow> HandleTable \<Rightarrow> hstate \<Rightarrow> bool \<times> (nat \<times> Args) list \<times> HandleTable" where
  "gather_batch c 0 t s = (False, [], t)"
| "gather_batch c (Suc n) t s =
     (case HandleCursor_Next c t of
        (None, t) \<Rightarrow> (True, [], t)
      | (Some h, t) \<Rightarrow>
          let (done, batch, t') = gather_batch c n t s in (done, (h, handle_args t s h) # batch, t'))"

text \<open>
  What other threads do to the table while the lock is not held. Only a handle that no table
  owns can be added, and only one of the table removed.
\<close>

datatype table_op = TAdd nat | TRemove nat | TClean

fun run_table_op :: "table_op \<Rightarrow> HandleTable \<times> hstate \<Rightarrow> HandleTable \<times> hstate" where
  "run_table_op (TAdd h) ts = (if h \<in> set (handles_m (fst ts)) then ts else AddHandleLocked h ts)"
| "run_table_op (TRemove h) ts = (if h \<in> set (handles_m (fst ts)) then RemoveHandleLocked h ts else ts)"
| "run_table_op TClean ts = HandleTable_Clean ts"

text \<open>
  The loop of \<open>ForEachHandleBatched\<close>; \<open>env k\<close> is what happens while \<open>func\<close> is called for the batch
  gathered with \<open>k\<close> iterations left. \<open>None\<close> is a loop that needs more iterations than the fuel.
\<close>

fun batch_loop ::
  "nat \<Rightarrow> (Args \<Rightarrow> zx_status) \<Rightarrow> (nat \<Rightarrow> table_op list) \<Rightarrow> nat \<Rightarrow> HandleTable \<times> hstate
     \<Rightarrow> (zx_status \<times> (nat \<times> Args) list \<times> HandleTable \<times> hstate) option" where
  "batch_loop c func env 0 ts = None"
| "batch_loop c func env (Suc fuel) ts =
     (let (done, batch, t) = gather_batch c kMaxBatchSize (fst ts) (snd ts);
          ts = fold run_table_op (env fuel) (t, snd ts);
          (status, calls) = call_each (\<lambda>x. func (snd x)) batch
      in if status \<noteq> ZX_OK then Some (status, calls, ts)
         else if done then Some (ZX_OK, calls, ts)
         else case batch_loop c func env fuel ts of
                None \<Rightarrow> None
              | Some (status, calls', ts) \<Rightarrow> Some (status, calls @ calls', ts))"

definition ForEachHandleBatched ::
  "nat \<Rightarrow> (Args \<Rightarrow> zx_status) \<Rightarrow> (nat \<Rightarrow> table_op list) \<Rightarrow> HandleTable \<times> hstate
     \<Rightarrow> (zx_status \<times> (nat \<times> Args) list \<times> HandleTable \<times> hstate) option" where
  "ForEachHandleBatched c func env ts =
     (case batch_loop c func env (Suc (length (handles_m (fst ts)))) (HandleCursor_new c (fst ts), snd ts) of
        None \<Rightarrow> None
      | Some (status, calls, t, s) \<Rightarrow> Some (status, calls, HandleCursor_destroy c t, s))"

subsection \<open>What is left to visit\<close>

definition cursor_rest :: "nat \<Rightarrow> HandleTable \<Rightarrow> nat list" where
  "cursor_rest c t =
     (case map_of (cursors_m t) c of Some (Some i) \<Rightarrow> dropWhile (\<lambda>x. x \<noteq> i) (handles_m t) | _ \<Rightarrow> [])"

definition cursor_ok :: "nat \<Rightarrow> HandleTable \<Rightarrow> bool" where
  "cursor_ok c t \<longleftrightarrow>
     distinct (handles_m t) \<and> distinct (map fst (cursors_m t)) \<and>
     (case map_of (cursors_m t) c of None \<Rightarrow> False | Some None \<Rightarrow> True | Some (Some i) \<Rightarrow> i \<in> set (handles_m t))"

lemma list_next_rest:
  "distinct xs \<Longrightarrow> i \<in> set xs \<Longrightarrow>
   dropWhile (\<lambda>x. x \<noteq> i) xs =
     i # (case list_next xs i of None \<Rightarrow> [] | Some j \<Rightarrow> dropWhile (\<lambda>x. x \<noteq> j) xs)"
proof (induction xs)
  case (Cons y ys)
  show ?case
  proof (cases "y = i")
    case True
    then show ?thesis using Cons.prems by (auto split: list.splits)
  next
    case False
    have "list_next ys i = Some j \<Longrightarrow> j \<in> set ys" for j
      by (induction ys) (auto split: if_splits list.splits)
    then show ?thesis using Cons False by (auto split: option.splits)
  qed
qed simp

lemma list_next_mem: "list_next xs i = Some j \<Longrightarrow> j \<in> set xs"
  by (induction xs) (auto split: if_splits list.splits)

text \<open>\<open>list_next\<close> steps over a removed element as it does in the shorter list.\<close>

lemma dropWhile_remove1:
  "distinct xs \<Longrightarrow> j \<noteq> i \<Longrightarrow> dropWhile (\<lambda>x. x \<noteq> i) (remove1 j xs) = remove1 j (dropWhile (\<lambda>x. x \<noteq> i) xs)"
proof (induction xs)
  case (Cons y ys)
  show ?case
  proof (cases "y = j")
    case True
    then have "j \<notin> set (dropWhile (\<lambda>x. x \<noteq> i) ys)" using Cons.prems by (auto dest: set_dropWhileD)
    then show ?thesis using True Cons.prems by (simp add: remove1_idem)
  qed (use Cons in auto)
qed simp

lemma list_next_distinct: "distinct xs \<Longrightarrow> list_next xs i = Some j \<Longrightarrow> j \<noteq> i"
  by (induction xs) (auto split: if_splits list.splits)

lemma map_of_set_cursor:
  "c \<in> fst ` set cs \<Longrightarrow> map_of (map (\<lambda>x. if fst x = c then (c, v) else x) cs) c = Some v"
  by (induction cs) auto

lemma fst_set_cursor: "map fst (map (\<lambda>x. if fst x = c then (c, v) else x) cs) = map fst cs"
  by (induction cs) auto

lemma map_of_Some_mem: "map_of cs c = Some v \<Longrightarrow> c \<in> fst ` set cs"
  by (induction cs) (auto split: if_splits)

lemma HandleCursor_Next_rest:
  assumes "cursor_ok c t" "HandleCursor_Next c t = (r, t')"
  shows "cursor_ok c t' \<and> cursor_rest c t = (case r of None \<Rightarrow> [] | Some i \<Rightarrow> i # cursor_rest c t')"
proof -
  from assms(1) obtain it where it: "map_of (cursors_m t) c = Some it"
    by (auto simp: cursor_ok_def split: option.splits)
  show ?thesis
  proof (cases it)
    case None
    then show ?thesis using assms it by (auto simp: HandleCursor_Next_def cursor_rest_def)
  next
    case (Some i)
    let ?cs = "map (\<lambda>x. if fst x = c then (c, list_next (handles_m t) i) else x) (cursors_m t)"
    have t': "r = Some i" "t' = t\<lparr>cursors_m := ?cs\<rparr>"
      using assms(2) it Some by (auto simp: HandleCursor_Next_def)
    have new: "map_of ?cs c = Some (list_next (handles_m t) i)"
      using map_of_Some_mem [OF it] by (rule map_of_set_cursor)
    have ok: "distinct (handles_m t)" "i \<in> set (handles_m t)" "distinct (map fst ?cs)"
      using assms(1) it Some by (auto simp: cursor_ok_def fst_set_cursor simp del: map_map)
    show ?thesis
      using ok list_next_rest [OF ok(1,2)] list_next_mem [of "handles_m t" i]
      by (auto simp: t' cursor_ok_def cursor_rest_def new it Some simp del: map_map split: option.splits)
  qed
qed

lemma gather_batch_rest:
  "cursor_ok c t \<Longrightarrow> gather_batch c n t s = (fin, batch, t') \<Longrightarrow>
   cursor_ok c t' \<and> cursor_rest c t = map fst batch @ cursor_rest c t' \<and>
   (fin \<longrightarrow> cursor_rest c t' = []) \<and> (\<not> fin \<longrightarrow> length batch = n)"
proof (induction n arbitrary: t fin batch t')
  case (Suc n)
  obtain r t1 where r: "HandleCursor_Next c t = (r, t1)" by fastforce
  note next_rest = HandleCursor_Next_rest [OF Suc.prems(1) r]
  show ?case
  proof (cases r)
    case None
    then have "t1 = t" using r by (auto simp: HandleCursor_Next_def split: option.splits)
    then show ?thesis using Suc.prems r None next_rest by auto
  next
    case (Some i)
    obtain d1 b1 t2 where g: "gather_batch c n t1 s = (d1, b1, t2)" by (metis prod.exhaust)
    show ?thesis using Suc.IH [OF _ g] Suc.prems(2) next_rest by (auto simp: r Some g)
  qed
qed simp

text \<open>Operations of other threads only ever drop elements the cursor has not reached.\<close>

definition shrinks :: "(nat \<Rightarrow> bool) \<Rightarrow> nat \<Rightarrow> HandleTable \<Rightarrow> HandleTable \<Rightarrow> bool" where
  "shrinks keep c t t' \<longleftrightarrow>
     cursor_ok c t' \<and> (\<exists>P. cursor_rest c t' = filter P (cursor_rest c t) \<and> (\<forall>h. keep h \<longrightarrow> P h))"

lemma shrinks_refl: "cursor_ok c t \<Longrightarrow> shrinks keep c t t"
  by (auto simp: shrinks_def intro: exI [of _ "\<lambda>_. True"])

lemma shrinks_trans: "shrinks keep c t t' \<Longrightarrow> shrinks keep c t' t'' \<Longrightarrow> shrinks keep c t t''"
proof -
  assume 1: "shrinks keep c t t'" and 2: "shrinks keep c t' t''"
  from 1 obtain P where "cursor_rest c t' = filter P (cursor_rest c t)" "\<forall>h. keep h \<longrightarrow> P h"
    by (auto simp: shrinks_def)
  moreover from 2 obtain Q where "cursor_rest c t'' = filter Q (cursor_rest c t')" "\<forall>h. keep h \<longrightarrow> Q h"
    by (auto simp: shrinks_def)
  ultimately show ?thesis using 2 by (auto simp: shrinks_def intro!: exI [of _ "\<lambda>x. P x \<and> Q x"])
qed

lemma shrinks_Add:
  assumes "cursor_ok c (fst ts)" "h \<notin> set (handles_m (fst ts))"
  shows "shrinks keep c (fst ts) (fst (AddHandleLocked h ts))"
proof -
  let ?t = "fst (AddHandleLocked h ts)"
  have "cursor_rest c ?t = cursor_rest c (fst ts)" "cursor_ok c ?t"
    using assms by (auto simp: AddHandleLocked_def Let_def cursor_rest_def cursor_ok_def split: prod.splits option.splits)
  then show ?thesis by (auto simp: shrinks_def intro: exI [of _ "\<lambda>_. True"])
qed

lemma map_of_AdvanceIf:
  "map_of (map (HandleCursor_AdvanceIf hs h) cs) c =
   map_option (\<lambda>it. snd (HandleCursor_AdvanceIf hs h (c, it))) (map_of cs c)"
  by (induction cs) (auto simp: HandleCursor_AdvanceIf_def split: option.splits)

lemma fst_AdvanceIf: "map fst (map (HandleCursor_AdvanceIf hs h) cs) = map fst cs"
  by (induction cs) (auto simp: HandleCursor_AdvanceIf_def split: option.splits)

lemma remove1_filter: "distinct xs \<Longrightarrow> remove1 h xs = filter (\<lambda>x. x \<noteq> h) xs"
  by (induction xs) (auto simp: filter_id_conv intro: sym)

lemma distinct_cursor_rest: "cursor_ok c t \<Longrightarrow> distinct (cursor_rest c t)"
  by (simp add: cursor_ok_def cursor_rest_def distinct_dropWhile split: option.splits)

lemma shrinks_Remove:
  assumes "cursor_ok c (fst ts)" "h \<in> set (handles_m (fst ts))" "\<not> keep h"
  shows "shrinks keep c (fst ts) (fst (RemoveHandleLocked h ts))"
proof -
  obtain t s where ts: "ts = (t, s)" by fastforce
  let ?t = "fst (RemoveHandleLocked h ts)" and ?hs = "handles_m t"
  have t': "handles_m ?t = remove1 h ?hs" "cursors_m ?t = map (HandleCursor_AdvanceIf ?hs h) (cursors_m t)"
    by (simp_all add: RemoveHandleLocked_def Let_def ts)
  have dist: "distinct ?hs" and cs: "distinct (map fst (cursors_m ?t))"
    using assms(1) unfolding t' fst_AdvanceIf by (simp_all add: cursor_ok_def ts)
  from assms(1) obtain it where it: "map_of (cursors_m t) c = Some it"
    by (auto simp: cursor_ok_def ts split: option.splits)
  have sub: "distinct (dropWhile (\<lambda>x. x \<noteq> i) ?hs)" for i using dist by (rule distinct_dropWhile)
  have "cursor_ok c ?t \<and> cursor_rest c ?t = filter (\<lambda>x. x \<noteq> h) (cursor_rest c t)"
  proof (cases it)
    case None
    then show ?thesis using dist cs it
      by (simp add: cursor_ok_def cursor_rest_def t' map_of_AdvanceIf HandleCursor_AdvanceIf_def)
  next
    case (Some i)
    have mem: "i \<in> set ?hs" using assms(1) it Some by (simp add: cursor_ok_def ts)
    show ?thesis
    proof (cases "i = h")
      case False
      then show ?thesis
        using dist cs it Some mem dropWhile_remove1 [OF dist, of h i] sub [of i]
        by (simp add: cursor_ok_def cursor_rest_def t' map_of_AdvanceIf HandleCursor_AdvanceIf_def
            remove1_filter)
    next
      case True
      note rest = list_next_rest [OF dist mem]
      show ?thesis
      proof (cases "list_next ?hs i")
        case None
        then show ?thesis using rest dist cs it Some True
          by (simp add: cursor_ok_def cursor_rest_def t' map_of_AdvanceIf HandleCursor_AdvanceIf_def)
      next
        case (Some j)
        have j: "j \<noteq> h" "j \<in> set ?hs" using list_next_distinct [OF dist Some] list_next_mem [OF Some] True by auto
        have "h \<notin> set (dropWhile (\<lambda>x. x \<noteq> j) ?hs)" using rest sub [of i] Some True by simp
        then have f: "filter (\<lambda>x. x \<noteq> h) (dropWhile (\<lambda>x. x \<noteq> j) ?hs) = dropWhile (\<lambda>x. x \<noteq> j) ?hs"
          "remove1 h (dropWhile (\<lambda>x. x \<noteq> j) ?hs) = dropWhile (\<lambda>x. x \<noteq> j) ?hs"
          by (auto simp: filter_id_conv remove1_idem)
        have old: "cursor_rest c t = h # dropWhile (\<lambda>x. x \<noteq> j) ?hs"
          using rest it \<open>it = Some i\<close> True Some by (simp add: cursor_rest_def)
        have "map_of (cursors_m ?t) c = Some (Some j)"
          using it \<open>it = Some i\<close> True Some by (simp add: t' map_of_AdvanceIf HandleCursor_AdvanceIf_def)
        moreover from this have "cursor_rest c ?t = dropWhile (\<lambda>x. x \<noteq> j) ?hs"
          using dropWhile_remove1 [OF dist, of h j] j f by (simp add: cursor_rest_def t')
        ultimately show ?thesis using dist cs j f unfolding old by (simp add: cursor_ok_def t'(1))
      qed
    qed
  qed
  then show ?thesis using assms(3) unfolding shrinks_def ts by (auto intro: exI [of _ "\<lambda>x. x \<noteq> h"])
qed

lemma shrinks_Clean:
  assumes "cursor_ok c (fst ts)" "\<And>h. \<not> keep h"
  shows "shrinks keep c (fst ts) (fst (HandleTable_Clean ts))"
proof -
  obtain t s where ts: "ts = (t, s)" by fastforce
  have inv: "map_of (map HandleCursor_Invalidate cs) c = map_option (\<lambda>_. None) (map_of cs c)" for cs
    by (induction cs) (auto simp: HandleCursor_Invalidate_def)
  have "map fst (map HandleCursor_Invalidate cs) = map fst cs" for cs
    by (induction cs) (auto simp: HandleCursor_Invalidate_def)
  then have "cursor_ok c (fst (HandleTable_Clean ts)) \<and> cursor_rest c (fst (HandleTable_Clean ts)) = []"
    using assms(1) by (auto simp: HandleTable_Clean_def Let_def ts cursor_ok_def cursor_rest_def inv
        simp del: map_map split: option.splits)
  then show ?thesis using assms(2) by (auto simp: shrinks_def intro: exI [of _ "\<lambda>_. False"])
qed

text \<open>The handles no operation of \<open>ops\<close> takes away.\<close>

definition kept :: "table_op list \<Rightarrow> nat \<Rightarrow> bool" where
  "kept ops h \<longleftrightarrow> TRemove h \<notin> set ops \<and> TClean \<notin> set ops"

lemma shrinks_ops:
  "cursor_ok c (fst ts) \<Longrightarrow> shrinks (kept ops) c (fst ts) (fst (fold run_table_op ops ts))"
proof (induction ops arbitrary: ts)
  case (Cons a ops)
  have "shrinks (kept (a # ops)) c (fst ts) (fst (run_table_op a ts))"
    using Cons.prems
    by (cases a) (auto simp: kept_def intro: shrinks_refl shrinks_Add shrinks_Remove shrinks_Clean)
  moreover from this have "shrinks (kept ops) c (fst (run_table_op a ts)) (fst (fold run_table_op ops (run_table_op a ts)))"
    by (intro Cons.IH) (simp add: shrinks_def)
  then have "shrinks (kept (a # ops)) c (fst (run_table_op a ts)) (fst (fold run_table_op ops (run_table_op a ts)))"
    by (auto simp: shrinks_def kept_def)
  ultimately show ?case by (auto intro: shrinks_trans)
qed (simp add: shrinks_refl)

subsection \<open>The batched iteration\<close>

lemma call_each_spec:
  "call_each f xs = (st, calls) \<Longrightarrow>
   (\<exists>rest. xs = calls @ rest) \<and> (st = ZX_OK \<longrightarrow> calls = xs) \<and> (st \<noteq> ZX_OK \<longrightarrow> calls \<noteq> [] \<and> f (last calls) = st)"
  by (induction xs arbitrary: st calls) (auto split: if_splits prod.splits)

lemma batch_loop_spec:
  assumes "cursor_ok c (fst ts)" "length (cursor_rest c (fst ts)) < fuel"
  shows "\<exists>st calls ts'. batch_loop c func env fuel ts = Some (st, calls, ts') \<and>
     distinct (map fst calls) \<and> set (map fst calls) \<subseteq> set (cursor_rest c (fst ts)) \<and>
     (st = ZX_OK \<longrightarrow> (\<forall>h\<in>set (cursor_rest c (fst ts)). (\<forall>k. kept (env k) h) \<longrightarrow> h \<in> set (map fst calls))) \<and>
     (st \<noteq> ZX_OK \<longrightarrow> calls \<noteq> [] \<and> func (snd (last calls)) = st)"
  using assms
proof (induction fuel arbitrary: ts)
  case (Suc fuel)
  obtain fin batch t1 where g: "gather_batch c kMaxBatchSize (fst ts) (snd ts) = (fin, batch, t1)"
    by (metis prod.exhaust)
  note gather = gather_batch_rest [OF Suc.prems(1) g]
  have dist: "distinct (map fst batch @ cursor_rest c t1)"
    using gather distinct_cursor_rest [OF Suc.prems(1)] by simp
  define ts1 where "ts1 = fold run_table_op (env fuel) (t1, snd ts)"
  have shr: "shrinks (kept (env fuel)) c t1 (fst ts1)"
    using shrinks_ops [of c "(t1, snd ts)"] gather by (simp add: ts1_def)
  then obtain P where P: "cursor_rest c (fst ts1) = filter P (cursor_rest c t1)" "\<forall>h. kept (env fuel) h \<longrightarrow> P h"
    by (auto simp: shrinks_def)
  obtain st calls where ce: "call_each (\<lambda>x. func (snd x)) batch = (st, calls)" by fastforce
  note called = call_each_spec [OF ce]
  show ?case
  proof (cases "st \<noteq> ZX_OK \<or> fin")
    case True
    then show ?thesis using called gather dist by (auto simp: g ce ts1_def [symmetric])
  next
    case False
    have "0 < length batch" using gather False by (simp add: kMaxBatchSize_def)
    moreover have "length (cursor_rest c (fst ts)) = length batch + length (cursor_rest c t1)" using gather by simp
    moreover have "length (cursor_rest c (fst ts1)) \<le> length (cursor_rest c t1)" by (simp add: P(1))
    ultimately have "length (cursor_rest c (fst ts1)) < fuel" using Suc.prems(2) by linarith
    moreover have "cursor_ok c (fst ts1)" using shr by (simp add: shrinks_def)
    ultimately obtain st2 calls2 ts2 where rec: "batch_loop c func env fuel ts1 = Some (st2, calls2, ts2)"
      "distinct (map fst calls2)" "set (map fst calls2) \<subseteq> set (cursor_rest c (fst ts1))"
      "st2 = ZX_OK \<longrightarrow> (\<forall>h\<in>set (cursor_rest c (fst ts1)). (\<forall>k. kept (env k) h) \<longrightarrow> h \<in> set (map fst calls2))"
      "st2 \<noteq> ZX_OK \<longrightarrow> calls2 \<noteq> [] \<and> func (snd (last calls2)) = st2"
      using Suc.IH by blast
    have run: "batch_loop c func env (Suc fuel) ts = Some (st2, batch @ calls2, ts2)"
      using False called rec(1) by (simp add: g ce ts1_def [symmetric])
    have sub: "set (map fst calls2) \<subseteq> set (cursor_rest c t1)" using rec(3) P(1) by auto
    have "distinct (map fst (batch @ calls2))" using dist rec(2) sub by auto
    moreover have "set (map fst (batch @ calls2)) \<subseteq> set (cursor_rest c (fst ts))" using gather sub by auto
    moreover have "h \<in> set (map fst (batch @ calls2))"
      if "st2 = ZX_OK" "h \<in> set (cursor_rest c (fst ts))" "\<forall>k. kept (env k) h" for h
      using that rec(4) P gather by auto
    moreover have "st2 \<noteq> ZX_OK \<longrightarrow> batch @ calls2 \<noteq> [] \<and> func (snd (last (batch @ calls2))) = st2"
      using rec(5) by auto
    ultimately show ?thesis using run by blast
  qed
qed simp

text \<open>C28: Iterating over a handle table in batches, with any additions, removals and even the emptying
  of the table by other threads between the batches, ends; no handle is visited twice, only
  handles that were in the table when it started are visited, and when it ends without an error
  every handle that nobody removed meanwhile was visited. An error is the one \<open>func\<close> returned
  for the last handle visited.\<close>
theorem ForEachHandleBatched_visits:
  assumes "distinct (handles_m t)" "distinct (map fst (cursors_m t))" "c \<notin> fst ` set (cursors_m t)"
  shows "\<exists>st calls t' s'. ForEachHandleBatched c func env (t, s) = Some (st, calls, t', s') \<and>
    distinct (map fst calls) \<and> set (map fst calls) \<subseteq> set (handles_m t) \<and>
    (st = ZX_OK \<longrightarrow> (\<forall>h\<in>set (handles_m t).
        (\<forall>k. TRemove h \<notin> set (env k) \<and> TClean \<notin> set (env k)) \<longrightarrow> h \<in> set (map fst calls))) \<and>
    (st \<noteq> ZX_OK \<longrightarrow> calls \<noteq> [] \<and> func (snd (last calls)) = st)"
proof -
  let ?t = "HandleCursor_new c t"
  have rest: "cursor_rest c ?t = handles_m t"
    by (cases "handles_m t") (auto simp: cursor_rest_def HandleCursor_new_def)
  have "cursor_ok c ?t"
    using assms by (auto simp: cursor_ok_def HandleCursor_new_def split: list.splits)
  from batch_loop_spec [of c "(?t, s)" "Suc (length (handles_m t))" func env] this
  obtain st calls t' s' where "batch_loop c func env (Suc (length (handles_m t))) (?t, s) = Some (st, calls, t', s')"
    "distinct (map fst calls)" "set (map fst calls) \<subseteq> set (handles_m t)"
    "st = ZX_OK \<longrightarrow> (\<forall>h\<in>set (handles_m t). (\<forall>k. kept (env k) h) \<longrightarrow> h \<in> set (map fst calls))"
    "st \<noteq> ZX_OK \<longrightarrow> calls \<noteq> [] \<and> func (snd (last calls)) = st"
    by (auto simp: rest)
  then show ?thesis by (simp add: ForEachHandleBatched_def kept_def del: batch_loop.simps)
qed

theorem ForEachHandleBatched_visits_witness:
  "case example_tables of (t, other, s) \<Rightarrow>
     \<exists>calls t' s'. ForEachHandleBatched 0 (\<lambda>_. ZX_OK) (\<lambda>_. [TAdd 77]) (t, s) = Some (ZX_OK, calls, t', s') \<and>
       set (map fst calls) = set (handles_m t)"
proof -
  obtain t other s where ex: "example_tables = (t, other, s)" by (metis prod.exhaust)
  note inv = example_tables_inv [unfolded ex, simplified]
  have "distinct (handles_m t)" "distinct (map fst (cursors_m t))" "0 \<notin> fst ` set (cursors_m t)"
    using inv by (simp_all add: table_inv_def)
  from ForEachHandleBatched_visits [OF this, of "\<lambda>_. ZX_OK" "\<lambda>_. [TAdd 77]" s]
  obtain st calls t' s' where
      run: "ForEachHandleBatched 0 (\<lambda>_. ZX_OK) (\<lambda>_. [TAdd 77]) (t, s) = Some (st, calls, t', s')"
    and sub: "set (map fst calls) \<subseteq> set (handles_m t)"
    and all: "st = ZX_OK \<longrightarrow> (\<forall>h\<in>set (handles_m t).
        (\<forall>k::nat. TRemove h \<notin> set [TAdd 77] \<and> TClean \<notin> set [TAdd 77]) \<longrightarrow> h \<in> set (map fst calls))"
    and err: "st \<noteq> ZX_OK \<longrightarrow> calls \<noteq> [] \<and> ZX_OK = st"
    by blast
  have "st = ZX_OK" using err by blast
  moreover have "set (handles_m t) \<subseteq> set (map fst calls)" using all calculation by auto
  ultimately show ?thesis using run sub by (simp add: ex)
qed

end
