(* ===== verification/Ordered_Queue.thy ===== *)
theory Ordered_Queue
  imports Zx_Prelude
begin

section \<open>The contract of an ordered queue\<close>

text \<open>
  Fifos, channels and sockets all promise the same: what is written comes out once, in order and
  unchanged. The locale states the promise for one operation, a conservation law between the
  contents before, the contents after, what the operation took in and what it handed out. A run of
  any operations then keeps it, which is proved once here and used through the interpretations for
  each kind of queue.
\<close>

text \<open>Runs of operations, with everything taken in and handed out on the way.\<close>

primrec queue_run :: "('op \<Rightarrow> 's \<Rightarrow> 's) \<Rightarrow> 'op list \<Rightarrow> 's \<Rightarrow> 's" where
  "queue_run step [] s = s"
| "queue_run step (op # ops) s = queue_run step ops (step op s)"

primrec queue_log :: "('op \<Rightarrow> 's \<Rightarrow> 's) \<Rightarrow> ('op \<Rightarrow> 's \<Rightarrow> 'e list) \<Rightarrow> 'op list \<Rightarrow> 's \<Rightarrow> 'e list" where
  "queue_log step out [] s = []"
| "queue_log step out (op # ops) s = out op s @ queue_log step out ops (step op s)"

locale ordered_queue =
  fixes inv :: "'s \<Rightarrow> bool"
    and contents :: "'s \<Rightarrow> 'e list"
    and step :: "'op \<Rightarrow> 's \<Rightarrow> 's"
    and taken_in :: "'op \<Rightarrow> 's \<Rightarrow> 'e list"
    and handed_out :: "'op \<Rightarrow> 's \<Rightarrow> 'e list"
  assumes inv_step: "inv s \<Longrightarrow> inv (step op s)"
    and conserve: "inv s \<Longrightarrow> handed_out op s @ contents (step op s) = contents s @ taken_in op s"
begin

lemma handed_out_step: "inv s \<Longrightarrow> taken_in op s = [] \<Longrightarrow> handed_out op s = take (length (handed_out op s)) (contents s)"
  using conserve [of s op] by (metis append.right_neutral append_eq_conv_conj)

lemma inv_run: "inv s \<Longrightarrow> inv (queue_run step ops s)"
  by (induction ops arbitrary: s) (auto intro: inv_step)

lemma conserve_run: "inv s \<Longrightarrow> queue_log step handed_out ops s @ contents (queue_run step ops s) = contents s @ queue_log step taken_in ops s"
proof (induction ops arbitrary: s)
  case (Cons op ops)
  have "queue_log step handed_out (op # ops) s @ contents (queue_run step (op # ops) s) =
      handed_out op s @ contents (step op s) @ queue_log step taken_in ops (step op s)"
    using Cons.IH [OF inv_step [OF Cons.prems]] by simp
  also have "\<dots> = contents s @ taken_in op s @ queue_log step taken_in ops (step op s)"
    using conserve [OF Cons.prems, of op] by (metis append.assoc)
  finally show ?case by simp
qed simp

lemma out_is_prefix_of_in: "inv s \<Longrightarrow> contents s = [] \<Longrightarrow> \<exists>rest. queue_log step taken_in ops s = queue_log step handed_out ops s @ rest"
  using conserve_run [of s ops] by (metis append_Nil)

end

end
