(* ===== verification/Fifo.thy ===== *)
theory Fifo
  imports Event_Pair Ordered_Queue
begin

section \<open>FifoDispatcher\<close>

text \<open>
  Model of \<open>zircon/kernel/object/fifo_dispatcher.cc\<close>. Each endpoint owns the ring buffer its peer
  writes to. \<open>head_\<close>, \<open>tail_\<close> and the sizes are 32-bit words, and \<open>head_\<close> and \<open>tail_\<close> run freely
  and wrap around; \<open>size_t\<close> values are natural numbers. The two copy loops are partial functions:
  the theorems show that they return. \<open>fifo_elems\<close> reads the ring as a list of elements, and
  the operations are shown to implement a bounded queue on that list.
\<close>

definition ZX_FIFO_MAX_SIZE_BYTES :: nat where "ZX_FIFO_MAX_SIZE_BYTES = 4096"

record fifo = peered +
  elem_count_m :: "32 word"
  elem_size_m :: "32 word"
  fifo_mask_m :: "32 word"
  head_m :: "32 word"
  tail_m :: "32 word"
  fifo_data_m :: "byte list"

definition FifoDispatcher_new :: "zx_koid \<Rightarrow> 32 word \<Rightarrow> 32 word \<Rightarrow> byte list \<Rightarrow> fifo" where
  "FifoDispatcher_new koid count elem_size data =
     \<lparr>koid_m = koid, type_m = ZX_OBJ_TYPE_FIFO, default_rights_m = ZX_DEFAULT_FIFO_RIGHTS,
      extra_signals_m = 0, handle_count_m = 0, signals_m = ZX_OBJECT_WRITABLE, observers_m = [],
      calls_m = [], peer_m = None, peer_koid_m = 0,
      elem_count_m = count, elem_size_m = elem_size, fifo_mask_m = count - 1, head_m = 0, tail_m = 0,
      fifo_data_m = data\<rparr>"

definition FifoDispatcher_Init :: "zx_koid \<Rightarrow> fifo \<Rightarrow> fifo" where
  "FifoDispatcher_Init other d = d\<lparr>peer_m := Some other, peer_koid_m := other\<rparr>"

text \<open>\<open>data0\<close> and \<open>data1\<close> are the two arrays, whose bytes the allocation leaves unspecified, or
  \<open>None\<close> when an allocation fails.\<close>

definition FifoDispatcher_Create ::
  "64 word \<Rightarrow> 64 word \<Rightarrow> bool \<Rightarrow> byte list option \<Rightarrow> bool \<Rightarrow> byte list option \<Rightarrow> bool
     \<Rightarrow> zx_koid \<Rightarrow> (zx_koid \<Rightarrow> fifo)
     \<Rightarrow> zx_status \<times> (zx_koid \<times> zx_koid \<times> zx_rights) option \<times> zx_koid \<times> (zx_koid \<Rightarrow> fifo)" where
  "FifoDispatcher_Create count elemsize ac_holder data0 ac0 data1 ac1 global_koid s =
     (if count = 0 \<or> elemsize = 0 \<or> count AND (count - 1) \<noteq> 0 \<or>
         count > of_nat ZX_FIFO_MAX_SIZE_BYTES \<or> elemsize > of_nat ZX_FIFO_MAX_SIZE_BYTES \<or>
         count * elemsize > of_nat ZX_FIFO_MAX_SIZE_BYTES
      then (ZX_ERR_OUT_OF_RANGE, None, global_koid, s)
      else if \<not> ac_holder then (ZX_ERR_NO_MEMORY, None, global_koid, s)
      else case data0 of None \<Rightarrow> (ZX_ERR_NO_MEMORY, None, global_koid, s)
      | Some data0 \<Rightarrow>
      if \<not> ac0 then (ZX_ERR_NO_MEMORY, None, global_koid, s)
      else let (k0, global_koid) = GenerateKernelObjectId global_koid in
      case data1 of None \<Rightarrow> (ZX_ERR_NO_MEMORY, None, global_koid, s)
      | Some data1 \<Rightarrow>
      if \<not> ac1 then (ZX_ERR_NO_MEMORY, None, global_koid, s)
      else let (k1, global_koid) = GenerateKernelObjectId global_koid;
               s = s(k0 := FifoDispatcher_Init k1 (FifoDispatcher_new k0 (ucast count) (ucast elemsize) data0));
               s = s(k1 := FifoDispatcher_Init k0 (FifoDispatcher_new k1 (ucast count) (ucast elemsize) data1))
           in (ZX_OK, Some (k0, k1, ZX_DEFAULT_FIFO_RIGHTS), global_koid, s))"

definition FifoDispatcher_on_zero_handles_locked :: "fifo \<Rightarrow> fifo" where
  "FifoDispatcher_on_zero_handles_locked d = d"

definition FifoDispatcher_OnPeerZeroHandlesLocked :: "fifo \<Rightarrow> fifo" where
  "FifoDispatcher_OnPeerZeroHandlesLocked d = UpdateStateLocked ZX_OBJECT_WRITABLE ZX_OBJECT_PEER_CLOSED d"

abbreviation FifoDispatcher_on_zero_handles :: "zx_koid \<Rightarrow> (zx_koid \<Rightarrow> fifo) \<Rightarrow> zx_koid \<Rightarrow> fifo" where
  "FifoDispatcher_on_zero_handles \<equiv>
     peered_on_zero_handles FifoDispatcher_on_zero_handles_locked FifoDispatcher_OnPeerZeroHandlesLocked"

text \<open>The loop of \<open>WriteSelfLocked\<close>; \<open>pos\<close> is how far \<open>ptr\<close> has been advanced.\<close>

partial_function (option) fifo_write_loop ::
  "user_in \<Rightarrow> 32 word \<Rightarrow> nat \<Rightarrow> nat \<Rightarrow> fifo \<Rightarrow> (zx_status \<times> fifo) option" where
  "fifo_write_loop ptr old_head pos count f =
     (if count = 0 then Some (ZX_OK, f)
      else let offset = head_m f AND fifo_mask_m f;
               n = elem_count_m f - offset;
               to_copy = (if count > unat n then unat n else count)
           in case copy_array_from_user ptr pos (to_copy * unat (elem_size_m f)) of
                None \<Rightarrow> Some (ZX_ERR_INVALID_ARGS, f\<lparr>head_m := old_head\<rparr>)
              | Some bs \<Rightarrow>
                  fifo_write_loop ptr old_head (pos + to_copy * unat (elem_size_m f)) (count - to_copy)
                    (f\<lparr>fifo_data_m := write_at (unat (offset * elem_size_m f)) bs (fifo_data_m f),
                       head_m := head_m f + of_nat to_copy\<rparr>))"

definition WriteSelfLocked ::
  "zx_koid \<Rightarrow> nat \<Rightarrow> user_in \<Rightarrow> nat \<Rightarrow> (zx_koid \<Rightarrow> fifo) \<Rightarrow> (zx_status \<times> nat \<times> (zx_koid \<Rightarrow> fifo)) option" where
  "WriteSelfLocked self elem_size ptr count s =
     (let f = s self in
      if elem_size \<noteq> unat (elem_size_m f) then Some (ZX_ERR_OUT_OF_RANGE, 0, s)
      else if count = 0 then Some (ZX_ERR_OUT_OF_RANGE, 0, s)
      else let old_head = head_m f;
               avail = unat (elem_count_m f - (head_m f - tail_m f))
           in if avail = 0 then Some (ZX_ERR_SHOULD_WAIT, 0, s)
              else let was_empty = (avail = unat (elem_count_m f));
                       count = (if count > avail then avail else count)
                   in case fifo_write_loop ptr old_head 0 count f of
                        None \<Rightarrow> None
                      | Some (status, f) \<Rightarrow>
                          if status \<noteq> ZX_OK then Some (status, 0, s(self := f))
                          else let s = s(self := f);
                                   s = (if was_empty
                                        then s(self := UpdateStateLocked 0 ZX_OBJECT_READABLE (s self)) else s);
                                   peer = the (peer_m f);
                                   s = (if elem_count_m f = head_m f - tail_m f
                                        then s(peer := UpdateStateLocked ZX_OBJECT_WRITABLE 0 (s peer)) else s)
                               in Some (ZX_OK, unat (head_m f - old_head), s))"

definition WriteFromUser ::
  "zx_koid \<Rightarrow> nat \<Rightarrow> user_in \<Rightarrow> nat \<Rightarrow> (zx_koid \<Rightarrow> fifo) \<Rightarrow> (zx_status \<times> nat \<times> (zx_koid \<Rightarrow> fifo)) option" where
  "WriteFromUser self elem_size ptr count s =
     (case peer_m (s self) of
        None \<Rightarrow> Some (ZX_ERR_PEER_CLOSED, 0, s)
      | Some peer \<Rightarrow> WriteSelfLocked peer elem_size ptr count s)"

text \<open>The loop of \<open>ReadToUser\<close>; \<open>out\<close> is what has been copied to the user so far.\<close>

partial_function (option) fifo_read_loop ::
  "user_out \<Rightarrow> 32 word \<Rightarrow> byte list \<Rightarrow> nat \<Rightarrow> fifo \<Rightarrow> (zx_status \<times> byte list \<times> fifo) option" where
  "fifo_read_loop ptr old_tail out count f =
     (if count = 0 then Some (ZX_OK, out, f)
      else let offset = tail_m f AND fifo_mask_m f;
               n = elem_count_m f - offset;
               to_copy = (if count > unat n then unat n else count);
               bytes = to_copy * unat (elem_size_m f)
           in if copy_array_to_user ptr (length out) bytes \<noteq> ZX_OK
              then Some (ZX_ERR_INVALID_ARGS, out, f\<lparr>tail_m := old_tail\<rparr>)
              else fifo_read_loop ptr old_tail
                     (out @ take bytes (drop (unat (offset * elem_size_m f)) (fifo_data_m f)))
                     (count - to_copy) (f\<lparr>tail_m := tail_m f + of_nat to_copy\<rparr>))"

definition ReadToUser ::
  "zx_koid \<Rightarrow> nat \<Rightarrow> user_out \<Rightarrow> nat \<Rightarrow> (zx_koid \<Rightarrow> fifo)
     \<Rightarrow> (zx_status \<times> byte list \<times> nat \<times> (zx_koid \<Rightarrow> fifo)) option" where
  "ReadToUser self elem_size ptr count s =
     (let f = s self in
      if elem_size \<noteq> unat (elem_size_m f) then Some (ZX_ERR_OUT_OF_RANGE, [], 0, s)
      else if count = 0 then Some (ZX_ERR_OUT_OF_RANGE, [], 0, s)
      else let old_tail = tail_m f;
               avail = unat (head_m f - tail_m f)
           in if avail = 0
              then Some (if peer_m f \<noteq> None then ZX_ERR_SHOULD_WAIT else ZX_ERR_PEER_CLOSED, [], 0, s)
              else let was_full = (avail = unat (elem_count_m f));
                       count = (if count > avail then avail else count)
                   in case fifo_read_loop ptr old_tail [] count f of
                        None \<Rightarrow> None
                      | Some (status, out, f) \<Rightarrow>
                          if status \<noteq> ZX_OK then Some (status, out, 0, s(self := f))
                          else let s = s(self := f);
                                   s = (case peer_m f of
                                          None \<Rightarrow> s
                                        | Some peer \<Rightarrow>
                                            if was_full
                                            then s(peer := UpdateStateLocked 0 ZX_OBJECT_WRITABLE (s peer)) else s);
                                   s = (if head_m f - tail_m f = 0
                                        then s(self := UpdateStateLocked ZX_OBJECT_READABLE 0 (s self)) else s)
                               in Some (ZX_OK, out, unat (tail_m f - old_tail), s))"

interpretation fifo_hooks: peered_hooks
  FifoDispatcher_on_zero_handles_locked FifoDispatcher_OnPeerZeroHandlesLocked
  by unfold_locales
    (auto simp: FifoDispatcher_on_zero_handles_locked_def FifoDispatcher_OnPeerZeroHandlesLocked_def
      bit.conj_disj_distrib2 intro: disp_inv_intros)

subsection \<open>Ring buffers as lists\<close>

text \<open>Element \<open>i\<close> of an array of elements of \<open>es\<close> bytes, and the array read as a ring of \<open>cnt\<close>
  elements from position \<open>t\<close> on.\<close>

definition elem_at :: "nat \<Rightarrow> byte list \<Rightarrow> nat \<Rightarrow> byte list" where
  "elem_at es bs i = take es (drop (i * es) bs)"

definition ring_list :: "nat \<Rightarrow> nat \<Rightarrow> byte list \<Rightarrow> nat \<Rightarrow> nat \<Rightarrow> byte list list" where
  "ring_list es cnt bs t d = map (\<lambda>i. elem_at es bs ((t + i) mod cnt)) [0..<d]"

lemma elem_at_append: "(i + 1) * es \<le> length xs \<Longrightarrow> elem_at es (xs @ ys) i = elem_at es xs i"
  by (simp add: elem_at_def)

lemma elem_at_drop: "elem_at es (drop (k * es) bs) i = elem_at es bs (k + i)"
  by (simp add: elem_at_def add.commute distrib_right)

lemma elem_at_write_inside:
  assumes "(off + m) * es \<le> length data" "length bs = m * es" "j < m"
  shows "elem_at es (write_at (off * es) bs data) (off + j) = elem_at es bs j"
proof -
  have len: "(j + 1) * es \<le> length bs" using assms(2,3) by (simp add: Suc_leI mult_le_mono1 del: mult_Suc)
  have "take (off * es) data @ bs @ drop (off * es + length bs) data = write_at (off * es) bs data"
    by (simp add: write_at_def)
  moreover have "length (take (off * es) data) = off * es" using assms(1) by (simp add: distrib_right)
  ultimately have "drop (off * es) (write_at (off * es) bs data) = bs @ drop (off * es + length bs) data"
    by (metis append_eq_conv_conj)
  then show ?thesis
    using elem_at_append [OF len] by (metis elem_at_drop)
qed

lemma elem_at_write_outside:
  assumes "(off + m) * es \<le> length data" "length bs = m * es" "i < off \<or> off + m \<le> i" "(i + 1) * es \<le> length data"
  shows "elem_at es (write_at (off * es) bs data) i = elem_at es data i"
proof (rule nth_equalityI)
  have wl: "off * es + length bs \<le> length data" using assms(1,2) by (simp add: distrib_right)
  show len: "length (elem_at es (write_at (off * es) bs data) i) = length (elem_at es data i)"
    using wl by (simp add: elem_at_def)
  fix x assume "x < length (elem_at es (write_at (off * es) bs data) i)"
  then have x: "x < es" "i * es + x < length data" using wl assms(4) by (auto simp: elem_at_def)
  have "i * es + x < off * es \<or> (off + m) * es \<le> i * es + x"
    using assms(3)
  proof
    assume "i < off"
    then have "(i + 1) * es \<le> off * es" by (intro mult_le_mono1) simp
    then show ?thesis using x(1) by simp
  next
    assume "off + m \<le> i"
    then show ?thesis by (meson le_add1 le_trans mult_le_mono1)
  qed
  then show "elem_at es (write_at (off * es) bs data) i ! x = elem_at es data i ! x"
    using x wl assms(2) by (auto simp: elem_at_def nth_write_at distrib_right)
qed

lemma ring_positions_differ:
  assumes "i < d" "d + m \<le> cnt" "j < m" shows "(t + i) mod cnt \<noteq> ((t + d) mod cnt + j) mod (cnt :: nat)"
proof
  assume "(t + i) mod cnt = ((t + d) mod cnt + j) mod cnt"
  moreover have "t + d + j = t + i + (d + j - i)" using assms(1) by simp
  ultimately have "(t + i) mod cnt = (t + i + (d + j - i)) mod cnt" by (metis mod_add_left_eq)
  then have "cnt dvd d + j - i" by (metis mod_eq_dvd_iff_nat add_diff_cancel_left' le_add1)
  then show False using assms by (auto dest: dvd_imp_le)
qed

text \<open>Writing \<open>m\<close> elements at the head, without going past the end of the array.\<close>

lemma ring_list_write:
  assumes "length data = cnt * es" "off = (t + d) mod cnt" "off + m \<le> cnt" "d + m \<le> cnt" "length bs = m * es" "0 < cnt"
  shows "ring_list es cnt (write_at (off * es) bs data) t (d + m) =
         ring_list es cnt data t d @ map (elem_at es bs) [0..<m]"
proof (rule nth_equalityI)
  show "length (ring_list es cnt (write_at (off * es) bs data) t (d + m)) =
      length (ring_list es cnt data t d @ map (elem_at es bs) [0..<m])" by (simp add: ring_list_def)
  have fits: "(off + m) * es \<le> length data" using assms(1,3) by (simp add: mult_le_mono1)
  fix i assume "i < length (ring_list es cnt (write_at (off * es) bs data) t (d + m))"
  then have i: "i < d + m" by (simp add: ring_list_def)
  show "ring_list es cnt (write_at (off * es) bs data) t (d + m) ! i =
      (ring_list es cnt data t d @ map (elem_at es bs) [0..<m]) ! i"
  proof (cases "i < d")
    case True
    let ?p = "(t + i) mod cnt"
    have "?p < off \<or> off + m \<le> ?p"
    proof (rule ccontr)
      assume "\<not> (?p < off \<or> off + m \<le> ?p)"
      then have "?p - off < m" "off + (?p - off) = ?p" by auto
      moreover have "?p < cnt" using assms(6) by simp
      ultimately show False
        using ring_positions_differ [OF True assms(4), of "?p - off" t] assms(2) by simp
    qed
    moreover have "(?p + 1) * es \<le> length data"
      using assms(1,6) by (metis Suc_eq_plus1 Suc_leI mod_less_divisor mult_le_mono1)
    ultimately show ?thesis
      using True elem_at_write_outside [OF fits assms(5)] i by (simp add: ring_list_def nth_append)
  next
    case False
    then obtain j where j: "i = d + j" "j < m" using i by (metis le_Suc_ex not_less nat_add_left_cancel_less)
    have "(t + i) mod cnt = (off + j) mod cnt" by (simp add: j(1) assms(2) mod_add_left_eq add.assoc)
    also have "\<dots> = off + j" using j(2) assms(3) by simp
    finally show ?thesis
      using elem_at_write_inside [OF fits assms(5) j(2)] i j by (simp add: ring_list_def nth_append)
  qed
qed

lemma concat_elems:
  "k * es + m * es \<le> length data \<Longrightarrow>
   take (m * es) (drop (k * es) data) = concat (map (\<lambda>j. elem_at es data (k + j)) [0..<m])"
proof (induction m arbitrary: k)
  case (Suc m)
  have "take (Suc m * es) (drop (k * es) data) = elem_at es data k @ take (m * es) (drop ((k + 1) * es) data)"
    using Suc.prems by (simp add: elem_at_def take_add ac_simps)
  also have "take (m * es) (drop ((k + 1) * es) data) = concat (map (\<lambda>j. elem_at es data (k + 1 + j)) [0..<m])"
    using Suc.prems by (intro Suc.IH) (simp add: distrib_right)
  also have "elem_at es data k @ \<dots> = concat (map (\<lambda>j. elem_at es data (k + j)) [0..<Suc m])"
    by (subst upt_conv_Cons, simp) (simp add: map_Suc_upt [symmetric] comp_def del: upt_Suc)
  finally show ?case .
qed simp

text \<open>Reading \<open>m\<close> elements at the tail, without going past the end of the array.\<close>

lemma ring_list_read:
  assumes "length data = cnt * es" "off = t mod cnt" "off + m \<le> cnt" "m \<le> d" "0 < cnt"
  shows "take (m * es) (drop (off * es) data) = concat (take m (ring_list es cnt data t d))"
    and "ring_list es cnt data (t + m) (d - m) = drop m (ring_list es cnt data t d)"
proof -
  have "off * es + m * es \<le> length data" using assms(1,3) by (metis distrib_right mult_le_mono1)
  then have "take (m * es) (drop (off * es) data) = concat (map (\<lambda>j. elem_at es data (off + j)) [0..<m])"
    by (rule concat_elems)
  also have "map (\<lambda>j. elem_at es data (off + j)) [0..<m] = take m (ring_list es cnt data t d)"
  proof (rule nth_equalityI)
    fix j assume "j < length (map (\<lambda>j. elem_at es data (off + j)) [0..<m])"
    then have j: "j < m" by simp
    have "(t + j) mod cnt = (off + j) mod cnt" by (simp add: assms(2) mod_add_left_eq)
    then show "map (\<lambda>j. elem_at es data (off + j)) [0..<m] ! j = take m (ring_list es cnt data t d) ! j"
      using j assms(3,4) by (simp add: ring_list_def)
  qed (use assms(4) in \<open>simp add: ring_list_def\<close>)
  finally show "take (m * es) (drop (off * es) data) = concat (take m (ring_list es cnt data t d))" .
  show "ring_list es cnt data (t + m) (d - m) = drop m (ring_list es cnt data t d)"
    by (rule nth_equalityI) (auto simp: ring_list_def add.assoc)
qed

subsection \<open>The invariant of an endpoint\<close>

definition fifo_inv :: "fifo \<Rightarrow> bool" where
  "fifo_inv f \<longleftrightarrow>
     (\<exists>k\<le>12. elem_count_m f = 2 ^ k) \<and> fifo_mask_m f = elem_count_m f - 1 \<and>
     0 < unat (elem_size_m f) \<and> unat (elem_count_m f) * unat (elem_size_m f) \<le> ZX_FIFO_MAX_SIZE_BYTES \<and>
     length (fifo_data_m f) = unat (elem_count_m f) * unat (elem_size_m f) \<and>
     unat (head_m f - tail_m f) \<le> unat (elem_count_m f)"

text \<open>The elements in the fifo, oldest first.\<close>

definition fifo_elems :: "fifo \<Rightarrow> byte list list" where
  "fifo_elems f = ring_list (unat (elem_size_m f)) (unat (elem_count_m f)) (fifo_data_m f) (unat (tail_m f))
     (unat (head_m f - tail_m f))"

lemma length_fifo_elems [simp]: "length (fifo_elems f) = unat (head_m f - tail_m f)"
  by (simp add: fifo_elems_def ring_list_def)

lemma fifo_count:
  assumes "fifo_inv f"
  obtains k where "k \<le> 12" "unat (elem_count_m f) = 2 ^ k" "fifo_mask_m f = mask k"
    "unat (elem_count_m f) \<le> 4096" "0 < unat (elem_count_m f)"
proof -
  from assms obtain k where k: "k \<le> 12" "elem_count_m f = 2 ^ k" "fifo_mask_m f = elem_count_m f - 1"
    by (auto simp: fifo_inv_def)
  have "(2::nat) ^ k \<le> 2 ^ 12" using k(1) by (rule power_increasing) simp
  moreover from this have "unat (of_nat (2 ^ k) :: 32 word) = 2 ^ k"
    using k(1) by (simp only: unsigned_of_nat) (simp add: take_bit_nat_eq_self)
  then have "unat (elem_count_m f) = 2 ^ k" using k(2) by simp
  ultimately show ?thesis using k by (intro that [of k]) (auto simp: mask_eq_exp_minus_1)
qed

text \<open>Masking with \<open>count - 1\<close> is the remainder, and wrapping at \<open>2^32\<close> does not show.\<close>

lemma fifo_index:
  assumes "fifo_inv f"
  shows "unat (w AND fifo_mask_m f) = unat w mod unat (elem_count_m f)"
    "(unat (w + of_nat i)) mod unat (elem_count_m f) = (unat w + i) mod unat (elem_count_m f)"
proof -
  from fifo_count [OF assms] obtain k where k: "k \<le> 12" "unat (elem_count_m f) = 2 ^ k" "fifo_mask_m f = mask k"
    by blast
  show "unat (w AND fifo_mask_m f) = unat w mod unat (elem_count_m f)"
    by (simp only: k(2,3) take_bit_eq_mask [symmetric] unsigned_take_bit_eq) (simp add: take_bit_eq_mod)
  have "(2::nat) ^ k dvd 2 ^ 32" using k(1) by (intro le_imp_power_dvd) simp
  then have "x mod 2 ^ 32 mod 2 ^ k = x mod (2 ^ k :: nat)" for x by (rule mod_mod_cancel)
  moreover have "unat (w + of_nat i) = (unat w + i) mod 2 ^ 32"
    by (simp add: unat_word_ariths unsigned_of_nat take_bit_eq_mod mod_add_right_eq)
  ultimately show "(unat (w + of_nat i)) mod unat (elem_count_m f) = (unat w + i) mod unat (elem_count_m f)"
    by (simp add: k(2))
qed

lemma fifo_offset:
  assumes "fifo_inv f"
  shows "unat (elem_count_m f - (w AND fifo_mask_m f)) = unat (elem_count_m f) - unat w mod unat (elem_count_m f)"
    "unat ((w AND fifo_mask_m f) * elem_size_m f) = (unat w mod unat (elem_count_m f)) * unat (elem_size_m f)"
    "unat w mod unat (elem_count_m f) < unat (elem_count_m f)"
proof -
  let ?o = "w AND fifo_mask_m f" and ?c = "elem_count_m f" and ?e = "elem_size_m f"
  have pos: "0 < unat ?c" "unat ?c \<le> 4096" using fifo_count [OF assms] by blast+
  show less: "unat w mod unat ?c < unat ?c" using pos by simp
  have o: "unat ?o = unat w mod unat ?c" by (rule fifo_index(1) [OF assms])
  then have "?o \<le> ?c" using less by (simp add: word_le_nat_alt)
  then show "unat (?c - ?o) = unat ?c - unat w mod unat ?c" using o by (simp add: unat_sub)
  have "unat ?o * unat ?e \<le> unat ?c * unat ?e" using o less by (simp add: mult_le_mono1)
  also have "\<dots> \<le> 4096" using assms by (simp add: fifo_inv_def ZX_FIFO_MAX_SIZE_BYTES_def)
  finally show "unat (?o * ?e) = (unat w mod unat ?c) * unat ?e" using o by (simp add: unat_word_ariths)
qed

lemma head_position:
  assumes "fifo_inv f"
  shows "unat (head_m f) mod unat (elem_count_m f) =
    (unat (tail_m f) + unat (head_m f - tail_m f)) mod unat (elem_count_m f)"
  using fifo_index(2) [OF assms, of "tail_m f" "unat (head_m f - tail_m f)"] by simp

lemma unat_sub_add:
  assumes "unat (h - t) + m \<le> 4096" shows "unat (h + of_nat m - t :: 32 word) = unat (h - t) + m"
proof -
  have "h + of_nat m - t = (h - t) + of_nat m" by simp
  also have "unat \<dots> = unat (h - t) + m"
    using assms by (simp add: unat_word_ariths unsigned_of_nat take_bit_eq_mod)
  finally show ?thesis .
qed

lemma unat_sub_sub:
  assumes "m \<le> unat (h - t)" shows "unat (h - (t + of_nat m) :: 32 word) = unat (h - t) - m"
proof -
  have m: "unat (of_nat m :: 32 word) = m"
  proof -
    have "unat (h - t) < 2 ^ LENGTH(32)" by (rule unsigned_less)
    then show ?thesis using assms by (simp add: unsigned_of_nat take_bit_eq_mod)
  qed
  have "h - (t + of_nat m) = (h - t) - of_nat m" by simp
  also have "unat \<dots> = unat (h - t) - m" using assms m by (simp add: unat_sub word_le_nat_alt)
  finally show ?thesis .
qed

subsection \<open>One copy of the write loop\<close>

definition fifo_put :: "nat \<Rightarrow> byte list \<Rightarrow> fifo \<Rightarrow> fifo" where
  "fifo_put m bs f =
     f\<lparr>fifo_data_m := write_at (unat ((head_m f AND fifo_mask_m f) * elem_size_m f)) bs (fifo_data_m f),
       head_m := head_m f + of_nat m\<rparr>"

lemma fifo_put_elems:
  assumes "fifo_inv f" "unat (head_m f) mod unat (elem_count_m f) + m \<le> unat (elem_count_m f)"
    and "unat (head_m f - tail_m f) + m \<le> unat (elem_count_m f)" "length bs = m * unat (elem_size_m f)"
  shows "fifo_inv (fifo_put m bs f)"
    "fifo_elems (fifo_put m bs f) = fifo_elems f @ map (elem_at (unat (elem_size_m f)) bs) [0..<m]"
    "unat (head_m (fifo_put m bs f) - tail_m f) = unat (head_m f - tail_m f) + m"
proof -
  let ?c = "unat (elem_count_m f)" and ?e = "unat (elem_size_m f)" and ?f = "fifo_put m bs f"
  have c: "?c \<le> 4096" "0 < ?c" using fifo_count [OF assms(1)] by blast+
  have len: "length (fifo_data_m f) = ?c * ?e" using assms(1) by (simp add: fifo_inv_def)
  show d: "unat (head_m ?f - tail_m f) = unat (head_m f - tail_m f) + m"
    using assms(3) c by (simp add: fifo_put_def unat_sub_add)
  have off: "unat ((head_m f AND fifo_mask_m f) * elem_size_m f) = (unat (head_m f) mod ?c) * ?e"
    by (rule fifo_offset(2) [OF assms(1)])
  have "(unat (head_m f) mod ?c) * ?e + length bs \<le> length (fifo_data_m f)"
    using mult_le_mono1 [OF assms(2), of ?e] by (simp add: assms(4) len distrib_right)
  then have "length (fifo_data_m ?f) = ?c * ?e" using len by (simp add: fifo_put_def off)
  then show "fifo_inv ?f" using assms(1,3) d by (simp add: fifo_inv_def fifo_put_def)
  show "fifo_elems ?f = fifo_elems f @ map (elem_at ?e bs) [0..<m]"
    using ring_list_write [OF len head_position [OF assms(1)] assms(2,3,4) c(2)] d
    by (simp add: fifo_elems_def fifo_put_def off)
qed

lemma elem_at_append_map:
  assumes "length xs = m * es" "m \<le> count"
  shows "map (elem_at es (xs @ ys)) [0..<count] = map (elem_at es xs) [0..<m] @ map (elem_at es ys) [0..<count - m]"
proof (rule nth_equalityI)
  fix i assume "i < length (map (elem_at es (xs @ ys)) [0..<count])"
  then have i: "i < count" by simp
  show "map (elem_at es (xs @ ys)) [0..<count] ! i =
      (map (elem_at es xs) [0..<m] @ map (elem_at es ys) [0..<count - m]) ! i"
  proof (cases "i < m")
    case True
    then have "(i + 1) * es \<le> length xs" using assms(1) by (metis Suc_eq_plus1 Suc_leI mult_le_mono1)
    then show ?thesis using True i by (simp add: nth_append elem_at_append)
  next
    case False
    then obtain j where j: "i = m + j" by (metis le_Suc_ex not_less)
    have "elem_at es (xs @ ys) i = elem_at es ys j"
      using elem_at_drop [of es m "xs @ ys" j] assms(1) j by simp
    then show ?thesis using False i j by (simp add: nth_append)
  qed
qed (use assms in simp)

lemma ring_list_take: "d \<le> d' \<Longrightarrow> ring_list es cnt bs t d = take d (ring_list es cnt bs t d')"
  by (simp add: ring_list_def take_map)

text \<open>
  The loop returns, with all \<open>count\<close> elements appended or, if the user's buffer cannot be read,
  with the head reset to \<open>old_head\<close>; slots that are not part of the queue may be overwritten.
\<close>

lemma fifo_write_loop_ok:
  assumes "fifo_inv f" "unat (head_m f - tail_m f) + count \<le> unat (elem_count_m f)"
    and "unat (old_head - tail_m f) \<le> unat (head_m f - tail_m f)"
  shows "\<exists>data. length data = length (fifo_data_m f) \<and>
    (case copy_array_from_user ptr pos (count * unat (elem_size_m f)) of
       None \<Rightarrow> fifo_write_loop ptr old_head pos count f =
                 Some (ZX_ERR_INVALID_ARGS, f\<lparr>fifo_data_m := data, head_m := old_head\<rparr>) \<and>
               fifo_elems (f\<lparr>fifo_data_m := data, head_m := old_head\<rparr>) =
                 take (unat (old_head - tail_m f)) (fifo_elems f)
     | Some bs \<Rightarrow> fifo_write_loop ptr old_head pos count f =
                 Some (ZX_OK, f\<lparr>fifo_data_m := data, head_m := head_m f + of_nat count\<rparr>) \<and>
               fifo_elems (f\<lparr>fifo_data_m := data, head_m := head_m f + of_nat count\<rparr>) =
                 fifo_elems f @ map (elem_at (unat (elem_size_m f)) bs) [0..<count])"
  using assms
proof (induction count arbitrary: f pos rule: less_induct)
  case (less count)
  let ?c = "unat (elem_count_m f)" and ?e = "unat (elem_size_m f)" and ?o = "unat (head_m f) mod unat (elem_count_m f)"
  show ?case
  proof (cases "count = 0")
    case True
    then show ?thesis
      by (intro exI [of _ "fifo_data_m f"]) (simp add: fifo_write_loop.simps)
  next
    case False
    define m where "m = (if count > ?c - ?o then ?c - ?o else count)"
    have "?o < ?c" using fifo_offset(3) [OF less.prems(1)] .
    then have m: "0 < m" "m \<le> count" "?o + m \<le> ?c" using False by (auto simp: m_def)
    have unfold: "fifo_write_loop ptr old_head pos count f =
        (case copy_array_from_user ptr pos (m * ?e) of
           None \<Rightarrow> Some (ZX_ERR_INVALID_ARGS, f\<lparr>head_m := old_head\<rparr>)
         | Some bs \<Rightarrow> fifo_write_loop ptr old_head (pos + m * ?e) (count - m) (fifo_put m bs f))"
    proof -
      have "(if count > unat (elem_count_m f - (head_m f AND fifo_mask_m f))
          then unat (elem_count_m f - (head_m f AND fifo_mask_m f)) else count) = m"
        by (simp add: fifo_offset [OF less.prems(1)] m_def)
      then show ?thesis
        using False by (subst fifo_write_loop.simps) (simp only: Let_def if_False fifo_put_def)
    qed
    have split: "copy_array_from_user ptr pos (count * ?e) =
        (case copy_array_from_user ptr pos (m * ?e) of None \<Rightarrow> None
         | Some xs \<Rightarrow> (case copy_array_from_user ptr (pos + m * ?e) ((count - m) * ?e) of None \<Rightarrow> None
             | Some ys \<Rightarrow> Some (xs @ ys)))"
      using copy_array_from_user_split [of ptr pos "m * ?e" "(count - m) * ?e"] m(2)
      by (simp add: distrib_right [symmetric])
    show ?thesis
    proof (cases "copy_array_from_user ptr pos (m * ?e)")
      case None
      have "fifo_elems (f\<lparr>head_m := old_head\<rparr>) = take (unat (old_head - tail_m f)) (fifo_elems f)"
        using ring_list_take [OF less.prems(3)] by (simp add: fifo_elems_def)
      then show ?thesis using None
        by (intro exI [of _ "fifo_data_m f"]) (simp add: unfold split)
    next
      case (Some xs)
      have lxs: "length xs = m * ?e" using Some by (rule length_copy_array_from_user)
      let ?f = "fifo_put m xs f"
      have fits: "unat (head_m f - tail_m f) + m \<le> ?c" using less.prems(2) m(2) by simp
      note put = fifo_put_elems [OF less.prems(1) m(3) fits lxs]
      have same: "elem_count_m ?f = elem_count_m f" "elem_size_m ?f = elem_size_m f" "tail_m ?f = tail_m f"
        "head_m ?f = head_m f + of_nat m"
        by (simp_all add: fifo_put_def)
      have "count - m < count" "unat (head_m ?f - tail_m ?f) + (count - m) \<le> unat (elem_count_m ?f)"
        "unat (old_head - tail_m ?f) \<le> unat (head_m ?f - tail_m ?f)"
        using put(3) less.prems(2,3) m False by (simp_all add: same)
      from less.IH [OF this(1) put(1) this(2,3), of "pos + m * ?e", unfolded same(1-3)]
      obtain data where data: "length data = length (fifo_data_m ?f)"
        "case copy_array_from_user ptr (pos + m * ?e) ((count - m) * ?e) of
           None \<Rightarrow> fifo_write_loop ptr old_head (pos + m * ?e) (count - m) ?f =
                     Some (ZX_ERR_INVALID_ARGS, ?f\<lparr>fifo_data_m := data, head_m := old_head\<rparr>) \<and>
                   fifo_elems (?f\<lparr>fifo_data_m := data, head_m := old_head\<rparr>) =
                     take (unat (old_head - tail_m f)) (fifo_elems ?f)
         | Some bs \<Rightarrow> fifo_write_loop ptr old_head (pos + m * ?e) (count - m) ?f =
                     Some (ZX_OK, ?f\<lparr>fifo_data_m := data, head_m := head_m ?f + of_nat (count - m)\<rparr>) \<and>
                   fifo_elems (?f\<lparr>fifo_data_m := data, head_m := head_m ?f + of_nat (count - m)\<rparr>) =
                     fifo_elems ?f @ map (elem_at ?e bs) [0..<count - m]"
        by blast
      have head: "head_m f + of_nat m + of_nat (count - m) = head_m f + of_nat count"
        using m(2) by (simp add: of_nat_diff)
      have upd: "?f\<lparr>fifo_data_m := data, head_m := w\<rparr> = f\<lparr>fifo_data_m := data, head_m := w\<rparr>" for w
        by (simp add: fifo_put_def)
      have len: "length data = length (fifo_data_m f)"
        using data(1) put(1) less.prems(1) by (simp add: fifo_inv_def same)
      have takes: "take (unat (old_head - tail_m f)) (fifo_elems ?f) = take (unat (old_head - tail_m f)) (fifo_elems f)"
        using less.prems(3) by (simp add: put(2))
      have first: "fifo_write_loop ptr old_head pos count f =
          fifo_write_loop ptr old_head (pos + m * ?e) (count - m) ?f"
        unfolding unfold Some option.case ..
      show ?thesis
      proof (cases "copy_array_from_user ptr (pos + m * ?e) ((count - m) * ?e)")
        case None
        have all: "copy_array_from_user ptr pos (count * ?e) = None"
          unfolding split Some None option.case ..
        show ?thesis using data(2) len unfolding None option.case all first takes upd by blast
      next
        case ys: (Some ys)
        have all: "copy_array_from_user ptr pos (count * ?e) = Some (xs @ ys)"
          unfolding split Some ys option.case ..
        show ?thesis
          using data(2) len
          unfolding ys option.case all first upd same(4) head put(2) elem_at_append_map [OF lxs m(2)] append.assoc
          by blast
      qed
    qed
  qed
qed

subsection \<open>The read loop\<close>

lemma fifo_elem_lengths:
  assumes "fifo_inv f" "x \<in> set (fifo_elems f)" shows "length x = unat (elem_size_m f)"
proof -
  let ?c = "unat (elem_count_m f)" and ?e = "unat (elem_size_m f)"
  from assms(2) obtain i where x: "x = elem_at ?e (fifo_data_m f) (i mod ?c)"
    by (auto simp: fifo_elems_def ring_list_def)
  have "0 < ?c" using fifo_count [OF assms(1)] by blast
  then have "(i mod ?c + 1) * ?e \<le> ?c * ?e" by (metis Suc_eq_plus1 Suc_leI mod_less_divisor mult_le_mono1)
  then show ?thesis using x assms(1) by (simp add: elem_at_def fifo_inv_def)
qed

definition fifo_get :: "nat \<Rightarrow> fifo \<Rightarrow> fifo" where
  "fifo_get m f = f\<lparr>tail_m := tail_m f + of_nat m\<rparr>"

lemma fifo_get_elems:
  assumes "fifo_inv f" "m \<le> unat (head_m f - tail_m f)"
  shows "fifo_inv (fifo_get m f)" "unat (head_m f - tail_m (fifo_get m f)) = unat (head_m f - tail_m f) - m"
proof -
  show d: "unat (head_m f - tail_m (fifo_get m f)) = unat (head_m f - tail_m f) - m"
    using unat_sub_sub [OF assms(2)] by (simp add: fifo_get_def)
  then show "fifo_inv (fifo_get m f)" using assms(1) by (auto simp: fifo_inv_def fifo_get_def)
qed

lemma fifo_get_read:
  assumes "fifo_inv f" "m \<le> unat (head_m f - tail_m f)"
    and "unat (tail_m f) mod unat (elem_count_m f) + m \<le> unat (elem_count_m f)"
  shows "take (m * unat (elem_size_m f)) (drop (unat ((tail_m f AND fifo_mask_m f) * elem_size_m f)) (fifo_data_m f)) =
      concat (take m (fifo_elems f))"
    "fifo_elems (fifo_get m f) = drop m (fifo_elems f)"
proof -
  let ?c = "unat (elem_count_m f)" and ?e = "unat (elem_size_m f)"
  have c: "0 < ?c" using fifo_count [OF assms(1)] by blast
  have len: "length (fifo_data_m f) = ?c * ?e" using assms(1) by (simp add: fifo_inv_def)
  note read = ring_list_read [OF len refl assms(3,2) c]
  show "take (m * ?e) (drop (unat ((tail_m f AND fifo_mask_m f) * elem_size_m f)) (fifo_data_m f)) =
      concat (take m (fifo_elems f))"
    using read(1) by (simp add: fifo_offset(2) [OF assms(1)] fifo_elems_def)
  have "ring_list ?e ?c (fifo_data_m f) (unat (tail_m f + of_nat m)) d =
      ring_list ?e ?c (fifo_data_m f) (unat (tail_m f) + m) d" for d
  proof -
    have "(unat (tail_m f + of_nat m) + i) mod ?c = (unat (tail_m f) + m + i) mod ?c" for i
      using fifo_index(2) [OF assms(1), of "tail_m f" m] by (metis mod_add_left_eq)
    then show ?thesis by (simp add: ring_list_def)
  qed
  then show "fifo_elems (fifo_get m f) = drop m (fifo_elems f)"
    using read(2) fifo_get_elems(2) [OF assms(1,2)] by (simp add: fifo_elems_def fifo_get_def)
qed

lemma fifo_read_loop_ok:
  assumes "fifo_inv f" "count \<le> unat (head_m f - tail_m f)"
  shows "if copy_array_to_user ptr (length out) (count * unat (elem_size_m f)) = ZX_OK
    then fifo_read_loop ptr old_tail out count f = Some (ZX_OK, out @ concat (take count (fifo_elems f)), fifo_get count f) \<and>
         fifo_elems (fifo_get count f) = drop count (fifo_elems f)
    else \<exists>out'. fifo_read_loop ptr old_tail out count f = Some (ZX_ERR_INVALID_ARGS, out', f\<lparr>tail_m := old_tail\<rparr>)"
  using assms
proof (induction count arbitrary: f out rule: less_induct)
  case (less count)
  let ?c = "unat (elem_count_m f)" and ?e = "unat (elem_size_m f)" and ?o = "unat (tail_m f) mod unat (elem_count_m f)"
  show ?case
  proof (cases "count = 0")
    case True
    then show ?thesis by (simp add: fifo_read_loop.simps fifo_get_def copy_array_to_user_OK_iff)
  next
    case False
    define m where "m = (if count > ?c - ?o then ?c - ?o else count)"
    have "?o < ?c" using fifo_offset(3) [OF less.prems(1)] .
    then have m: "0 < m" "m \<le> count" "?o + m \<le> ?c" using False by (auto simp: m_def)
    have md: "m \<le> unat (head_m f - tail_m f)" using m(2) less.prems(2) by simp
    note got = fifo_get_read [OF less.prems(1) md m(3)] and inv = fifo_get_elems [OF less.prems(1) md]
    let ?out = "out @ concat (take m (fifo_elems f))"
    have unfold: "fifo_read_loop ptr old_tail out count f =
        (if copy_array_to_user ptr (length out) (m * ?e) \<noteq> ZX_OK
         then Some (ZX_ERR_INVALID_ARGS, out, f\<lparr>tail_m := old_tail\<rparr>)
         else fifo_read_loop ptr old_tail ?out (count - m) (fifo_get m f))"
    proof -
      have "(if count > unat (elem_count_m f - (tail_m f AND fifo_mask_m f))
          then unat (elem_count_m f - (tail_m f AND fifo_mask_m f)) else count) = m"
        by (simp add: fifo_offset [OF less.prems(1)] m_def)
      then show ?thesis
        using False got(1) by (subst fifo_read_loop.simps) (simp only: Let_def if_False fifo_get_def)
    qed
    note elen = fifo_elem_lengths [OF less.prems(1)]
    have "length (concat xs) = length xs * ?e" if "set xs \<subseteq> set (fifo_elems f)" for xs
      using that by (induction xs) (auto simp: elen)
    then have len: "length ?out = length out + m * ?e"
      using md by (simp add: set_take_subset)
    have split: "copy_array_to_user ptr (length out) (count * ?e) = ZX_OK \<longleftrightarrow>
        copy_array_to_user ptr (length out) (m * ?e) = ZX_OK \<and>
        copy_array_to_user ptr (length ?out) ((count - m) * ?e) = ZX_OK"
      unfolding len using copy_array_to_user_split [of ptr "length out" "m * ?e" "(count - m) * ?e"] m(2)
      by (simp add: distrib_right [symmetric])
    have same: "elem_size_m (fifo_get m f) = elem_size_m f" "head_m (fifo_get m f) = head_m f"
      by (simp_all add: fifo_get_def)
    have less': "count - m < count" "count - m \<le> unat (head_m (fifo_get m f) - tail_m (fifo_get m f))"
      using m False less.prems(2) inv(2) by (simp_all add: same)
    note ih = less.IH [OF less'(1) inv(1) less'(2), of ?out, unfolded same(1)]
    have twice: "fifo_get (count - m) (fifo_get m f) = fifo_get count f"
      using m(2) by (simp add: fifo_get_def of_nat_diff)
    have "drop (count - m) (drop m (fifo_elems f)) = drop count (fifo_elems f)"
      "take m (fifo_elems f) @ take (count - m) (drop m (fifo_elems f)) = take count (fifo_elems f)"
      using m(2) by (simp_all add: take_add [symmetric])
    moreover from this(2) have "?out @ concat (take (count - m) (drop m (fifo_elems f))) =
        out @ concat (take count (fifo_elems f))"
      by (metis append.assoc concat_append)
    moreover have "f\<lparr>tail_m := old_tail\<rparr> = fifo_get m f\<lparr>tail_m := old_tail\<rparr>" by (simp add: fifo_get_def)
    ultimately show ?thesis
      using ih unfolding unfold split got(2) twice by (auto split: if_splits)
  qed
qed

subsection \<open>A pair of endpoints\<close>

lemma UpdateStateLocked_fifo [simp]:
  "elem_count_m (UpdateStateLocked c m f) = elem_count_m f" "elem_size_m (UpdateStateLocked c m f) = elem_size_m f"
  "fifo_mask_m (UpdateStateLocked c m f) = fifo_mask_m f" "head_m (UpdateStateLocked c m f) = head_m f"
  "tail_m (UpdateStateLocked c m f) = tail_m f" "fifo_data_m (UpdateStateLocked c m f) = fifo_data_m f"
  by (simp_all add: UpdateStateLocked_eq Let_def)

lemma fifo_UpdateStateLocked [simp]:
  "fifo_inv (UpdateStateLocked c m f) = fifo_inv f" "fifo_elems (UpdateStateLocked c m f) = fifo_elems f"
  by (simp_all add: fifo_inv_def fifo_elems_def)

definition fifo_full :: "fifo \<Rightarrow> bool" where
  "fifo_full f \<longleftrightarrow> length (fifo_elems f) = unat (elem_count_m f)"

text \<open>
  Two endpoints that are each other's peer or have both lost it. \<open>READABLE\<close> says that the own
  ring has elements, and while the peer is there \<open>WRITABLE\<close> says that the peer's ring has room.
\<close>

definition fifo_half :: "zx_koid \<Rightarrow> zx_koid \<Rightarrow> (zx_koid \<Rightarrow> fifo) \<Rightarrow> bool" where
  "fifo_half a b s \<longleftrightarrow>
     fifo_inv (s a) \<and> extra_signals_m (s a) = 0 \<and> (bit (signals_m (s a)) 0 \<longleftrightarrow> fifo_elems (s a) \<noteq> []) \<and>
     (peer_m (s a) = Some b \<and> (bit (signals_m (s a)) 1 \<longleftrightarrow> \<not> fifo_full (s b)) \<or> peer_m (s a) = None)"

definition fifo_pair :: "zx_koid \<Rightarrow> zx_koid \<Rightarrow> (zx_koid \<Rightarrow> fifo) \<Rightarrow> bool" where
  "fifo_pair a b s \<longleftrightarrow> a \<noteq> b \<and> fifo_half a b s \<and> fifo_half b a s \<and> (peer_m (s a) = None \<longleftrightarrow> peer_m (s b) = None)"

lemma fifo_pair_sym: "fifo_pair a b s \<longleftrightarrow> fifo_pair b a s"
  by (auto simp: fifo_pair_def)

lemmas fifo_pair_defs = fifo_pair_def fifo_half_def fifo_full_def

text \<open>What a write and a read promise, on the list of elements.\<close>

definition fifo_write_spec :: "nat \<Rightarrow> user_in \<Rightarrow> nat \<Rightarrow> bool \<Rightarrow> fifo \<Rightarrow> zx_status \<times> byte list list" where
  "fifo_write_spec es ptr count connected f =
     (let room = unat (elem_count_m f) - length (fifo_elems f); n = min count room in
      if \<not> connected then (ZX_ERR_PEER_CLOSED, [])
      else if es \<noteq> unat (elem_size_m f) \<or> count = 0 then (ZX_ERR_OUT_OF_RANGE, [])
      else if room = 0 then (ZX_ERR_SHOULD_WAIT, [])
      else case copy_array_from_user ptr 0 (n * es) of
             None \<Rightarrow> (ZX_ERR_INVALID_ARGS, [])
           | Some bs \<Rightarrow> (ZX_OK, map (elem_at es bs) [0..<n]))"

definition fifo_read_spec :: "nat \<Rightarrow> user_out \<Rightarrow> nat \<Rightarrow> bool \<Rightarrow> fifo \<Rightarrow> zx_status \<times> byte list list" where
  "fifo_read_spec es ptr count connected f =
     (let n = min count (length (fifo_elems f)) in
      if es \<noteq> unat (elem_size_m f) \<or> count = 0 then (ZX_ERR_OUT_OF_RANGE, [])
      else if fifo_elems f = [] then (if connected then ZX_ERR_SHOULD_WAIT else ZX_ERR_PEER_CLOSED, [])
      else if copy_array_to_user ptr 0 (n * es) \<noteq> ZX_OK then (ZX_ERR_INVALID_ARGS, [])
      else (ZX_OK, take n (fifo_elems f)))"

lemma fifo_room:
  assumes "fifo_inv f"
  shows "unat (elem_count_m f - (head_m f - tail_m f)) = unat (elem_count_m f) - length (fifo_elems f)"
  using assms by (simp add: fifo_inv_def unat_sub word_le_nat_alt)

lemma fifo_full_iff: "fifo_full f \<longleftrightarrow> elem_count_m f = head_m f - tail_m f"
  by (auto simp: fifo_full_def word_unat_eq_iff)

lemma fifo_elems_le: "fifo_inv f \<Longrightarrow> length (fifo_elems f) \<le> unat (elem_count_m f)"
  by (simp add: fifo_inv_def)

lemma fifo_inv_data_head:
  "fifo_inv f \<Longrightarrow> length data = length (fifo_data_m f) \<Longrightarrow> unat (h - tail_m f) \<le> unat (elem_count_m f) \<Longrightarrow>
   fifo_inv (f\<lparr>fifo_data_m := data, head_m := h\<rparr>)"
  by (simp add: fifo_inv_def)

lemma WriteFromUser_ok:
  assumes "fifo_pair a b s"
  shows "\<exists>s'. WriteFromUser a es ptr count s =
      Some (fst (fifo_write_spec es ptr count (peer_m (s a) \<noteq> None) (s b)),
            length (snd (fifo_write_spec es ptr count (peer_m (s a) \<noteq> None) (s b))), s') \<and>
    fifo_pair a b s' \<and> fifo_elems (s' a) = fifo_elems (s a) \<and>
    fifo_elems (s' b) = fifo_elems (s b) @ snd (fifo_write_spec es ptr count (peer_m (s a) \<noteq> None) (s b)) \<and>
    (\<forall>k. peer_m (s' k) = peer_m (s k)) \<and> (\<forall>k. k \<noteq> a \<and> k \<noteq> b \<longrightarrow> s' k = s k)"
proof (cases "peer_m (s a)")
  case None
  then show ?thesis using assms by (simp add: WriteFromUser_def fifo_write_spec_def)
next
  case (Some p)
  with assms have p: "p = b" "peer_m (s b) = Some a" and neq: "a \<noteq> b" and inv: "fifo_inv (s b)"
    and half: "bit (signals_m (s a)) 1 \<longleftrightarrow> \<not> fifo_full (s b)" by (auto simp: fifo_pair_def fifo_half_def)
  let ?f = "s b"
  let ?c = "unat (elem_count_m ?f)" and ?e = "unat (elem_size_m ?f)" and ?d = "length (fifo_elems ?f)"
  note room = fifo_room [OF inv]
  show ?thesis
  proof (cases "es = ?e \<and> 0 < count \<and> ?d < ?c")
    case False
    then show ?thesis using assms Some p fifo_elems_le [OF inv]
      by (auto simp: WriteFromUser_def WriteSelfLocked_def fifo_write_spec_def Let_def room simp del: length_fifo_elems)
  next
    case True
    define n where "n = min count (?c - ?d)"
    have n: "0 < n" "?d + n \<le> ?c" using True by (auto simp: n_def)
    have d: "?d = unat (head_m ?f - tail_m ?f)" by simp
    have clip: "(if count > ?c - ?d then ?c - ?d else count) = n" by (auto simp: n_def)
    from fifo_write_loop_ok [OF inv, of n "head_m ?f" ptr 0] n(2) d
    obtain data where data: "length data = length (fifo_data_m ?f)"
      "case copy_array_from_user ptr 0 (n * ?e) of
         None \<Rightarrow> fifo_write_loop ptr (head_m ?f) 0 n ?f =
                   Some (ZX_ERR_INVALID_ARGS, ?f\<lparr>fifo_data_m := data, head_m := head_m ?f\<rparr>) \<and>
                 fifo_elems (?f\<lparr>fifo_data_m := data, head_m := head_m ?f\<rparr>) =
                   take (unat (head_m ?f - tail_m ?f)) (fifo_elems ?f)
       | Some bs \<Rightarrow> fifo_write_loop ptr (head_m ?f) 0 n ?f =
                   Some (ZX_OK, ?f\<lparr>fifo_data_m := data, head_m := head_m ?f + of_nat n\<rparr>) \<and>
                 fifo_elems (?f\<lparr>fifo_data_m := data, head_m := head_m ?f + of_nat n\<rparr>) =
                   fifo_elems ?f @ map (elem_at ?e bs) [0..<n]" by auto
    show ?thesis
    proof (cases "copy_array_from_user ptr 0 (n * ?e)")
      case None
      let ?f' = "?f\<lparr>fifo_data_m := data, head_m := head_m ?f\<rparr>"
      have run: "fifo_write_loop ptr (head_m ?f) 0 n ?f = Some (ZX_ERR_INVALID_ARGS, ?f')"
        and el: "fifo_elems ?f' = fifo_elems ?f" using data(2) None by simp_all
      have spec: "fifo_write_spec es ptr count (peer_m (s a) \<noteq> None) ?f = (ZX_ERR_INVALID_ARGS, [])"
        using True None Some by (simp add: fifo_write_spec_def Let_def n_def)
      have "WriteFromUser a es ptr count s = Some (ZX_ERR_INVALID_ARGS, 0, s(b := ?f'))"
        using True n(1) Some p run
        by (simp add: WriteFromUser_def WriteSelfLocked_def Let_def room clip del: length_fifo_elems)
      moreover have "fifo_inv ?f'" using inv data(1) by (simp add: fifo_inv_def)
      then have "fifo_pair a b (s(b := ?f'))"
        using assms el neq by (auto simp: fifo_pair_defs simp del: length_fifo_elems)
      ultimately show ?thesis using el neq unfolding spec by auto
    next
      case bs: (Some bs)
      let ?f' = "?f\<lparr>fifo_data_m := data, head_m := head_m ?f + of_nat n\<rparr>"
      have run: "fifo_write_loop ptr (head_m ?f) 0 n ?f = Some (ZX_OK, ?f')"
        and el: "fifo_elems ?f' = fifo_elems ?f @ map (elem_at ?e bs) [0..<n]" using data(2) bs by simp_all
      have spec: "fifo_write_spec es ptr count (peer_m (s a) \<noteq> None) ?f = (ZX_OK, map (elem_at ?e bs) [0..<n])"
        using True bs Some by (simp add: fifo_write_spec_def Let_def n_def)
      have d': "unat (head_m ?f + of_nat n - tail_m ?f) = ?d + n"
        using length_fifo_elems [of ?f'] el by simp
      have inv': "fifo_inv ?f'" using inv data(1) d' n(2) by (simp add: fifo_inv_def)
      define s1 where "s1 = (if ?d = 0 then s(b := UpdateStateLocked 0 ZX_OBJECT_READABLE ?f') else s(b := ?f'))"
      define s' where "s' = (if fifo_full ?f' then s1(a := UpdateStateLocked ZX_OBJECT_WRITABLE 0 (s1 a)) else s1)"
      have "n \<le> 4096" using n(2) fifo_count [OF inv] by (metis add_leD2 le_trans)
      then have actual: "unat (head_m ?f + of_nat n - head_m ?f) = n"
        by (simp add: unsigned_of_nat take_bit_nat_eq_self)
      have empty: "?c - ?d = ?c \<longleftrightarrow> ?d = 0" using True by auto
      have wr: "WriteFromUser a es ptr count s = Some (ZX_OK, n, s')"
      proof -
        have "WriteFromUser a es ptr count s = WriteSelfLocked b es ptr count s"
          by (simp add: WriteFromUser_def Some p)
        also have "\<dots> = Some (ZX_OK, n, s')"
          unfolding WriteSelfLocked_def Let_def room clip run option.case prod.case empty
          using True n(1) p(2) actual neq
          by (simp add: s'_def s1_def fifo_full_iff del: length_fifo_elems)
        finally show ?thesis .
      qed
      have sb: "fifo_elems (s' b) = fifo_elems ?f'" "fifo_inv (s' b)" "fifo_full (s' b) = fifo_full ?f'"
        "peer_m (s' b) = Some a" "extra_signals_m (s' b) = extra_signals_m ?f" "bit (signals_m (s' b)) 1 = bit (signals_m ?f) 1"
        "bit (signals_m (s' b)) 0 \<longleftrightarrow> ?d = 0 \<or> bit (signals_m ?f) 0"
        using neq inv' p(2)
        by (auto simp: s'_def s1_def fifo_full_def bit_simps bit_signal_masks simp del: length_fifo_elems)
      have sa: "fifo_elems (s' a) = fifo_elems (s a)" "fifo_inv (s' a) = fifo_inv (s a)" "peer_m (s' a) = Some b"
        "fifo_full (s' a) = fifo_full (s a)" "extra_signals_m (s' a) = extra_signals_m (s a)" "bit (signals_m (s' a)) 0 = bit (signals_m (s a)) 0"
        "bit (signals_m (s' a)) 1 \<longleftrightarrow> bit (signals_m (s a)) 1 \<and> \<not> fifo_full ?f'"
        using neq Some p(1)
        by (auto simp: s'_def s1_def fifo_full_def bit_simps bit_signal_masks simp del: length_fifo_elems)
      have "\<not> fifo_full ?f" using True by (simp add: fifo_full_def del: length_fifo_elems)
      with half have "bit (signals_m (s a)) 1" by simp
      moreover have "fifo_elems ?f' \<noteq> []" using el n(1) by simp
      moreover have "?d \<noteq> 0 \<longrightarrow> bit (signals_m ?f) 0"
        using assms by (auto simp: fifo_pair_def fifo_half_def simp del: length_fifo_elems)
      ultimately have "fifo_pair a b s'"
        using assms sa sb Some p by (auto simp: fifo_pair_def fifo_half_def)
      moreover have "\<forall>k. peer_m (s' k) = peer_m (s k)" "\<forall>k. k \<noteq> a \<and> k \<noteq> b \<longrightarrow> s' k = s k"
        using neq by (auto simp: s'_def s1_def)
      ultimately show ?thesis using wr sa(1) sb(1) el unfolding spec by auto
    qed
  qed
qed

lemma ReadToUser_ok:
  assumes "fifo_pair a b s"
  shows "\<exists>out s'. ReadToUser b es ptr count s =
      Some (fst (fifo_read_spec es ptr count (peer_m (s b) \<noteq> None) (s b)), out,
            length (snd (fifo_read_spec es ptr count (peer_m (s b) \<noteq> None) (s b))), s') \<and>
    (fst (fifo_read_spec es ptr count (peer_m (s b) \<noteq> None) (s b)) = ZX_OK \<longrightarrow>
       out = concat (snd (fifo_read_spec es ptr count (peer_m (s b) \<noteq> None) (s b)))) \<and>
    fifo_pair a b s' \<and> fifo_elems (s' a) = fifo_elems (s a) \<and>
    snd (fifo_read_spec es ptr count (peer_m (s b) \<noteq> None) (s b)) @ fifo_elems (s' b) = fifo_elems (s b) \<and>
    (\<forall>k. peer_m (s' k) = peer_m (s k)) \<and> (\<forall>k. k \<noteq> a \<and> k \<noteq> b \<longrightarrow> s' k = s k)"
proof -
  let ?f = "s b"
  let ?c = "unat (elem_count_m ?f)" and ?e = "unat (elem_size_m ?f)" and ?d = "length (fifo_elems ?f)"
  have inv: "fifo_inv ?f" and neq: "a \<noteq> b" using assms by (auto simp: fifo_pair_defs)
  have d: "unat (head_m ?f - tail_m ?f) = ?d" by simp
  show ?thesis
  proof (cases "es = ?e \<and> 0 < count \<and> fifo_elems ?f \<noteq> []")
    case False
    then show ?thesis using assms
      by (auto simp: ReadToUser_def fifo_read_spec_def Let_def d simp del: length_fifo_elems)
  next
    case True
    define n where "n = min count ?d"
    have n: "0 < n" "n \<le> unat (head_m ?f - tail_m ?f)" using True by (auto simp: n_def d simp del: length_fifo_elems)
    have clip: "(if count > ?d then ?d else count) = n" by (auto simp: n_def)
    note loop = fifo_read_loop_ok [OF inv n(2), of ptr "[]" "tail_m ?f", unfolded list.size append_Nil]
    show ?thesis
    proof (cases "copy_array_to_user ptr 0 (n * ?e) = ZX_OK")
      case False
      have spec: "fifo_read_spec es ptr count (peer_m ?f \<noteq> None) ?f = (ZX_ERR_INVALID_ARGS, [])"
        using True False by (simp add: fifo_read_spec_def Let_def n_def)
      from loop False obtain out' where run: "fifo_read_loop ptr (tail_m ?f) [] n ?f = Some (ZX_ERR_INVALID_ARGS, out', ?f)"
        by auto
      have "s(b := ?f) = s" by simp
      then have "ReadToUser b es ptr count s = Some (ZX_ERR_INVALID_ARGS, out', 0, s)"
        unfolding ReadToUser_def Let_def d clip run option.case prod.case using True
        by (simp del: length_fifo_elems)
      then show ?thesis using assms unfolding spec by auto
    next
      case ok: True
      let ?f' = "fifo_get n ?f" and ?out = "concat (take n (fifo_elems ?f))"
      have run: "fifo_read_loop ptr (tail_m ?f) [] n ?f = Some (ZX_OK, ?out, ?f')"
        and el: "fifo_elems ?f' = drop n (fifo_elems ?f)" using loop ok by simp_all
      have spec: "fifo_read_spec es ptr count (peer_m ?f \<noteq> None) ?f = (ZX_OK, take n (fifo_elems ?f))"
        using True ok by (simp add: fifo_read_spec_def Let_def n_def)
      have inv': "fifo_inv ?f'" using fifo_get_elems(1) [OF inv n(2)] .
      have "n \<le> 4096" using n(2) inv fifo_count [OF inv] by (metis fifo_inv_def le_trans)
      then have actual: "unat (tail_m ?f' - tail_m ?f) = n"
        by (simp add: fifo_get_def unsigned_of_nat take_bit_nat_eq_self)
      have same: "peer_m ?f' = peer_m ?f" "signals_m ?f' = signals_m ?f" "extra_signals_m ?f' = extra_signals_m ?f" "elem_count_m ?f' = elem_count_m ?f"
        by (simp_all add: fifo_get_def)
      have emptied: "head_m ?f' - tail_m ?f' = 0 \<longleftrightarrow> fifo_elems ?f' = []"
        using length_fifo_elems [of ?f'] by (metis length_0_conv unat_eq_zero)
      define s1 where "s1 = (if peer_m ?f \<noteq> None \<and> ?d = ?c
          then s(b := ?f', a := UpdateStateLocked 0 ZX_OBJECT_WRITABLE (s a)) else s(b := ?f'))"
      define s' where "s' = (if fifo_elems ?f' = [] then s1(b := UpdateStateLocked ZX_OBJECT_READABLE 0 (s1 b)) else s1)"
      have peer: "peer_m ?f = Some a \<or> peer_m ?f = None" using assms by (auto simp: fifo_pair_def fifo_half_def)
      have rd: "ReadToUser b es ptr count s = Some (ZX_OK, ?out, n, s')"
        unfolding ReadToUser_def Let_def d clip run option.case prod.case emptied same actual
        using True peer neq by (auto simp: s'_def s1_def simp del: length_fifo_elems)
      have sb: "fifo_elems (s' b) = fifo_elems ?f'" "fifo_inv (s' b)" "fifo_full (s' b) = fifo_full ?f'"
        "peer_m (s' b) = peer_m ?f" "extra_signals_m (s' b) = extra_signals_m ?f" "bit (signals_m (s' b)) 1 = bit (signals_m ?f) 1"
        "bit (signals_m (s' b)) 0 \<longleftrightarrow> fifo_elems ?f' \<noteq> [] \<and> bit (signals_m ?f) 0"
        using neq inv'
        by (auto simp: s'_def s1_def fifo_full_def bit_simps bit_signal_masks same simp del: length_fifo_elems)
      have sa: "fifo_elems (s' a) = fifo_elems (s a)" "fifo_inv (s' a) = fifo_inv (s a)" "peer_m (s' a) = peer_m (s a)"
        "fifo_full (s' a) = fifo_full (s a)" "extra_signals_m (s' a) = extra_signals_m (s a)" "bit (signals_m (s' a)) 0 = bit (signals_m (s a)) 0"
        "bit (signals_m (s' a)) 1 \<longleftrightarrow> bit (signals_m (s a)) 1 \<or> peer_m ?f \<noteq> None \<and> fifo_full ?f"
        using neq
        by (auto simp: s'_def s1_def fifo_full_def bit_simps bit_signal_masks same simp del: length_fifo_elems)
      have "length (fifo_elems ?f') = ?d - n" by (simp only: el length_drop)
      moreover have "0 < ?d" using True by (simp del: length_fifo_elems)
      ultimately have "\<not> fifo_full ?f'"
        using n(1) fifo_elems_le [OF inv] unfolding fifo_full_def same by linarith
      have old: "fifo_half a b s" "fifo_half b a s" "peer_m (s a) = None \<longleftrightarrow> peer_m ?f = None"
        using assms by (simp_all add: fifo_pair_def)
      have bitf: "bit (signals_m ?f) 0" using True old(2) by (simp add: fifo_half_def)
      have "fifo_half b a s'"
        using old(2) sb(2) bitf unfolding fifo_half_def sa sb by simp
      moreover have "fifo_half a b s'"
      proof (cases "peer_m (s a)")
        case None
        then show ?thesis using old(1) unfolding fifo_half_def sa sb by simp
      next
        case (Some p)
        then have "p = b" "bit (signals_m (s a)) 1 \<longleftrightarrow> \<not> fifo_full ?f" using old(1) by (auto simp: fifo_half_def)
        then show ?thesis using old(1,3) Some \<open>\<not> fifo_full ?f'\<close> unfolding fifo_half_def sa sb by simp
      qed
      ultimately have "fifo_half a b s' \<and> fifo_half b a s'" by simp
      then have "fifo_pair a b s'" using assms sa(3) sb(4) by (simp add: fifo_pair_def)
      moreover have "\<forall>k. peer_m (s' k) = peer_m (s k)" "\<forall>k. k \<noteq> a \<and> k \<noteq> b \<longrightarrow> s' k = s k"
        using neq by (auto simp: s'_def s1_def same)
      moreover have "length (take n (fifo_elems ?f)) = n" using n(2) by simp
      moreover have "take n (fifo_elems ?f) @ fifo_elems (s' b) = fifo_elems ?f"
        unfolding sb(1) el by (rule append_take_drop_id)
      ultimately show ?thesis
        unfolding spec fst_conv snd_conv using rd sa(1) by (intro exI [of _ ?out] exI [of _ s']) simp
    qed
  qed
qed

subsection \<open>Runs of a pair\<close>

text \<open>What can happen to a pair: writes and reads on either side, signals set by users on either
  side, and the last handle of a side being closed. \<open>True\<close> is the side of \<open>a\<close>.\<close>

datatype fifo_op =
    FWrite bool nat user_in nat
  | FRead bool nat user_out nat
  | FSignal bool zx_signals zx_signals
  | FSignalPeer bool zx_signals zx_signals
  | FClose bool

fun fifo_step :: "zx_koid \<Rightarrow> zx_koid \<Rightarrow> fifo_op \<Rightarrow> (zx_koid \<Rightarrow> fifo) \<Rightarrow> zx_koid \<Rightarrow> fifo" where
  "fifo_step a b (FWrite side es ptr count) s =
     (case WriteFromUser (if side then a else b) es ptr count s of None \<Rightarrow> s | Some (_, _, s') \<Rightarrow> s')"
| "fifo_step a b (FRead side es ptr count) s =
     (case ReadToUser (if side then a else b) es ptr count s of None \<Rightarrow> s | Some (_, _, _, s') \<Rightarrow> s')"
| "fifo_step a b (FSignal side clear_mask set_mask) s =
     snd (peered_user_signal_self (if side then a else b) clear_mask set_mask s)"
| "fifo_step a b (FSignalPeer side clear_mask set_mask) s =
     snd (user_signal_peer (if side then a else b) clear_mask set_mask s)"
| "fifo_step a b (FClose side) s = FifoDispatcher_on_zero_handles (if side then a else b) s"

text \<open>The elements \<open>a\<close> writes and the elements \<open>b\<close> reads, as the calls report them.\<close>

fun fifo_written :: "zx_koid \<Rightarrow> zx_koid \<Rightarrow> fifo_op \<Rightarrow> (zx_koid \<Rightarrow> fifo) \<Rightarrow> byte list list" where
  "fifo_written a b (FWrite True es ptr count) s =
     (case WriteFromUser a es ptr count s of
        Some (ZX_OK, n, _) \<Rightarrow> map (elem_at es (the (copy_array_from_user ptr 0 (n * es)))) [0..<n]
      | _ \<Rightarrow> [])"
| "fifo_written a b _ s = []"

fun fifo_read :: "zx_koid \<Rightarrow> zx_koid \<Rightarrow> fifo_op \<Rightarrow> (zx_koid \<Rightarrow> fifo) \<Rightarrow> byte list list" where
  "fifo_read a b (FRead False es ptr count) s =
     (case ReadToUser b es ptr count s of
        Some (ZX_OK, out, n, _) \<Rightarrow> map (elem_at es out) [0..<n]
      | _ \<Rightarrow> [])"
| "fifo_read a b _ s = []"

lemma fifo_pair_signal:
  assumes "fifo_pair a b s" "x \<in> {a, b}" "m AND NOT ZX_USER_SIGNAL_ALL = 0" "c AND NOT ZX_USER_SIGNAL_ALL = 0"
  shows "fifo_pair a b (s(x := UpdateStateLocked c m (s x)))"
proof -
  let ?s = "s(x := UpdateStateLocked c m (s x))"
  have "bit (signals_m (?s k)) 0 = bit (signals_m (s k)) 0" "bit (signals_m (?s k)) 1 = bit (signals_m (s k)) 1"
    "fifo_inv (?s k) = fifo_inv (s k)" "fifo_elems (?s k) = fifo_elems (s k)" "peer_m (?s k) = peer_m (s k)"
    "elem_count_m (?s k) = elem_count_m (s k)" "extra_signals_m (?s k) = extra_signals_m (s k)" for k
    using user_signal_mask_bits [OF assms(3)] user_signal_mask_bits [OF assms(4)] by (auto simp: bit_simps)
  then show ?thesis using assms(1) unfolding fifo_pair_def fifo_half_def fifo_full_def by metis
qed

lemma fifo_pair_close:
  assumes "fifo_pair a b s" "x \<in> {a, b}"
  shows "fifo_pair a b (FifoDispatcher_on_zero_handles x s)"
    "fifo_elems (FifoDispatcher_on_zero_handles x s k) = fifo_elems (s k)"
proof -
  let ?s = "FifoDispatcher_on_zero_handles x s"
  have el: "fifo_elems (?s k) = fifo_elems (s k)" "fifo_inv (?s k) = fifo_inv (s k)" for k
    by (auto simp: peered_on_zero_handles_def Let_def FifoDispatcher_on_zero_handles_locked_def
        FifoDispatcher_OnPeerZeroHandlesLocked_def fifo_elems_def fifo_inv_def split: option.split)
  have sig: "bit (signals_m (?s k)) 0 = bit (signals_m (s k)) 0" "extra_signals_m (?s k) = extra_signals_m (s k)" for k
    by (auto simp: peered_on_zero_handles_def Let_def FifoDispatcher_on_zero_handles_locked_def
        FifoDispatcher_OnPeerZeroHandlesLocked_def bit_simps bit_signal_masks split: option.split)
  have "peer_m (?s a) = None" "peer_m (?s b) = None"
    using assms by (auto simp: fifo_hooks.on_zero_handles_peer fifo_pair_def fifo_half_def)
  then show "fifo_pair a b ?s" using assms(1) el sig unfolding fifo_pair_def fifo_half_def by simp
  show "fifo_elems (?s k) = fifo_elems (s k)" by (rule el)
qed

lemma fifo_pair_signal_self:
  assumes "fifo_pair a b s" "x \<in> {a, b}"
  shows "fifo_pair a b (snd (peered_user_signal_self x c m s))"
    "fifo_elems (snd (peered_user_signal_self x c m s) k) = fifo_elems (s k)"
proof -
  have "extra_signals_m (s x) = 0" using assms by (auto simp: fifo_pair_def fifo_half_def)
  then show "fifo_pair a b (snd (peered_user_signal_self x c m s))"
    "fifo_elems (snd (peered_user_signal_self x c m s) k) = fifo_elems (s k)"
    using assms fifo_pair_signal [OF assms] by (auto simp: peered_user_signal_self_def Let_def)
qed

lemma fifo_pair_signal_peer:
  assumes "fifo_pair a b s" "x \<in> {a, b}"
  shows "fifo_pair a b (snd (user_signal_peer x c m s))"
    "fifo_elems (snd (user_signal_peer x c m s) k) = fifo_elems (s k)"
proof -
  have "extra_signals_m (s x) = 0" "\<And>p. peer_m (s x) = Some p \<Longrightarrow> p \<in> {a, b}"
    using assms by (auto simp: fifo_pair_def fifo_half_def)
  then show "fifo_pair a b (snd (user_signal_peer x c m s))"
    "fifo_elems (snd (user_signal_peer x c m s) k) = fifo_elems (s k)"
    using assms fifo_pair_signal [OF assms(1)] by (auto simp: user_signal_peer_def Let_def split: option.split)
qed

lemma fifo_write_spec_len:
  "fifo_write_spec es ptr count c f = (ZX_OK, xs) \<Longrightarrow>
   xs = map (elem_at es (the (copy_array_from_user ptr 0 (length xs * es)))) [0..<length xs]"
  by (auto simp: fifo_write_spec_def Let_def split: if_splits option.splits)

lemma fifo_write_spec_fail: "fst (fifo_write_spec es ptr count c f) \<noteq> ZX_OK \<Longrightarrow> snd (fifo_write_spec es ptr count c f) = []"
  by (auto simp: fifo_write_spec_def Let_def split: if_splits option.splits)

lemma fifo_read_spec_fail: "fst (fifo_read_spec es ptr count c f) \<noteq> ZX_OK \<Longrightarrow> snd (fifo_read_spec es ptr count c f) = []"
  by (auto simp: fifo_read_spec_def Let_def split: if_splits)

lemma elem_at_concat:
  "\<forall>x\<in>set xs. length x = es \<Longrightarrow> map (elem_at es (concat xs)) [0..<length xs] = xs"
proof (induction xs)
  case (Cons x xs)
  have "length x = 1 * es" using Cons.prems by simp
  then have "map (elem_at es (concat (x # xs))) [0..<length (x # xs)] =
      map (elem_at es x) [0..<1] @ map (elem_at es (concat xs)) [0..<length xs]"
    using elem_at_append_map [of x 1 es "Suc (length xs)" "concat xs"] by (simp del: upt_Suc)
  also have "map (elem_at es x) [0..<1] = [x]" using Cons.prems by (simp add: elem_at_def)
  finally show ?case using Cons by simp
qed simp

lemma fifo_step_pair:
  assumes "fifo_pair a b s"
  shows "fifo_pair a b (fifo_step a b op s) \<and>
    fifo_read a b op s @ fifo_elems (fifo_step a b op s b) = fifo_elems (s b) @ fifo_written a b op s"
proof (cases op)
  case (FWrite side es ptr count)
  show ?thesis
  proof (cases side)
    case True
    let ?spec = "fifo_write_spec es ptr count (peer_m (s a) \<noteq> None) (s b)"
    from WriteFromUser_ok [OF assms, of es ptr count] obtain s'
      where w: "WriteFromUser a es ptr count s = Some (fst ?spec, length (snd ?spec), s')"
        "fifo_pair a b s'" "fifo_elems (s' b) = fifo_elems (s b) @ snd ?spec" by blast
    have "fifo_written a b op s = snd ?spec"
    proof (cases "fst ?spec = ZX_OK")
      case ok: True
      then have "?spec = (ZX_OK, snd ?spec)" by (metis prod.collapse)
      from fifo_write_spec_len [OF this] show ?thesis using ok w(1) by (simp add: FWrite True)
    next
      case False
      then have "snd ?spec = []" by (rule fifo_write_spec_fail)
      then show ?thesis using False w(1) by (auto simp: FWrite True split: zx_status.split)
    qed
    then show ?thesis using w by (simp add: FWrite True)
  next
    case False
    from WriteFromUser_ok [OF assms [unfolded fifo_pair_sym [of a]], of es ptr count]
    show ?thesis by (auto simp: FWrite False fifo_pair_sym [of a])
  qed
next
  case (FRead side es ptr count)
  show ?thesis
  proof (cases side)
    case True
    from ReadToUser_ok [OF assms [unfolded fifo_pair_sym [of a]], of es ptr count]
    show ?thesis by (auto simp: FRead True fifo_pair_sym [of a])
  next
    case False
    let ?spec = "fifo_read_spec es ptr count (peer_m (s b) \<noteq> None) (s b)"
    from ReadToUser_ok [OF assms, of es ptr count] obtain out s'
      where r: "ReadToUser b es ptr count s = Some (fst ?spec, out, length (snd ?spec), s')"
        "fst ?spec = ZX_OK \<longrightarrow> out = concat (snd ?spec)"
        "fifo_pair a b s'" "snd ?spec @ fifo_elems (s' b) = fifo_elems (s b)" by blast
    have "fifo_read a b op s = snd ?spec"
    proof (cases "fst ?spec = ZX_OK")
      case ok: True
      then have "es = unat (elem_size_m (s b))" by (auto simp: fifo_read_spec_def Let_def split: if_splits)
      moreover have "fifo_inv (s b)" using assms by (simp add: fifo_pair_def fifo_half_def)
      moreover have "set (snd ?spec) \<subseteq> set (fifo_elems (s b))" using r(4) by (metis Un_upper1 set_append)
      ultimately have "\<forall>x\<in>set (snd ?spec). length x = es" using fifo_elem_lengths by blast
      from elem_at_concat [OF this] show ?thesis using ok r by (simp add: FRead False)
    next
      case fail: False
      then have "snd ?spec = []" by (rule fifo_read_spec_fail)
      then show ?thesis using fail r(1) by (auto simp: FRead False split: zx_status.split)
    qed
    then show ?thesis using r by (simp add: FRead False)
  qed
next
  case (FSignal side c m)
  then show ?thesis using fifo_pair_signal_self [OF assms, of "if side then a else b" c m] by simp
next
  case (FSignalPeer side c m)
  then show ?thesis using fifo_pair_signal_peer [OF assms, of "if side then a else b" c m] by simp
next
  case (FClose side)
  then show ?thesis using fifo_pair_close [OF assms, of "if side then a else b"] by simp
qed

interpretation fifo_q: ordered_queue "fifo_pair a b" "\<lambda>s. fifo_elems (s b)" "fifo_step a b" "fifo_written a b" "fifo_read a b"
  for a b :: zx_koid
  by unfold_locales (use fifo_step_pair in blast)+

subsection \<open>Creation\<close>

lemma power_of_two_nat:
  assumes "0 < n" "n AND (n - 1) = (0 :: nat)" shows "\<exists>k. n = 2 ^ k"
proof -
  obtain k where k: "2 ^ k \<le> n" "n < 2 ^ (k + 1)" using ex_power_ivl1 [of 2 n] assms(1) by auto
  have bit: "bit m k" if "2 ^ k \<le> m" "m < 2 ^ (k + 1)" for m :: nat
  proof -
    have "m div 2 ^ k = 1" using that by (simp add: div_nat_eqI)
    then show ?thesis by (simp add: bit_iff_odd)
  qed
  have "n = 2 ^ k"
  proof (rule ccontr)
    assume "n \<noteq> 2 ^ k"
    then have "bit n k" "bit (n - 1) k" using k by (auto intro!: bit)
    then have "bit (n AND (n - 1)) k" by (simp add: bit_simps)
    then show False unfolding assms(2) by simp
  qed
  then show ?thesis by blast
qed

lemma fifo_new_inv:
  assumes "count \<noteq> 0" "elemsize \<noteq> 0" "count AND (count - 1) = 0" "count \<le> (4096 :: 64 word)" "elemsize \<le> (4096 :: 64 word)"
    and "count * elemsize \<le> 4096" "length data = unat (count * elemsize)"
  shows "fifo_inv (FifoDispatcher_Init p (FifoDispatcher_new k (ucast count) (ucast elemsize) data))"
    "fifo_elems (FifoDispatcher_Init p (FifoDispatcher_new k (ucast count) (ucast elemsize) data)) = []"
    "unat (ucast count :: 32 word) = unat count"
proof -
  have le: "unat count \<le> 4096" "unat elemsize \<le> 4096" using assms(4,5) by (simp_all add: word_le_nat_alt)
  have u: "unat (ucast w :: 32 word) = unat w" if "unat w \<le> 4096" for w :: "64 word"
    using that by (simp only: unsigned_ucast_eq) (simp add: take_bit_nat_eq_self)
  then show uc: "unat (ucast count :: 32 word) = unat count" using le by blast
  have ue: "unat (ucast elemsize :: 32 word) = unat elemsize" using u le by blast
  have pos: "0 < unat count" "0 < unat elemsize" using assms(1,2) by (simp_all add: unat_gt_0)
  have "unat (count - 1) = unat count - 1" using assms(1) by (rule unat_minus_one)
  then have "unat count AND (unat count - 1) = 0"
    using assms(3) by (metis unsigned_and_eq unsigned_0)
  from power_of_two_nat [OF pos(1) this] obtain n where n: "unat count = 2 ^ n" by blast
  have "n \<le> 12"
  proof (rule ccontr)
    assume "\<not> n \<le> 12"
    then have "(2::nat) ^ 13 \<le> 2 ^ n" by (intro power_increasing) auto
    then show False using le(1) n by simp
  qed
  have "unat (of_nat (2 ^ n) :: 32 word) = 2 ^ n"
    using \<open>n \<le> 12\<close> by (simp only: unsigned_of_nat) (simp add: take_bit_nat_eq_self)
  then have "ucast count = (2 ^ n :: 32 word)"
    using n uc by (metis of_nat_numeral of_nat_power word_unat_eq_iff)
  with \<open>n \<le> 12\<close> have ex: "\<exists>k\<le>12. ucast count = (2 ^ k :: 32 word)" by blast
  have "unat count * unat elemsize \<le> 4096 * 4096" using le by (rule mult_le_mono)
  then have "unat (count * elemsize) = unat count * unat elemsize"
    by (simp add: unat_word_ariths)
  moreover from this have "unat count * unat elemsize \<le> 4096" using assms(6) by (simp add: word_le_nat_alt)
  ultimately show "fifo_inv (FifoDispatcher_Init p (FifoDispatcher_new k (ucast count) (ucast elemsize) data))"
    using pos assms(7) ex
    by (simp add: fifo_inv_def FifoDispatcher_Init_def FifoDispatcher_new_def uc ue ZX_FIFO_MAX_SIZE_BYTES_def)
  show "fifo_elems (FifoDispatcher_Init p (FifoDispatcher_new k (ucast count) (ucast elemsize) data)) = []"
    by (simp add: fifo_elems_def ring_list_def FifoDispatcher_Init_def FifoDispatcher_new_def)
qed

lemma FifoDispatcher_Create_ok:
  assumes "FifoDispatcher_Create count elemsize h d0 a0 d1 a1 g s = (ZX_OK, r, g', s')"
    and "\<forall>x. d0 = Some x \<or> d1 = Some x \<longrightarrow> length x = unat (count * elemsize)"
  shows "r = Some (g, g + 1, ZX_DEFAULT_FIFO_RIGHTS) \<and> fifo_pair g (g + 1) s' \<and> peer_m (s' g) = Some (g + 1) \<and>
    fifo_elems (s' g) = [] \<and> fifo_elems (s' (g + 1)) = [] \<and>
    elem_count_m (s' (g + 1)) = ucast count \<and> elem_size_m (s' (g + 1)) = ucast elemsize"
proof -
  from assms(1) have chk: "count \<noteq> 0" "elemsize \<noteq> 0" "count AND (count - 1) = 0" "count \<le> 4096" "elemsize \<le> 4096"
    "count * elemsize \<le> 4096"
    by (auto simp: FifoDispatcher_Create_def ZX_FIFO_MAX_SIZE_BYTES_def not_less split: if_splits)
  from assms(1) obtain x0 x1 where d: "d0 = Some x0" "d1 = Some x1"
    by (auto simp: FifoDispatcher_Create_def GenerateKernelObjectId_def split: if_splits option.splits)
  let ?f0 = "FifoDispatcher_Init (g + 1) (FifoDispatcher_new g (ucast count) (ucast elemsize) x0)"
  let ?f1 = "FifoDispatcher_Init g (FifoDispatcher_new (g + 1) (ucast count) (ucast elemsize) x1)"
  have s': "s' = s(g := ?f0, g + 1 := ?f1)" "r = Some (g, g + 1, ZX_DEFAULT_FIFO_RIGHTS)"
    using assms(1) d by (auto simp: FifoDispatcher_Create_def GenerateKernelObjectId_def split: if_splits)
  note new = fifo_new_inv [OF chk]
  have n0: "fifo_inv ?f0" "fifo_elems ?f0 = []" and n1: "fifo_inv ?f1" "fifo_elems ?f1 = []"
    using new assms(2) d by blast+
  have cnt: "0 < unat (ucast count :: 32 word)"
    using new(3) [of x0] assms(2) d(1) chk(1) by (simp add: unat_gt_0)
  have f: "peer_m ?f0 = Some (g + 1)" "peer_m ?f1 = Some g" "signals_m ?f0 = ZX_OBJECT_WRITABLE"
    "signals_m ?f1 = ZX_OBJECT_WRITABLE" "extra_signals_m ?f0 = 0" "extra_signals_m ?f1 = 0"
    "elem_count_m ?f0 = ucast count" "elem_count_m ?f1 = ucast count" "elem_size_m ?f1 = ucast elemsize"
    by (simp_all add: FifoDispatcher_Init_def FifoDispatcher_new_def)
  have "fifo_pair g (g + 1) s'"
    using n0 n1 cnt unfolding fifo_pair_def fifo_half_def fifo_full_def s'(1)
    by (simp add: f bit_signal_masks del: length_fifo_elems)
  then show ?thesis using n0 n1 by (simp add: s' f)
qed

subsection \<open>Properties\<close>

text \<open>C10: The ring buffer with its free-running 32-bit indices implements a bounded queue of elements.
  Both copy loops end. A write appends as many of the user's elements as there is room for and
  a read removes that many of the oldest, in order; a failed call changes neither queue, also
  when the second of two copies fails. Every status is the one of the abstract queue, and
  \<open>READABLE\<close> and \<open>WRITABLE\<close> keep saying whether there are elements and whether there is room.\<close>
theorem fifo_refines_queue:
  assumes "fifo_pair a b s"
  shows "(\<exists>s'. WriteFromUser a es src count s =
      Some (fst (fifo_write_spec es src count (peer_m (s a) \<noteq> None) (s b)),
            length (snd (fifo_write_spec es src count (peer_m (s a) \<noteq> None) (s b))), s') \<and>
      fifo_pair a b s' \<and> fifo_elems (s' a) = fifo_elems (s a) \<and>
      fifo_elems (s' b) = fifo_elems (s b) @ snd (fifo_write_spec es src count (peer_m (s a) \<noteq> None) (s b))) \<and>
    (\<exists>out s'. ReadToUser b es dst count s =
      Some (fst (fifo_read_spec es dst count (peer_m (s b) \<noteq> None) (s b)), out,
            length (snd (fifo_read_spec es dst count (peer_m (s b) \<noteq> None) (s b))), s') \<and>
      (fst (fifo_read_spec es dst count (peer_m (s b) \<noteq> None) (s b)) = ZX_OK \<longrightarrow>
         out = concat (snd (fifo_read_spec es dst count (peer_m (s b) \<noteq> None) (s b)))) \<and>
      fifo_pair a b s' \<and> fifo_elems (s' a) = fifo_elems (s a) \<and>
      snd (fifo_read_spec es dst count (peer_m (s b) \<noteq> None) (s b)) @ fifo_elems (s' b) = fifo_elems (s b))"
  using WriteFromUser_ok [OF assms, of es src count] ReadToUser_ok [OF assms, of es dst count] by blast

definition example_fifo :: "zx_koid \<Rightarrow> fifo" where
  "example_fifo = snd (snd (snd (FifoDispatcher_Create 2 1 True (Some [0, 0]) True (Some [0, 0]) True 1024
     (\<lambda>k. FifoDispatcher_new k 1 1 []))))"

lemma example_fifo_Create:
  "\<exists>r g. FifoDispatcher_Create 2 1 True (Some [0, 0]) True (Some [0, 0]) True 1024 (\<lambda>k. FifoDispatcher_new k 1 1 []) =
     (ZX_OK, r, g, example_fifo)"
  by (simp add: example_fifo_def FifoDispatcher_Create_def GenerateKernelObjectId_def ZX_FIFO_MAX_SIZE_BYTES_def)

lemma example_fifo_pair:
  "fifo_pair 1024 1025 example_fifo" "peer_m (example_fifo 1024) = Some 1025" "fifo_elems (example_fifo 1025) = []"
  "elem_count_m (example_fifo 1025) = 2" "elem_size_m (example_fifo 1025) = 1"
proof -
  obtain r g where c: "FifoDispatcher_Create 2 1 True (Some [0, 0]) True (Some [0, 0]) True 1024
      (\<lambda>k. FifoDispatcher_new k 1 1 []) = (ZX_OK, r, g, example_fifo)" using example_fifo_Create by blast
  from FifoDispatcher_Create_ok [OF this]
  show "fifo_pair 1024 1025 example_fifo" "peer_m (example_fifo 1024) = Some 1025" "fifo_elems (example_fifo 1025) = []"
    "elem_count_m (example_fifo 1025) = 2" "elem_size_m (example_fifo 1025) = 1"
    by simp_all
qed

theorem fifo_refines_queue_witness:
  "\<exists>s'. WriteFromUser 1024 1 (user_bytes [7, 8, 9]) 3 example_fifo = Some (ZX_OK, 2, s') \<and>
     fifo_elems (s' 1025) = [[7], [8]]"
proof -
  have "fifo_write_spec 1 (user_bytes [7, 8, 9]) 3 True (example_fifo 1025) = (ZX_OK, [[7], [8]])"
    by (simp add: fifo_write_spec_def Let_def example_fifo_pair elem_at_def upt_rec [of 0 2] upt_rec [of "Suc 0" 2]
        del: length_fifo_elems)
  then show ?thesis
    using fifo_refines_queue [OF example_fifo_pair(1), of 1 "user_bytes [7, 8, 9]" 3, THEN conjunct1]
    by (auto simp: example_fifo_pair numeral_2_eq_2)
qed

text \<open>A fifo delivers what was written, once, in order and unchanged. Starting from a fresh fifo,
  after any sequence of writes, reads, user signals and closes on both sides, the elements
  one side has read followed by those still queued are exactly the elements the other side
  has written, whatever the wrap-around of the indices.\<close>
theorem fifo_delivers_in_order:
  assumes "FifoDispatcher_Create count elemsize h d0 a0 d1 a1 g s = (ZX_OK, Some (a, b, rights), g', s')"
    and "\<forall>x. d0 = Some x \<or> d1 = Some x \<longrightarrow> length x = unat (count * elemsize)"
  shows "fifo_pair a b (queue_run (fifo_step a b) ops s') \<and>
    queue_log (fifo_step a b) (fifo_read a b) ops s' @ fifo_elems (queue_run (fifo_step a b) ops s' b) =
    queue_log (fifo_step a b) (fifo_written a b) ops s'"
proof -
  have created: "a = g" "b = g + 1" "fifo_pair g (g + 1) s'" "fifo_elems (s' (g + 1)) = []"
    using FifoDispatcher_Create_ok [OF assms(1) assms(2)] by simp_all
  then show ?thesis
    using fifo_q.inv_run [of g "g + 1" s' ops] fifo_q.conserve_run [of g "g + 1" s' ops] by simp
qed

theorem fifo_delivers_in_order_witness:
  "let ops = [FWrite True 1 (user_bytes [7, 8]) 2, FRead False 1 (\<lambda>_. True) 1] in
   queue_log (fifo_step 1024 1025) (fifo_read 1024 1025) ops example_fifo @
     fifo_elems (queue_run (fifo_step 1024 1025) ops example_fifo 1025) =
   queue_log (fifo_step 1024 1025) (fifo_written 1024 1025) ops example_fifo"
proof -
  obtain r g where c: "FifoDispatcher_Create 2 1 True (Some [0, 0]) True (Some [0, 0]) True 1024
      (\<lambda>k. FifoDispatcher_new k 1 1 []) = (ZX_OK, r, g, example_fifo)" using example_fifo_Create by blast
  moreover have "r = Some (1024, 1025, ZX_DEFAULT_FIFO_RIGHTS)" using FifoDispatcher_Create_ok [OF c] by simp
  ultimately have c': "FifoDispatcher_Create 2 1 True (Some [0, 0]) True (Some [0, 0]) True 1024
      (\<lambda>k. FifoDispatcher_new k 1 1 []) = (ZX_OK, Some (1024, 1025, ZX_DEFAULT_FIFO_RIGHTS), g, example_fifo)" by simp
  show ?thesis
    unfolding Let_def
    using fifo_delivers_in_order [OF c', of "[FWrite True 1 (user_bytes [7, 8]) 2, FRead False 1 (\<lambda>_. True) 1]"]
    by simp
qed

end
