(* ===== verification/Message_Packet.thy ===== *)
theory Message_Packet
  imports Handle_Table
begin

section \<open>BufferChain and MessagePacket\<close>

text \<open>
  Model of \<open>zircon/kernel/object/include/object/buffer_chain.h\<close>, \<open>buffer_chain.cc\<close>,
  \<open>message_packet.cc\<close> and \<open>include/object/message_packet.h\<close>.

  \<^item> A buffer is its raw bytes and the number of them reserved for the chain object. The page
    allocator is an argument: for a number of pages it answers the pages, each with the bytes
    the buffer's \<open>raw_data_\<close> has there, or \<open>None\<close>.
  \<^item> The \<open>BufferChain\<close>, the \<open>MessagePacket\<close> and the array of handles live inside the first buffer.
    Here they are records of their own, and the theorems show that no copy into the payload
    touches the bytes they occupy.
  \<^item> A handle in a packet is its slot; \<open>None\<close> is a null pointer, and what the array holds before
    the handles are put in.
  \<^item> \<open>chain_bytes\<close> reads the chain as one array of bytes. Copies in and out are shown to
    be a write and a read of that array.
\<close>

subsection \<open>BufferChain\<close>

definition kSizeOfBuffer :: nat where "kSizeOfBuffer = PAGE_SIZE"
definition kSizeOfBufferFields :: nat where "kSizeOfBufferFields = 16"
definition kRawDataSize :: nat where "kRawDataSize = kSizeOfBuffer - kSizeOfBufferFields"
definition kSizeOfBufferChain :: nat where "kSizeOfBufferChain = 8 + 16"
definition kContig :: nat where "kContig = kRawDataSize - kSizeOfBufferChain"

record Buffer =
  reserved_m :: nat
  raw_data_m :: "byte list"

definition Buffer_data :: "Buffer \<Rightarrow> byte list" where
  "Buffer_data b = drop (reserved_m b) (raw_data_m b)"

definition Buffer_size :: "Buffer \<Rightarrow> nat" where
  "Buffer_size b = kRawDataSize - reserved_m b"

definition set_reserved :: "nat \<Rightarrow> Buffer \<Rightarrow> Buffer" where
  "set_reserved reserved b = b\<lparr>reserved_m := reserved\<rparr>"

record BufferChain =
  buffers_m :: "Buffer list"
  pages_m :: "nat list"

type_synonym pmm = "nat \<Rightarrow> (nat \<times> byte list) list option"

definition BufferChain_new :: "Buffer list \<Rightarrow> nat list \<Rightarrow> BufferChain" where
  "BufferChain_new buffers pages =
     \<lparr>buffers_m = (case buffers of [] \<Rightarrow> [] | b # bs \<Rightarrow> set_reserved kSizeOfBufferChain b # bs),
      pages_m = pages\<rparr>"

definition BufferChain_Alloc :: "pmm \<Rightarrow> nat \<Rightarrow> BufferChain option" where
  "BufferChain_Alloc pmm_alloc_pages sz =
     (let sz = sz + kSizeOfBufferChain;
          num_buffers = (sz + kRawDataSize - 1) div kRawDataSize
      in case pmm_alloc_pages num_buffers of
           None \<Rightarrow> None
         | Some pages \<Rightarrow>
             let temp = fold (\<lambda>page temp. \<lparr>reserved_m = 0, raw_data_m = snd page\<rparr> # temp) pages []
             in Some (BufferChain_new temp (map fst pages)))"

text \<open>The pages handed back to the page allocator.\<close>

definition BufferChain_Free :: "BufferChain \<Rightarrow> nat list" where
  "BufferChain_Free chain = pages_m chain"

text \<open>The loop of \<open>CopyInCommon\<close>; \<open>pos\<close> is how far \<open>src\<close> has been advanced.\<close>

fun CopyIn_loop :: "user_in \<Rightarrow> nat \<Rightarrow> nat \<Rightarrow> nat \<Rightarrow> Buffer list \<Rightarrow> zx_status \<times> Buffer list" where
  "CopyIn_loop src pos copy_offset rem [] = (ZX_OK, [])"
| "CopyIn_loop src pos copy_offset rem (b # bs) =
     (if rem = 0 then (ZX_OK, b # bs)
      else let copy_len = min rem (Buffer_size b - copy_offset) in
           case copy_array_from_user src pos copy_len of
             None \<Rightarrow> (ZX_ERR_INVALID_ARGS, b # bs)
           | Some data \<Rightarrow>
               let b = b\<lparr>raw_data_m := write_at (reserved_m b + copy_offset) data (raw_data_m b)\<rparr>;
                   (status, bs) = CopyIn_loop src (pos + copy_len) 0 (rem - copy_len) bs
               in (status, b # bs))"

definition CopyInCommon :: "user_in \<Rightarrow> nat \<Rightarrow> nat \<Rightarrow> BufferChain \<Rightarrow> zx_status \<times> BufferChain" where
  "CopyInCommon src dst_offset sz chain =
     (let (status, buffers) = CopyIn_loop src 0 dst_offset sz (buffers_m chain)
      in (status, chain\<lparr>buffers_m := buffers\<rparr>))"

definition CopyIn :: "user_in \<Rightarrow> nat \<Rightarrow> nat \<Rightarrow> BufferChain \<Rightarrow> zx_status \<times> BufferChain" where
  "CopyIn src dst_offset sz chain = CopyInCommon src dst_offset sz chain"

text \<open>Kernel memory does not fault: it is a total function from offsets to bytes.\<close>

definition KernelPtrAdapter :: "(nat \<Rightarrow> byte) \<Rightarrow> user_in" where
  "KernelPtrAdapter p = (\<lambda>i. Some (p i))"

definition CopyInKernel :: "(nat \<Rightarrow> byte) \<Rightarrow> nat \<Rightarrow> nat \<Rightarrow> BufferChain \<Rightarrow> zx_status \<times> BufferChain" where
  "CopyInKernel src dst_offset sz chain = CopyInCommon (KernelPtrAdapter src) dst_offset sz chain"

text \<open>The loop of \<open>CopyOut\<close>; \<open>out\<close> is what has been copied to the user so far.\<close>

fun CopyOut_loop :: "user_out \<Rightarrow> byte list \<Rightarrow> nat \<Rightarrow> nat \<Rightarrow> Buffer list \<Rightarrow> zx_status \<times> byte list" where
  "CopyOut_loop dst out copy_offset rem [] = (ZX_OK, out)"
| "CopyOut_loop dst out copy_offset rem (b # bs) =
     (if rem = 0 then (ZX_OK, out)
      else let copy_len = min rem (Buffer_size b - copy_offset);
               status = copy_array_to_user dst (length out) copy_len
           in if status \<noteq> ZX_OK then (status, out)
              else CopyOut_loop dst (out @ take copy_len (drop copy_offset (Buffer_data b))) 0
                     (rem - copy_len) bs)"

definition CopyOut :: "user_out \<Rightarrow> nat \<Rightarrow> nat \<Rightarrow> BufferChain \<Rightarrow> zx_status \<times> byte list" where
  "CopyOut dst src_offset sz chain = CopyOut_loop dst [] src_offset sz (buffers_m chain)"

subsection \<open>MessagePacket\<close>

definition kMaxMessageSize :: "32 word" where "kMaxMessageSize = 65536"
definition sizeof_MessagePacket :: nat where "sizeof_MessagePacket = 48"
definition kContiguousBytes :: nat where
  "kContiguousBytes = sizeof_MessagePacket + kMaxMessageHandles * 8 + 4"
definition kHandlesOffset :: "32 word" where "kHandlesOffset = of_nat sizeof_MessagePacket"

definition PayloadOffset :: "32 word \<Rightarrow> 32 word" where
  "PayloadOffset num_handles = kHandlesOffset + num_handles * 8"

record MessagePacket =
  buffer_chain_m :: BufferChain
  msg_handles_m :: "nat option list"
  data_size_m :: "32 word"
  payload_offset_m :: "32 word"
  num_handles_m :: "16 word"
  owns_handles_m :: bool

definition MessagePacket_CreateCommon ::
  "pmm \<Rightarrow> 32 word \<Rightarrow> 32 word \<Rightarrow> zx_status \<times> MessagePacket option" where
  "MessagePacket_CreateCommon pmm_alloc_pages data_size num_handles =
     (if data_size > kMaxMessageSize \<or> num_handles > of_nat kMaxMessageHandles
      then (ZX_ERR_OUT_OF_RANGE, None)
      else let payload_offset = PayloadOffset num_handles in
           case BufferChain_Alloc pmm_alloc_pages (unat (payload_offset + data_size)) of
             None \<Rightarrow> (ZX_ERR_NO_MEMORY, None)
           | Some chain \<Rightarrow>
               (ZX_OK, Some \<lparr>buffer_chain_m = chain, msg_handles_m = replicate (unat num_handles) None,
                  data_size_m = data_size, payload_offset_m = payload_offset,
                  num_handles_m = ucast num_handles, owns_handles_m = False\<rparr>))"

definition MessagePacket_Create ::
  "pmm \<Rightarrow> user_in \<Rightarrow> 32 word \<Rightarrow> 32 word \<Rightarrow> zx_status \<times> MessagePacket option" where
  "MessagePacket_Create pmm_alloc_pages data data_size num_handles =
     (case MessagePacket_CreateCommon pmm_alloc_pages data_size num_handles of
        (status, None) \<Rightarrow> (status, None)
      | (status, Some msg) \<Rightarrow>
          (let (status, chain) =
             CopyIn data (unat (PayloadOffset num_handles)) (unat data_size) (buffer_chain_m msg)
           in if status \<noteq> ZX_OK then (status, None)
              else (ZX_OK, Some (msg\<lparr>buffer_chain_m := chain\<rparr>))))"

definition MessagePacket_CreateKernel ::
  "pmm \<Rightarrow> (nat \<Rightarrow> byte) \<Rightarrow> 32 word \<Rightarrow> 32 word \<Rightarrow> zx_status \<times> MessagePacket option" where
  "MessagePacket_CreateKernel pmm_alloc_pages data data_size num_handles =
     (case MessagePacket_CreateCommon pmm_alloc_pages data_size num_handles of
        (status, None) \<Rightarrow> (status, None)
      | (status, Some msg) \<Rightarrow>
          (let (status, chain) =
             CopyInKernel data (unat (PayloadOffset num_handles)) (unat data_size) (buffer_chain_m msg)
           in if status \<noteq> ZX_OK then (status, None)
              else (ZX_OK, Some (msg\<lparr>buffer_chain_m := chain\<rparr>))))"

definition CopyDataTo :: "user_out \<Rightarrow> MessagePacket \<Rightarrow> zx_status \<times> byte list" where
  "CopyDataTo buf msg =
     CopyOut buf (unat (payload_offset_m msg)) (unat (data_size_m msg)) (buffer_chain_m msg)"

definition set_owns_handles :: "bool \<Rightarrow> MessagePacket \<Rightarrow> MessagePacket" where
  "set_owns_handles own_handles msg = msg\<lparr>owns_handles_m := own_handles\<rparr>"

text \<open>The 32-bit word at the start of a byte array, least significant byte first.\<close>

definition load32 :: "byte list \<Rightarrow> 32 word" where
  "load32 bs = ucast (bs ! 0) OR push_bit 8 (ucast (bs ! 1)) OR
     push_bit 16 (ucast (bs ! 2)) OR push_bit 24 (ucast (bs ! 3))"

definition store32 :: "32 word \<Rightarrow> byte list" where
  "store32 w = [ucast w, ucast (drop_bit 8 w), ucast (drop_bit 16 w), ucast (drop_bit 24 w)]"

definition MessagePacket_get_txid :: "MessagePacket \<Rightarrow> 32 word" where
  "MessagePacket_get_txid msg =
     (if data_size_m msg < 4 then 0
      else load32 (drop (unat (payload_offset_m msg)) (Buffer_data (hd (buffers_m (buffer_chain_m msg))))))"

definition MessagePacket_set_txid :: "32 word \<Rightarrow> MessagePacket \<Rightarrow> MessagePacket" where
  "MessagePacket_set_txid txid msg =
     (if data_size_m msg \<ge> 4
      then let chain = buffer_chain_m msg;
               b = hd (buffers_m chain);
               b = b\<lparr>raw_data_m := write_at (reserved_m b + unat (payload_offset_m msg)) (store32 txid)
                                     (raw_data_m b)\<rparr>
           in msg\<lparr>buffer_chain_m := chain\<lparr>buffers_m := b # tl (buffers_m chain)\<rparr>\<rparr>
      else msg)"

text \<open>The destructor of a \<open>HandleOwner\<close>, which deletes the handle unless the pointer is null.\<close>

definition HandleOwner_destroy :: "nat option \<Rightarrow> hstate \<Rightarrow> hstate" where
  "HandleOwner_destroy handle s = (case handle of None \<Rightarrow> s | Some h \<Rightarrow> HandleTableArena_Delete h s)"

text \<open>\<open>~MessagePacket\<close> and \<open>recycle\<close>: the handles the packet owns are deleted in order, then
  the pages go back to the page allocator.\<close>

definition MessagePacket_destroy :: "MessagePacket \<Rightarrow> hstate \<Rightarrow> hstate" where
  "MessagePacket_destroy msg s =
     (if owns_handles_m msg
      then fold (\<lambda>ix. HandleOwner_destroy (msg_handles_m msg ! ix)) [0..<unat (num_handles_m msg)] s
      else s)"

definition MessagePacket_recycle :: "MessagePacket \<Rightarrow> hstate \<Rightarrow> nat list \<times> hstate" where
  "MessagePacket_recycle packet s =
     (let chain = buffer_chain_m packet;
          s = MessagePacket_destroy packet s
      in (BufferChain_Free chain, s))"

subsection \<open>Copies are writes and reads of one array\<close>

definition buffer_ok :: "Buffer \<Rightarrow> bool" where
  "buffer_ok b \<longleftrightarrow> length (raw_data_m b) = kRawDataSize \<and> reserved_m b \<le> kRawDataSize"

definition chain_bytes :: "Buffer list \<Rightarrow> byte list" where
  "chain_bytes bs = concat (map Buffer_data bs)"

lemma chain_bytes_simps [simp]:
  "chain_bytes [] = []" "chain_bytes (b # bs) = Buffer_data b @ chain_bytes bs"
  by (simp_all add: chain_bytes_def)

lemma length_Buffer_data [simp]: "buffer_ok b \<Longrightarrow> length (Buffer_data b) = Buffer_size b"
  by (simp add: buffer_ok_def Buffer_data_def Buffer_size_def)

lemma Buffer_write:
  assumes "buffer_ok b" "off + length data \<le> Buffer_size b"
  shows "Buffer_data (b\<lparr>raw_data_m := write_at (reserved_m b + off) data (raw_data_m b)\<rparr>) =
           write_at off data (Buffer_data b)"
    "buffer_ok (b\<lparr>raw_data_m := write_at (reserved_m b + off) data (raw_data_m b)\<rparr>)"
    "Buffer_size (b\<lparr>raw_data_m := x\<rparr>) = Buffer_size b"
  using assms
  by (simp_all add: Buffer_data_def Buffer_size_def buffer_ok_def write_at_def drop_take ac_simps)

lemma write_at_append1:
  "p + length bs \<le> length xs \<Longrightarrow> write_at p bs (xs @ ys) = write_at p bs xs @ ys"
  by (simp add: write_at_def)

lemma write_at_append2:
  "p + length bs = length xs \<Longrightarrow> write_at p (bs @ cs) (xs @ ys) = write_at p bs xs @ write_at 0 cs ys"
  by (simp add: write_at_def flip: add.assoc)

lemma write_at_nil [simp]: "write_at p [] xs = xs"
  by (simp add: write_at_def)

lemma rest_fits:
  assumes "buffer_ok b" "off + rem \<le> length (chain_bytes (b # bs))" "b # bs \<noteq> [] \<longrightarrow> off \<le> Buffer_size (hd (b # bs))"
  shows "0 + (rem - min rem (Buffer_size b - off)) \<le> length (chain_bytes bs)"
  using assms by simp

lemma CopyIn_loop_fails:
  assumes "list_all buffer_ok bs" "off + rem \<le> length (chain_bytes bs)"
    "bs \<noteq> [] \<longrightarrow> off \<le> Buffer_size (hd bs)"
    and "copy_array_from_user src pos rem = None"
  shows "fst (CopyIn_loop src pos off rem bs) = ZX_ERR_INVALID_ARGS"
  using assms
proof (induction bs arbitrary: pos off rem)
  case (Cons b bs)
  let ?n = "min rem (Buffer_size b - off)"
  have ok: "buffer_ok b" "list_all buffer_ok bs" using Cons.prems(1) by simp_all
  have "copy_array_from_user src pos (?n + (rem - ?n)) = None" using Cons.prems(4) by simp
  then have split: "copy_array_from_user src pos ?n = None \<or>
      copy_array_from_user src (pos + ?n) (rem - ?n) = None"
    unfolding copy_array_from_user_split by (auto split: option.splits)
  have rem: "rem \<noteq> 0" using Cons.prems(4) by (cases rem) simp_all
  show ?case
  proof (cases "copy_array_from_user src pos ?n")
    case (Some data)
    with split have rest: "copy_array_from_user src (pos + ?n) (rem - ?n) = None" by simp
    from Cons.IH [OF ok(2) rest_fits [OF ok(1) Cons.prems(2,3)] _ rest] have "fst (CopyIn_loop src (pos + ?n) 0 (rem - ?n) bs) = ZX_ERR_INVALID_ARGS"
      by simp
    with Some rem show ?thesis by (auto simp: Let_def split: prod.splits)
  qed (use rem in simp)
qed simp

lemma CopyIn_loop_writes:
  assumes "list_all buffer_ok bs" "off + rem \<le> length (chain_bytes bs)"
    "bs \<noteq> [] \<longrightarrow> off \<le> Buffer_size (hd bs)"
    and "copy_array_from_user src pos rem = Some data"
  shows "\<exists>bs'. CopyIn_loop src pos off rem bs = (ZX_OK, bs') \<and>
    list_all buffer_ok bs' \<and> map Buffer_size bs' = map Buffer_size bs \<and>
    map reserved_m bs' = map reserved_m bs \<and>
    chain_bytes bs' = write_at off data (chain_bytes bs)"
  using assms
proof (induction bs arbitrary: pos off rem data)
  case Nil
  then show ?case by simp
next
  case (Cons b bs)
  let ?n = "min rem (Buffer_size b - off)"
  have ok: "buffer_ok b" "list_all buffer_ok bs" using Cons.prems(1) by simp_all
  show ?case
  proof (cases "rem = 0")
    case True
    with Cons.prems show ?thesis by simp
  next
    case rem: False
    have "copy_array_from_user src pos (?n + (rem - ?n)) = Some data" using Cons.prems(4) by simp
    then obtain d1 d2 where d: "copy_array_from_user src pos ?n = Some d1"
        "copy_array_from_user src (pos + ?n) (rem - ?n) = Some d2" "data = d1 @ d2"
      unfolding copy_array_from_user_split by (auto split: option.splits)
    have len: "length d1 = ?n" "length d2 = rem - ?n"
      using d length_copy_array_from_user by blast+
    from Cons.IH [OF ok(2) rest_fits [OF ok(1) Cons.prems(2,3)] _ d(2)] obtain bs' where bs':
      "CopyIn_loop src (pos + ?n) 0 (rem - ?n) bs = (ZX_OK, bs')" "list_all buffer_ok bs'"
      "map Buffer_size bs' = map Buffer_size bs" "map reserved_m bs' = map reserved_m bs"
      "chain_bytes bs' = write_at 0 d2 (chain_bytes bs)" by auto
    have fits: "off + length d1 \<le> Buffer_size b" using Cons.prems(3) len by simp
    note bw = Buffer_write [OF ok(1) fits]
    have bytes: "write_at off d1 (Buffer_data b) @ write_at 0 d2 (chain_bytes bs) =
        write_at off data (Buffer_data b @ chain_bytes bs)"
    proof (cases "rem \<le> Buffer_size b - off")
      case True
      then have "d2 = []" using len by simp
      with fits ok show ?thesis by (simp add: d(3) write_at_append1)
    next
      case False
      then have "off + length d1 = length (Buffer_data b)" using len ok Cons.prems(3) by simp
      then show ?thesis by (simp add: d(3) write_at_append2)
    qed
    show ?thesis
      using rem d(1) bs' bw bytes by (simp add: Let_def)
  qed
qed

lemma CopyOut_loop_reads:
  assumes "list_all buffer_ok bs" "off + rem \<le> length (chain_bytes bs)"
    "bs \<noteq> [] \<longrightarrow> off \<le> Buffer_size (hd bs)"
    and "copy_array_to_user dst (length out) rem = ZX_OK"
  shows "CopyOut_loop dst out off rem bs = (ZX_OK, out @ take rem (drop off (chain_bytes bs)))"
  using assms
proof (induction bs arbitrary: out off rem)
  case (Cons b bs)
  let ?n = "min rem (Buffer_size b - off)"
  have ok: "buffer_ok b" "list_all buffer_ok bs" using Cons.prems(1) by simp_all
  have "copy_array_to_user dst (length out) (?n + (rem - ?n)) = ZX_OK" using Cons.prems(4) by simp
  then have w: "copy_array_to_user dst (length out) ?n = ZX_OK"
    "copy_array_to_user dst (length out + ?n) (rem - ?n) = ZX_OK"
    unfolding copy_array_to_user_split by simp_all
  let ?out = "out @ take ?n (drop off (Buffer_data b))"
  have len: "length ?out = length out + ?n" using ok by simp
  from Cons.IH [OF ok(2) rest_fits [OF ok(1) Cons.prems(2,3)], of ?out] w len
  have rest: "CopyOut_loop dst ?out 0 (rem - ?n) bs = (ZX_OK, ?out @ take (rem - ?n) (chain_bytes bs))"
    by simp
  have "take ?n (drop off (Buffer_data b)) @ take (rem - ?n) (chain_bytes bs) =
      take rem (drop off (Buffer_data b @ chain_bytes bs))"
    using Cons.prems(3) ok by (simp add: min_def)
  with rest w show ?case by (simp add: Let_def)
qed simp

subsection \<open>Packets\<close>

text \<open>What the page allocator promises: as many pages as asked for, each with room for a buffer.\<close>

definition pmm_ok :: "pmm \<Rightarrow> bool" where
  "pmm_ok pmm_alloc_pages \<longleftrightarrow>
     (\<forall>n ps. pmm_alloc_pages n = Some ps \<longrightarrow> length ps = n \<and> (\<forall>p\<in>set ps. length (snd p) = kRawDataSize))"

definition msg_bytes :: "MessagePacket \<Rightarrow> byte list" where
  "msg_bytes msg = take (unat (data_size_m msg))
     (drop (unat (payload_offset_m msg)) (chain_bytes (buffers_m (buffer_chain_m msg))))"

text \<open>The bytes of the first buffer in which the packet and its handles live.\<close>

definition msg_header :: "MessagePacket \<Rightarrow> byte list" where
  "msg_header msg = take (unat (payload_offset_m msg)) (chain_bytes (buffers_m (buffer_chain_m msg)))"

definition msg_ok :: "MessagePacket \<Rightarrow> bool" where
  "msg_ok msg \<longleftrightarrow>
     (let bs = buffers_m (buffer_chain_m msg) in
      list_all buffer_ok bs \<and> bs \<noteq> [] \<and> Buffer_size (hd bs) = kContig \<and>
      unat (payload_offset_m msg) = sizeof_MessagePacket + 8 * unat (num_handles_m msg) \<and>
      unat (num_handles_m msg) \<le> kMaxMessageHandles \<and> unat (data_size_m msg) \<le> 65536 \<and>
      length (msg_handles_m msg) = unat (num_handles_m msg) \<and>
      unat (payload_offset_m msg) + unat (data_size_m msg) \<le> length (chain_bytes bs))"

lemmas chain_consts = kSizeOfBuffer_def kSizeOfBufferFields_def kRawDataSize_def kSizeOfBufferChain_def
  kContig_def PAGE_SIZE_def sizeof_MessagePacket_def kMaxMessageHandles_def

lemma kContiguousBytes_fits: "kContiguousBytes \<le> kContig"
  by (simp add: kContiguousBytes_def chain_consts)

lemma length_chain_bytes:
  "list_all buffer_ok bs \<Longrightarrow> length (chain_bytes bs) = sum_list (map Buffer_size bs)"
  by (induction bs) auto

lemma fold_buffers:
  "fold (\<lambda>page temp. \<lparr>reserved_m = 0, raw_data_m = snd page\<rparr> # temp) pages acc =
   rev (map (\<lambda>page. \<lparr>reserved_m = 0, raw_data_m = snd page\<rparr>) pages) @ acc"
  by (induction pages arbitrary: acc) auto

lemma rounded_up: "0 < k \<Longrightarrow> m \<le> (m + k - 1) div k * (k :: nat)"
  using dividend_less_div_times [of k "m + k - 1"] by linarith

lemma BufferChain_Alloc_ok:
  assumes "pmm_ok pmm" "BufferChain_Alloc pmm sz = Some chain"
  shows "list_all buffer_ok (buffers_m chain)" "buffers_m chain \<noteq> []"
    "Buffer_size (hd (buffers_m chain)) = kContig" "sz \<le> length (chain_bytes (buffers_m chain))"
proof -
  let ?n = "(sz + kSizeOfBufferChain + kRawDataSize - 1) div kRawDataSize"
  from assms obtain ps where ps: "pmm ?n = Some ps" "length ps = ?n"
      "\<forall>p\<in>set ps. length (snd p) = kRawDataSize"
      and chain: "chain = BufferChain_new (rev (map (\<lambda>page. \<lparr>reserved_m = 0, raw_data_m = snd page\<rparr>) ps)) (map fst ps)"
    unfolding BufferChain_Alloc_def Let_def pmm_ok_def fold_buffers by (auto split: option.splits)
  have big: "sz + kSizeOfBufferChain \<le> ?n * kRawDataSize"
    by (rule rounded_up) (simp add: chain_consts)
  then have "?n \<noteq> 0" by (intro notI) (simp add: chain_consts)
  then obtain p qs where q: "rev ps = p # qs" using ps(2) by (cases "rev ps") auto
  let ?buf = "\<lambda>page :: nat \<times> byte list. \<lparr>reserved_m = 0, raw_data_m = snd page\<rparr>"
  have sz: "\<forall>p\<in>set (p # qs). length (snd p) = kRawDataSize" "length (p # qs) = ?n"
    using ps(2,3) unfolding q [symmetric] by simp_all
  have bs: "buffers_m chain = set_reserved kSizeOfBufferChain (?buf p) # map ?buf qs"
    by (simp add: chain BufferChain_new_def rev_map q)
  show ok: "list_all buffer_ok (buffers_m chain)"
    using sz(1) by (simp add: bs buffer_ok_def set_reserved_def list_all_iff chain_consts)
  show "buffers_m chain \<noteq> []" by (simp add: bs)
  show "Buffer_size (hd (buffers_m chain)) = kContig"
    by (simp add: bs Buffer_size_def set_reserved_def kContig_def)
  have "length (chain_bytes (buffers_m chain)) + kSizeOfBufferChain = ?n * kRawDataSize"
    unfolding length_chain_bytes [OF ok] unfolding bs using sz(2) [symmetric]
    by (simp add: Buffer_size_def set_reserved_def chain_consts comp_def sum_list_triv)
  with big show "sz \<le> length (chain_bytes (buffers_m chain))" by linarith
qed

lemma unat_PayloadOffset:
  assumes "n \<le> of_nat kMaxMessageHandles"
  shows "unat (PayloadOffset n) = sizeof_MessagePacket + 8 * unat n" "unat n \<le> kMaxMessageHandles"
    "unat (ucast n :: 16 word) = unat n"
proof -
  show n: "unat n \<le> kMaxMessageHandles"
    using assms by (simp add: word_le_nat_alt kMaxMessageHandles_def)
  then have "unat (n * 8) = 8 * unat n"
    by (simp add: unat_word_ariths kMaxMessageHandles_def)
  with n show "unat (PayloadOffset n) = sizeof_MessagePacket + 8 * unat n"
    unfolding PayloadOffset_def kHandlesOffset_def unat_word_ariths(1)
    by (simp add: kMaxMessageHandles_def sizeof_MessagePacket_def)
  show "unat (ucast n :: 16 word) = unat n"
    using n by (simp add: unsigned_ucast_eq take_bit_nat_eq_self kMaxMessageHandles_def)
qed

lemma msg_okD:
  assumes "msg_ok msg"
  shows "list_all buffer_ok (buffers_m (buffer_chain_m msg))" "buffers_m (buffer_chain_m msg) \<noteq> []"
    "Buffer_size (hd (buffers_m (buffer_chain_m msg))) = kContig"
    "unat (payload_offset_m msg) + 4 \<le> kContig"
    "unat (payload_offset_m msg) + unat (data_size_m msg) \<le> length (chain_bytes (buffers_m (buffer_chain_m msg)))"
    "length (msg_handles_m msg) = unat (num_handles_m msg)"
  using assms by (auto simp: msg_ok_def Let_def chain_consts)

lemma length_msg_bytes [simp]: "msg_ok msg \<Longrightarrow> length (msg_bytes msg) = unat (data_size_m msg)"
  using msg_okD(5) [of msg] by (simp add: msg_bytes_def)

lemma CreateCommon_OK:
  assumes "pmm_ok pmm" "MessagePacket_CreateCommon pmm n h = (st, Some msg)"
  shows "st = ZX_OK" "msg_ok msg" "data_size_m msg = n" "unat (num_handles_m msg) = unat h"
    "payload_offset_m msg = PayloadOffset h" "owns_handles_m msg = False"
proof -
  from assms(2) obtain chain where
    lim: "\<not> n > kMaxMessageSize" "\<not> h > of_nat kMaxMessageHandles" and
    chain: "BufferChain_Alloc pmm (unat (PayloadOffset h + n)) = Some chain" and
    msg: "msg = \<lparr>buffer_chain_m = chain, msg_handles_m = replicate (unat h) None, data_size_m = n,
       payload_offset_m = PayloadOffset h, num_handles_m = ucast h, owns_handles_m = False\<rparr>" and
    st: "st = ZX_OK"
    unfolding MessagePacket_CreateCommon_def Let_def
    by (cases "n > kMaxMessageSize \<or> h > of_nat kMaxMessageHandles") (auto split: option.splits)
  have h: "h \<le> of_nat kMaxMessageHandles" using lim by simp
  note po = unat_PayloadOffset [OF h]
  have n: "unat n \<le> 65536" using lim(1) by (simp add: word_le_nat_alt not_less kMaxMessageSize_def)
  have "unat (PayloadOffset h + n) = unat (PayloadOffset h) + unat n"
    unfolding unat_word_ariths(1) using po n by (simp add: chain_consts)
  with BufferChain_Alloc_ok [OF assms(1) chain] po n
  show "st = ZX_OK" "msg_ok msg" "data_size_m msg = n" "unat (num_handles_m msg) = unat h"
    "payload_offset_m msg = PayloadOffset h" "owns_handles_m msg = False"
    by (simp_all add: msg st msg_ok_def)
qed

text \<open>A copy into the payload of a packet.\<close>

lemma CopyIn_msg:
  assumes "msg_ok msg" and "copy_array_from_user src 0 (unat (data_size_m msg)) = Some data"
    and "CopyIn src (unat (payload_offset_m msg)) (unat (data_size_m msg)) (buffer_chain_m msg) = (st, chain)"
  shows "st = ZX_OK" "msg_ok (msg\<lparr>buffer_chain_m := chain\<rparr>)"
    "msg_bytes (msg\<lparr>buffer_chain_m := chain\<rparr>) = data"
    "msg_header (msg\<lparr>buffer_chain_m := chain\<rparr>) = msg_header msg"
    "pages_m chain = pages_m (buffer_chain_m msg)"
proof -
  note ok = msg_okD [OF assms(1)]
  let ?bs = "buffers_m (buffer_chain_m msg)" and ?off = "unat (payload_offset_m msg)"
  have "?bs \<noteq> [] \<longrightarrow> ?off \<le> Buffer_size (hd ?bs)" using ok by simp
  from CopyIn_loop_writes [OF ok(1) ok(5) this assms(2)] obtain bs' where bs':
    "CopyIn_loop src 0 ?off (unat (data_size_m msg)) ?bs = (ZX_OK, bs')" "list_all buffer_ok bs'"
    "map Buffer_size bs' = map Buffer_size ?bs" "chain_bytes bs' = write_at ?off data (chain_bytes ?bs)"
    by auto
  have chain: "st = ZX_OK" "chain = (buffer_chain_m msg)\<lparr>buffers_m := bs'\<rparr>"
    using assms(3) bs'(1) by (simp_all add: CopyIn_def CopyInCommon_def)
  have len: "length data = unat (data_size_m msg)"
    using assms(2) by (rule length_copy_array_from_user)
  have "bs' \<noteq> []" using bs'(3) ok(2) by auto
  then have hd: "Buffer_size (hd bs') = Buffer_size (hd ?bs)"
    using bs'(3) ok(2) by (metis hd_map)
  have "length (chain_bytes bs') = length (chain_bytes ?bs)"
    using len ok(5) by (simp add: bs'(4))
  then show "st = ZX_OK" "msg_ok (msg\<lparr>buffer_chain_m := chain\<rparr>)"
    "pages_m chain = pages_m (buffer_chain_m msg)"
    using assms(1) bs'(2) hd \<open>bs' \<noteq> []\<close> by (simp_all add: chain msg_ok_def Let_def)
  show "msg_bytes (msg\<lparr>buffer_chain_m := chain\<rparr>) = data"
    using ok(5) unfolding len [symmetric] by (simp add: chain msg_bytes_def bs'(4) flip: len)
  show "msg_header (msg\<lparr>buffer_chain_m := chain\<rparr>) = msg_header msg"
    using ok(5) by (simp add: chain msg_header_def bs'(4))
qed

lemma CopyIn_msg_fails:
  assumes "msg_ok msg" and "copy_array_from_user src 0 (unat (data_size_m msg)) = None"
  shows "fst (CopyIn src (unat (payload_offset_m msg)) (unat (data_size_m msg)) (buffer_chain_m msg)) = ZX_ERR_INVALID_ARGS"
  using CopyIn_loop_fails [OF msg_okD(1,5) [OF assms(1)] _ assms(2)] msg_okD(3,4) [OF assms(1)]
  by (auto simp: CopyIn_def CopyInCommon_def split: prod.splits)

text \<open>The packet \<open>Create\<close> makes, on every branch.\<close>

lemma MessagePacket_Create_cases:
  assumes "pmm_ok pmm" "MessagePacket_Create pmm src n h = (st, r)"
  shows "case r of
      Some msg \<Rightarrow> st = ZX_OK \<and> msg_ok msg \<and> data_size_m msg = n \<and> unat (num_handles_m msg) = unat h \<and>
        owns_handles_m msg = False \<and> copy_array_from_user src 0 (unat n) = Some (msg_bytes msg)
    | None \<Rightarrow> st = (if n > kMaxMessageSize \<or> h > of_nat kMaxMessageHandles then ZX_ERR_OUT_OF_RANGE
        else if BufferChain_Alloc pmm (unat (PayloadOffset h + n)) = None then ZX_ERR_NO_MEMORY
        else ZX_ERR_INVALID_ARGS) \<and>
        (st = ZX_ERR_INVALID_ARGS \<longrightarrow> copy_array_from_user src 0 (unat n) = None)"
proof (cases "MessagePacket_CreateCommon pmm n h")
  case (Pair st0 r0)
  show ?thesis
  proof (cases r0)
    case None
    then show ?thesis using assms(2) Pair
      by (auto simp: MessagePacket_Create_def MessagePacket_CreateCommon_def split: if_splits option.splits)
  next
    case (Some msg0)
    note c = CreateCommon_OK [OF assms(1) Pair [unfolded Some]]
    have alloc: "\<not> n > kMaxMessageSize" "\<not> h > of_nat kMaxMessageHandles"
      "BufferChain_Alloc pmm (unat (PayloadOffset h + n)) \<noteq> None"
      using Pair Some by (auto simp: MessagePacket_CreateCommon_def Let_def split: if_splits option.splits)
    obtain st1 chain where ci: "CopyIn src (unat (payload_offset_m msg0)) (unat (data_size_m msg0)) (buffer_chain_m msg0) = (st1, chain)"
      by (rule prod.exhaust)
    have res: "(st, r) = (if st1 \<noteq> ZX_OK then (st1, None) else (ZX_OK, Some (msg0\<lparr>buffer_chain_m := chain\<rparr>)))"
      using assms(2) Pair Some ci c(3,5) by (simp add: MessagePacket_Create_def)
    show ?thesis
    proof (cases "copy_array_from_user src 0 (unat n)")
      case None
      with CopyIn_msg_fails [OF c(2), of src] ci c(3) have "st1 = ZX_ERR_INVALID_ARGS" by simp
      with res alloc None show ?thesis by simp
    next
      case data: (Some data)
      have d: "copy_array_from_user src 0 (unat (data_size_m msg0)) = Some data" using data c(3) by simp
      note w = CopyIn_msg [OF c(2) d ci]
      with res data c show ?thesis by simp
    qed
  qed
qed

lemma CopyDataTo_msg:
  assumes "msg_ok msg" "copy_array_to_user dst 0 (unat (data_size_m msg)) = ZX_OK"
  shows "CopyDataTo dst msg = (ZX_OK, msg_bytes msg)"
  using CopyOut_loop_reads [OF msg_okD(1,5) [OF assms(1)], of dst "[]"] assms(2) msg_okD(3,4) [OF assms(1)]
  by (simp add: CopyDataTo_def CopyOut_def msg_bytes_def)

subsection \<open>Transaction ids\<close>

lemma length_store32 [simp]: "length (store32 w) = 4"
  by (simp add: store32_def)

lemma load32_store32 [simp]: "load32 (store32 w @ bs) = w"
proof (rule bit_word_eqI)
  fix n assume n: "n < LENGTH(32)"
  have bits: "bit (load32 (store32 w @ bs)) n \<longleftrightarrow>
      n < 8 \<and> bit w n \<or> 8 \<le> n \<and> n - 8 < 8 \<and> bit w n \<or> 16 \<le> n \<and> n - 16 < 8 \<and> bit w n \<or>
      24 \<le> n \<and> n - 24 < 8 \<and> bit w n"
    using n by (simp add: load32_def store32_def bit_or_iff bit_push_bit_iff bit_ucast_iff bit_drop_bit_eq
        less_diff_conv2 cong: conj_cong)
  show "bit (load32 (store32 w @ bs)) n = bit w n"
    unfolding bits using n by simp linarith
qed

lemma load32_prefix: "length xs \<ge> 4 \<Longrightarrow> load32 (xs @ ys) = load32 xs"
  by (cases xs) (auto simp: load32_def nth_append)

lemma msg_bytes_front:
  assumes "msg_ok msg" "4 \<le> unat (data_size_m msg)"
  shows "\<exists>ys. msg_bytes msg = take 4 (drop (unat (payload_offset_m msg)) (Buffer_data (hd (buffers_m (buffer_chain_m msg))))) @ ys"
proof -
  note ok = msg_okD [OF assms(1)]
  let ?off = "unat (payload_offset_m msg)"
  obtain b bs where bs: "buffers_m (buffer_chain_m msg) = b # bs" using ok(2) by (cases "buffers_m (buffer_chain_m msg)") auto
  have b: "buffer_ok b" "Buffer_size b = kContig" using ok(1,3) by (simp_all add: bs)
  have "take 4 (msg_bytes msg) = take 4 (drop ?off (Buffer_data b))"
    using assms(2) ok(4) b by (simp add: msg_bytes_def bs)
  then show ?thesis by (metis append_take_drop_id bs list.sel(1))
qed

lemma get_txid_msg_bytes:
  assumes "msg_ok msg"
  shows "MessagePacket_get_txid msg = (if unat (data_size_m msg) < 4 then 0 else load32 (msg_bytes msg))"
proof (cases "unat (data_size_m msg) < 4")
  case True
  then show ?thesis by (simp add: MessagePacket_get_txid_def word_less_nat_alt)
next
  case False
  note ok = msg_okD [OF assms]
  let ?d = "drop (unat (payload_offset_m msg)) (Buffer_data (hd (buffers_m (buffer_chain_m msg))))"
  have "buffer_ok (hd (buffers_m (buffer_chain_m msg)))" using ok(1,2) by (simp add: list_all_iff)
  then have "length (take 4 ?d) = 4" using ok(3,4) by simp
  then have "load32 (msg_bytes msg) = load32 ?d"
    using msg_bytes_front [OF assms] False load32_prefix [of "take 4 ?d"] append_take_drop_id [of 4 ?d]
    by (metis linorder_not_less order_refl)
  with False show ?thesis by (simp add: MessagePacket_get_txid_def word_less_nat_alt)
qed

lemma set_txid_msg:
  assumes "msg_ok msg"
  shows "msg_ok (MessagePacket_set_txid t msg)"
    "msg_bytes (MessagePacket_set_txid t msg) =
       (if unat (data_size_m msg) < 4 then msg_bytes msg else store32 t @ drop 4 (msg_bytes msg))"
    "msg_header (MessagePacket_set_txid t msg) = msg_header msg"
    "data_size_m (MessagePacket_set_txid t msg) = data_size_m msg"
    "num_handles_m (MessagePacket_set_txid t msg) = num_handles_m msg"
    "msg_handles_m (MessagePacket_set_txid t msg) = msg_handles_m msg"
    "owns_handles_m (MessagePacket_set_txid t msg) = owns_handles_m msg"
proof -
  note ok = msg_okD [OF assms]
  let ?off = "unat (payload_offset_m msg)"
  obtain b bs where bs: "buffers_m (buffer_chain_m msg) = b # bs" using ok(2) by (cases "buffers_m (buffer_chain_m msg)") auto
  have b: "buffer_ok b" "?off + length (store32 t) \<le> Buffer_size b" "Buffer_size b = kContig"
    using ok(1,3,4) by (simp_all add: bs)
  note bw = Buffer_write [OF b(1,2)]
  let ?b = "b\<lparr>raw_data_m := write_at (reserved_m b + ?off) (store32 t) (raw_data_m b)\<rparr>"
  have eq: "MessagePacket_set_txid t msg =
      (if unat (data_size_m msg) < 4 then msg
       else msg\<lparr>buffer_chain_m := (buffer_chain_m msg)\<lparr>buffers_m := ?b # bs\<rparr>\<rparr>)"
    by (simp add: MessagePacket_set_txid_def bs word_le_nat_alt not_less)
  have bytes: "Buffer_data ?b @ chain_bytes bs = write_at ?off (store32 t) (Buffer_data b @ chain_bytes bs)"
    using b by (simp add: bw(1) write_at_append1)
  show "msg_ok (MessagePacket_set_txid t msg)"
    using assms b bw by (simp add: eq msg_ok_def Let_def bs)
  have len: "?off + unat (data_size_m msg) \<le> length (Buffer_data b @ chain_bytes bs)"
    using ok(5) by (simp add: bs)
  have "take n (drop p (write_at p d xs)) = d @ drop (length d) (take n (drop p xs))"
    if "p + n \<le> length xs" "length d \<le> n" for p n d and xs :: "byte list"
    using that by (simp add: write_at_def drop_take ac_simps)
  from this [OF len, of "store32 t"]
  show "msg_bytes (MessagePacket_set_txid t msg) =
       (if unat (data_size_m msg) < 4 then msg_bytes msg else store32 t @ drop 4 (msg_bytes msg))"
    by (simp add: eq msg_bytes_def bs bytes)
  show "msg_header (MessagePacket_set_txid t msg) = msg_header msg"
    using len by (simp add: eq msg_header_def bs bytes del: take_append)
  show "data_size_m (MessagePacket_set_txid t msg) = data_size_m msg"
    "num_handles_m (MessagePacket_set_txid t msg) = num_handles_m msg"
    "msg_handles_m (MessagePacket_set_txid t msg) = msg_handles_m msg"
    "owns_handles_m (MessagePacket_set_txid t msg) = owns_handles_m msg"
    by (simp_all add: eq)
qed

lemma get_set_txid:
  assumes "msg_ok msg" "4 \<le> unat (data_size_m msg)"
  shows "MessagePacket_get_txid (MessagePacket_set_txid t msg) = t"
  using assms set_txid_msg [OF assms(1), of t] get_txid_msg_bytes [OF set_txid_msg(1) [OF assms(1), of t]]
  by simp

subsection \<open>Properties\<close>

text \<open>The page allocator that always has pages, all of zero bytes.\<close>

definition zero_pages :: pmm where
  "zero_pages n = Some (map (\<lambda>i. (i, replicate kRawDataSize 0)) [0..<n])"

lemma pmm_ok_zero_pages: "pmm_ok zero_pages"
  by (auto simp: pmm_ok_def zero_pages_def)

text \<open>C16: \<open>MessagePacket::Create\<close> and \<open>CopyDataTo\<close> are inverse to each other: if every byte of
  the user's buffer can be read, pages are available and the sizes are within the limits, a
  packet is made, and copying its data out gives back exactly the bytes that went in, for any
  number of handles and across any number of buffers of the chain.\<close>
theorem message_round_trip:
  assumes "pmm_ok pmm" "unat n \<le> 65536" "unat h \<le> 64"
    and "BufferChain_Alloc pmm (unat (PayloadOffset h + n)) \<noteq> None"
    and "copy_array_from_user src 0 (unat n) = Some bs"
    and "copy_array_to_user dst 0 (unat n) = ZX_OK"
  shows "\<exists>msg. MessagePacket_Create pmm src n h = (ZX_OK, Some msg) \<and> CopyDataTo dst msg = (ZX_OK, bs)"
proof -
  obtain st r where c: "MessagePacket_Create pmm src n h = (st, r)" by (rule prod.exhaust)
  have "\<not> n > kMaxMessageSize" "\<not> h > of_nat kMaxMessageHandles"
    using assms(2,3) by (simp_all add: word_le_nat_alt not_less kMaxMessageSize_def kMaxMessageHandles_def)
  with MessagePacket_Create_cases [OF assms(1) c] assms(4,5) obtain msg where
    msg: "r = Some msg" "st = ZX_OK" "msg_ok msg" "data_size_m msg = n" "msg_bytes msg = bs"
    by (cases r) auto
  with CopyDataTo_msg [OF msg(3), of dst] assms(6) c show ?thesis by simp
qed

theorem message_round_trip_witness:
  "\<exists>msg. MessagePacket_Create zero_pages (user_bytes [7, 8, 9]) 3 64 = (ZX_OK, Some msg) \<and>
     CopyDataTo (\<lambda>_. True) msg = (ZX_OK, [7, 8, 9])"
  by (rule message_round_trip)
    (simp_all add: pmm_ok_zero_pages BufferChain_Alloc_def zero_pages_def Let_def)

text \<open>Every packet \<open>MessagePacket::Create\<close> makes is well formed: the packet object, its
  handles and a transaction id fit in the first buffer, the payload lies behind them and inside
  the chain, and the handle array has \<open>num_handles\<close> entries. \<open>set_txid\<close> keeps this and does not
  touch the bytes of the packet object or its handles; it changes the first four bytes of a
  payload that has four, from which \<open>get_txid\<close> reads the same id back, and nothing else.\<close>
theorem message_layout:
  assumes "pmm_ok pmm" "MessagePacket_Create pmm src n h = (ZX_OK, Some msg)"
  shows "msg_ok msg \<and> unat (payload_offset_m msg) + 4 \<le> kContig \<and>
    msg_ok (MessagePacket_set_txid t msg) \<and> msg_header (MessagePacket_set_txid t msg) = msg_header msg \<and>
    (if 4 \<le> unat n
     then MessagePacket_get_txid (MessagePacket_set_txid t msg) = t \<and>
       msg_bytes (MessagePacket_set_txid t msg) = store32 t @ drop 4 (msg_bytes msg)
     else MessagePacket_get_txid msg = 0 \<and> MessagePacket_set_txid t msg = msg)"
proof -
  from MessagePacket_Create_cases [OF assms] have msg: "msg_ok msg" "data_size_m msg = n" by simp_all
  note st = set_txid_msg [OF msg(1), of t]
  show ?thesis
  proof (cases "4 \<le> unat n")
    case True
    with msg st msg_okD(4) [OF msg(1)] get_set_txid [OF msg(1), of t] show ?thesis by simp
  next
    case False
    then have "MessagePacket_set_txid t msg = msg"
      by (simp add: MessagePacket_set_txid_def msg(2) word_le_nat_alt)
    with False msg msg_okD(4) [OF msg(1)] show ?thesis by (simp add: get_txid_msg_bytes)
  qed
qed

theorem message_layout_witness:
  "\<exists>msg. MessagePacket_Create zero_pages (user_bytes [7, 8, 9, 10, 11]) 5 2 = (ZX_OK, Some msg) \<and>
     MessagePacket_get_txid (MessagePacket_set_txid 258 msg) = 258"
proof -
  obtain st r where c: "MessagePacket_Create zero_pages (user_bytes [7, 8, 9, 10, 11]) 5 2 = (st, r)"
    by (rule prod.exhaust)
  have "BufferChain_Alloc zero_pages (unat (PayloadOffset 2 + 5)) \<noteq> None"
    by (simp add: BufferChain_Alloc_def zero_pages_def Let_def)
  with MessagePacket_Create_cases [OF pmm_ok_zero_pages c] obtain msg where "r = Some msg" "st = ZX_OK"
    by (cases r) (auto simp: kMaxMessageSize_def kMaxMessageHandles_def)
  with c message_layout [OF pmm_ok_zero_pages, of "user_bytes [7, 8, 9, 10, 11]" 5 2 msg 258]
  show ?thesis by simp
qed

end
