(* ===== verification/Channel.thy ===== *)
theory Channel
  imports Message_Packet Event_Pair Ordered_Queue
begin

section \<open>ChannelDispatcher\<close>

text \<open>
  Model of \<open>zircon/kernel/object/channel_dispatcher.cc\<close>. An endpoint owns the list of messages
  written by its peer and the list of the threads waiting in \<open>Call\<close>.

  \<^item> A \<open>MessageWaiter\<close> is embedded in a thread, and waiters are named by that thread. The state
    joins the store of endpoints and the store of waiters; it also records the threads whose
    process \<open>Call\<close> kills and how often a policy exception was raised for a full channel.
  \<^item> \<open>Call\<close> blocks in its middle. \<open>Call_begin\<close> is the part up to the wait and
    \<open>ResumeInterruptedCall\<close> the part after it. What other threads do in between is an arbitrary
    run of \<open>chan_step\<close>, and the status the wait returns is an argument.
  \<^item> Choosing a transaction id is a loop without a bound. It is a partial function, and the
    theorems show that it returns.
  \<^item> A koid without an endpoint is represented by a closed one.
\<close>

definition kMaxPendingMessageCount :: nat where "kMaxPendingMessageCount = 3500"

record MessageWaiter =
  channel_m :: "zx_koid option"
  waiter_msg_m :: "MessagePacket option"
  waiter_event_m :: "zx_status option"
  waiter_txid_m :: "32 word"
  waiter_status_m :: zx_status

record channel = peered +
  messages_m :: "MessagePacket list"
  max_message_count_m :: nat
  chan_owner_m :: zx_koid
  chan_txid_m :: "32 word"
  waiters_m :: "nat list"

record chan_state =
  chans_m :: "zx_koid \<Rightarrow> channel"
  mwaiters_m :: "nat \<Rightarrow> MessageWaiter"
  kills_m :: "nat list"
  policy_exceptions_m :: nat

subsection \<open>MessageWaiter\<close>

definition MessageWaiter_new :: MessageWaiter where
  "MessageWaiter_new = \<lparr>channel_m = None, waiter_msg_m = None, waiter_event_m = None, waiter_txid_m = 0,
     waiter_status_m = ZX_ERR_BAD_STATE\<rparr>"

definition BeginWait :: "zx_koid \<Rightarrow> MessageWaiter \<Rightarrow> zx_status \<times> MessageWaiter" where
  "BeginWait channel w =
     (if channel_m w \<noteq> None then (ZX_ERR_BAD_STATE, w)
      else (ZX_OK, w\<lparr>waiter_status_m := ZX_ERR_TIMED_OUT, channel_m := Some channel, waiter_event_m := None\<rparr>))"

definition Deliver :: "MessagePacket \<Rightarrow> MessageWaiter \<Rightarrow> MessageWaiter" where
  "Deliver msg w = w\<lparr>waiter_msg_m := Some msg, waiter_status_m := ZX_OK,
     waiter_event_m := Event_Signal ZX_OK (waiter_event_m w)\<rparr>"

definition MessageWaiter_Cancel :: "zx_status \<Rightarrow> MessageWaiter \<Rightarrow> MessageWaiter" where
  "MessageWaiter_Cancel status w =
     w\<lparr>waiter_status_m := status, waiter_event_m := Event_Signal status (waiter_event_m w)\<rparr>"

text \<open>\<open>event_wait\<close> is what \<open>event_.Wait(deadline)\<close> returns.\<close>

definition MessageWaiter_Wait :: "zx_status \<Rightarrow> MessageWaiter \<Rightarrow> zx_status" where
  "MessageWaiter_Wait event_wait w = (if channel_m w = None then ZX_ERR_BAD_STATE else event_wait)"

definition EndWait :: "MessageWaiter \<Rightarrow> zx_status \<times> MessagePacket option \<times> MessageWaiter" where
  "EndWait w =
     (if channel_m w = None then (ZX_ERR_BAD_STATE, None, w)
      else (waiter_status_m w, waiter_msg_m w, w\<lparr>waiter_msg_m := None, channel_m := None\<rparr>))"

subsection \<open>Creation and destruction\<close>

definition ChannelDispatcher_new :: "zx_koid \<Rightarrow> channel" where
  "ChannelDispatcher_new koid =
     \<lparr>koid_m = koid, type_m = ZX_OBJ_TYPE_CHANNEL, default_rights_m = ZX_DEFAULT_CHANNEL_RIGHTS,
      extra_signals_m = 0, handle_count_m = 0, signals_m = ZX_OBJECT_WRITABLE, observers_m = [],
      calls_m = [], peer_m = None, peer_koid_m = 0, messages_m = [], max_message_count_m = 0,
      chan_owner_m = ZX_KOID_INVALID, chan_txid_m = 0, waiters_m = []\<rparr>"

definition ChannelDispatcher_Init :: "zx_koid \<Rightarrow> channel \<Rightarrow> channel" where
  "ChannelDispatcher_Init other d = d\<lparr>peer_m := Some other, peer_koid_m := other\<rparr>"

definition ChannelDispatcher_Create ::
  "bool \<Rightarrow> bool \<Rightarrow> bool \<Rightarrow> zx_koid \<Rightarrow> (zx_koid \<Rightarrow> channel)
     \<Rightarrow> zx_status \<times> (zx_koid \<times> zx_koid \<times> zx_rights) option \<times> zx_koid \<times> (zx_koid \<Rightarrow> channel)" where
  "ChannelDispatcher_Create ac_holder ac0 ac1 global_koid s =
     (if \<not> ac_holder then (ZX_ERR_NO_MEMORY, None, global_koid, s)
      else if \<not> ac0 then (ZX_ERR_NO_MEMORY, None, global_koid, s)
      else let (k0, global_koid) = GenerateKernelObjectId global_koid in
      if \<not> ac1 then (ZX_ERR_NO_MEMORY, None, global_koid, s)
      else let (k1, global_koid) = GenerateKernelObjectId global_koid;
               s = s(k0 := ChannelDispatcher_Init k1 (ChannelDispatcher_new k0));
               s = s(k1 := ChannelDispatcher_Init k0 (ChannelDispatcher_new k1))
      in (ZX_OK, Some (k0, k1, ZX_DEFAULT_CHANNEL_RIGHTS), global_koid, s))"

text \<open>The destructor discards the remaining messages and counts the channel in one of the
  depth buckets, given here by the upper bound of the bucket.\<close>

definition channel_packet_depth :: "nat \<Rightarrow> nat option" where
  "channel_packet_depth max_message_count =
     (if max_message_count \<le> 1 then Some 1
      else if max_message_count \<le> 4 then Some 4
      else if max_message_count \<le> 16 then Some 16
      else if max_message_count \<le> 64 then Some 64
      else if max_message_count \<le> 256 then Some 256
      else None)"

definition ChannelDispatcher_destroy :: "channel \<Rightarrow> hstate \<Rightarrow> nat option \<times> hstate" where
  "ChannelDispatcher_destroy d s =
     (channel_packet_depth (max_message_count_m d), fold MessagePacket_destroy (messages_m d) s)"

definition RemoveWaiter :: "zx_koid \<Rightarrow> nat \<Rightarrow> chan_state \<Rightarrow> chan_state" where
  "RemoveWaiter self waiter st =
     (if waiter \<notin> set (waiters_m (chans_m st self)) then st
      else st\<lparr>chans_m := (chans_m st)(self :=
             (chans_m st self)\<lparr>waiters_m := remove1 waiter (waiters_m (chans_m st self))\<rparr>)\<rparr>)"

definition MessageWaiter_destroy :: "nat \<Rightarrow> chan_state \<Rightarrow> chan_state" where
  "MessageWaiter_destroy waiter st =
     (case channel_m (mwaiters_m st waiter) of
        None \<Rightarrow> st
      | Some channel \<Rightarrow>
          let st = RemoveWaiter channel waiter st
          in st\<lparr>mwaiters_m := (mwaiters_m st)(waiter := MessageWaiter_new)\<rparr>)"

subsection \<open>The end of an endpoint\<close>

text \<open>The loop that pops every waiter and cancels it.\<close>

fun cancel_waiters ::
  "zx_status \<Rightarrow> nat list \<Rightarrow> (nat \<Rightarrow> MessageWaiter) \<Rightarrow> (nat \<Rightarrow> MessageWaiter)" where
  "cancel_waiters status [] ws = ws"
| "cancel_waiters status (waiter # rest) ws =
     cancel_waiters status rest (ws(waiter := MessageWaiter_Cancel status (ws waiter)))"

definition Channel_on_zero_handles_locked ::
  "channel \<Rightarrow> (nat \<Rightarrow> MessageWaiter) \<Rightarrow> channel \<times> (nat \<Rightarrow> MessageWaiter)" where
  "Channel_on_zero_handles_locked d ws =
     (d\<lparr>waiters_m := []\<rparr>, cancel_waiters ZX_ERR_CANCELED (waiters_m d) ws)"

definition Channel_OnPeerZeroHandlesLocked ::
  "channel \<Rightarrow> (nat \<Rightarrow> MessageWaiter) \<Rightarrow> channel \<times> (nat \<Rightarrow> MessageWaiter)" where
  "Channel_OnPeerZeroHandlesLocked d ws =
     (let d = UpdateStateLocked ZX_OBJECT_WRITABLE ZX_OBJECT_PEER_CLOSED d
      in (d\<lparr>waiters_m := []\<rparr>, cancel_waiters ZX_ERR_PEER_CLOSED (waiters_m d) ws))"

text \<open>\<open>PeeredDispatcher::on_zero_handles\<close> with the two methods of the channel.\<close>

definition ChannelDispatcher_on_zero_handles :: "zx_koid \<Rightarrow> chan_state \<Rightarrow> chan_state" where
  "ChannelDispatcher_on_zero_handles self st =
     (let s = chans_m st;
          peer = peer_m (s self);
          (d, ws) = Channel_on_zero_handles_locked ((s self)\<lparr>peer_m := None\<rparr>) (mwaiters_m st);
          s = s(self := d)
      in case peer of
           None \<Rightarrow> st\<lparr>chans_m := s, mwaiters_m := ws\<rparr>
         | Some p \<Rightarrow>
             (let (d, ws) = Channel_OnPeerZeroHandlesLocked ((s p)\<lparr>peer_m := None\<rparr>) ws
              in st\<lparr>chans_m := s(p := d), mwaiters_m := ws\<rparr>))"

definition ChannelDispatcher_set_owner :: "zx_koid \<Rightarrow> zx_koid \<Rightarrow> chan_state \<Rightarrow> chan_state" where
  "ChannelDispatcher_set_owner self new_owner st =
     (if new_owner = ZX_KOID_INVALID then st
      else st\<lparr>chans_m := (chans_m st)(self := (chans_m st self)\<lparr>chan_owner_m := new_owner\<rparr>)\<rparr>)"

subsection \<open>Reading and writing\<close>

definition ChannelDispatcher_Read ::
  "zx_koid \<Rightarrow> zx_koid \<Rightarrow> 32 word \<Rightarrow> 32 word \<Rightarrow> bool \<Rightarrow> chan_state
     \<Rightarrow> zx_status \<times> 32 word \<times> 32 word \<times> MessagePacket option \<times> chan_state" where
  "ChannelDispatcher_Read self owner msg_size msg_handle_count may_discard st =
     (let max_size = msg_size;
          max_handle_count = msg_handle_count;
          d = chans_m st self
      in if owner \<noteq> chan_owner_m d then (ZX_ERR_BAD_HANDLE, msg_size, msg_handle_count, None, st)
         else case messages_m d of
           [] \<Rightarrow> (if peer_m d \<noteq> None then ZX_ERR_SHOULD_WAIT else ZX_ERR_PEER_CLOSED,
                  msg_size, msg_handle_count, None, st)
         | msg # messages \<Rightarrow>
             let msg_size = data_size_m msg;
                 msg_handle_count = ucast (num_handles_m msg);
                 too_small = (msg_size > max_size \<or> msg_handle_count > max_handle_count)
             in if too_small \<and> \<not> may_discard
                then (ZX_ERR_BUFFER_TOO_SMALL, msg_size, msg_handle_count, None, st)
                else let d = d\<lparr>messages_m := messages\<rparr>;
                         d = (if messages = [] then UpdateStateLocked ZX_OBJECT_READABLE 0 d else d)
                     in (if too_small then ZX_ERR_BUFFER_TOO_SMALL else ZX_OK,
                         msg_size, msg_handle_count, Some msg, st\<lparr>chans_m := (chans_m st)(self := d)\<rparr>))"

definition matching_waiter :: "chan_state \<Rightarrow> zx_koid \<Rightarrow> MessagePacket \<Rightarrow> nat option" where
  "matching_waiter st self msg =
     (let txid = MessagePacket_get_txid msg
      in List.find (\<lambda>waiter. waiter_txid_m (mwaiters_m st waiter) = txid) (waiters_m (chans_m st self)))"

definition Channel_WriteSelf :: "zx_koid \<Rightarrow> MessagePacket \<Rightarrow> chan_state \<Rightarrow> chan_state" where
  "Channel_WriteSelf self msg st =
     (let d = chans_m st self in
      case matching_waiter st self msg of
        Some waiter \<Rightarrow>
          st\<lparr>chans_m := (chans_m st)(self := d\<lparr>waiters_m := remove1 waiter (waiters_m d)\<rparr>),
             mwaiters_m := (mwaiters_m st)(waiter := Deliver msg (mwaiters_m st waiter))\<rparr>
      | None \<Rightarrow>
          let d = d\<lparr>messages_m := messages_m d @ [msg]\<rparr>;
              count = length (messages_m d);
              d = (if count > max_message_count_m d then d\<lparr>max_message_count_m := count\<rparr> else d);
              raise_exception = (count \<noteq> kMaxPendingMessageCount div 2 \<and> count > kMaxPendingMessageCount);
              st = (if raise_exception then st\<lparr>policy_exceptions_m := policy_exceptions_m st + 1\<rparr> else st)
          in st\<lparr>chans_m := (chans_m st)(self := UpdateStateLocked 0 ZX_OBJECT_READABLE d)\<rparr>)"

definition ChannelDispatcher_Write ::
  "zx_koid \<Rightarrow> zx_koid \<Rightarrow> MessagePacket \<Rightarrow> chan_state \<Rightarrow> zx_status \<times> chan_state" where
  "ChannelDispatcher_Write self owner msg st =
     (if owner \<noteq> chan_owner_m (chans_m st self) then (ZX_ERR_BAD_HANDLE, st)
      else case peer_m (chans_m st self) of
             None \<Rightarrow> (ZX_ERR_PEER_CLOSED, st)
           | Some peer \<Rightarrow> (ZX_OK, Channel_WriteSelf peer msg st))"

definition Channel_UserSignalSelf ::
  "zx_koid \<Rightarrow> zx_signals \<Rightarrow> zx_signals \<Rightarrow> chan_state \<Rightarrow> zx_status \<times> chan_state" where
  "Channel_UserSignalSelf self clear_mask set_mask st =
     (ZX_OK, st\<lparr>chans_m := (chans_m st)(self := UpdateStateLocked clear_mask set_mask (chans_m st self))\<rparr>)"

subsection \<open>Calls\<close>

text \<open>The loop at \<open>alloc_txid\<close>: the new counter and the transaction id. \<open>used\<close> are the ids of the
  waiters.\<close>

partial_function (option) alloc_txid :: "32 word list \<Rightarrow> 32 word \<Rightarrow> (32 word \<times> 32 word) option" where
  "alloc_txid used counter =
     (let counter = counter + 1;
          txid = counter OR 0x80000000
      in if txid \<in> set used then alloc_txid used counter else Some (counter, txid))"

text \<open>\<open>Call\<close> up to the wait: a status when it returns early, \<open>None\<close> when the thread goes on to wait.\<close>

definition Call_begin ::
  "nat \<Rightarrow> zx_koid \<Rightarrow> zx_koid \<Rightarrow> MessagePacket \<Rightarrow> chan_state \<Rightarrow> (zx_status option \<times> chan_state) option" where
  "Call_begin waiter self owner msg st =
     (let (status, w) = BeginWait self (mwaiters_m st waiter) in
      if status \<noteq> ZX_OK then Some (Some ZX_ERR_BAD_STATE, st\<lparr>kills_m := kills_m st @ [waiter]\<rparr>)
      else let st = st\<lparr>mwaiters_m := (mwaiters_m st)(waiter := w)\<rparr>;
               d = chans_m st self
      in if owner \<noteq> chan_owner_m d then Some (Some ZX_ERR_BAD_HANDLE, st)
      else case peer_m d of
        None \<Rightarrow>
          let (_, _, w) = EndWait w
          in Some (Some ZX_ERR_PEER_CLOSED, st\<lparr>mwaiters_m := (mwaiters_m st)(waiter := w)\<rparr>)
      | Some peer \<Rightarrow>
          (case alloc_txid (map (\<lambda>t. waiter_txid_m (mwaiters_m st t)) (waiters_m d)) (chan_txid_m d) of
             None \<Rightarrow> None
           | Some (counter, txid) \<Rightarrow>
               let w = w\<lparr>waiter_txid_m := txid\<rparr>;
                   msg = MessagePacket_set_txid txid msg;
                   d = d\<lparr>chan_txid_m := counter, waiters_m := waiters_m d @ [waiter]\<rparr>;
                   st = st\<lparr>chans_m := (chans_m st)(self := d), mwaiters_m := (mwaiters_m st)(waiter := w)\<rparr>
               in Some (None, Channel_WriteSelf peer msg st)))"

definition ResumeInterruptedCall ::
  "nat \<Rightarrow> zx_koid \<Rightarrow> zx_status \<Rightarrow> chan_state \<Rightarrow> zx_status \<times> MessagePacket option \<times> chan_state" where
  "ResumeInterruptedCall waiter self event_wait st =
     (let status = MessageWaiter_Wait event_wait (mwaiters_m st waiter) in
      if status = ZX_ERR_INTERNAL_INTR_RETRY then (status, None, st)
      else let (status, reply, w) = EndWait (mwaiters_m st waiter);
               st = st\<lparr>mwaiters_m := (mwaiters_m st)(waiter := w)\<rparr>;
               d = chans_m st self;
               st = (if status = ZX_ERR_TIMED_OUT
                     then st\<lparr>chans_m := (chans_m st)(self := d\<lparr>waiters_m := remove1 waiter (waiters_m d)\<rparr>)\<rparr>
                     else st)
           in (status, reply, st))"

text \<open>The whole call; \<open>others\<close> is what other threads do while this one waits.\<close>

definition ChannelDispatcher_Call ::
  "nat \<Rightarrow> zx_koid \<Rightarrow> zx_koid \<Rightarrow> MessagePacket \<Rightarrow> (chan_state \<Rightarrow> chan_state) \<Rightarrow> zx_status \<Rightarrow> chan_state
     \<Rightarrow> (zx_status \<times> MessagePacket option \<times> chan_state) option" where
  "ChannelDispatcher_Call waiter self owner msg others event_wait st =
     (case Call_begin waiter self owner msg st of
        None \<Rightarrow> None
      | Some (Some status, st) \<Rightarrow> Some (status, None, st)
      | Some (None, st) \<Rightarrow> Some (ResumeInterruptedCall waiter self event_wait (others st)))"

subsection \<open>Choosing a transaction id\<close>

definition txid_of :: "32 word \<Rightarrow> 32 word" where
  "txid_of counter = counter OR 0x80000000"

lemma bit_31_mask: "bit (0x80000000 :: 32 word) n \<longleftrightarrow> n = 31"
proof -
  have "(0x80000000 :: 32 word) = 2 ^ 31" by simp
  then show ?thesis by (simp only: bit_exp_iff) auto
qed

lemma bit_txid_of: "bit (txid_of w) n \<longleftrightarrow> n = 31 \<or> bit w n"
  unfolding txid_of_def bit_or_iff bit_31_mask by auto

lemma txid_of_eq_low: "txid_of v = txid_of w \<Longrightarrow> take_bit 31 v = take_bit 31 w"
  by (rule bit_eqI) (metis bit_take_bit_iff bit_txid_of less_irrefl)

lemma add_mod_inj:
  assumes "i < m" "j < m" "(a + i) mod m = (a + j) mod (m :: nat)" shows "i = j"
proof -
  have le: "x = y" if "x \<le> y" "y < m" "(a + x) mod m = (a + y) mod m" for x y
  proof -
    have "m dvd (a + y) - (a + x)" using that by (metis mod_eq_dvd_iff_nat nat_add_left_cancel_le)
    then have "m dvd y - x" by simp
    with that show ?thesis by (metis diff_is_0_eq dvd_imp_le le_antisym less_imp_diff_less linorder_not_less zero_less_diff)
  qed
  from le [of i j] le [of j i] assms show ?thesis by (metis nat_le_linear)
qed

lemma txid_of_inj:
  assumes "txid_of (c + of_nat i) = txid_of (c + of_nat j)" "i < 2 ^ 31" "j < 2 ^ 31"
  shows "i = j"
proof -
  have low: "unat (take_bit 31 (c + of_nat m)) = (unat c + m) mod 2 ^ 31" for m
  proof -
    have "unat (c + of_nat m) = (unat c + m) mod 2 ^ 32"
      by (simp add: unat_word_ariths unsigned_of_nat take_bit_eq_mod mod_simps)
    then have "unat (take_bit 31 (c + of_nat m)) = (unat c + m) mod 2 ^ 32 mod 2 ^ 31"
      unfolding unsigned_take_bit_eq by (simp only: take_bit_eq_mod)
    also have "\<dots> = (unat c + m) mod 2 ^ 31" by (rule mod_mod_cancel) simp
    finally show ?thesis .
  qed
  have "(unat c + i) mod 2 ^ 31 = (unat c + j) mod 2 ^ 31"
    using txid_of_eq_low [OF assms(1)] low by metis
  with assms(2,3) show ?thesis by (rule add_mod_inj)
qed

lemma alloc_txid_skip:
  "(\<And>i. i < n \<Longrightarrow> txid_of (c + of_nat (Suc i)) \<in> set used) \<Longrightarrow> txid_of (c + of_nat (Suc n)) \<notin> set used \<Longrightarrow>
   alloc_txid used c = Some (c + of_nat (Suc n), txid_of (c + of_nat (Suc n)))"
proof (induction n arbitrary: c)
  case 0
  then show ?case by (subst alloc_txid.simps) (simp add: txid_of_def Let_def add.commute)
next
  case (Suc n)
  have step: "c + 1 + of_nat (Suc i) = c + of_nat (Suc (Suc i))" for i by (simp add: ac_simps)
  have "alloc_txid used (c + 1) = Some (c + 1 + of_nat (Suc n), txid_of (c + 1 + of_nat (Suc n)))"
    by (rule Suc.IH, unfold step) (fact Suc.prems(1) [OF Suc_mono], fact Suc.prems(2))
  moreover have "alloc_txid used c = alloc_txid used (c + 1)"
    using Suc.prems(1) [of 0] by (subst alloc_txid.simps) (simp add: txid_of_def Let_def add.commute)
  ultimately show ?case unfolding step by simp
qed

text \<open>With fewer than \<open>2^31\<close> waiters the loop finds a free id after at most one try per waiter.\<close>

lemma alloc_txid_returns:
  assumes "length used < 2 ^ 31"
  shows "\<exists>n\<le>length used. alloc_txid used c = Some (c + of_nat (Suc n), txid_of (c + of_nat (Suc n))) \<and>
           txid_of (c + of_nat (Suc n)) \<notin> set used"
proof -
  let ?f = "\<lambda>i. txid_of (c + of_nat (Suc i))"
  have "inj_on ?f {..length used}"
  proof (rule inj_onI)
    fix i j assume ij: "i \<in> {..length used}" "j \<in> {..length used}" and "?f i = ?f j"
    then have "txid_of (c + 1 + of_nat i) = txid_of (c + 1 + of_nat j)" by (simp add: ac_simps)
    then show "i = j" by (rule txid_of_inj) (use ij assms in auto)
  qed
  then have "card (?f ` {..length used}) = Suc (length used)" by (simp add: card_image)
  moreover have "card (set used) \<le> length used" by (rule card_length)
  ultimately have "\<not> ?f ` {..length used} \<subseteq> set used"
    using card_mono [of "set used" "?f ` {..length used}"] by auto
  then obtain m where m: "m \<le> length used" "?f m \<notin> set used" by auto
  then obtain n where n: "?f n \<notin> set used" "\<And>i. i < n \<Longrightarrow> ?f i \<in> set used"
    using exists_least_iff [of "\<lambda>n. ?f n \<notin> set used"] by auto
  with m(2) have "n \<le> m" by (meson not_le)
  with alloc_txid_skip [OF n(2,1)] n m(1) show ?thesis by (intro exI [of _ n]) simp
qed


subsection \<open>Waiters\<close>

text \<open>A thread in the list of an endpoint waits for a reply there. A message a waiter holds is one
  delivered to it, with its transaction id; without a message its status is an error.\<close>

definition waiting :: "zx_koid \<Rightarrow> MessageWaiter \<Rightarrow> bool" where
  "waiting k w \<longleftrightarrow> channel_m w = Some k \<and> waiter_status_m w = ZX_ERR_TIMED_OUT \<and>
     waiter_msg_m w = None \<and> bit (waiter_txid_m w) 31"

definition reply_ok :: "MessageWaiter \<Rightarrow> bool" where
  "reply_ok w \<longleftrightarrow> (case waiter_msg_m w of None \<Rightarrow> channel_m w \<noteq> None \<longrightarrow> waiter_status_m w \<noteq> ZX_OK | Some m \<Rightarrow>
     channel_m w \<noteq> None \<and> waiter_status_m w = ZX_OK \<and> MessagePacket_get_txid m = waiter_txid_m w)"

definition waiters_inv :: "(zx_koid \<Rightarrow> nat list) \<Rightarrow> (nat \<Rightarrow> MessageWaiter) \<Rightarrow> bool" where
  "waiters_inv wl ws \<longleftrightarrow>
     (\<forall>k. distinct (wl k) \<and> distinct (map (\<lambda>t. waiter_txid_m (ws t)) (wl k)) \<and>
          (\<forall>t\<in>set (wl k). waiting k (ws t))) \<and>
     (\<forall>t. reply_ok (ws t))"

lemma waiters_invD:
  assumes "waiters_inv wl ws"
  shows "distinct (wl k)" "distinct (map (\<lambda>t. waiter_txid_m (ws t)) (wl k))"
    "t \<in> set (wl k) \<Longrightarrow> waiting k (ws t)" "reply_ok (ws t)"
    "t \<in> set (wl k) \<Longrightarrow> channel_m (ws t) = Some k"
  using assms by (auto simp: waiters_inv_def waiting_def)

lemma reply_ok_idle: "reply_ok w \<Longrightarrow> channel_m w = None \<Longrightarrow> waiter_msg_m w = None"
  by (auto simp: reply_ok_def split: option.splits)

lemma waiters_inv_leave:
  assumes inv: "waiters_inv wl ws" and "reply_ok w"
  shows "waiters_inv (\<lambda>k. remove1 t (wl k)) (ws(t := w))"
proof -
  have "distinct (map (\<lambda>x. waiter_txid_m ((ws(t := w)) x)) (remove1 t (wl k)))" for k
  proof -
    have "map (\<lambda>x. waiter_txid_m ((ws(t := w)) x)) (remove1 t (wl k)) = map (\<lambda>x. waiter_txid_m (ws x)) (remove1 t (wl k))"
      using waiters_invD(1) [OF inv] by auto
    then show ?thesis
      using waiters_invD(1,2) [OF inv, of k]
      by (simp add: distinct_map distinct_remove1 inj_on_def)
  qed
  then show ?thesis
    using inv assms(2) by (auto simp: waiters_inv_def distinct_remove1)
qed

lemma waiters_inv_leave_at:
  assumes "waiters_inv wl ws" "reply_ok w" "\<And>k'. t \<in> set (wl k') \<Longrightarrow> k' = k"
  shows "waiters_inv (wl(k := remove1 t (wl k))) (ws(t := w))"
proof -
  have "(\<lambda>k. remove1 t (wl k)) = wl(k := remove1 t (wl k))"
    using assms(3) by (intro ext) (metis fun_upd_apply remove1_idem)
  with waiters_inv_leave [OF assms(1,2), of t] show ?thesis by simp
qed

lemma waiters_inv_enter:
  assumes inv: "waiters_inv wl ws" and "channel_m (ws t) = None" "waiting k w"
    and "waiter_txid_m w \<notin> set (map (\<lambda>t. waiter_txid_m (ws t)) (wl k))"
  shows "waiters_inv (wl(k := wl k @ [t])) (ws(t := w))"
proof -
  have out: "t \<notin> set (wl k')" for k' using waiters_invD(5) [OF inv, of t k'] assms(2) by auto
  have same: "map (\<lambda>x. waiter_txid_m ((ws(t := w)) x)) (wl k') = map (\<lambda>x. waiter_txid_m (ws x)) (wl k')" for k'
    using out by auto
  have old: "x \<in> set (wl k') \<Longrightarrow> waiting k' ((ws(t := w)) x)" for x k'
    using out waiters_invD(3) [OF inv] by auto
  have "reply_ok w" using assms(3) by (simp add: waiting_def reply_ok_def zx_consts)
  have "distinct ((wl(k := wl k @ [t])) k') \<and> distinct (map (\<lambda>x. waiter_txid_m ((ws(t := w)) x)) ((wl(k := wl k @ [t])) k')) \<and>
      (\<forall>x\<in>set ((wl(k := wl k @ [t])) k'). waiting k' ((ws(t := w)) x))" for k'
  proof (cases "k' = k")
    case True
    have "distinct (map (\<lambda>x. waiter_txid_m ((ws(t := w)) x)) (wl k @ [t]))"
      unfolding map_append same using waiters_invD(2) [OF inv, of k] assms(4) by simp
    moreover have "\<forall>x\<in>set (wl k @ [t]). waiting k ((ws(t := w)) x)" using old assms(3) by auto
    moreover have "distinct (wl k @ [t])" using waiters_invD(1) [OF inv, of k] out by simp
    ultimately show ?thesis unfolding True fun_upd_same by blast
  next
    case False
    then have "(wl(k := wl k @ [t])) k' = wl k'" by simp
    then show ?thesis unfolding same using same old waiters_invD(1,2) [OF inv] by metis
  qed
  moreover have "reply_ok ((ws(t := w)) x)" for x using waiters_invD(4) [OF inv] \<open>reply_ok w\<close> by simp
  ultimately show ?thesis unfolding waiters_inv_def by blast
qed

lemma waiters_inv_cancel:
  "waiters_inv wl ws \<Longrightarrow> wl k = xs \<Longrightarrow> status \<noteq> ZX_OK \<Longrightarrow> waiters_inv (wl(k := [])) (cancel_waiters status xs ws)"
proof (induction xs arbitrary: wl ws)
  case Nil
  then show ?case by (metis cancel_waiters.simps(1) fun_upd_triv)
next
  case (Cons t xs)
  have w: "waiting k (ws t)" using waiters_invD(3) [OF Cons.prems(1), of t k] Cons.prems(2) by simp
  have "waiters_inv (wl(k := remove1 t (wl k))) (ws(t := MessageWaiter_Cancel status (ws t)))"
  proof (rule waiters_inv_leave_at [OF Cons.prems(1)])
    show "reply_ok (MessageWaiter_Cancel status (ws t))"
      using w Cons.prems(3) by (simp add: waiting_def reply_ok_def MessageWaiter_Cancel_def)
    show "t \<in> set (wl k') \<Longrightarrow> k' = k" for k'
      using waiters_invD(5) [OF Cons.prems(1), of t k'] w by (simp add: waiting_def)
  qed
  from Cons.IH [OF this _ Cons.prems(3)] Cons.prems(2) show ?case by (simp del: fun_upd_apply add: fun_upd_same)
qed

subsection \<open>The invariant of channels\<close>

definition chan_ok :: "channel \<Rightarrow> bool" where
  "chan_ok d \<longleftrightarrow>
     (bit (signals_m d) 0 \<longleftrightarrow> messages_m d \<noteq> []) \<and> (bit (signals_m d) 1 \<longleftrightarrow> \<not> bit (signals_m d) 2) \<and>
     (peer_m d \<noteq> None \<longrightarrow> bit (signals_m d) 1) \<and> extra_signals_m d = 0 \<and>
     (peer_m d = None \<longrightarrow> waiters_m d = []) \<and> length (messages_m d) \<le> max_message_count_m d"

definition chan_inv :: "chan_state \<Rightarrow> bool" where
  "chan_inv st \<longleftrightarrow> peers_inv (chans_m st) \<and> (\<forall>k. chan_ok (chans_m st k)) \<and>
     waiters_inv (\<lambda>k. waiters_m (chans_m st k)) (mwaiters_m st)"

lemma UpdateStateLocked_channel [simp]:
  "messages_m (UpdateStateLocked c m d) = messages_m d"
  "max_message_count_m (UpdateStateLocked c m d) = max_message_count_m d"
  "chan_owner_m (UpdateStateLocked c m d) = chan_owner_m d"
  "chan_txid_m (UpdateStateLocked c m d) = chan_txid_m d"
  "waiters_m (UpdateStateLocked c m d) = waiters_m d"
  by (simp_all add: UpdateStateLocked_eq Let_def)

text \<open>A change of one endpoint and of the waiters that leaves the pairing alone.\<close>

lemma chan_inv_upd:
  assumes "chan_inv st" "peer_m d = peer_m (chans_m st k)" "chan_ok d"
    and "waiters_inv ((\<lambda>k. waiters_m (chans_m st k))(k := waiters_m d)) ws"
    and "chans_m st' = (chans_m st)(k := d)" "mwaiters_m st' = ws"
  shows "chan_inv st'"
proof -
  have "peers_inv (chans_m st')"
    using assms(1,2,5) peers_inv_frame [of "chans_m st" "chans_m st'"] by (simp add: chan_inv_def)
  moreover have "(\<lambda>j. waiters_m (chans_m st' j)) = (\<lambda>k. waiters_m (chans_m st k))(k := waiters_m d)"
    by (auto simp: assms(5))
  ultimately show ?thesis using assms by (simp add: chan_inv_def)
qed

lemma chan_inv_upd_same:
  assumes "chan_inv st" "peer_m d = peer_m (chans_m st k)" "chan_ok d" "waiters_m d = waiters_m (chans_m st k)"
    and "chans_m st' = (chans_m st)(k := d)" "mwaiters_m st' = mwaiters_m st"
  shows "chan_inv st'"
proof -
  have "(\<lambda>k. waiters_m (chans_m st k))(k := waiters_m d) = (\<lambda>k. waiters_m (chans_m st k))"
    by (simp add: assms(4) fun_eq_iff)
  then show ?thesis
    using assms by - (rule chan_inv_upd [OF assms(1,2,3) _ assms(5,6)], simp add: chan_inv_def)
qed

lemma chan_invD:
  assumes "chan_inv st"
  shows "peers_inv (chans_m st)" "chan_ok (chans_m st k)" "waiters_inv (\<lambda>k. waiters_m (chans_m st k)) (mwaiters_m st)"
  using assms by (simp_all add: chan_inv_def)

lemmas chan_waiters = waiters_invD [OF chan_invD(3)]

lemma chan_inv_idle:
  assumes "chan_inv st" "channel_m (mwaiters_m st t) = None" "reply_ok w"
  shows "chan_inv (st\<lparr>mwaiters_m := (mwaiters_m st)(t := w)\<rparr>)"
proof -
  have "t \<notin> set (waiters_m (chans_m st k))" for k using chan_waiters(5) [OF assms(1), of t k] assms(2) by auto
  then have "(\<lambda>k. remove1 t (waiters_m (chans_m st k))) = (\<lambda>k. waiters_m (chans_m st k))" by (simp add: remove1_idem)
  with waiters_inv_leave [OF chan_invD(3) [OF assms(1)] assms(3), of t] assms(1) show ?thesis
    by (simp add: chan_inv_def)
qed

lemma chan_inv_SetOwner:
  assumes "chan_inv st" shows "chan_inv (ChannelDispatcher_set_owner k new st)"
  using assms chan_invD(2) [OF assms, of k] unfolding ChannelDispatcher_set_owner_def
  by (auto simp: chan_ok_def
      intro: chan_inv_upd_same [where st = st and k = k and d = "(chans_m st k)\<lparr>chan_owner_m := new\<rparr>"])

definition read_pop :: "MessagePacket list \<Rightarrow> channel \<Rightarrow> channel" where
  "read_pop messages d =
     (if messages = [] then UpdateStateLocked ZX_OBJECT_READABLE 0 (d\<lparr>messages_m := messages\<rparr>)
      else d\<lparr>messages_m := messages\<rparr>)"

lemma Read_Nil:
  "messages_m (chans_m st k) = [] \<Longrightarrow>
   ChannelDispatcher_Read k ow ms mh disc st =
     (if ow \<noteq> chan_owner_m (chans_m st k) then ZX_ERR_BAD_HANDLE
      else if peer_m (chans_m st k) \<noteq> None then ZX_ERR_SHOULD_WAIT else ZX_ERR_PEER_CLOSED, ms, mh, None, st)"
  by (simp add: ChannelDispatcher_Read_def Let_def)

lemma Read_Cons:
  assumes "messages_m (chans_m st k) = m # rest"
  shows "ChannelDispatcher_Read k ow ms mh disc st =
    (if ow \<noteq> chan_owner_m (chans_m st k) then (ZX_ERR_BAD_HANDLE, ms, mh, None, st)
     else if data_size_m m > ms \<or> ucast (num_handles_m m) > mh
     then (ZX_ERR_BUFFER_TOO_SMALL, data_size_m m, ucast (num_handles_m m),
           if disc then Some m else None,
           if disc then st\<lparr>chans_m := (chans_m st)(k := read_pop rest (chans_m st k))\<rparr> else st)
     else (ZX_OK, data_size_m m, ucast (num_handles_m m), Some m,
           st\<lparr>chans_m := (chans_m st)(k := read_pop rest (chans_m st k))\<rparr>))"
  unfolding ChannelDispatcher_Read_def Let_def assms list.case read_pop_def
  by (cases disc; cases "ow = chan_owner_m (chans_m st k)";
      cases "data_size_m m > ms \<or> ucast (num_handles_m m) > mh") (simp_all only: simp_thms if_True if_False)

lemma chan_inv_Read:
  assumes "chan_inv st" shows "chan_inv (snd (snd (snd (snd (ChannelDispatcher_Read k ow ms mh disc st)))))"
proof (cases "messages_m (chans_m st k)")
  case Nil
  then show ?thesis using assms by (simp add: Read_Nil)
next
  case (Cons m rest)
  have "chan_ok (read_pop rest (chans_m st k))"
    using chan_invD(2) [OF assms, of k] Cons
    by (cases rest) (auto simp: read_pop_def chan_ok_def bit_simps bit_signal_masks)
  then have "chan_inv (st\<lparr>chans_m := (chans_m st)(k := read_pop rest (chans_m st k))\<rparr>)"
    by - (rule chan_inv_upd_same [where st = st and k = k and d = "read_pop rest (chans_m st k)"],
      simp_all add: assms read_pop_def)
  then show ?thesis using assms by (simp add: Read_Cons [OF Cons])
qed

lemma matching_waiter_Some:
  "matching_waiter st k m = Some t \<Longrightarrow>
   t \<in> set (waiters_m (chans_m st k)) \<and> waiter_txid_m (mwaiters_m st t) = MessagePacket_get_txid m"
  by (auto simp: matching_waiter_def find_Some_iff Let_def)

lemma chan_inv_WriteSelf:
  assumes "chan_inv st" shows "chan_inv (Channel_WriteSelf k m st)"
proof (cases "matching_waiter st k m")
  case None
  let ?d = "(chans_m st k)\<lparr>messages_m := messages_m (chans_m st k) @ [m]\<rparr>"
  let ?c = "length (messages_m ?d)"
  let ?d1 = "if ?c > max_message_count_m ?d then ?d\<lparr>max_message_count_m := ?c\<rparr> else ?d"
  let ?d2 = "UpdateStateLocked 0 ZX_OBJECT_READABLE ?d1"
  have "chan_ok ?d2"
    using chan_invD(2) [OF assms, of k] by (auto simp: chan_ok_def bit_simps bit_signal_masks)
  then show ?thesis
    by - (rule chan_inv_upd_same [where st = st and k = k and d = ?d2],
      simp_all add: assms Channel_WriteSelf_def None Let_def)
next
  case (Some t)
  note t = matching_waiter_Some [OF Some]
  have w: "waiting k (mwaiters_m st t)" using chan_waiters(3) [OF assms, of t k] t by simp
  let ?d = "(chans_m st k)\<lparr>waiters_m := remove1 t (waiters_m (chans_m st k))\<rparr>"
  have "waiters_inv ((\<lambda>k. waiters_m (chans_m st k))(k := remove1 t (waiters_m (chans_m st k))))
      ((mwaiters_m st)(t := Deliver m (mwaiters_m st t)))"
  proof (rule waiters_inv_leave_at [OF chan_invD(3) [OF assms]])
    show "reply_ok (Deliver m (mwaiters_m st t))" using w t by (simp add: waiting_def reply_ok_def Deliver_def)
    show "t \<in> set (waiters_m (chans_m st k')) \<Longrightarrow> k' = k" for k'
      using chan_waiters(5) [OF assms, of t k'] w by (simp add: waiting_def)
  qed
  moreover have "chan_ok ?d" using chan_invD(2) [OF assms, of k] by (auto simp: chan_ok_def)
  ultimately show ?thesis
    by - (rule chan_inv_upd [where st = st and k = k and d = ?d],
      simp_all add: assms Channel_WriteSelf_def Some Let_def)
qed

lemma chan_inv_Write: "chan_inv st \<Longrightarrow> chan_inv (snd (ChannelDispatcher_Write k ow m st))"
  by (simp add: ChannelDispatcher_Write_def chan_inv_WriteSelf split: option.split)

lemma chan_inv_Signal:
  assumes "chan_inv st" "c AND NOT ZX_USER_SIGNAL_ALL = 0" "m AND NOT ZX_USER_SIGNAL_ALL = 0"
  shows "chan_inv (st\<lparr>chans_m := (chans_m st)(k := UpdateStateLocked c m (chans_m st k))\<rparr>)"
proof -
  have "chan_ok (UpdateStateLocked c m (chans_m st k))"
    using chan_invD(2) [OF assms(1), of k] user_signal_mask_bits [OF assms(2)] user_signal_mask_bits [OF assms(3)]
    by (auto simp: chan_ok_def bit_simps)
  then show ?thesis
    by - (rule chan_inv_upd_same [where st = st and k = k and d = "UpdateStateLocked c m (chans_m st k)"],
      simp_all add: assms(1))
qed

lemma chan_inv_user_signal_self:
  assumes "chan_inv st"
  shows "chan_inv (st\<lparr>chans_m := snd (peered_user_signal_self k c m (chans_m st))\<rparr>)"
  using chan_inv_Signal [OF assms, of c m k] assms chan_invD(2) [OF assms, of k]
  by (auto simp: peered_user_signal_self_def chan_ok_def Let_def)

lemma chan_inv_user_signal_peer:
  assumes "chan_inv st"
  shows "chan_inv (st\<lparr>chans_m := snd (user_signal_peer k c m (chans_m st))\<rparr>)"
  using chan_inv_Signal [OF assms, of c m] assms chan_invD(2) [OF assms, of k]
  by (auto simp: user_signal_peer_def chan_ok_def Let_def split: option.split)

lemma cancel_waiters_other: "t \<notin> set xs \<Longrightarrow> cancel_waiters status xs ws t = ws t"
  by (induction xs arbitrary: ws) auto

interpretation channel_hooks: peered_hooks
  "\<lambda>d. fst (Channel_on_zero_handles_locked d ws)" "\<lambda>d. fst (Channel_OnPeerZeroHandlesLocked d ws)" for ws
proof unfold_locales
  show "signals_m (fst (Channel_OnPeerZeroHandlesLocked d ws)) AND ZX_OBJECT_PEER_CLOSED \<noteq> 0" for d
    by (simp add: Channel_OnPeerZeroHandlesLocked_def Let_def signal_bits bit_simps bit_signal_masks)
  show "disp_inv d \<Longrightarrow> disp_inv (fst (Channel_OnPeerZeroHandlesLocked d ws))" for d
    using disp_inv_UpdateStateLocked [of d] by (simp add: Channel_OnPeerZeroHandlesLocked_def Let_def disp_inv_def)
qed (simp_all add: Channel_on_zero_handles_locked_def Channel_OnPeerZeroHandlesLocked_def Let_def disp_inv_def)

lemma channel_on_zero_handles_chans:
  "chans_m (ChannelDispatcher_on_zero_handles k st) =
   peered_on_zero_handles (\<lambda>d. fst (Channel_on_zero_handles_locked d ws))
     (\<lambda>d. fst (Channel_OnPeerZeroHandlesLocked d ws)) k (chans_m st)"
  by (simp add: ChannelDispatcher_on_zero_handles_def peered_on_zero_handles_def Channel_on_zero_handles_locked_def
      Channel_OnPeerZeroHandlesLocked_def Let_def split: option.split)

lemma on_zero_handles_eq:
  "ChannelDispatcher_on_zero_handles k st =
     (let d = (chans_m st k)\<lparr>peer_m := None, waiters_m := []\<rparr>;
          ws = cancel_waiters ZX_ERR_CANCELED (waiters_m (chans_m st k)) (mwaiters_m st);
          s = (chans_m st)(k := d)
      in case peer_m (chans_m st k) of
           None \<Rightarrow> st\<lparr>chans_m := s, mwaiters_m := ws\<rparr>
         | Some p \<Rightarrow> st\<lparr>chans_m := s(p := (UpdateStateLocked ZX_OBJECT_WRITABLE ZX_OBJECT_PEER_CLOSED
                            ((s p)\<lparr>peer_m := None\<rparr>))\<lparr>waiters_m := []\<rparr>),
                       mwaiters_m := cancel_waiters ZX_ERR_PEER_CLOSED (waiters_m (s p)) ws\<rparr>)"
  by (simp add: ChannelDispatcher_on_zero_handles_def Channel_on_zero_handles_locked_def
      Channel_OnPeerZeroHandlesLocked_def Let_def split: option.split)

lemma chan_inv_close:
  assumes "chan_inv st" shows "chan_inv (ChannelDispatcher_on_zero_handles k st)"
proof -
  let ?s = "chans_m st" and ?wl = "\<lambda>k. waiters_m (chans_m st k)"
  let ?d = "(?s k)\<lparr>peer_m := None, waiters_m := []\<rparr>"
  let ?ws = "cancel_waiters ZX_ERR_CANCELED (?wl k) (mwaiters_m st)"
  have peers: "peers_inv (chans_m (ChannelDispatcher_on_zero_handles k st))"
    unfolding channel_on_zero_handles_chans [of k st "\<lambda>_. MessageWaiter_new"]
    by (rule channel_hooks.on_zero_handles_peers_inv [OF chan_invD(1) [OF assms]])
  have w1: "waiters_inv (?wl(k := [])) ?ws"
    by (rule waiters_inv_cancel [OF chan_invD(3) [OF assms]]) (simp_all add: zx_consts)
  have d: "chan_ok ?d" using chan_invD(2) [OF assms, of k] by (simp add: chan_ok_def)
  show ?thesis
  proof (cases "peer_m (?s k)")
    case None
    have "(\<lambda>j. waiters_m ((?s(k := ?d)) j)) = ?wl(k := [])" by auto
    with None peers w1 d chan_invD(2) [OF assms] show ?thesis
      by (simp add: chan_inv_def on_zero_handles_eq Let_def del: fun_upd_apply) (simp add: fun_upd_apply)
  next
    case (Some p)
    have p: "p \<noteq> k" using peers_invD(1) [OF chan_invD(1) [OF assms] Some] .
    let ?e = "(UpdateStateLocked ZX_OBJECT_WRITABLE ZX_OBJECT_PEER_CLOSED ((?s p)\<lparr>peer_m := None\<rparr>))\<lparr>waiters_m := []\<rparr>"
    have eq: "ChannelDispatcher_on_zero_handles k st =
        st\<lparr>chans_m := ?s(k := ?d, p := ?e), mwaiters_m := cancel_waiters ZX_ERR_PEER_CLOSED (?wl p) ?ws\<rparr>"
      using p by (simp add: on_zero_handles_eq Let_def Some)
    have e: "chan_ok ?e"
      using chan_invD(2) [OF assms, of p] by (simp add: chan_ok_def bit_simps bit_signal_masks)
    have "waiters_inv (?wl(k := [], p := [])) (cancel_waiters ZX_ERR_PEER_CLOSED (?wl p) ?ws)"
      by (rule waiters_inv_cancel [OF w1]) (use p in \<open>simp_all add: zx_consts\<close>)
    moreover have "(\<lambda>j. waiters_m ((?s(k := ?d, p := ?e)) j)) = ?wl(k := [], p := [])" by auto
    moreover have "chan_ok ((?s(k := ?d, p := ?e)) j)" for j using d e chan_invD(2) [OF assms] by simp
    ultimately show ?thesis using peers unfolding chan_inv_def eq by simp
  qed
qed

lemma Call_begin_cases:
  assumes "Call_begin t k ow m st = Some (r, st')" and inv: "chan_inv st"
  obtains (busy) "channel_m (mwaiters_m st t) \<noteq> None" "r = Some ZX_ERR_BAD_STATE" "st' = st\<lparr>kills_m := kills_m st @ [t]\<rparr>"
  | (bad_owner) w where "channel_m (mwaiters_m st t) = None" "BeginWait k (mwaiters_m st t) = (ZX_OK, w)"
      "ow \<noteq> chan_owner_m (chans_m st k)" "r = Some ZX_ERR_BAD_HANDLE" "st' = st\<lparr>mwaiters_m := (mwaiters_m st)(t := w)\<rparr>"
  | (closed) w where "channel_m (mwaiters_m st t) = None" "peer_m (chans_m st k) = None" "ow = chan_owner_m (chans_m st k)"
      "r = Some ZX_ERR_PEER_CLOSED" "w = (mwaiters_m st t)\<lparr>waiter_status_m := ZX_ERR_TIMED_OUT, waiter_event_m := None,
          waiter_msg_m := None, channel_m := None\<rparr>" "st' = st\<lparr>mwaiters_m := (mwaiters_m st)(t := w)\<rparr>"
  | (sent) p counter txid w d st1 where "channel_m (mwaiters_m st t) = None" "peer_m (chans_m st k) = Some p"
      "ow = chan_owner_m (chans_m st k)" "r = None"
      "alloc_txid (map (\<lambda>t. waiter_txid_m (mwaiters_m st t)) (waiters_m (chans_m st k))) (chan_txid_m (chans_m st k)) =
         Some (counter, txid)"
      "w = (mwaiters_m st t)\<lparr>waiter_status_m := ZX_ERR_TIMED_OUT, channel_m := Some k, waiter_event_m := None,
         waiter_txid_m := txid\<rparr>"
      "d = (chans_m st k)\<lparr>chan_txid_m := counter, waiters_m := waiters_m (chans_m st k) @ [t]\<rparr>"
      "st1 = st\<lparr>chans_m := (chans_m st)(k := d), mwaiters_m := (mwaiters_m st)(t := w)\<rparr>"
      "st' = Channel_WriteSelf p (MessagePacket_set_txid txid m) st1"
proof (cases "channel_m (mwaiters_m st t)")
  case (Some c)
  then show ?thesis using assms(1) by (intro busy) (simp_all add: Call_begin_def BeginWait_def)
next
  case None
  let ?w = "(mwaiters_m st t)\<lparr>waiter_status_m := ZX_ERR_TIMED_OUT, channel_m := Some k, waiter_event_m := None\<rparr>"
  have bw: "BeginWait k (mwaiters_m st t) = (ZX_OK, ?w)" by (simp add: BeginWait_def None)
  have out: "t \<notin> set (waiters_m (chans_m st k))" using chan_waiters(5) [OF inv, of t k] None by auto
  then have ids: "map (\<lambda>x. waiter_txid_m (if x = t then ?w else mwaiters_m st x)) (waiters_m (chans_m st k)) =
      map (\<lambda>x. waiter_txid_m (mwaiters_m st x)) (waiters_m (chans_m st k))" by auto
  have ew: "EndWait ?w = (ZX_ERR_TIMED_OUT, waiter_msg_m ?w, ?w\<lparr>waiter_msg_m := None, channel_m := None\<rparr>)"
    by (simp add: EndWait_def)
  have cb: "Call_begin t k ow m st =
      (if ow \<noteq> chan_owner_m (chans_m st k) then Some (Some ZX_ERR_BAD_HANDLE, st\<lparr>mwaiters_m := (mwaiters_m st)(t := ?w)\<rparr>)
       else case peer_m (chans_m st k) of
         None \<Rightarrow> Some (Some ZX_ERR_PEER_CLOSED, st\<lparr>mwaiters_m := (mwaiters_m st)(t := snd (snd (EndWait ?w)))\<rparr>)
       | Some p \<Rightarrow> (case alloc_txid (map (\<lambda>t. waiter_txid_m (mwaiters_m st t)) (waiters_m (chans_m st k))) (chan_txid_m (chans_m st k)) of
           None \<Rightarrow> None
         | Some (counter, txid) \<Rightarrow> Some (None, Channel_WriteSelf p (MessagePacket_set_txid txid m)
             (st\<lparr>chans_m := (chans_m st)(k := (chans_m st k)\<lparr>chan_txid_m := counter, waiters_m := waiters_m (chans_m st k) @ [t]\<rparr>),
                 mwaiters_m := (mwaiters_m st)(t := ?w\<lparr>waiter_txid_m := txid\<rparr>)\<rparr>))))"
    unfolding Call_begin_def Let_def bw case_prod_conv ew by (simp add: ids split: option.split)
  show ?thesis
  proof (cases "ow = chan_owner_m (chans_m st k)")
    case False
    with assms(1) [unfolded cb] show ?thesis by (intro bad_owner [OF None bw]) simp_all
  next
    case owner: True
    show ?thesis
    proof (cases "peer_m (chans_m st k)")
      case p: None
      with assms(1) [unfolded cb] owner show ?thesis by (intro closed [OF None p]) (auto simp: EndWait_def)
    next
      case (Some p)
      with assms(1) owner cb obtain counter txid where
        "alloc_txid (map (\<lambda>t. waiter_txid_m (mwaiters_m st t)) (waiters_m (chans_m st k))) (chan_txid_m (chans_m st k)) = Some (counter, txid)"
        by (auto split: option.splits)
      with Some assms(1) [unfolded cb] owner show ?thesis
        by (intro sent [OF None Some owner _ _ refl refl refl]) auto
    qed
  qed
qed

lemma alloc_txid_fresh:
  assumes "alloc_txid used c = Some (counter, txid)" shows "txid \<notin> set used" "bit txid 31"
proof -
  have high: "bit (v OR 0x80000000) 31" for v :: "32 word"
    using bit_txid_of [of v 31] by (simp add: txid_of_def)
  have "snd r \<notin> set used \<and> bit (snd r) 31" if "alloc_txid used c = Some r" for r
    by (rule alloc_txid.raw_induct [of "\<lambda>used c r. snd r \<notin> set used \<and> bit (snd r) 31", OF _ that])
      (auto simp: Let_def high split: if_splits)
  from this [OF assms] show "txid \<notin> set used" "bit txid 31" by simp_all
qed

lemma Call_sent_registered:
  assumes inv: "chan_inv st" and idle: "channel_m (mwaiters_m st t) = None" and p: "peer_m (chans_m st k) = Some p"
    and txid: "alloc_txid (map (\<lambda>t. waiter_txid_m (mwaiters_m st t)) (waiters_m (chans_m st k))) (chan_txid_m (chans_m st k)) =
         Some (counter, txid)"
    and w: "w = (mwaiters_m st t)\<lparr>waiter_status_m := ZX_ERR_TIMED_OUT, channel_m := Some k, waiter_event_m := None,
         waiter_txid_m := txid\<rparr>"
    and d: "d = (chans_m st k)\<lparr>chan_txid_m := counter, waiters_m := waiters_m (chans_m st k) @ [t]\<rparr>"
    and st1: "st1 = st\<lparr>chans_m := (chans_m st)(k := d), mwaiters_m := (mwaiters_m st)(t := w)\<rparr>"
  shows "chan_inv st1"
proof -
  have "waiting k w"
    using reply_ok_idle [OF chan_waiters(4) [OF inv] idle] alloc_txid_fresh [OF txid] by (simp add: waiting_def w)
  then have "waiters_inv ((\<lambda>k. waiters_m (chans_m st k))(k := waiters_m (chans_m st k) @ [t])) ((mwaiters_m st)(t := w))"
    by (rule waiters_inv_enter [OF chan_invD(3) [OF inv] idle]) (use alloc_txid_fresh [OF txid] in \<open>simp add: w\<close>)
  moreover have "chan_ok d" using chan_invD(2) [OF inv, of k] p by (auto simp: chan_ok_def d)
  ultimately show ?thesis
    by - (rule chan_inv_upd [where st = st and k = k and d = d], simp_all add: inv st1 d)
qed

lemma chan_inv_Call:
  assumes "chan_inv st" "Call_begin t k ow m st = Some (r, st')" shows "chan_inv st'"
  using assms(2,1)
proof (cases rule: Call_begin_cases)
  case busy
  then show ?thesis using assms(1) by (simp add: chan_inv_def)
next
  case (bad_owner w)
  have "reply_ok w"
    using bad_owner(1,2) reply_ok_idle [OF chan_waiters(4) [OF assms(1)] bad_owner(1)]
    by (auto simp: BeginWait_def reply_ok_def zx_consts)
  then show ?thesis unfolding bad_owner by (rule chan_inv_idle [OF assms(1) bad_owner(1)])
next
  case (closed w)
  have "reply_ok w" by (simp add: closed reply_ok_def)
  then show ?thesis unfolding closed(6) by (rule chan_inv_idle [OF assms(1) closed(1)])
next
  case (sent p counter txid w d st1)
  show ?thesis unfolding sent(9)
    by (rule chan_inv_WriteSelf) (rule Call_sent_registered [OF assms(1) sent(1,2,5-8)])
qed

lemma Resume_eq:
  assumes "channel_m (mwaiters_m st t) = Some k"
  shows "ResumeInterruptedCall t k ew st =
    (if ew = ZX_ERR_INTERNAL_INTR_RETRY then (ew, None, st)
     else (waiter_status_m (mwaiters_m st t), waiter_msg_m (mwaiters_m st t),
       st\<lparr>chans_m := (if waiter_status_m (mwaiters_m st t) = ZX_ERR_TIMED_OUT
            then (chans_m st)(k := (chans_m st k)\<lparr>waiters_m := remove1 t (waiters_m (chans_m st k))\<rparr>) else chans_m st),
          mwaiters_m := (mwaiters_m st)(t := (mwaiters_m st t)\<lparr>waiter_msg_m := None, channel_m := None\<rparr>)\<rparr>))"
  using assms by (simp add: ResumeInterruptedCall_def MessageWaiter_Wait_def EndWait_def Let_def)

lemma chan_inv_leave:
  assumes inv: "chan_inv st" and "reply_ok w" and "channel_m (mwaiters_m st t) = Some k"
    and "chans_m st' = (chans_m st)(k := (chans_m st k)\<lparr>waiters_m := remove1 t (waiters_m (chans_m st k))\<rparr>)"
    "mwaiters_m st' = (mwaiters_m st)(t := w)"
  shows "chan_inv st'"
proof -
  let ?d = "(chans_m st k)\<lparr>waiters_m := remove1 t (waiters_m (chans_m st k))\<rparr>"
  have "k' = k" if "t \<in> set (waiters_m (chans_m st k'))" for k'
    using chan_waiters(5) [OF inv that] assms(3) by simp
  from waiters_inv_leave_at [OF chan_invD(3) [OF inv] assms(2) this]
  have "waiters_inv ((\<lambda>k. waiters_m (chans_m st k))(k := waiters_m ?d)) ((mwaiters_m st)(t := w))" by simp
  moreover have "chan_ok ?d" using chan_invD(2) [OF inv, of k] by (auto simp: chan_ok_def)
  ultimately show ?thesis
    using assms(4,5) by - (rule chan_inv_upd [where st = st and k = k and d = ?d], simp_all add: inv)
qed

lemma remove_absent: "t \<notin> set (waiters_m d) \<Longrightarrow> d\<lparr>waiters_m := remove1 t (waiters_m d)\<rparr> = d"
  by (simp add: remove1_idem)

lemma chan_inv_Resume:
  assumes "chan_inv st" "channel_m (mwaiters_m st t) = Some k"
  shows "chan_inv (snd (snd (ResumeInterruptedCall t k ew st)))"
proof -
  let ?w = "(mwaiters_m st t)\<lparr>waiter_msg_m := None, channel_m := None\<rparr>"
  have "reply_ok ?w" by (simp add: reply_ok_def)
  note leave = chan_inv_leave [OF assms(1) this assms(2)]
  have "t \<notin> set (waiters_m (chans_m st k))" if "waiter_status_m (mwaiters_m st t) \<noteq> ZX_ERR_TIMED_OUT"
    using chan_waiters(3) [OF assms(1), of t k] that by (auto simp: waiting_def)
  then show ?thesis
    unfolding Resume_eq [OF assms(2)] using assms(1) by (auto intro!: leave simp: remove_absent)
qed

lemma chan_inv_Exit:
  assumes "chan_inv st" shows "chan_inv (MessageWaiter_destroy t st)"
proof (cases "channel_m (mwaiters_m st t)")
  case None
  then show ?thesis using assms by (simp add: MessageWaiter_destroy_def)
next
  case (Some k)
  have "reply_ok MessageWaiter_new" by (simp add: reply_ok_def MessageWaiter_new_def)
  from chan_inv_leave [OF assms this Some] Some show ?thesis
    by (auto simp: MessageWaiter_destroy_def RemoveWaiter_def Let_def remove_absent)
qed

subsection \<open>Runs\<close>

text \<open>The operations on channels, each under the lock of its pair of endpoints.\<close>

datatype chan_op =
    CWrite zx_koid zx_koid MessagePacket
  | CRead zx_koid zx_koid "32 word" "32 word" bool
  | CCall nat zx_koid zx_koid MessagePacket
  | CResume nat zx_status
  | CClose zx_koid
  | CSetOwner zx_koid zx_koid
  | CSignal zx_koid zx_signals zx_signals
  | CSignalPeer zx_koid zx_signals zx_signals
  | CExit nat

fun chan_step :: "chan_op \<Rightarrow> chan_state \<Rightarrow> chan_state" where
  "chan_step (CWrite k ow m) st = snd (ChannelDispatcher_Write k ow m st)"
| "chan_step (CRead k ow ms mh disc) st = snd (snd (snd (snd (ChannelDispatcher_Read k ow ms mh disc st))))"
| "chan_step (CCall t k ow m) st = (case Call_begin t k ow m st of None \<Rightarrow> st | Some (_, st) \<Rightarrow> st)"
| "chan_step (CResume t ew) st =
     (case channel_m (mwaiters_m st t) of None \<Rightarrow> st | Some k \<Rightarrow> snd (snd (ResumeInterruptedCall t k ew st)))"
| "chan_step (CClose k) st = ChannelDispatcher_on_zero_handles k st"
| "chan_step (CSetOwner k new) st = ChannelDispatcher_set_owner k new st"
| "chan_step (CSignal k c m) st = st\<lparr>chans_m := snd (peered_user_signal_self k c m (chans_m st))\<rparr>"
| "chan_step (CSignalPeer k c m) st = st\<lparr>chans_m := snd (user_signal_peer k c m (chans_m st))\<rparr>"
| "chan_step (CExit t) st = MessageWaiter_destroy t st"

lemma chan_inv_step: "chan_inv st \<Longrightarrow> chan_inv (chan_step op st)"
  by (cases op) (auto intro: chan_inv_Write chan_inv_Read chan_inv_Call chan_inv_Resume chan_inv_close
      chan_inv_SetOwner chan_inv_user_signal_self chan_inv_user_signal_peer chan_inv_Exit split: option.split)

text \<open>The message an operation writes to endpoint \<open>b\<close>, whether it is queued or answers a call.\<close>

fun chan_written :: "zx_koid \<Rightarrow> chan_op \<Rightarrow> chan_state \<Rightarrow> MessagePacket option" where
  "chan_written b (CWrite k ow m) st =
     (if ow = chan_owner_m (chans_m st k) \<and> peer_m (chans_m st k) = Some b then Some m else None)"
| "chan_written b (CCall t k ow m) st =
     (case Call_begin t k ow m st of
        Some (None, st') \<Rightarrow>
          if peer_m (chans_m st k) = Some b
          then Some (MessagePacket_set_txid (waiter_txid_m (mwaiters_m st' t)) m) else None
      | _ \<Rightarrow> None)"
| "chan_written b _ st = None"

definition chan_queued :: "zx_koid \<Rightarrow> chan_op \<Rightarrow> chan_state \<Rightarrow> MessagePacket list" where
  "chan_queued b op st =
     (case chan_written b op st of
        None \<Rightarrow> []
      | Some m \<Rightarrow> if matching_waiter st b m = None then [m] else [])"

fun chan_read :: "zx_koid \<Rightarrow> chan_op \<Rightarrow> chan_state \<Rightarrow> MessagePacket list" where
  "chan_read b (CRead k ow ms mh disc) st =
     (if k = b then (case ChannelDispatcher_Read k ow ms mh disc st of (_, _, _, Some m, _) \<Rightarrow> [m] | _ \<Rightarrow> []) else [])"
| "chan_read b _ st = []"

lemma messages_WriteSelf:
  "messages_m (chans_m (Channel_WriteSelf p m st) b) =
   messages_m (chans_m st b) @ (if b = p \<and> matching_waiter st p m = None then [m] else [])"
  by (simp add: Channel_WriteSelf_def Let_def split: option.split)

lemma messages_close: "messages_m (chans_m (ChannelDispatcher_on_zero_handles k st) b) = messages_m (chans_m st b)"
  by (simp add: on_zero_handles_eq Let_def split: option.split)

text \<open>Registering the caller does not change which waiter of the peer a message would reach.\<close>

lemma matching_waiter_registered:
  assumes "chan_inv st" "channel_m (mwaiters_m st t) = None" "p \<noteq> k"
    and "chans_m st1 p = chans_m st p" "mwaiters_m st1 = (mwaiters_m st)(t := w)"
  shows "matching_waiter st1 p m = matching_waiter st p m"
proof -
  have "t \<notin> set (waiters_m (chans_m st p))" using chan_waiters(5) [OF assms(1), of t p] assms(2) by auto
  then show ?thesis unfolding matching_waiter_def Let_def assms(4,5) by (intro find_cong) auto
qed

lemma waiter_of_WriteSelf:
  "waiter_txid_m (mwaiters_m (Channel_WriteSelf p m st) t) = waiter_txid_m (mwaiters_m st t)"
  "channel_m (mwaiters_m (Channel_WriteSelf p m st) t) = channel_m (mwaiters_m st t)"
  by (simp_all add: Channel_WriteSelf_def Deliver_def Let_def split: option.split)

lemma chan_conserve_call:
  assumes inv: "chan_inv st"
  shows "messages_m (chans_m (chan_step (CCall t k ow m) st) b) = messages_m (chans_m st b) @ chan_queued b (CCall t k ow m) st"
proof (cases "Call_begin t k ow m st")
  case None
  then show ?thesis by (simp add: chan_queued_def)
next
  case (Some rs)
  obtain r st' where rs: "rs = (r, st')" by (rule prod.exhaust)
  from Some [unfolded rs] inv show ?thesis
  proof (cases rule: Call_begin_cases)
    case (sent p counter txid w d st1)
    have p: "p \<noteq> k" using peers_invD(1) [OF chan_invD(1) [OF inv] sent(2)] .
    have mw: "matching_waiter st1 p m' = matching_waiter st p m'" for m'
      by (rule matching_waiter_registered [OF inv sent(1) p]) (simp_all add: sent(8) p)
    have "waiter_txid_m (mwaiters_m st' t) = txid"
      unfolding sent(9) waiter_of_WriteSelf by (simp add: sent(8) sent(6))
    then have q: "chan_queued b (CCall t k ow m) st =
        (if p = b \<and> matching_waiter st b (MessagePacket_set_txid txid m) = None then [MessagePacket_set_txid txid m] else [])"
      using Some sent(2,4) by (simp add: rs chan_queued_def)
    have "messages_m (chans_m st1 b) = messages_m (chans_m st b)" by (simp add: sent(8) sent(7))
    moreover have "chan_step (CCall t k ow m) st = st'" using Some by (simp add: rs)
    ultimately show ?thesis unfolding q by (simp add: sent(9) messages_WriteSelf mw)
  qed (use Some in \<open>simp_all add: rs chan_queued_def\<close>)
qed

lemma Read_result:
  obtains st1 n1 n2 where "ChannelDispatcher_Read k ow ms mh disc st = (st1, n1, n2, None, st)"
  | st1 n1 n2 m rest where "messages_m (chans_m st k) = m # rest"
      "ChannelDispatcher_Read k ow ms mh disc st =
         (st1, n1, n2, Some m, st\<lparr>chans_m := (chans_m st)(k := read_pop rest (chans_m st k))\<rparr>)"
proof (cases "messages_m (chans_m st k)")
  case Nil
  then show ?thesis using that(1) unfolding Read_Nil [OF Nil] by blast
next
  case (Cons m rest)
  let ?pop = "st\<lparr>chans_m := (chans_m st)(k := read_pop rest (chans_m st k))\<rparr>"
  have "(\<exists>st1 n1 n2. ChannelDispatcher_Read k ow ms mh disc st = (st1, n1, n2, None, st)) \<or>
      (\<exists>st1 n1 n2. ChannelDispatcher_Read k ow ms mh disc st = (st1, n1, n2, Some m, ?pop))"
    unfolding Read_Cons [OF Cons] by (simp split: if_split)
  with that Cons show ?thesis by metis
qed

lemma chan_conserve_read:
  "chan_read b (CRead k ow ms mh disc) st @ messages_m (chans_m (chan_step (CRead k ow ms mh disc) st) b) =
   messages_m (chans_m st b) @ chan_queued b (CRead k ow ms mh disc) st"
proof (cases rule: Read_result [of k ow ms mh disc st])
  case (1 st1 n1 n2)
  then show ?thesis by (cases "k = b") (simp_all add: chan_queued_def)
next
  case (2 st1 n1 n2 m rest)
  then show ?thesis by (cases "k = b") (simp_all add: chan_queued_def read_pop_def)
qed

lemma chan_conserve:
  assumes "chan_inv st"
  shows "chan_read b op st @ messages_m (chans_m (chan_step op st) b) = messages_m (chans_m st b) @ chan_queued b op st"
proof (cases op)
  case (CWrite k ow m)
  then show ?thesis
    by (simp add: chan_queued_def ChannelDispatcher_Write_def messages_WriteSelf split: option.split)
next
  case (CRead k ow ms mh disc)
  then show ?thesis using chan_conserve_read [of b k ow ms mh disc st] by (simp only: CRead)
next
  case (CCall t k ow m)
  then show ?thesis using chan_conserve_call [OF assms, of t k ow m b] by simp
next
  case (CResume t ew)
  then show ?thesis by (cases "channel_m (mwaiters_m st t)") (simp_all add: chan_queued_def Resume_eq)
next
  case (CExit t)
  then show ?thesis
    by (simp add: chan_queued_def MessageWaiter_destroy_def RemoveWaiter_def Let_def split: option.split)
qed (simp_all add: chan_queued_def messages_close ChannelDispatcher_set_owner_def peered_user_signal_self_def
    user_signal_peer_def Let_def split: option.split)

interpretation chan_q: ordered_queue chan_inv "\<lambda>st. messages_m (chans_m st b)" chan_step "chan_queued b" "chan_read b"
  for b :: zx_koid
  by unfold_locales (use chan_inv_step chan_conserve in blast)+

subsection \<open>A call and its reply\<close>

text \<open>Everything written to endpoint \<open>k\<close> during a run, and the operations of thread \<open>t\<close> itself.\<close>

definition written_log :: "zx_koid \<Rightarrow> chan_op list \<Rightarrow> chan_state \<Rightarrow> MessagePacket list" where
  "written_log k ops st =
     queue_log chan_step (\<lambda>op st. case chan_written k op st of None \<Rightarrow> [] | Some m \<Rightarrow> [m]) ops st"

fun own_op :: "nat \<Rightarrow> chan_op \<Rightarrow> bool" where
  "own_op t (CCall t' k ow m) \<longleftrightarrow> t' = t"
| "own_op t (CResume t' ew) \<longleftrightarrow> t' = t"
| "own_op t (CExit t') \<longleftrightarrow> t' = t"
| "own_op t _ \<longleftrightarrow> False"

definition is_reply :: "32 word \<Rightarrow> MessagePacket \<Rightarrow> bool" where
  "is_reply x m \<longleftrightarrow> MessagePacket_get_txid m = x"

text \<open>Where the call of thread \<open>t\<close> on endpoint \<open>k\<close> with id \<open>x\<close> stands; \<open>answer\<close> is the first reply
  written to \<open>k\<close> so far.\<close>

definition call_pending :: "nat \<Rightarrow> zx_koid \<Rightarrow> chan_state \<Rightarrow> bool" where
  "call_pending t k st \<longleftrightarrow> t \<in> set (waiters_m (chans_m st k))"

definition call_track :: "nat \<Rightarrow> zx_koid \<Rightarrow> 32 word \<Rightarrow> MessagePacket option \<Rightarrow> chan_state \<Rightarrow> bool" where
  "call_track t k x answer st \<longleftrightarrow>
     channel_m (mwaiters_m st t) = Some k \<and> waiter_txid_m (mwaiters_m st t) = x \<and>
     (if call_pending t k st then answer = None
      else waiter_msg_m (mwaiters_m st t) = answer \<and>
           (case answer of
              Some r \<Rightarrow> waiter_status_m (mwaiters_m st t) = ZX_OK
            | None \<Rightarrow> peer_m (chans_m st k) = None \<and>
                waiter_status_m (mwaiters_m st t) \<in> {ZX_ERR_CANCELED, ZX_ERR_PEER_CLOSED}))"

lemma call_track_frame:
  assumes "call_track t k x answer st" "mwaiters_m st' t = mwaiters_m st t"
    "call_pending t k st' \<longleftrightarrow> call_pending t k st" "peer_m (chans_m st k) = None \<Longrightarrow> peer_m (chans_m st' k) = None"
  shows "call_track t k x answer st'"
  using assms by (auto simp: call_track_def split: option.splits if_splits)

definition first_answer :: "32 word \<Rightarrow> MessagePacket option \<Rightarrow> MessagePacket option \<Rightarrow> MessagePacket option" where
  "first_answer x answer written =
     (case answer of Some r \<Rightarrow> Some r
      | None \<Rightarrow> (case written of Some m \<Rightarrow> if is_reply x m then Some m else None | None \<Rightarrow> None))"

lemma first_answer_simps [simp]:
  "first_answer x (Some r) w = Some r" "first_answer x answer None = answer"
  "\<not> is_reply x m \<Longrightarrow> first_answer x answer (Some m) = answer"
  by (simp_all add: first_answer_def split: option.split)

lemma matching_waiter_unique:
  assumes "chan_inv st" "t \<in> set (waiters_m (chans_m st k))" "waiter_txid_m (mwaiters_m st t) = x"
  shows "matching_waiter st k m = Some t \<longleftrightarrow> is_reply x m"
proof
  assume "matching_waiter st k m = Some t"
  then show "is_reply x m" using matching_waiter_Some [of st k m t] assms(3) by (simp add: is_reply_def)
next
  assume r: "is_reply x m"
  let ?P = "\<lambda>w. waiter_txid_m (mwaiters_m st w) = MessagePacket_get_txid m"
  have "matching_waiter st k m \<noteq> None"
    using assms(2,3) r by (auto simp: matching_waiter_def find_None_iff is_reply_def Let_def)
  then obtain u where u: "matching_waiter st k m = Some u" by auto
  note mu = matching_waiter_Some [OF u]
  have "inj_on (\<lambda>t. waiter_txid_m (mwaiters_m st t)) (set (waiters_m (chans_m st k)))"
    using chan_waiters(2) [OF assms(1), of k] by (simp add: distinct_map)
  with mu assms(2,3) r have "u = t" by (auto simp: inj_on_def is_reply_def)
  with u show "matching_waiter st k m = Some t" by simp
qed

lemma call_track_WriteSelf:
  assumes inv: "chan_inv st" and tr: "call_track t k x answer st"
    and live: "p = k \<Longrightarrow> peer_m (chans_m st k) \<noteq> None"
  shows "call_track t k x (first_answer x answer (if p = k then Some m else None)) (Channel_WriteSelf p m st)"
proof -
  have w: "channel_m (mwaiters_m st t) = Some k" "waiter_txid_m (mwaiters_m st t) = x"
    using tr by (simp_all add: call_track_def)
  have other: "u \<noteq> t" if "matching_waiter st p m = Some u" "p \<noteq> k \<or> \<not> call_pending t k st \<or> \<not> is_reply x m" for u
  proof
    assume "u = t"
    with that(1) have "matching_waiter st p m = Some t" by simp
    note mt = matching_waiter_Some [OF this]
    with chan_waiters(5) [OF inv, of t p] w have "p = k" by simp
    with that mt \<open>u = t\<close> w show False by (auto simp: call_pending_def is_reply_def)
  qed
  have keep: "call_track t k x answer (Channel_WriteSelf p m st)"
    if "p \<noteq> k \<or> \<not> call_pending t k st \<or> \<not> is_reply x m"
  proof (rule call_track_frame [OF tr])
    show "mwaiters_m (Channel_WriteSelf p m st) t = mwaiters_m st t"
      using other that by (auto simp: Channel_WriteSelf_def Let_def split: option.split)
    show "call_pending t k (Channel_WriteSelf p m st) \<longleftrightarrow> call_pending t k st"
      using other that by (auto simp: call_pending_def Channel_WriteSelf_def Let_def split: option.split)
    show "peer_m (chans_m st k) = None \<Longrightarrow> peer_m (chans_m (Channel_WriteSelf p m st) k) = None"
      by (auto simp: Channel_WriteSelf_def Let_def split: option.split)
  qed
  show ?thesis
  proof (cases "p = k \<and> is_reply x m")
    case False
    with keep show ?thesis by (cases "p = k") simp_all
  next
    case reply: True
    show ?thesis
    proof (cases "call_pending t k st")
      case False
      have "answer \<noteq> None" using tr False live reply by (cases answer) (auto simp: call_track_def)
      then show ?thesis using keep False by auto
    next
      case pending: True
      then have none: "answer = None" using tr by (simp add: call_track_def)
      have mw: "matching_waiter st k m = Some t"
        using matching_waiter_unique [OF inv _ w(2)] pending reply by (simp add: call_pending_def)
      have "t \<notin> set (remove1 t (waiters_m (chans_m st k)))"
        using chan_waiters(1) [OF inv, of k] by (simp add: set_remove1_eq)
      then show ?thesis
        using reply w none mw
        by (simp add: call_track_def call_pending_def first_answer_def Channel_WriteSelf_def Deliver_def Let_def)
    qed
  qed
qed

lemma cancel_waiters_member:
  "distinct xs \<Longrightarrow> t \<in> set xs \<Longrightarrow> cancel_waiters status xs ws t = MessageWaiter_Cancel status (ws t)"
  by (induction xs arbitrary: ws) (auto simp: cancel_waiters_other)

lemma call_track_cancelled:
  assumes inv: "chan_inv st" and tr: "call_track t k x answer st"
    and "peer_m (chans_m st' k) = None" "\<not> call_pending t k st'"
    and "mwaiters_m st' t = (if call_pending t k st then MessageWaiter_Cancel status (mwaiters_m st t) else mwaiters_m st t)"
    and "status \<in> {ZX_ERR_CANCELED, ZX_ERR_PEER_CLOSED}"
  shows "call_track t k x answer st'"
proof (cases "call_pending t k st")
  case True
  then have "waiting k (mwaiters_m st t)" using chan_waiters(3) [OF inv, of t k] by (simp add: call_pending_def)
  with True assms show ?thesis by (auto simp: call_track_def MessageWaiter_Cancel_def waiting_def)
next
  case False
  with assms show ?thesis by (auto simp: call_track_def split: option.splits)
qed

lemma on_zero_handles_waiters:
  "waiters_m (chans_m (ChannelDispatcher_on_zero_handles j st) i) =
     (if i = j \<or> peer_m (chans_m st j) = Some i then [] else waiters_m (chans_m st i))"
  by (simp add: on_zero_handles_eq Let_def split: option.split)

lemma on_zero_handles_mwaiters:
  assumes "chan_inv st"
  shows "mwaiters_m (ChannelDispatcher_on_zero_handles j st) t =
     (if t \<in> set (waiters_m (chans_m st j)) then MessageWaiter_Cancel ZX_ERR_CANCELED (mwaiters_m st t)
      else if \<exists>p. peer_m (chans_m st j) = Some p \<and> t \<in> set (waiters_m (chans_m st p))
      then MessageWaiter_Cancel ZX_ERR_PEER_CLOSED (mwaiters_m st t) else mwaiters_m st t)"
proof -
  have canc: "cancel_waiters c (waiters_m (chans_m st i)) ws t =
      (if t \<in> set (waiters_m (chans_m st i)) then MessageWaiter_Cancel c (ws t) else ws t)" for c i ws
    using chan_waiters(1) [OF assms, of i] by (simp add: cancel_waiters_member cancel_waiters_other)
  show ?thesis
  proof (cases "peer_m (chans_m st j)")
    case None
    then show ?thesis by (simp add: on_zero_handles_eq Let_def canc)
  next
    case (Some p)
    have p: "p \<noteq> j" using peers_invD(1) [OF chan_invD(1) [OF assms] Some] .
    have "t \<notin> set (waiters_m (chans_m st p))" if "t \<in> set (waiters_m (chans_m st j))"
      using chan_waiters(5) [OF assms, of t p] chan_waiters(5) [OF assms that] p by auto
    with p show ?thesis by (simp add: on_zero_handles_eq Let_def Some canc)
  qed
qed

lemma call_track_close:
  assumes inv: "chan_inv st" and tr: "call_track t k x answer st"
  shows "call_track t k x answer (ChannelDispatcher_on_zero_handles j st)"
proof -
  let ?st = "ChannelDispatcher_on_zero_handles j st"
  have only: "t \<in> set (waiters_m (chans_m st i)) \<longleftrightarrow> i = k \<and> call_pending t k st" for i
    using chan_waiters(5) [OF inv, of t i] tr by (auto simp: call_track_def call_pending_def)
  have peer: "peer_m (chans_m ?st k) = (if k = j \<or> peer_m (chans_m st j) = Some k then None else peer_m (chans_m st k))"
    unfolding channel_on_zero_handles_chans [of j st "\<lambda>_. MessageWaiter_new"] by (rule channel_hooks.on_zero_handles_peer)
  have pend: "call_pending t k ?st \<longleftrightarrow> call_pending t k st \<and> \<not> (k = j \<or> peer_m (chans_m st j) = Some k)"
    by (simp add: call_pending_def on_zero_handles_waiters)
  note mw = on_zero_handles_mwaiters [OF inv, of j t, unfolded only]
  show ?thesis
  proof (cases "k = j \<or> peer_m (chans_m st j) = Some k")
    case True
    show ?thesis
      by (rule call_track_cancelled [OF inv tr, where status = "if k = j then ZX_ERR_CANCELED else ZX_ERR_PEER_CLOSED"])
        (use True in \<open>auto simp: peer pend mw\<close>)
  next
    case False
    show ?thesis by (rule call_track_frame [OF tr]) (use False in \<open>auto simp: peer pend mw\<close>)
  qed
qed

lemma call_track_Call:
  assumes inv: "chan_inv st" and tr: "call_track t k x answer st" and "u \<noteq> t"
  shows "call_track t k x (first_answer x answer (chan_written k (CCall u j ow m) st)) (chan_step (CCall u j ow m) st)"
proof (cases "Call_begin u j ow m st")
  case None
  then show ?thesis using tr by simp
next
  case (Some rs)
  obtain r st' where rs: "rs = (r, st')" by (rule prod.exhaust)
  have step: "chan_step (CCall u j ow m) st = st'" using Some by (simp add: rs)
  from Some [unfolded rs] inv show ?thesis
  proof (cases rule: Call_begin_cases)
    case (sent p counter txid w d st1)
    have st1: "chan_inv st1" by (rule Call_sent_registered [OF inv sent(1,2,5-8)])
    have tr1: "call_track t k x answer st1"
      by (rule call_track_frame [OF tr]) (use assms(3) in \<open>auto simp: sent(7,8) call_pending_def\<close>)
    have "waiter_txid_m (mwaiters_m st' u) = txid"
      unfolding sent(9) waiter_of_WriteSelf by (simp add: sent(6,8))
    then have wr: "chan_written k (CCall u j ow m) st = (if p = k then Some (MessagePacket_set_txid txid m) else None)"
      using Some sent(2,4) by (simp add: rs)
    have "peer_m (chans_m st1 p) = peer_m (chans_m st p)" by (simp add: sent(7,8))
    then have "peer_m (chans_m st1 p) = Some j" using peers_invD(2) [OF chan_invD(1) [OF inv] sent(2)] by simp
    then show ?thesis
      unfolding step wr sent(9) by (intro call_track_WriteSelf [OF st1 tr1]) auto
  qed (use Some tr step assms(3) in \<open>auto simp: rs intro!: call_track_frame [OF tr] simp: call_pending_def\<close>)
qed

lemma call_track_step:
  assumes inv: "chan_inv st" and tr: "call_track t k x answer st" and "\<not> own_op t op"
  shows "call_track t k x (first_answer x answer (chan_written k op st)) (chan_step op st)"
proof (cases op)
  case (CWrite j ow m)
  show ?thesis
  proof (cases "ow = chan_owner_m (chans_m st j)")
    case True
    show ?thesis
    proof (cases "peer_m (chans_m st j)")
      case None
      with True tr show ?thesis by (simp add: CWrite ChannelDispatcher_Write_def)
    next
      case (Some p)
      have "peer_m (chans_m st p) = Some j" using peers_invD(2) [OF chan_invD(1) [OF inv] Some] .
      then have "call_track t k x (first_answer x answer (if p = k then Some m else None)) (Channel_WriteSelf p m st)"
        by (intro call_track_WriteSelf [OF inv tr]) auto
      with True Some show ?thesis by (simp add: CWrite ChannelDispatcher_Write_def)
    qed
  qed (use tr in \<open>simp add: CWrite ChannelDispatcher_Write_def\<close>)
next
  case (CRead j ow ms mh disc)
  show ?thesis
  proof (cases "messages_m (chans_m st j)")
    case Nil
    with tr show ?thesis by (simp add: CRead Read_Nil)
  next
    case (Cons a as)
    show ?thesis
      unfolding CRead using Cons
      by simp (rule call_track_frame [OF tr], auto simp: Read_Cons read_pop_def call_pending_def)
  qed
next
  case (CCall u j ow m)
  then show ?thesis using call_track_Call [OF inv tr, of u j ow m] assms(3) by simp
next
  case (CResume u ew)
  with assms(3) have "u \<noteq> t" by simp
  then show ?thesis
    by (cases "channel_m (mwaiters_m st u)")
      (auto simp: CResume tr Resume_eq call_pending_def intro!: call_track_frame [OF tr] split: if_splits)
next
  case (CClose j)
  then show ?thesis using call_track_close [OF inv tr, of j] by simp
next
  case (CExit u)
  with assms(3) have "u \<noteq> t" by simp
  then show ?thesis
    by (auto simp: CExit MessageWaiter_destroy_def RemoveWaiter_def Let_def call_pending_def tr
        intro!: call_track_frame [OF tr] split: option.split if_splits)
qed (auto simp: ChannelDispatcher_set_owner_def peered_user_signal_self_def user_signal_peer_def Let_def
    call_pending_def tr intro!: call_track_frame [OF tr] split: option.split if_splits)

lemma call_track_run:
  "chan_inv st \<Longrightarrow> call_track t k x answer st \<Longrightarrow> list_all (\<lambda>op. \<not> own_op t op) ops \<Longrightarrow>
   call_track t k x (case answer of Some r \<Rightarrow> Some r | None \<Rightarrow> List.find (is_reply x) (written_log k ops st))
     (queue_run chan_step ops st)"
proof (induction ops arbitrary: st answer)
  case Nil
  then show ?case by (cases answer) (simp_all add: written_log_def)
next
  case (Cons op ops)
  have "call_track t k x (first_answer x answer (chan_written k op st)) (chan_step op st)"
    using call_track_step [OF Cons.prems(1,2)] Cons.prems(3) by simp
  from Cons.IH [OF chan_inv_step [OF Cons.prems(1)] this] Cons.prems(3) show ?case
    by (auto simp: written_log_def first_answer_def split: option.splits if_splits)
qed

lemma Call_sent_tracked:
  assumes inv: "chan_inv st" and "Call_begin t k ow m st = Some (None, st1)"
  shows "call_track t k (waiter_txid_m (mwaiters_m st1 t)) None st1"
  using assms(2,1)
proof (cases rule: Call_begin_cases)
  case (sent p counter txid w d st0)
  have p: "p \<noteq> k" using peers_invD(1) [OF chan_invD(1) [OF inv] sent(2)] .
  have "call_track t k txid None st0"
    by (simp add: call_track_def call_pending_def sent(6-8))
  from call_track_WriteSelf [OF Call_sent_registered [OF inv sent(1,2,5-8)] this, of p] p
  show ?thesis unfolding sent(9) waiter_of_WriteSelf by (simp add: sent(6-8))
qed simp_all

lemma chan_inv_Create:
  assumes "chan_inv st" "ChannelDispatcher_Create h a0 a1 g (chans_m st) = (ZX_OK, Some (a, b, r), g', s')"
    and "peer_m (chans_m st g) = None" "peer_m (chans_m st (g + 1)) = None"
  shows "a = g" "b = g + 1" "chan_inv (st\<lparr>chans_m := s'\<rparr>)" "messages_m (s' a) = []" "messages_m (s' b) = []"
    "peer_m (s' a) = Some b" "peer_m (s' b) = Some a"
proof -
  have c: "a = g" "b = g + 1" "s' = (chans_m st)(g := ChannelDispatcher_Init (g + 1) (ChannelDispatcher_new g),
      g + 1 := ChannelDispatcher_Init g (ChannelDispatcher_new (g + 1)))"
    using assms(2) by (auto simp: ChannelDispatcher_Create_def GenerateKernelObjectId_def split: if_splits)
  then show "a = g" "b = g + 1" "messages_m (s' a) = []" "messages_m (s' b) = []"
    "peer_m (s' a) = Some b" "peer_m (s' b) = Some a"
    by (simp_all add: ChannelDispatcher_Init_def ChannelDispatcher_new_def)
  have peers: "peers_inv s'" unfolding c(3)
    by (rule peers_inv_Init [OF chan_invD(1) [OF assms(1)] _ assms(3,4)]) (simp_all add: ChannelDispatcher_Init_def)
  have new: "chan_ok (ChannelDispatcher_Init i (ChannelDispatcher_new j))" for i j
    by (simp add: chan_ok_def ChannelDispatcher_Init_def ChannelDispatcher_new_def bit_signal_masks)
  have old: "waiters_m (chans_m st g) = []" "waiters_m (chans_m st (g + 1)) = []"
    using chan_invD(2) [OF assms(1)] assms(3,4) by (simp_all add: chan_ok_def)
  have "(\<lambda>k. waiters_m (s' k)) = (\<lambda>k. waiters_m (chans_m st k))"
    using old by (auto simp: c(3) ChannelDispatcher_Init_def ChannelDispatcher_new_def fun_eq_iff)
  with peers new chan_invD [OF assms(1)] show "chan_inv (st\<lparr>chans_m := s'\<rparr>)"
    by (auto simp: chan_inv_def c(3))
qed

text \<open>No channel has been created and no thread is in a call.\<close>

definition no_channels :: chan_state where
  "no_channels = \<lparr>chans_m = (\<lambda>k. (ChannelDispatcher_new k)\<lparr>signals_m := ZX_OBJECT_PEER_CLOSED\<rparr>),
     mwaiters_m = (\<lambda>t. MessageWaiter_new), kills_m = [], policy_exceptions_m = 0\<rparr>"

lemma chan_inv_no_channels: "chan_inv no_channels"
  by (simp add: chan_inv_def no_channels_def peers_inv_def chan_ok_def ChannelDispatcher_new_def waiters_inv_def
      reply_ok_def MessageWaiter_new_def bit_signal_masks)

definition one_channel :: chan_state where
  "one_channel = no_channels\<lparr>chans_m := snd (snd (snd (ChannelDispatcher_Create True True True 1024 (chans_m no_channels))))\<rparr>"

lemma Create_no_channels:
  "ChannelDispatcher_Create True True True 1024 (chans_m no_channels) =
   (ZX_OK, Some (1024, 1025, ZX_DEFAULT_CHANNEL_RIGHTS), 1026, chans_m one_channel)"
  by (simp add: one_channel_def ChannelDispatcher_Create_def GenerateKernelObjectId_def Let_def)

lemma chan_inv_one_channel: "chan_inv one_channel"
  using chan_inv_Create(3) [OF chan_inv_no_channels Create_no_channels]
  by (simp add: no_channels_def ChannelDispatcher_new_def one_channel_def)

lemma one_channel_simps [simp]:
  "chans_m one_channel 1024 = ChannelDispatcher_Init 1025 (ChannelDispatcher_new 1024)"
  "chans_m one_channel 1025 = ChannelDispatcher_Init 1024 (ChannelDispatcher_new 1025)"
  "mwaiters_m one_channel t = MessageWaiter_new" "kills_m one_channel = []"
  by (simp_all add: one_channel_def no_channels_def ChannelDispatcher_Create_def GenerateKernelObjectId_def Let_def)

subsection \<open>Properties\<close>

text \<open>C6: Channels deliver in order and lose nothing. After \<open>ChannelDispatcher::Create\<close> and any
  sequence of reads, writes, calls, closes, signals and changes of owner on any channels by any
  threads, the messages read from an endpoint, followed by those still in its queue, are exactly
  the messages that were written to it and did not answer a call, unchanged and in the order
  written. Every state in between satisfies the invariant: \<open>ZX_CHANNEL_READABLE\<close> shows
  whether messages are queued, an endpoint with a peer is writable, the ids of the waiting calls
  differ, and a closed endpoint has no waiters.\<close>
theorem channel_delivers_in_order:
  assumes "chan_inv st" "peer_m (chans_m st g) = None" "peer_m (chans_m st (g + 1)) = None"
    and "ChannelDispatcher_Create h a0 a1 g (chans_m st) = (ZX_OK, Some (a, b, r), g', s')"
  shows "chan_inv (queue_run chan_step ops (st\<lparr>chans_m := s'\<rparr>)) \<and>
    queue_log chan_step (chan_read b) ops (st\<lparr>chans_m := s'\<rparr>) @
      messages_m (chans_m (queue_run chan_step ops (st\<lparr>chans_m := s'\<rparr>)) b) =
    queue_log chan_step (chan_queued b) ops (st\<lparr>chans_m := s'\<rparr>)"
proof -
  note c = chan_inv_Create [OF assms(1,4,2,3)]
  from chan_q.inv_run [OF c(3), of ops] chan_q.conserve_run [OF c(3), of b ops] c(5) show ?thesis by simp
qed

text \<open>A packet of four bytes, the transaction id.\<close>

definition txid_packet :: "32 word \<Rightarrow> MessagePacket" where
  "txid_packet x = \<lparr>buffer_chain_m = \<lparr>buffers_m = [\<lparr>reserved_m = 0, raw_data_m = store32 x\<rparr>], pages_m = []\<rparr>,
     msg_handles_m = [], data_size_m = 4, payload_offset_m = 0, num_handles_m = 0, owns_handles_m = False\<rparr>"

lemma txid_packet_simps [simp]:
  "MessagePacket_get_txid (txid_packet x) = x" "MessagePacket_set_txid y (txid_packet x) = txid_packet y"
  "data_size_m (txid_packet x) = 4" "num_handles_m (txid_packet x) = 0"
  using load32_store32 [of x "[]"]
  by (simp_all add: txid_packet_def MessagePacket_get_txid_def MessagePacket_set_txid_def Buffer_data_def write_at_def)

theorem channel_delivers_in_order_witness:
  "let ops = [CWrite 1024 0 (txid_packet 1), CWrite 1024 0 (txid_packet 2), CRead 1025 0 4 0 False] in
   queue_log chan_step (chan_read 1025) ops one_channel @ messages_m (chans_m (queue_run chan_step ops one_channel) 1025) =
     queue_log chan_step (chan_queued 1025) ops one_channel \<and>
   queue_log chan_step (chan_read 1025) ops one_channel = [txid_packet 1]"
proof -
  let ?ops = "[CWrite 1024 0 (txid_packet 1), CWrite 1024 0 (txid_packet 2), CRead 1025 0 4 0 False]"
  have one: "no_channels\<lparr>chans_m := chans_m one_channel\<rparr> = one_channel" by (simp add: one_channel_def)
  have "peer_m (chans_m no_channels 1024) = None" "peer_m (chans_m no_channels (1024 + 1)) = None"
    by (simp_all add: no_channels_def ChannelDispatcher_new_def)
  note channel_delivers_in_order [OF chan_inv_no_channels this Create_no_channels, of ?ops, unfolded one]
  moreover have "queue_log chan_step (chan_read 1025) ?ops one_channel = [txid_packet 1]"
    by (simp add: ChannelDispatcher_Write_def Channel_WriteSelf_def matching_waiter_def ChannelDispatcher_Read_def
        ChannelDispatcher_Init_def ChannelDispatcher_new_def ZX_KOID_INVALID_def Let_def)
  ultimately show ?thesis by simp
qed

lemma bit_31_ge:
  assumes "bit (w :: 32 word) 31" shows "2 ^ 31 \<le> unat w"
proof (rule ccontr)
  assume "\<not> 2 ^ 31 \<le> unat w"
  then have "unat w div 2 ^ 31 = 0" by simp
  moreover have "bit (unat w) 31" using assms unfolding bit_unsigned_iff by simp
  ultimately show False by (simp add: bit_iff_odd)
qed

text \<open>C27: Choosing a transaction id for a call terminates and is safe. With fewer than \<open>2^31\<close>
  waiting calls the loop tries at most one id more than there are waiters. The id it finds is
  that of no other waiting call, and lies between \<open>0x80000000\<close> and \<open>0xFFFFFFFF\<close>, also when the
  counter wraps around.\<close>
theorem alloc_txid_terminates:
  assumes "length used < 2 ^ 31"
  shows "\<exists>n txid. n \<le> length used \<and> alloc_txid used counter = Some (counter + of_nat (Suc n), txid) \<and>
           txid \<notin> set used \<and> 2 ^ 31 \<le> unat txid"
  using alloc_txid_returns [OF assms, of counter] bit_31_ge bit_txid_of by blast

theorem alloc_txid_terminates_witness:
  "\<exists>n txid. n \<le> Suc (Suc 0) \<and> alloc_txid [0x80000000, 0x80000001] 0xFFFFFFFF = Some (0xFFFFFFFF + of_nat (Suc n), txid) \<and>
     txid \<notin> {0x80000000, 0x80000001} \<and> 2 ^ 31 \<le> unat txid"
  using alloc_txid_terminates [where used = "[0x80000000, 0x80000001]" and counter = "0xFFFFFFFF"] by simp

text \<open>C2: A call gets its reply. Whatever other threads do between the moment
  \<open>ChannelDispatcher::Call\<close> has sent its message and the moment its wait ends (unless by an
  interruption that will be retried), the call returns the first message with its transaction id
  that was written to its endpoint in that time, and \<open>ZX_OK\<close>; if there was none it returns no
  message and \<open>ZX_ERR_TIMED_OUT\<close>, \<open>ZX_ERR_CANCELED\<close> or \<open>ZX_ERR_PEER_CLOSED\<close>. Afterwards the thread
  is in no list of waiters and can call again.\<close>
theorem call_gets_its_reply:
  assumes "chan_inv st" "Call_begin t k ow m st = Some (None, st1)"
    and "list_all (\<lambda>op. \<not> own_op t op) ops" "ew \<noteq> ZX_ERR_INTERNAL_INTR_RETRY"
  shows "\<exists>status reply st2.
    ChannelDispatcher_Call t k ow m (queue_run chan_step ops) ew st = Some (status, reply, st2) \<and>
    reply = List.find (is_reply (waiter_txid_m (mwaiters_m st1 t))) (written_log k ops st1) \<and>
    (status = ZX_OK \<longleftrightarrow> reply \<noteq> None) \<and>
    status \<in> {ZX_OK, ZX_ERR_TIMED_OUT, ZX_ERR_CANCELED, ZX_ERR_PEER_CLOSED} \<and>
    chan_inv st2 \<and> channel_m (mwaiters_m st2 t) = None \<and> (\<forall>j. t \<notin> set (waiters_m (chans_m st2 j)))"
proof -
  let ?x = "waiter_txid_m (mwaiters_m st1 t)"
  define st' where "st' = queue_run chan_step ops st1"
  define ans where "ans = List.find (is_reply ?x) (written_log k ops st1)"
  have inv1: "chan_inv st1" by (rule chan_inv_Call [OF assms(1,2)])
  have inv: "chan_inv st'" unfolding st'_def by (rule chan_q.inv_run [OF inv1])
  have tr: "call_track t k ?x ans st'"
    using call_track_run [OF inv1 Call_sent_tracked [OF assms(1,2)] assms(3)] by (simp add: ans_def st'_def)
  then have ch: "channel_m (mwaiters_m st' t) = Some k" by (simp add: call_track_def)
  obtain status reply st2 where r: "ResumeInterruptedCall t k ew st' = (status, reply, st2)" by (rule prod_cases3)
  have inv2: "chan_inv st2" using chan_inv_Resume [OF inv ch, of ew] r by simp
  have idle: "channel_m (mwaiters_m st2 t) = None"
    using r assms(4) unfolding Resume_eq [OF ch] by auto
  have sr: "status = waiter_status_m (mwaiters_m st' t)" "reply = waiter_msg_m (mwaiters_m st' t)"
    using r assms(4) unfolding Resume_eq [OF ch] by auto
  have "reply = ans \<and> (status = ZX_OK \<longleftrightarrow> ans \<noteq> None) \<and> status \<in> {ZX_OK, ZX_ERR_TIMED_OUT, ZX_ERR_CANCELED, ZX_ERR_PEER_CLOSED}"
  proof (cases "call_pending t k st'")
    case True
    with chan_waiters(3) [OF inv, of t k] have "waiting k (mwaiters_m st' t)" by (simp add: call_pending_def)
    with True tr sr show ?thesis by (simp add: call_track_def waiting_def)
  next
    case False
    with tr sr show ?thesis by (cases ans) (auto simp: call_track_def)
  qed
  moreover have "t \<notin> set (waiters_m (chans_m st2 j))" for j
    using chan_waiters(5) [OF inv2, of t j] idle by auto
  moreover have "ChannelDispatcher_Call t k ow m (queue_run chan_step ops) ew st = Some (status, reply, st2)"
    using r by (simp add: ChannelDispatcher_Call_def assms(2) st'_def)
  ultimately show ?thesis using inv2 idle unfolding ans_def by blast
qed

lemma example_call:
  "Call_begin 7 1024 0 (txid_packet 5) one_channel =
     Some (None, Channel_WriteSelf 1025 (txid_packet 0x80000001)
       (one_channel\<lparr>chans_m := (chans_m one_channel)(1024 := (chans_m one_channel 1024)\<lparr>chan_txid_m := 1, waiters_m := [7]\<rparr>),
          mwaiters_m := (mwaiters_m one_channel)(7 := MessageWaiter_new\<lparr>waiter_status_m := ZX_ERR_TIMED_OUT,
            channel_m := Some 1024, waiter_txid_m := 0x80000001\<rparr>)\<rparr>))"
proof -
  have "alloc_txid [] 0 = Some (1, 0x80000001)" by (subst alloc_txid.simps) (simp add: Let_def)
  then show ?thesis
    by (simp add: Call_begin_def BeginWait_def MessageWaiter_new_def ChannelDispatcher_Init_def ChannelDispatcher_new_def
        ZX_KOID_INVALID_def Let_def)
qed

theorem call_gets_its_reply_witness:
  "\<exists>st2. ChannelDispatcher_Call 7 1024 0 (txid_packet 5)
     (queue_run chan_step [CWrite 1025 0 (txid_packet 6), CWrite 1025 0 (txid_packet 0x80000001)]) ZX_OK one_channel =
     Some (ZX_OK, Some (txid_packet 0x80000001), st2)"
proof -
  let ?ops = "[CWrite 1025 0 (txid_packet 6), CWrite 1025 0 (txid_packet 0x80000001)]"
  obtain st1 where st1: "Call_begin 7 1024 0 (txid_packet 5) one_channel = Some (None, st1)"
    "st1 = Channel_WriteSelf 1025 (txid_packet 0x80000001)
       (one_channel\<lparr>chans_m := (chans_m one_channel)(1024 := (chans_m one_channel 1024)\<lparr>chan_txid_m := 1, waiters_m := [7]\<rparr>),
          mwaiters_m := (mwaiters_m one_channel)(7 := MessageWaiter_new\<lparr>waiter_status_m := ZX_ERR_TIMED_OUT,
            channel_m := Some 1024, waiter_txid_m := 0x80000001\<rparr>)\<rparr>)"
    using example_call by simp
  have x: "waiter_txid_m (mwaiters_m st1 7) = 0x80000001"
    unfolding st1(2) waiter_of_WriteSelf by simp
  have w: "chan_owner_m (chans_m st1 1025) = 0" "peer_m (chans_m st1 1025) = Some 1024"
    by (simp_all add: st1(2) Channel_WriteSelf_def matching_waiter_def ChannelDispatcher_Init_def ChannelDispatcher_new_def
        ZX_KOID_INVALID_def Let_def)
  have w2: "chan_owner_m (chans_m (Channel_WriteSelf 1024 m st) 1025) = chan_owner_m (chans_m st 1025)"
    "peer_m (chans_m (Channel_WriteSelf 1024 m st) 1025) = peer_m (chans_m st 1025)" for m st
    by (simp_all add: Channel_WriteSelf_def Let_def split: option.split)
  have "List.find (is_reply 0x80000001) (written_log 1024 ?ops st1) = Some (txid_packet 0x80000001)"
    by (simp add: written_log_def w w2 is_reply_def ChannelDispatcher_Write_def)
  with call_gets_its_reply [OF chan_inv_one_channel st1(1), of ?ops ZX_OK] x show ?thesis by auto
qed

text \<open>C34: A failed call can cost the process its life. When \<open>ChannelDispatcher::Call\<close> finds that the
  endpoint has moved to another owner it returns \<open>ZX_ERR_BAD_HANDLE\<close> without ending the wait it
  began. The thread's waiter stays bound to the channel, and the thread's next call, on whatever
  channel, is taken for a violation of the retry contract: its process is killed.\<close>
theorem call_bad_owner_wedges_thread:
  assumes "channel_m (mwaiters_m st t) = None" "ow \<noteq> chan_owner_m (chans_m st k)"
  shows "\<exists>st1. Call_begin t k ow m st = Some (Some ZX_ERR_BAD_HANDLE, st1) \<and> kills_m st1 = kills_m st \<and>
    (\<forall>k' ow' m'. Call_begin t k' ow' m' st1 = Some (Some ZX_ERR_BAD_STATE, st1\<lparr>kills_m := kills_m st1 @ [t]\<rparr>))"
  using assms by (simp add: Call_begin_def BeginWait_def Let_def)

theorem call_bad_owner_wedges_thread_witness:
  "\<exists>st1. Call_begin 7 1024 99 (txid_packet 5) one_channel = Some (Some ZX_ERR_BAD_HANDLE, st1) \<and>
     Call_begin 7 1025 0 (txid_packet 5) st1 = Some (Some ZX_ERR_BAD_STATE, st1\<lparr>kills_m := [7]\<rparr>)"
  using call_bad_owner_wedges_thread [of one_channel 7 99 1024 "txid_packet 5"]
  by (auto simp: MessageWaiter_new_def ChannelDispatcher_Init_def ChannelDispatcher_new_def ZX_KOID_INVALID_def)

lemma alloc_txid_Nil: "alloc_txid [] c = Some (c + 1, txid_of (c + 1))"
  by (subst alloc_txid.simps) (simp add: Let_def txid_of_def)

text \<open>C35: When calls cross, the second request is taken for the reply to the first. If no call is
  pending on either endpoint of a channel and their transaction counters are equal, a thread \<open>t\<close> that
  calls on one and a thread \<open>u\<close> that calls on the other before \<open>t\<close> is answered get the same
  transaction id, and the request of \<open>u\<close>, of at least four bytes, is delivered to \<open>t\<close> as its reply:
  it never reaches the queue of the endpoint it was sent to.\<close>
theorem crossing_call_taken_for_reply:
  assumes inv: "chan_inv st" and "peer_m (chans_m st a) = Some b"
    and "waiters_m (chans_m st a) = []" "waiters_m (chans_m st b) = []"
    and "chan_txid_m (chans_m st a) = chan_txid_m (chans_m st b)"
    and "t \<noteq> u" "channel_m (mwaiters_m st t) = None" "channel_m (mwaiters_m st u) = None"
    and "Call_begin t a oa m st = Some (None, st1)" "Call_begin u b ob m' st1 = Some (None, st2)"
    and "msg_ok m'" "4 \<le> unat (data_size_m m')" "ew \<noteq> ZX_ERR_INTERNAL_INTR_RETRY"
  shows "\<exists>x. waiter_txid_m (mwaiters_m st1 t) = x \<and> waiter_txid_m (mwaiters_m st2 u) = x \<and>
    fst (ResumeInterruptedCall t a ew st2) = ZX_OK \<and>
    fst (snd (ResumeInterruptedCall t a ew st2)) = Some (MessagePacket_set_txid x m') \<and>
    messages_m (chans_m st2 a) = messages_m (chans_m st a)"
proof -
  have ab: "b \<noteq> a" "peer_m (chans_m st b) = Some a"
    using peers_invD [OF chan_invD(1) [OF inv] assms(2)] by simp_all
  let ?x = "txid_of (chan_txid_m (chans_m st a) + 1)"
  have inv1: "chan_inv st1" by (rule chan_inv_Call [OF inv assms(9)])
  have tr: "call_track t a (waiter_txid_m (mwaiters_m st1 t)) None st1" by (rule Call_sent_tracked [OF inv assms(9)])
  from assms(9) inv have "waiter_txid_m (mwaiters_m st1 t) = ?x \<and> waiters_m (chans_m st1 b) = [] \<and>
    chan_txid_m (chans_m st1 b) = chan_txid_m (chans_m st a) \<and> peer_m (chans_m st1 b) = Some a \<and>
    messages_m (chans_m st1 a) = messages_m (chans_m st a) \<and> waiters_m (chans_m st1 a) = [t]"
  proof (cases rule: Call_begin_cases)
    case (sent p counter txid w d st0)
    have p: "p = b" using sent(2) assms(2) by simp
    have "matching_waiter st0 b m = None" for m
      using ab assms(4) by (simp add: matching_waiter_def sent(7,8))
    moreover have "counter = chan_txid_m (chans_m st a) + 1" "txid = ?x"
      using sent(5) assms(3) by (auto simp: alloc_txid_Nil)
    ultimately show ?thesis
      using ab assms(3-5) by (simp add: sent(9) p Channel_WriteSelf_def Let_def sent(6-8))
  qed simp_all
  then have st1: "waiter_txid_m (mwaiters_m st1 t) = ?x" "waiters_m (chans_m st1 b) = []"
    "chan_txid_m (chans_m st1 b) = chan_txid_m (chans_m st a)" "peer_m (chans_m st1 b) = Some a"
    "messages_m (chans_m st1 a) = messages_m (chans_m st a)" "waiters_m (chans_m st1 a) = [t]" by simp_all
  have u: "waiter_txid_m (mwaiters_m st2 u) = ?x"
    using assms(10) inv1
  proof (cases rule: Call_begin_cases)
    case (sent p counter txid w d st0)
    have "txid = ?x" using sent(5) st1(2,3) by (auto simp: alloc_txid_Nil)
    then show ?thesis unfolding sent(9) waiter_of_WriteSelf by (simp add: sent(6,8))
  qed simp_all
  from u have wr: "chan_written a (CCall u b ob m') st1 = Some (MessagePacket_set_txid ?x m')"
    using assms(10) st1(4) by simp
  have rep: "is_reply ?x (MessagePacket_set_txid ?x m')"
    using get_set_txid [OF assms(11,12)] by (simp add: is_reply_def)
  have step: "chan_step (CCall u b ob m') st1 = st2" using assms(10) by simp
  have "call_track t a ?x (Some (MessagePacket_set_txid ?x m')) st2"
    using call_track_step [OF inv1 tr, of "CCall u b ob m'"] assms(6) rep
    by (simp only: step wr st1(1)) (simp add: first_answer_def)
  then have "channel_m (mwaiters_m st2 t) = Some a" "waiter_status_m (mwaiters_m st2 t) = ZX_OK"
    "waiter_msg_m (mwaiters_m st2 t) = Some (MessagePacket_set_txid ?x m')"
    by (auto simp: call_track_def split: if_splits)
  moreover have "messages_m (chans_m st2 a) = messages_m (chans_m st a)"
  proof -
    have "matching_waiter st1 a (MessagePacket_set_txid ?x m') = Some t"
      using matching_waiter_unique [OF inv1 _ st1(1), of a] st1(6) rep by simp
    then show ?thesis
      using chan_conserve_call [OF inv1, of u b ob m' a] wr st1(5) by (simp only: step) (simp add: chan_queued_def)
  qed
  ultimately show ?thesis using assms(13) st1(1) u by (intro exI [of _ ?x]) (simp add: Resume_eq)
qed

theorem crossing_call_taken_for_reply_witness:
  "\<exists>m st1 st2 x. Call_begin 7 1024 0 m one_channel = Some (None, st1) \<and> Call_begin 8 1025 0 m st1 = Some (None, st2) \<and>
     waiter_txid_m (mwaiters_m st1 7) = x \<and> waiter_txid_m (mwaiters_m st2 8) = x \<and>
     fst (ResumeInterruptedCall 7 1024 ZX_OK st2) = ZX_OK \<and>
     fst (snd (ResumeInterruptedCall 7 1024 ZX_OK st2)) = Some (MessagePacket_set_txid x m)"
proof -
  obtain st r where c: "MessagePacket_Create zero_pages (user_bytes [0, 0, 0, 0]) 4 0 = (st, r)" by (rule prod.exhaust)
  have "BufferChain_Alloc zero_pages (unat (PayloadOffset 0 + 4)) \<noteq> None"
    by (simp add: BufferChain_Alloc_def zero_pages_def Let_def)
  with MessagePacket_Create_cases [OF pmm_ok_zero_pages c] obtain m where m: "msg_ok m" "data_size_m m = 4"
    by (cases r) (auto simp: kMaxMessageSize_def kMaxMessageHandles_def)
  note defs = Call_begin_def BeginWait_def MessageWaiter_new_def ChannelDispatcher_Init_def ChannelDispatcher_new_def
    ZX_KOID_INVALID_def Let_def alloc_txid_Nil
  obtain st1 where st1: "Call_begin 7 1024 0 m one_channel = Some (None, st1)"
    "chan_owner_m (chans_m st1 1025) = 0" "peer_m (chans_m st1 1025) = Some 1024"
    "waiters_m (chans_m st1 1025) = []" "channel_m (mwaiters_m st1 8) = None"
    by (simp add: defs Channel_WriteSelf_def matching_waiter_def)
  obtain st2 where st2: "Call_begin 8 1025 0 m st1 = Some (None, st2)"
    using st1(2-5) by (simp add: Call_begin_def BeginWait_def Let_def alloc_txid_Nil)
  have "\<exists>x. waiter_txid_m (mwaiters_m st1 7) = x \<and> waiter_txid_m (mwaiters_m st2 8) = x \<and>
      fst (ResumeInterruptedCall 7 1024 ZX_OK st2) = ZX_OK \<and>
      fst (snd (ResumeInterruptedCall 7 1024 ZX_OK st2)) = Some (MessagePacket_set_txid x m) \<and>
      messages_m (chans_m st2 1024) = messages_m (chans_m one_channel 1024)"
    by (rule crossing_call_taken_for_reply [OF chan_inv_one_channel _ _ _ _ _ _ _ st1(1) st2, where ew = ZX_OK])
      (simp_all add: m ChannelDispatcher_Init_def ChannelDispatcher_new_def MessageWaiter_new_def)
  with st1(1) st2 show ?thesis by blast
qed

end
