(* ===== verification/Channel_Syscalls.thy ===== *)
theory Channel_Syscalls
  imports Channel
begin

section \<open>Channel system calls: handles in tables and in messages\<close>

text \<open>
  Model of \<open>zircon/kernel/lib/syscalls/channel.cc\<close>, where handle tables, message packets and
  channels meet.

  \<^item> The state joins the handle tables of all processes, the handle state they share and the
    channels. A system call runs for the process \<open>p\<close>, whose koid is also the key of its table.
  \<^item> \<open>Handle::set_process_id\<close> tells the object its new owner, and a channel keeps it:
    \<open>add_handle\<close> passes it on to the channel store.
  \<^item> The templates over the two kinds of handle arrays (\<open>user_handles\<close>) and of output records
    (\<open>map_handle\<close>) are functions of them. A null output pointer is \<open>None\<close>, another one says
    whether the copy succeeds.
  \<^item> \<open>AutoCall\<close> objects and smart pointers act at the end of their scope, in reverse order of
    declaration: the packet goes first, then the handles of the caller are closed.
  \<^item> \<open>recv_sizes_m\<close> lists the counters \<open>record_recv_msg_sz\<close> has bumped.
\<close>

record ipc_state =
  tabs_m :: "zx_koid \<Rightarrow> HandleTable"
  hs_m :: hstate
  chs_m :: chan_state
  recv_sizes_m :: "nat option list"

definition ts_of :: "zx_koid \<Rightarrow> ipc_state \<Rightarrow> HandleTable \<times> hstate" where
  "ts_of p ipc = (tabs_m ipc p, hs_m ipc)"

definition put_ts :: "zx_koid \<Rightarrow> HandleTable \<times> hstate \<Rightarrow> ipc_state \<Rightarrow> ipc_state" where
  "put_ts p ts ipc = ipc\<lparr>tabs_m := (tabs_m ipc)(p := fst ts), hs_m := snd ts\<rparr>"

definition ZX_CHANNEL_READ_MAY_DISCARD :: "32 word" where [zx_consts]: "ZX_CHANNEL_READ_MAY_DISCARD = 1"

record zx_handle_info =
  hi_handle :: zx_handle
  hi_type :: zx_obj_type
  hi_rights :: zx_rights
  hi_unused :: "32 word"

text \<open>The counter a message of this size is counted in, by the upper end of its range.\<close>

definition record_recv_msg_sz :: "32 word \<Rightarrow> ipc_state \<Rightarrow> ipc_state" where
  "record_recv_msg_sz sz ipc =
     ipc\<lparr>recv_sizes_m := recv_sizes_m ipc @ [
       if sz = 0 then Some 0
       else if sz \<le> 64 then Some 64
       else if sz \<le> 256 then Some 256
       else if sz \<le> 1024 then Some 1024
       else if sz \<le> 4096 then Some 4096
       else if sz \<le> 16384 then Some 16384
       else if sz \<le> 65536 then Some 65536
       else None]\<rparr>"

subsection \<open>Reading\<close>

definition MapHandleToInfo :: "nat \<Rightarrow> HandleTable \<Rightarrow> hstate \<Rightarrow> zx_handle_info" where
  "MapHandleToInfo handle t s =
     \<lparr>hi_handle = MapHandleToValue handle t s,
      hi_type = type_m (dispatchers_m s (the (dispatcher_m (slots_m s handle)))),
      hi_rights = rights_m (slots_m s handle), hi_unused = 0\<rparr>"

text \<open>The end of a packet: handles it still owns are closed.\<close>

definition drop_packet :: "MessagePacket option \<Rightarrow> ipc_state \<Rightarrow> ipc_state" where
  "drop_packet msg ipc =
     (case msg of None \<Rightarrow> ipc | Some msg \<Rightarrow> ipc\<lparr>hs_m := MessagePacket_destroy msg (hs_m ipc)\<rparr>)"

text \<open>\<open>HandleTable::AddHandle\<close>, which tells the object its new owner.\<close>

definition add_handle :: "zx_koid \<Rightarrow> nat \<Rightarrow> ipc_state \<Rightarrow> ipc_state" where
  "add_handle p handle ipc =
     (let disp = the (dispatcher_m (slots_m (hs_m ipc) handle));
          d = dispatchers_m (hs_m ipc) disp;
          ipc = put_ts p (AddHandleLocked handle (ts_of p ipc)) ipc
      in if type_m d = ZX_OBJ_TYPE_CHANNEL then ipc\<lparr>chs_m := ChannelDispatcher_set_owner disp p (chs_m ipc)\<rparr> else ipc)"

text \<open>The body of the second loop of \<open>msg_get_handles\<close>: observers left over from the sender are
  cancelled, and the handle joins the table of the reader.\<close>

definition receive_handle :: "zx_koid \<Rightarrow> nat \<Rightarrow> ipc_state \<Rightarrow> ipc_state" where
  "receive_handle p handle ipc =
     (let s = hs_m ipc;
          disp = the (dispatcher_m (slots_m s handle));
          d = dispatchers_m s disp
      in add_handle p handle
           (if is_waitable d
            then ipc\<lparr>hs_m := s\<lparr>dispatchers_m := (dispatchers_m s)(disp := Dispatcher_Cancel handle d)\<rparr>\<rparr>
            else ipc))"

definition msg_get_handles ::
  "(nat \<Rightarrow> HandleTable \<Rightarrow> hstate \<Rightarrow> 'h) \<Rightarrow> zx_koid \<Rightarrow> MessagePacket \<Rightarrow> user_out \<Rightarrow> 32 word \<Rightarrow> ipc_state
     \<Rightarrow> zx_status \<times> 'h list \<times> MessagePacket \<times> ipc_state" where
  "msg_get_handles map_handle p msg handles num_handles ipc =
     (let handle_list = map the (take (unat num_handles) (msg_handles_m msg));
          msg = set_owns_handles False msg;
          hvs = map (\<lambda>handle. map_handle handle (tabs_m ipc p) (hs_m ipc)) handle_list;
          status = copy_array_to_user handles 0 (unat num_handles)
      in if status \<noteq> ZX_OK then (status, [], msg, ipc)
         else (ZX_OK, hvs, msg, fold (receive_handle p) handle_list ipc))"

text \<open>The results are the status, the two counts, the bytes and the handles copied to the caller.\<close>

definition channel_read ::
  "(nat \<Rightarrow> HandleTable \<Rightarrow> hstate \<Rightarrow> 'h) \<Rightarrow> zx_koid \<Rightarrow> zx_handle \<Rightarrow> 32 word \<Rightarrow> user_out \<Rightarrow> user_out \<Rightarrow> 32 word \<Rightarrow> 32 word
     \<Rightarrow> bool option \<Rightarrow> bool option \<Rightarrow> ipc_state \<Rightarrow> zx_status \<times> (32 word \<times> 32 word) \<times> byte list \<times> 'h list \<times> ipc_state" where
  "channel_read map_handle p handle_value options bytes handles num_bytes num_handles actual_bytes actual_handles ipc =
     (let (result, out, t) = GetDispatcherWithRightsImpl (Some ZX_OBJ_TYPE_CHANNEL) handle_value ZX_RIGHT_READ False (tabs_m ipc p) (hs_m ipc);
          ipc = put_ts p (t, hs_m ipc) ipc
      in if result \<noteq> ZX_OK then (result, (num_bytes, num_handles), [], [], ipc)
         else if options AND NOT ZX_CHANNEL_READ_MAY_DISCARD \<noteq> 0 then (ZX_ERR_NOT_SUPPORTED, (num_bytes, num_handles), [], [], ipc)
         else
           let channel = fst (the out);
               (result, num_bytes, num_handles, msg, chs) =
                 ChannelDispatcher_Read channel p num_bytes num_handles (options AND ZX_CHANNEL_READ_MAY_DISCARD \<noteq> 0) (chs_m ipc);
               ipc = ipc\<lparr>chs_m := chs\<rparr>
           in if result \<noteq> ZX_OK \<and> result \<noteq> ZX_ERR_BUFFER_TOO_SMALL then (result, (num_bytes, num_handles), [], [], drop_packet msg ipc)
              else if actual_bytes = Some False then (ZX_ERR_INVALID_ARGS, (num_bytes, num_handles), [], [], drop_packet msg ipc)
              else if actual_handles = Some False then (ZX_ERR_INVALID_ARGS, (num_bytes, num_handles), [], [], drop_packet msg ipc)
              else if result = ZX_ERR_BUFFER_TOO_SMALL then (result, (num_bytes, num_handles), [], [], drop_packet msg ipc)
              else
                let (status, data) = (if num_bytes > 0 then CopyDataTo bytes (the msg) else (ZX_OK, []))
                in if status \<noteq> ZX_OK then (ZX_ERR_INVALID_ARGS, (num_bytes, num_handles), data, [], drop_packet msg ipc)
                   else
                     let (status, hvs, msg, ipc) =
                           (if num_handles > 0 then msg_get_handles map_handle p (the msg) handles num_handles ipc
                            else (ZX_OK, [], the msg, ipc))
                     in if status \<noteq> ZX_OK then (status, (num_bytes, num_handles), data, hvs, drop_packet (Some msg) ipc)
                        else (result, (num_bytes, num_handles), data, hvs,
                              drop_packet (Some msg) (record_recv_msg_sz num_bytes ipc)))"

definition sys_channel_read ::
  "zx_koid \<Rightarrow> zx_handle \<Rightarrow> 32 word \<Rightarrow> user_out \<Rightarrow> user_out \<Rightarrow> 32 word \<Rightarrow> 32 word \<Rightarrow> bool option \<Rightarrow> bool option \<Rightarrow> ipc_state
     \<Rightarrow> zx_status \<times> (32 word \<times> 32 word) \<times> byte list \<times> zx_handle list \<times> ipc_state" where
  "sys_channel_read = channel_read MapHandleToValue"

definition sys_channel_read_etc ::
  "zx_koid \<Rightarrow> zx_handle \<Rightarrow> 32 word \<Rightarrow> user_out \<Rightarrow> user_out \<Rightarrow> 32 word \<Rightarrow> 32 word \<Rightarrow> bool option \<Rightarrow> bool option \<Rightarrow> ipc_state
     \<Rightarrow> zx_status \<times> (32 word \<times> 32 word) \<times> byte list \<times> zx_handle_info list \<times> ipc_state" where
  "sys_channel_read_etc = channel_read MapHandleToInfo"

subsection \<open>Writing\<close>

text \<open>
  An array of handles of the caller: its elements, the overloads of \<open>get_user_handles_to_consume\<close> and
  \<open>get_handle_for_message_locked\<close> for it, and for an array that is also written back, whether
  the copy to it succeeds. The clean-up reads the array a second time, when another thread of the
  process may have changed it: \<open>again\<close> is what it finds then.
\<close>

record 'v user_handles =
  uh_values :: "nat \<Rightarrow> 'v option"
  uh_consume :: "nat \<Rightarrow> nat \<Rightarrow> zx_handle list \<Rightarrow> zx_status \<times> zx_handle list"
  uh_entry :: "zx_koid option \<Rightarrow> nat \<Rightarrow> 'v \<Rightarrow> HandleTable \<times> hstate \<Rightarrow> (zx_status + nat) \<times> 'v \<times> HandleTable \<times> hstate"
  uh_out :: "user_out option"

definition handle_array :: "(nat \<Rightarrow> zx_handle option) \<Rightarrow> (nat \<Rightarrow> zx_handle option) \<Rightarrow> zx_handle user_handles" where
  "handle_array user again =
     \<lparr>uh_values = user, uh_consume = get_user_handles_to_consume again,
      uh_entry = (\<lambda>channel ix v ts. let (r, ts) = get_handle_for_message_locked channel v ts in (r, v, ts)),
      uh_out = None\<rparr>"

text \<open>\<open>map_ok\<close> says for which entries the arena can map a page if duplicating a handle needs one.\<close>

definition disposition_array ::
  "(nat \<Rightarrow> bool) \<Rightarrow> (nat \<Rightarrow> zx_handle_disposition option) \<Rightarrow> (nat \<Rightarrow> zx_handle_disposition option) \<Rightarrow> user_out
     \<Rightarrow> zx_handle_disposition user_handles" where
  "disposition_array map_ok user again out =
     \<lparr>uh_values = user, uh_consume = get_user_dispositions_to_consume again,
      uh_entry = (\<lambda>channel ix d ts. get_disposition_for_message_locked (map_ok ix) channel d ts),
      uh_out = Some out\<rparr>"

fun msg_put_loop ::
  "(nat \<Rightarrow> 'v \<Rightarrow> HandleTable \<times> hstate \<Rightarrow> (zx_status + nat) \<times> 'v \<times> HandleTable \<times> hstate) \<Rightarrow> nat \<Rightarrow> 'v list \<Rightarrow> zx_status
     \<Rightarrow> HandleTable \<times> hstate \<Rightarrow> zx_status \<times> nat option list \<times> 'v list \<times> HandleTable \<times> hstate" where
  "msg_put_loop entry ix [] status ts = (status, [], [], ts)"
| "msg_put_loop entry ix (v # vs) status ts =
     (let (inner_status, v, ts) = entry ix v ts;
          status = (case inner_status of Inl e \<Rightarrow> if status = ZX_OK then e else status | Inr h \<Rightarrow> status);
          (status, hs, vs, ts) = msg_put_loop entry (ix + 1) vs status ts
      in (status, (case inner_status of Inl e \<Rightarrow> None | Inr h \<Rightarrow> Some h) # hs, v # vs, ts))"

text \<open>The last result is the array as it is copied back.\<close>

definition msg_put_handles ::
  "'v user_handles \<Rightarrow> MessagePacket \<Rightarrow> 32 word \<Rightarrow> zx_koid \<Rightarrow> HandleTable \<times> hstate
     \<Rightarrow> zx_status \<times> MessagePacket \<times> (HandleTable \<times> hstate) \<times> 'v list option" where
  "msg_put_handles user_handles msg num_handles channel ts =
     (case copy_array_from_user (uh_values user_handles) 0 (unat num_handles) of
        None \<Rightarrow> (ZX_ERR_INVALID_ARGS, msg, ts, None)
      | Some handles \<Rightarrow>
          let (status, hs, handles, ts) = msg_put_loop (uh_entry user_handles (Some channel)) 0 handles ZX_OK ts;
              copy_status = (case uh_out user_handles of
                 Some out \<Rightarrow> if status \<noteq> ZX_OK then copy_array_to_user out 0 (unat num_handles) else ZX_OK
               | None \<Rightarrow> ZX_OK);
              copied = (if uh_out user_handles \<noteq> None \<and> status \<noteq> ZX_OK \<and> copy_status = ZX_OK then Some handles else None);
              status = (if copy_status \<noteq> ZX_OK then copy_status else status)
          in (status, set_owns_handles True (msg\<lparr>msg_handles_m := hs\<rparr>), ts, copied))"

text \<open>\<open>stack\<close> is what the local array of \<open>RemoveUserHandles\<close> holds before it is written.\<close>

definition close_user_handles ::
  "'v user_handles \<Rightarrow> zx_handle list \<Rightarrow> 32 word \<Rightarrow> zx_koid \<Rightarrow> ipc_state \<Rightarrow> ipc_state" where
  "close_user_handles user_handles stack num_handles p ipc =
     put_ts p (snd (RemoveUserHandles stack (uh_consume user_handles) (unat num_handles) (ts_of p ipc))) ipc"

definition channel_write ::
  "'v user_handles \<Rightarrow> zx_handle list \<Rightarrow> pmm \<Rightarrow> zx_koid \<Rightarrow> zx_handle \<Rightarrow> 32 word \<Rightarrow> user_in \<Rightarrow> 32 word \<Rightarrow> 32 word \<Rightarrow> ipc_state
     \<Rightarrow> zx_status \<times> ipc_state" where
  "channel_write user_handles stack pmm_alloc_pages p handle_value options wr_bytes num_bytes num_handles ipc =
     (let cleanup = close_user_handles user_handles stack num_handles p in
      if options \<noteq> 0 then (ZX_ERR_INVALID_ARGS, cleanup ipc)
      else
        let (status, out, t) = GetDispatcherWithRightsImpl (Some ZX_OBJ_TYPE_CHANNEL) handle_value ZX_RIGHT_WRITE False (tabs_m ipc p) (hs_m ipc);
            ipc = put_ts p (t, hs_m ipc) ipc
        in if status \<noteq> ZX_OK then (status, cleanup ipc)
           else
             let channel = fst (the out);
                 (status, msg) = MessagePacket_Create pmm_alloc_pages wr_bytes num_bytes num_handles
             in if status \<noteq> ZX_OK then (status, cleanup ipc)
                else
                  let (status, msg, ts, copied) =
                        (if num_handles > 0 then msg_put_handles user_handles (the msg) num_handles channel (ts_of p ipc)
                         else (ZX_OK, the msg, ts_of p ipc, None));
                      ipc = put_ts p ts ipc
                  in if status \<noteq> ZX_OK then (status, cleanup (drop_packet (Some msg) ipc))
                     else
                       let (status, chs) = ChannelDispatcher_Write channel p msg (chs_m ipc)
                       in if status \<noteq> ZX_OK then (status, drop_packet (Some msg) (ipc\<lparr>chs_m := chs\<rparr>))
                          else (ZX_OK, ipc\<lparr>chs_m := chs\<rparr>))"

definition sys_channel_write ::
  "zx_handle list \<Rightarrow> pmm \<Rightarrow> zx_koid \<Rightarrow> zx_handle \<Rightarrow> 32 word \<Rightarrow> user_in \<Rightarrow> 32 word \<Rightarrow> (nat \<Rightarrow> zx_handle option)
     \<Rightarrow> (nat \<Rightarrow> zx_handle option) \<Rightarrow> 32 word \<Rightarrow> ipc_state \<Rightarrow> zx_status \<times> ipc_state" where
  "sys_channel_write stack pmm_alloc_pages p handle_value options wr_bytes num_bytes user again num_handles ipc =
     channel_write (handle_array user again) stack pmm_alloc_pages p handle_value options wr_bytes num_bytes num_handles ipc"

definition sys_channel_write_etc ::
  "zx_handle list \<Rightarrow> pmm \<Rightarrow> zx_koid \<Rightarrow> zx_handle \<Rightarrow> 32 word \<Rightarrow> user_in \<Rightarrow> 32 word \<Rightarrow> (nat \<Rightarrow> bool)
     \<Rightarrow> (nat \<Rightarrow> zx_handle_disposition option) \<Rightarrow> (nat \<Rightarrow> zx_handle_disposition option) \<Rightarrow> user_out \<Rightarrow> 32 word \<Rightarrow> ipc_state \<Rightarrow> zx_status \<times> ipc_state" where
  "sys_channel_write_etc stack pmm_alloc_pages p handle_value options wr_bytes num_bytes map_ok user again out num_handles ipc =
     channel_write (disposition_array map_ok user again out) stack pmm_alloc_pages p handle_value options wr_bytes num_bytes num_handles ipc"

subsection \<open>Calls\<close>

definition channel_read_out ::
  "(nat \<Rightarrow> HandleTable \<Rightarrow> hstate \<Rightarrow> 'h) \<Rightarrow> zx_koid \<Rightarrow> MessagePacket \<Rightarrow> user_out \<Rightarrow> user_out \<Rightarrow> 32 word \<Rightarrow> 32 word \<Rightarrow> bool \<Rightarrow> bool
     \<Rightarrow> ipc_state \<Rightarrow> zx_status \<times> byte list \<times> 'h list \<times> ipc_state" where
  "channel_read_out map_handle p reply rd_bytes rd_handles rd_num_bytes rd_num_handles actual_bytes actual_handles ipc =
     (let num_bytes = data_size_m reply;
          num_handles = (ucast (num_handles_m reply) :: 32 word)
      in if rd_num_bytes < num_bytes \<or> rd_num_handles < num_handles
         then (ZX_ERR_BUFFER_TOO_SMALL, [], [], drop_packet (Some reply) ipc)
         else if \<not> actual_bytes then (ZX_ERR_INVALID_ARGS, [], [], drop_packet (Some reply) ipc)
         else if \<not> actual_handles then (ZX_ERR_INVALID_ARGS, [], [], drop_packet (Some reply) ipc)
         else
           let (status, data) = (if num_bytes > 0 then CopyDataTo rd_bytes reply else (ZX_OK, []))
           in if status \<noteq> ZX_OK then (ZX_ERR_INVALID_ARGS, data, [], drop_packet (Some reply) ipc)
              else
                let (status, hvs, reply, ipc) =
                      (if num_handles > 0 then msg_get_handles map_handle p reply rd_handles num_handles ipc
                       else (ZX_OK, [], reply, ipc))
                in (status, data, hvs, drop_packet (Some reply) ipc))"

definition channel_call_epilogue ::
  "(nat \<Rightarrow> HandleTable \<Rightarrow> hstate \<Rightarrow> 'h) \<Rightarrow> zx_koid \<Rightarrow> MessagePacket \<Rightarrow> user_out \<Rightarrow> user_out \<Rightarrow> 32 word \<Rightarrow> 32 word \<Rightarrow> bool \<Rightarrow> bool
     \<Rightarrow> ipc_state \<Rightarrow> zx_status \<times> byte list \<times> 'h list \<times> ipc_state" where
  "channel_call_epilogue map_handle p reply rd_bytes rd_handles rd_num_bytes rd_num_handles actual_bytes actual_handles ipc =
     (let bytes = data_size_m reply;
          (status, data, hvs, ipc) = channel_read_out map_handle p reply rd_bytes rd_handles rd_num_bytes rd_num_handles
             actual_bytes actual_handles ipc
      in if status \<noteq> ZX_OK then (status, data, hvs, ipc)
         else (ZX_OK, data, hvs, record_recv_msg_sz bytes ipc))"

text \<open>The part of \<open>channel_call_noretry\<close> up to the wait inside \<open>Call\<close>, with the channel; \<open>None\<close> as
  status: the thread waits.\<close>

definition channel_call_begin ::
  "'v user_handles \<Rightarrow> zx_handle list \<Rightarrow> pmm \<Rightarrow> nat \<Rightarrow> zx_koid \<Rightarrow> zx_handle \<Rightarrow> 32 word \<Rightarrow> user_in \<Rightarrow> 32 word \<Rightarrow> 32 word \<Rightarrow> ipc_state
     \<Rightarrow> (zx_status option \<times> zx_koid \<times> ipc_state) option" where
  "channel_call_begin user_handles stack pmm_alloc_pages waiter p handle_value options wr_bytes num_bytes num_handles ipc =
     (let cleanup = close_user_handles user_handles stack num_handles p in
      if options \<noteq> 0 \<or> num_bytes < 4 then Some (Some ZX_ERR_INVALID_ARGS, 0, cleanup ipc)
      else
        let (status, out, t) = GetDispatcherWithRightsImpl (Some ZX_OBJ_TYPE_CHANNEL) handle_value (ZX_RIGHT_WRITE OR ZX_RIGHT_READ)
              False (tabs_m ipc p) (hs_m ipc);
            ipc = put_ts p (t, hs_m ipc) ipc
        in if status \<noteq> ZX_OK then Some (Some status, 0, cleanup ipc)
           else
             let channel = fst (the out);
                 (status, msg) = MessagePacket_Create pmm_alloc_pages wr_bytes num_bytes num_handles
             in if status \<noteq> ZX_OK then Some (Some status, channel, cleanup ipc)
                else
                  let (status, msg, ts, copied) =
                        (if num_handles > 0 then msg_put_handles user_handles (the msg) num_handles channel (ts_of p ipc)
                         else (ZX_OK, the msg, ts_of p ipc, None));
                      ipc = put_ts p ts ipc
                  in if status \<noteq> ZX_OK then Some (Some status, channel, drop_packet (Some msg) ipc)
                     else
                       (case Call_begin waiter channel p msg (chs_m ipc) of
                          None \<Rightarrow> None
                        | Some (Some status, chs) \<Rightarrow> Some (Some status, channel, drop_packet (Some msg) (ipc\<lparr>chs_m := chs\<rparr>))
                        | Some (None, chs) \<Rightarrow> Some (None, channel, ipc\<lparr>chs_m := chs\<rparr>)))"

text \<open>After the wait, and \<open>channel_call_finish\<close> for a call that was interrupted.\<close>

definition channel_call_end ::
  "(nat \<Rightarrow> HandleTable \<Rightarrow> hstate \<Rightarrow> 'h) \<Rightarrow> nat \<Rightarrow> zx_koid \<Rightarrow> zx_koid \<Rightarrow> zx_status \<Rightarrow> user_out \<Rightarrow> user_out \<Rightarrow> 32 word \<Rightarrow> 32 word
     \<Rightarrow> bool \<Rightarrow> bool \<Rightarrow> ipc_state \<Rightarrow> zx_status \<times> byte list \<times> 'h list \<times> ipc_state" where
  "channel_call_end map_handle waiter channel p event_wait rd_bytes rd_handles rd_num_bytes rd_num_handles actual_bytes actual_handles ipc =
     (let (status, reply, chs) = ResumeInterruptedCall waiter channel event_wait (chs_m ipc);
          ipc = ipc\<lparr>chs_m := chs\<rparr>
      in if status \<noteq> ZX_OK then (status, [], [], ipc)
         else channel_call_epilogue map_handle p (the reply) rd_bytes rd_handles rd_num_bytes rd_num_handles
                actual_bytes actual_handles ipc)"

definition channel_call_finish ::
  "(nat \<Rightarrow> HandleTable \<Rightarrow> hstate \<Rightarrow> 'h) \<Rightarrow> bool \<Rightarrow> nat \<Rightarrow> zx_koid \<Rightarrow> zx_status \<Rightarrow> user_out \<Rightarrow> user_out \<Rightarrow> 32 word \<Rightarrow> 32 word
     \<Rightarrow> bool \<Rightarrow> bool \<Rightarrow> ipc_state \<Rightarrow> zx_status \<times> byte list \<times> 'h list \<times> ipc_state" where
  "channel_call_finish map_handle args_ok waiter p event_wait rd_bytes rd_handles rd_num_bytes rd_num_handles actual_bytes actual_handles ipc =
     (if \<not> args_ok then (ZX_ERR_INVALID_ARGS, [], [], ipc)
      else case channel_m (mwaiters_m (chs_m ipc) waiter) of
             None \<Rightarrow> (ZX_ERR_BAD_STATE, [], [], ipc)
           | Some channel \<Rightarrow>
               channel_call_end map_handle waiter channel p event_wait rd_bytes rd_handles rd_num_bytes rd_num_handles
                 actual_bytes actual_handles ipc)"

text \<open>The whole of \<open>channel_call_noretry\<close>; \<open>others\<close> is what runs while the thread waits.\<close>

definition channel_call_noretry ::
  "'v user_handles \<Rightarrow> (nat \<Rightarrow> HandleTable \<Rightarrow> hstate \<Rightarrow> 'h) \<Rightarrow> bool \<Rightarrow> zx_handle list \<Rightarrow> pmm \<Rightarrow> nat \<Rightarrow> zx_koid \<Rightarrow> zx_handle \<Rightarrow> 32 word
     \<Rightarrow> user_in \<Rightarrow> 32 word \<Rightarrow> 32 word \<Rightarrow> (ipc_state \<Rightarrow> ipc_state) \<Rightarrow> zx_status \<Rightarrow> user_out \<Rightarrow> user_out \<Rightarrow> 32 word \<Rightarrow> 32 word
     \<Rightarrow> bool \<Rightarrow> bool \<Rightarrow> ipc_state \<Rightarrow> (zx_status \<times> byte list \<times> 'h list \<times> ipc_state) option" where
  "channel_call_noretry user_handles map_handle args_ok stack pmm_alloc_pages waiter p handle_value options wr_bytes num_bytes num_handles
     others event_wait rd_bytes rd_handles rd_num_bytes rd_num_handles actual_bytes actual_handles ipc =
     (if \<not> args_ok then Some (ZX_ERR_INVALID_ARGS, [], [], ipc)
      else case channel_call_begin user_handles stack pmm_alloc_pages waiter p handle_value options wr_bytes num_bytes num_handles ipc of
             None \<Rightarrow> None
           | Some (Some status, channel, ipc) \<Rightarrow> Some (status, [], [], ipc)
           | Some (None, channel, ipc) \<Rightarrow>
               Some (channel_call_end map_handle waiter channel p event_wait rd_bytes rd_handles rd_num_bytes rd_num_handles
                       actual_bytes actual_handles (others ipc)))"

text \<open>The system calls: the plain ones with handle values, the others with dispositions and handle
  infos.\<close>

definition sys_channel_call_noretry ::
  "bool \<Rightarrow> zx_handle list \<Rightarrow> pmm \<Rightarrow> nat \<Rightarrow> zx_koid \<Rightarrow> zx_handle \<Rightarrow> 32 word \<Rightarrow> user_in \<Rightarrow> 32 word \<Rightarrow> (nat \<Rightarrow> zx_handle option) \<Rightarrow> (nat \<Rightarrow> zx_handle option)
     \<Rightarrow> 32 word \<Rightarrow> (ipc_state \<Rightarrow> ipc_state) \<Rightarrow> zx_status \<Rightarrow> user_out \<Rightarrow> user_out \<Rightarrow> 32 word \<Rightarrow> 32 word \<Rightarrow> bool \<Rightarrow> bool \<Rightarrow> ipc_state
     \<Rightarrow> (zx_status \<times> byte list \<times> zx_handle list \<times> ipc_state) option" where
  "sys_channel_call_noretry args_ok stack pmm_alloc_pages waiter p handle_value options wr_bytes num_bytes user again num_handles others
     event_wait rd_bytes rd_handles rd_num_bytes rd_num_handles actual_bytes actual_handles ipc =
     channel_call_noretry (handle_array user again) MapHandleToValue args_ok stack pmm_alloc_pages waiter p handle_value options wr_bytes
       num_bytes num_handles others event_wait rd_bytes rd_handles rd_num_bytes rd_num_handles actual_bytes actual_handles ipc"

definition sys_channel_call_etc_noretry ::
  "bool \<Rightarrow> zx_handle list \<Rightarrow> pmm \<Rightarrow> nat \<Rightarrow> zx_koid \<Rightarrow> zx_handle \<Rightarrow> 32 word \<Rightarrow> user_in \<Rightarrow> 32 word \<Rightarrow> (nat \<Rightarrow> bool)
     \<Rightarrow> (nat \<Rightarrow> zx_handle_disposition option) \<Rightarrow> (nat \<Rightarrow> zx_handle_disposition option) \<Rightarrow> user_out \<Rightarrow> 32 word \<Rightarrow> (ipc_state \<Rightarrow> ipc_state) \<Rightarrow> zx_status
     \<Rightarrow> user_out \<Rightarrow> user_out \<Rightarrow> 32 word \<Rightarrow> 32 word \<Rightarrow> bool \<Rightarrow> bool \<Rightarrow> ipc_state
     \<Rightarrow> (zx_status \<times> byte list \<times> zx_handle_info list \<times> ipc_state) option" where
  "sys_channel_call_etc_noretry args_ok stack pmm_alloc_pages waiter p handle_value options wr_bytes num_bytes map_ok user again out
     num_handles others event_wait rd_bytes rd_handles rd_num_bytes rd_num_handles actual_bytes actual_handles ipc =
     channel_call_noretry (disposition_array map_ok user again out) MapHandleToInfo args_ok stack pmm_alloc_pages waiter p handle_value
       options wr_bytes num_bytes num_handles others event_wait rd_bytes rd_handles rd_num_bytes rd_num_handles
       actual_bytes actual_handles ipc"

definition sys_channel_call_finish ::
  "bool \<Rightarrow> nat \<Rightarrow> zx_koid \<Rightarrow> zx_status \<Rightarrow> user_out \<Rightarrow> user_out \<Rightarrow> 32 word \<Rightarrow> 32 word \<Rightarrow> bool \<Rightarrow> bool \<Rightarrow> ipc_state
     \<Rightarrow> zx_status \<times> byte list \<times> zx_handle list \<times> ipc_state" where
  "sys_channel_call_finish = channel_call_finish MapHandleToValue"

definition sys_channel_call_etc_finish ::
  "bool \<Rightarrow> nat \<Rightarrow> zx_koid \<Rightarrow> zx_status \<Rightarrow> user_out \<Rightarrow> user_out \<Rightarrow> 32 word \<Rightarrow> 32 word \<Rightarrow> bool \<Rightarrow> bool \<Rightarrow> ipc_state
     \<Rightarrow> zx_status \<times> byte list \<times> zx_handle_info list \<times> ipc_state" where
  "sys_channel_call_etc_finish = channel_call_finish MapHandleToInfo"

end
