(* ===== verification/Channel_Transfer.thy ===== *)
theory Channel_Transfer
  imports Channel_Syscalls
begin

section \<open>Handles on their way through channels\<close>

text \<open>
  Who holds a handle while the channel system calls of \<open>Channel_Syscalls\<close> run: the table of a
  process, a message in the queue of an endpoint, or a reply that waits for its caller.

  \<^item> A handle is \<open>loose\<close> when it is alive and in no table. An operation is described by the loose
    handles it makes, \<open>makes_loose\<close>.
  \<^item> \<open>flight\<close> says that the messages hold each loose handle once, apart from a set of leaked ones.
  \<^item> \<open>ipc_step\<close> is one system call or kernel event of any process; its label tells whether the
    call was given a handle buffer that cannot be written.
\<close>

subsection \<open>Loose handles\<close>

definition loose :: "hstate \<Rightarrow> nat set" where
  "loose s = {i. dispatcher_m (slots_m s i) \<noteq> None \<and> process_id_m (slots_m s i) = ZX_KOID_INVALID}"

definition makes_loose :: "nat set \<Rightarrow> hstate \<Rightarrow> hstate \<Rightarrow> bool" where
  "makes_loose J s s' \<longleftrightarrow>
     loose s' = loose s \<union> J \<and> J \<inter> loose s = {} \<and> (\<forall>i\<in>loose s. slots_m s' i = slots_m s i)"

lemma makes_loose_refl [simp]: "makes_loose {} s s"
  by (simp add: makes_loose_def)

lemma makes_loose_trans:
  "makes_loose J s s' \<Longrightarrow> makes_loose K s' s'' \<Longrightarrow> makes_loose (J \<union> K) s s''"
  by (auto simp: makes_loose_def)

lemmas keeps_loose_trans = makes_loose_trans [where J = "{}", simplified]

lemma makes_loose_slots:
  "makes_loose J s s' \<Longrightarrow> slots_m s'' = slots_m s' \<Longrightarrow> makes_loose J s s''"
  by (simp add: makes_loose_def loose_def)

lemma table_not_loose: "table_inv t s \<Longrightarrow> i \<in> set (handles_m t) \<Longrightarrow> i \<notin> loose s"
  by (auto simp: table_inv_def loose_def)

lemma RemoveHandleLocked_loose:
  assumes "table_inv t s" "i \<in> set (handles_m t)"
  shows "makes_loose {i} s (snd (RemoveHandleLocked i (t, s)))"
  using assms table_inv_disp [OF assms]
  by (auto simp: makes_loose_def loose_def RemoveHandleLocked_ok(2) slots_set_process_id table_inv_def)

lemma remove_and_delete_loose:
  assumes "table_inv t s" "i \<in> set (handles_m t)"
  shows "makes_loose {} s (snd (delete_owned i (RemoveHandleLocked i (t, s))))"
  using assms table_inv_disp [OF assms]
  by (auto simp: makes_loose_def loose_def delete_owned_def RemoveHandleLocked_ok(2) slots_set_process_id slots_Delete
      table_inv_def)

lemma Handle_Dup_loose:
  assumes "table_inv t s" "i \<in> set (handles_m t)" "Handle_Dup map_ok i r s = (Some j, s')"
  shows "makes_loose {j} s s'"
proof -
  have dup: "process_id_m (slots_m s' j) = ZX_KOID_INVALID" "dispatcher_m (slots_m s' j) \<noteq> None"
      "\<And>j'. j' \<noteq> j \<Longrightarrow> slots_m s' j' = slots_m s j'"
    using Handle_Dup_ok(2) [OF assms refl] table_inv_disp [OF assms(1,2)] by simp_all
  from table_inv_disp [OF assms(1,2)] obtain k where k: "dispatcher_m (slots_m s i) = Some k" by blast
  have "Handle_Make map_ok k r s = (Some j, s')" using assms(3) Handle_Dup_eq [OF k] by metis
  from Handle_Make_Some [OF table_inv_hs [OF assms(1)] this] have "j \<notin> live (arena_m s)" by blast
  with table_inv_hs [OF assms(1)] have notin: "j \<notin> loose s" by (auto simp: hs_inv_def loose_def)
  have "loose s' = insert j (loose s)"
  proof (intro set_eqI)
    fix i show "i \<in> loose s' \<longleftrightarrow> i \<in> insert j (loose s)"
      using dup by (cases "i = j") (auto simp: loose_def)
  qed
  moreover have "\<forall>i\<in>loose s. slots_m s' i = slots_m s i" using notin dup(3) by metis
  ultimately show ?thesis using notin by (simp add: makes_loose_def)
qed

lemma RemoveHandle_value_loose:
  assumes "table_inv t s" "RemoveHandle_value v (t, s) = (h, ts')"
  shows "makes_loose {} s (snd (case h of None \<Rightarrow> ts' | Some i \<Rightarrow> delete_owned i ts'))"
proof -
  obtain h' t' where g: "GetHandleLocked v False t s = (h', t')" by fastforce
  note get = GetHandleLocked_ok [OF assms(1) g]
  show ?thesis
    using assms(2) g remove_and_delete_loose [OF get(2) get(4)]
    by (auto simp: RemoveHandle_value_def split: option.splits)
qed

lemma RemoveHandles_loop_loose:
  "table_inv t s \<Longrightarrow> makes_loose {} s (snd (snd (RemoveHandles_loop status vs (t, s))))"
proof (induction vs arbitrary: status t s)
  case (Cons v vs)
  obtain h ts' where r: "RemoveHandle_value v (t, s) = (h, ts')" by (rule prod.exhaust)
  obtain t2 s2 where n: "(case h of None \<Rightarrow> ts' | Some i \<Rightarrow> delete_owned i ts') = (t2, s2)" by fastforce
  have "table_inv t2 s2" using RemoveHandle_value_ok [OF Cons.prems r] unfolding n by (rule table_ok_inv)
  from Cons.IH [OF this] RemoveHandle_value_loose [OF Cons.prems r]
  have "makes_loose {} s (snd (snd (RemoveHandles_loop st vs (t2, s2))))" for st
    unfolding n by (auto intro: keeps_loose_trans)
  then show ?case using n Cons r by (auto split: option.splits)
qed simp

lemma RemoveUserHandles_loop_loose:
  "table_inv t s \<Longrightarrow> makes_loose {} s (snd (snd (RemoveUserHandles_loop get n off status hs (t, s))))"
proof (induction get n off status hs "(t, s)" arbitrary: t s rule: RemoveUserHandles_loop.induct)
  case (1 get n off status hs)
  show ?case
  proof (cases "off < n \<and> fst (get off (min (n - off) kMaxMessageHandles) hs) = ZX_OK")
    case False
    then show ?thesis
      by (subst RemoveUserHandles_loop.simps) (auto simp: Let_def split: prod.splits)
  next
    case True
    let ?c = "min (n - off) kMaxMessageHandles"
    obtain hs' where g: "get off ?c hs = (ZX_OK, hs')" using True by (metis prod.collapse)
    obtain st t' s' where r: "RemoveHandles (take ?c hs') (t, s) = (st, t', s')" by (metis prod.collapse)
    have inv: "table_inv t' s'" and l: "makes_loose {} s s'"
      using RemoveHandles_loop_ok [OF 1(2)] RemoveHandles_loop_loose [OF 1(2)] r
      by (metis RemoveHandles_def snd_conv table_ok_inv)+
    have "makes_loose {} s' (snd (snd (RemoveUserHandles_loop get n (off + ?c) st hs' (t', s'))))"
      using True g r inv by (intro 1(1)) auto
    from keeps_loose_trans [OF l this] True g r show ?thesis
      by (subst RemoveUserHandles_loop.simps) (auto simp: Let_def)
  qed
qed

lemma HandleTable_Clean_loose:
  assumes "table_inv t s" shows "makes_loose {} s (snd (HandleTable_Clean (t, s)))"
proof -
  let ?s1 = "fold (\<lambda>h. set_process_id h ZX_KOID_INVALID) (handles_m t) s"
  have disp: "\<forall>i\<in>set (handles_m t). dispatcher_m (slots_m s i) \<noteq> None" using table_inv_disp [OF assms] by blast
  note one = fold_set_process_id [OF table_inv_heap [OF assms] disp, of ZX_KOID_INVALID]
  have "slots_m (fold HandleTableArena_Delete (handles_m t) ?s1) =
      (\<lambda>i. if i \<in> set (handles_m t) then (slots_m ?s1 i)\<lparr>dispatcher_m := None\<rparr> else slots_m ?s1 i)"
    using one disp assms fold_Delete [of ?s1 "handles_m t"] by (simp add: table_inv_def)
  with one assms show ?thesis
    by (auto simp: makes_loose_def loose_def HandleTable_Clean_def Let_def table_inv_def split: if_splits)
qed
lemma handle_dup_replace_loose:
  assumes "table_inv t s" "handle_dup_replace map_ok is_replace v r (t, s) = (st, out, ts')"
  shows "makes_loose (set_option out) s (snd ts')"
proof -
  obtain h t1 where g: "GetHandleLocked v False t s = (h, t1)" by fastforce
  note get = GetHandleLocked_ok [OF assms(1) g]
  show ?thesis
  proof (cases h)
    case None
    then show ?thesis using assms(2) by (auto simp: handle_dup_replace_def g)
  next
    case (Some i)
    note mem = get(4) [OF Some]
    let ?r = "if r = ZX_RIGHT_SAME_RIGHTS then rights_m (slots_m s i) else r"
    obtain h' s1 where d: "Handle_Dup map_ok i ?r s = (h', s1)" by (rule prod.exhaust)
    have made: "makes_loose (set_option h') s s1"
      using Handle_Dup_ok(3) [OF get(2) mem d] Handle_Dup_loose [OF get(2) mem] d by (cases h') simp_all
    have inv1: "table_inv t1 s1" using Handle_Dup_ok(1) [OF get(2) mem d] by (rule table_ok_inv)
    have "makes_loose (set_option h') s (snd (delete_owned i (RemoveHandleLocked i (t1, s1))))"
      using makes_loose_trans [OF made remove_and_delete_loose [OF inv1 mem]] by simp
    with made remove_and_delete_loose [OF get(2) mem] assms(2) Some show ?thesis
      by (auto simp: handle_dup_replace_def user_out_handle_dup_def g d split: if_splits)
  qed
qed

subsection \<open>Handles put into a message\<close>

definition somes :: "'a option list \<Rightarrow> 'a list" where
  "somes xs = map the (filter (\<lambda>x. x \<noteq> None) xs)"

lemma somes_simps [simp]:
  "somes [] = []" "somes (None # xs) = somes xs" "somes (Some x # xs) = x # somes xs"
  by (simp_all add: somes_def)

lemma somes_all: "None \<notin> set xs \<Longrightarrow> somes xs = map the xs"
proof (induction xs)
  case (Cons x xs)
  then show ?case by (cases x) simp_all
qed simp

text \<open>What both overloads of \<open>get_handle_for_message_locked\<close> promise to the loop of
  \<open>msg_put_handles\<close>: an error leaves the loose handles alone, a success makes one.\<close>

locale message_entry =
  fixes entry :: "nat \<Rightarrow> 'v \<Rightarrow> HandleTable \<times> hstate \<Rightarrow> (zx_status + nat) \<times> 'v \<times> HandleTable \<times> hstate"
  assumes entry_ok: "table_inv t s \<Longrightarrow> entry ix v (t, s) = (r, v', ts') \<Longrightarrow>
    table_ok (t, s) ts' \<and>
    (case r of Inl e \<Rightarrow> e \<noteq> ZX_OK \<and> makes_loose {} s (snd ts') | Inr j \<Rightarrow> makes_loose {j} s (snd ts'))"
begin

lemma put_loop_ok:
  "table_inv t s \<Longrightarrow> msg_put_loop entry ix vs status (t, s) = (status', hs, vs', ts') \<Longrightarrow>
   table_ok (t, s) ts' \<and> length hs = length vs \<and> distinct (somes hs) \<and>
   makes_loose (set (somes hs)) s (snd ts') \<and> (status' = ZX_OK \<longleftrightarrow> status = ZX_OK \<and> None \<notin> set hs)"
proof (induction vs arbitrary: ix status t s status' hs vs' ts')
  case Nil
  then show ?case using table_ok_refl [of t s "policy_calls_m t"] by auto
next
  case (Cons v vs)
  obtain r v1 t1 s1 where e: "entry ix v (t, s) = (r, v1, t1, s1)" by (metis prod.collapse)
  note one = entry_ok [OF Cons.prems(1) e]
  let ?status = "case r of Inl e \<Rightarrow> if status = ZX_OK then e else status | Inr h \<Rightarrow> status"
  obtain status2 hs2 vs2 ts2 where l: "msg_put_loop entry (ix + 1) vs ?status (t1, s1) = (status2, hs2, vs2, ts2)"
    by (metis prod.collapse)
  have inv1: "table_inv t1 s1" using one table_ok_inv by blast
  note rest = Cons.IH [OF inv1 l]
  have res: "status' = status2" "hs = (case r of Inl e \<Rightarrow> None | Inr h \<Rightarrow> Some h) # hs2" "ts' = ts2"
    using Cons.prems(2) e l by simp_all
  have "table_ok (t, s) ts'" using one rest table_ok_trans by (simp add: res) blast
  moreover have "distinct (somes hs) \<and> makes_loose (set (somes hs)) s (snd ts') \<and>
      (status' = ZX_OK \<longleftrightarrow> status = ZX_OK \<and> None \<notin> set hs)"
  proof (cases r)
    case (Inl err)
    then show ?thesis using one rest keeps_loose_trans by (auto simp: res)
  next
    case (Inr j)
    have "makes_loose {j} s s1" "makes_loose (set (somes hs2)) s1 (snd ts2)" using one rest Inr by simp_all
    note both = makes_loose_trans [OF this]
    have "j \<notin> set (somes hs2)" using one rest Inr by (auto simp: makes_loose_def)
    with both rest Inr show ?thesis by (simp add: res)
  qed
  ultimately show ?case using rest by (simp add: res)
qed

end

interpretation plain_entry: message_entry "uh_entry (handle_array user again) channel"
proof
  fix t s ix v r v' ts'
  assume inv: "table_inv t s" and "uh_entry (handle_array user again) channel ix v (t, s) = (r, v', ts')"
  then have g: "get_handle_for_message_locked channel v (t, s) = (r, ts')"
    by (simp add: handle_array_def split: prod.splits)
  note ok = get_handle_for_message_ok [OF inv g]
  obtain h t1 where l: "GetHandleLocked v False t s = (h, t1)" by fastforce
  note get = GetHandleLocked_ok [OF inv l]
  have "makes_loose {j} s (snd ts')" if "r = Inr j" for j
  proof -
    have "handle_checks_locked h channel ZX_HANDLE_OP_MOVE ZX_RIGHT_SAME_RIGHTS (zx_obj_type_code ZX_OBJ_TYPE_NONE) s = ZX_OK"
      using g that by (auto simp: get_handle_for_message_locked_def l Let_def split: if_splits)
    with handle_checks_OK obtain i where "h = Some i" by blast
    then have h: "h = Some j \<and> ts' = RemoveHandleLocked j (t1, s)"
      using g that by (auto simp: get_handle_for_message_locked_def l Let_def split: if_splits)
    then show ?thesis using RemoveHandleLocked_loose [OF get(2) get(4)] by blast
  qed
  with ok show "table_ok (t, s) ts' \<and>
      (case r of Inl e \<Rightarrow> e \<noteq> ZX_OK \<and> makes_loose {} s (snd ts') | Inr j \<Rightarrow> makes_loose {j} s (snd ts'))"
    by (auto split: sum.splits)
qed

interpretation disposition_entry: message_entry "uh_entry (disposition_array map_ok user again out) channel"
proof
  fix t s ix d r d' ts'
  assume inv: "table_inv t s" and "uh_entry (disposition_array map_ok user again out) channel ix d (t, s) = (r, d', ts')"
  then have g: "get_disposition_for_message_locked (map_ok ix) channel d (t, s) = (r, d', ts')"
    by (simp add: disposition_array_def)
  note ok = get_disposition_for_message_ok [OF inv g]
  obtain h t1 where l: "GetHandleLocked (hd_handle d) False t s = (h, t1)" by fastforce
  note get = GetHandleLocked_ok [OF inv l]
  have "makes_loose {j} s (snd ts')" if r: "r = Inr j" for j
  proof -
    have "handle_checks_locked h channel (hd_operation d) (hd_rights d) (hd_type d) s = ZX_OK"
      using g r by (auto simp: get_disposition_for_message_locked_def l Let_def split: if_splits)
    with handle_checks_OK obtain i where i: "h = Some i" by blast
    note mem = get(4) [OF i]
    let ?r = "if hd_rights d = ZX_RIGHT_SAME_RIGHTS then rights_m (slots_m s i) else hd_rights d"
    obtain h' s1 where dup: "Handle_Dup (map_ok ix) i ?r s = (h', s1)" by (rule prod.exhaust)
    consider "j = i" "ts' = RemoveHandleLocked i (t1, s)"
      | "h' = Some j" "ts' = delete_owned i (RemoveHandleLocked i (t1, s1))" | "h' = Some j" "ts' = (t1, s1)"
      using g r unfolding get_disposition_for_message_locked_def Let_def fst_conv snd_conv l i case_prod_conv option.sel dup
      by (auto split: if_splits option.splits)
    then show ?thesis
    proof cases
      case 1
      then show ?thesis using RemoveHandleLocked_loose [OF get(2) mem] by simp
    next
      case 2
      note dupj = dup [unfolded 2(1)]
      have "table_inv t1 s1" using Handle_Dup_ok(1) [OF get(2) mem dup] by (rule table_ok_inv)
      from makes_loose_trans [OF Handle_Dup_loose [OF get(2) mem dupj] remove_and_delete_loose [OF this mem]] 2
      show ?thesis by simp
    next
      case 3
      then show ?thesis using Handle_Dup_loose [OF get(2) mem] dup by simp
    qed
  qed
  with ok show "table_ok (t, s) ts' \<and>
      (case r of Inl e \<Rightarrow> e \<noteq> ZX_OK \<and> makes_loose {} s (snd ts') | Inr j \<Rightarrow> makes_loose {j} s (snd ts'))"
    by (auto split: sum.splits)
qed

subsection \<open>Messages on their way\<close>

text \<open>The places a handle can be in, and the packets of each.\<close>

datatype place = Table zx_koid | Queue zx_koid | Reply nat

fun packets :: "chan_state \<Rightarrow> place \<Rightarrow> MessagePacket list" where
  "packets st (Table p) = []"
| "packets st (Queue k) = messages_m (chans_m st k)"
| "packets st (Reply t) = (case waiter_msg_m (mwaiters_m st t) of None \<Rightarrow> [] | Some m \<Rightarrow> [m])"

lemma packets_eqI:
  assumes "\<And>k. messages_m (chans_m st' k) = messages_m (chans_m st k)"
    "\<And>t. waiter_msg_m (mwaiters_m st' t) = waiter_msg_m (mwaiters_m st t)"
  shows "packets st' = packets st"
proof
  fix l show "packets st' l = packets st l" using assms by (cases l) simp_all
qed

lemma packets_WriteSelf:
  assumes "chan_inv st" obtains l where "packets (Channel_WriteSelf p m st) = (packets st)(l := packets st l @ [m])"
proof (cases "matching_waiter st p m")
  case None
  have "packets (Channel_WriteSelf p m st) l = ((packets st)(Queue p := packets st (Queue p) @ [m])) l" for l
    by (cases l) (simp_all add: messages_WriteSelf None, simp add: Channel_WriteSelf_def None Let_def)
  then show ?thesis using that by blast
next
  case (Some t)
  have "waiter_msg_m (mwaiters_m st t) = None"
    using chan_waiters(3) [OF assms, of t p] matching_waiter_Some [OF Some] by (simp add: waiting_def)
  then have "packets (Channel_WriteSelf p m st) l = ((packets st)(Reply t := packets st (Reply t) @ [m])) l" for l
    by (cases l) (simp_all add: messages_WriteSelf Some, simp add: Channel_WriteSelf_def Some Let_def Deliver_def)
  then show ?thesis using that by blast
qed

lemma packets_Read:
  assumes "ChannelDispatcher_Read k ow ms mh disc st = (r, n1, n2, msg, st')"
  shows "case msg of None \<Rightarrow> st' = st \<and> r \<noteq> ZX_OK
    | Some m \<Rightarrow> n2 = ucast (num_handles_m m) \<and> n1 = data_size_m m \<and> (r = ZX_OK \<longrightarrow> n2 \<le> mh) \<and>
        packets st (Queue k) = m # packets st' (Queue k) \<and>
        packets st' = (packets st)(Queue k := packets st' (Queue k))"
proof (cases "messages_m (chans_m st k)")
  case Nil
  then show ?thesis using assms by (auto simp: Read_Nil zx_consts split: if_splits)
next
  case (Cons m rest)
  have "packets (st\<lparr>chans_m := (chans_m st)(k := read_pop rest (chans_m st k))\<rparr>) l = ((packets st)(Queue k := rest)) l" for l
    by (cases l) (simp_all add: read_pop_def)
  then have pop: "packets (st\<lparr>chans_m := (chans_m st)(k := read_pop rest (chans_m st k))\<rparr>) = (packets st)(Queue k := rest)"
    by blast
  show ?thesis
    using assms pop Cons unfolding Read_Cons [OF Cons] by (auto simp: zx_consts split: if_splits)
qed

lemma packets_set_owner [simp]: "packets (ChannelDispatcher_set_owner k new st) = packets st"
  by (rule packets_eqI) (simp_all add: ChannelDispatcher_set_owner_def)

lemma waiter_msg_cancel [simp]: "waiter_msg_m (cancel_waiters status ts ws t) = waiter_msg_m (ws t)"
  by (induction ts arbitrary: ws) (simp_all add: MessageWaiter_Cancel_def)

lemma packets_close [simp]: "packets (ChannelDispatcher_on_zero_handles k st) = packets st"
  by (rule packets_eqI) (simp_all add: messages_close, simp add: on_zero_handles_eq Let_def split: option.split)

lemma packets_Exit:
  assumes "chan_inv st"
  shows "packets (MessageWaiter_destroy t st) = (packets st)(Reply t := [])"
proof
  fix l show "packets (MessageWaiter_destroy t st) l = ((packets st)(Reply t := [])) l"
    using reply_ok_idle [OF chan_waiters(4) [OF assms, of t]]
    by (cases l) (auto simp: MessageWaiter_destroy_def RemoveWaiter_def MessageWaiter_new_def Let_def split: option.splits)
qed

text \<open>A call that returns early leaves the packets alone; one that goes on to wait has sent its message,
  which differs from the given one in the transaction id.\<close>

lemma packets_Call:
  assumes "Call_begin t k ow m st = Some (r, st')" "chan_inv st"
  shows "case r of Some status \<Rightarrow> packets st' = packets st
    | None \<Rightarrow> \<exists>l txid. packets st' = (packets st)(l := packets st l @ [MessagePacket_set_txid txid m])"
  using assms
proof (cases rule: Call_begin_cases)
  case busy
  then show ?thesis by (auto intro!: packets_eqI)
next
  case (bad_owner w)
  have "waiter_msg_m w = waiter_msg_m (mwaiters_m st t)" using bad_owner(1,2) by (auto simp: BeginWait_def)
  with bad_owner show ?thesis by (auto intro!: packets_eqI)
next
  case (closed w)
  then show ?thesis using reply_ok_idle [OF chan_waiters(4) [OF assms(2), of t]] by (auto intro!: packets_eqI)
next
  case (sent p counter txid w d st1)
  have "packets st1 = packets st" by (rule packets_eqI) (simp_all add: sent(6-8))
  moreover obtain l where "packets st' = (packets st1)(l := packets st1 l @ [MessagePacket_set_txid txid m])"
    unfolding sent(9) by (rule packets_WriteSelf [OF Call_sent_registered [OF assms(2) sent(1,2,5-8)]])
  ultimately show ?thesis using sent(4) by auto
qed

lemma packets_Resume:
  assumes "channel_m (mwaiters_m st t) = Some k" "chan_inv st" "ResumeInterruptedCall t k ew st = (status, reply, st')"
  shows "case reply of None \<Rightarrow> packets st' = packets st
    | Some m \<Rightarrow> status = ZX_OK \<and> packets st (Reply t) = [m] \<and> packets st' = (packets st)(Reply t := [])"
proof -
  let ?w = "mwaiters_m st t"
  have reply: "reply_ok ?w" using chan_waiters(4) [OF assms(2)] .
  show ?thesis
  proof (cases "ew = ZX_ERR_INTERNAL_INTR_RETRY")
    case True
    then show ?thesis using assms(3) by (auto simp: Resume_eq [OF assms(1)])
  next
    case False
    have "packets st' l = ((packets st)(Reply t := [])) l" for l
      using assms(3) False by (cases l) (auto simp: Resume_eq [OF assms(1)])
    then have p: "packets st' = (packets st)(Reply t := [])" by blast
    have "reply = waiter_msg_m ?w" "status = waiter_status_m ?w" using assms(3) False by (simp_all add: Resume_eq [OF assms(1)])
    with p reply show ?thesis by (auto simp: reply_ok_def fun_upd_idem split: option.splits)
  qed
qed

subsection \<open>Each loose handle is in one message\<close>

definition flight :: "('l \<Rightarrow> nat list) \<Rightarrow> nat set \<Rightarrow> nat set \<Rightarrow> bool" where
  "flight F X L \<longleftrightarrow>
     (\<forall>l. distinct (F l) \<and> set (F l) \<inter> X = {}) \<and> (\<forall>i l l'. i \<in> set (F l) \<and> i \<in> set (F l') \<longrightarrow> l = l') \<and>
     L = X \<union> (\<Union>l. set (F l))"

lemma flightD:
  assumes "flight F X L"
  shows "distinct (F l)" "i \<in> set (F l) \<Longrightarrow> i \<notin> X" "i \<in> set (F l) \<Longrightarrow> i \<in> set (F l') \<Longrightarrow> l' = l"
    "i \<in> L \<longleftrightarrow> i \<in> X \<or> (\<exists>l. i \<in> set (F l))"
  using assms unfolding flight_def by blast+

lemma flightI:
  assumes "\<And>l. distinct (F l)" "\<And>i l. i \<in> set (F l) \<Longrightarrow> i \<notin> X" "\<And>i l l'. i \<in> set (F l) \<Longrightarrow> i \<in> set (F l') \<Longrightarrow> l = l'"
    "\<And>i. i \<in> L \<longleftrightarrow> i \<in> X \<or> (\<exists>l. i \<in> set (F l))"
  shows "flight F X L"
proof -
  have "L = X \<union> (\<Union>l. set (F l))" using assms(4) by auto
  moreover have "set (F l) \<inter> X = {}" for l using assms(2) by auto
  ultimately show ?thesis unfolding flight_def by (intro conjI allI impI) (use assms(1,3) in blast)+
qed

lemma flight_add:
  assumes "flight F (X \<union> set xs) L" "distinct xs" "set xs \<inter> X = {}"
  shows "flight (F(l := F l @ xs)) X L"
proof (rule flightI)
  note F = flightD [OF assms(1)]
  have mem: "i \<in> set ((F(l := F l @ xs)) l') \<longleftrightarrow> i \<in> set (F l') \<or> (l' = l \<and> i \<in> set xs)" for i l' by auto
  show "distinct ((F(l := F l @ xs)) l')" for l' using F(1,2) assms(2) by auto
  show "i \<notin> X" if "i \<in> set ((F(l := F l @ xs)) l')" for i l' using that F(2) assms(3) unfolding mem by blast
  show "l' = l''" if "i \<in> set ((F(l := F l @ xs)) l')" "i \<in> set ((F(l := F l @ xs)) l'')" for i l' l''
    using that F(2,3) unfolding mem by blast
  show "i \<in> L \<longleftrightarrow> i \<in> X \<or> (\<exists>l'. i \<in> set ((F(l := F l @ xs)) l'))" for i using F(4) unfolding mem by blast
qed

lemma flight_take:
  assumes "flight F X L" "F l = xs @ ys"
  shows "flight (F(l := ys)) (X \<union> set xs) L" "distinct xs" "set xs \<inter> X = {}"
proof -
  note F = flightD [OF assms(1)]
  have d: "distinct (xs @ ys)" using F(1) [of l] assms(2) by simp
  then show "distinct xs" by simp
  show "set xs \<inter> X = {}" using F(2) [of _ l] assms(2) by auto
  have old: "i \<in> set (F l') \<longleftrightarrow> i \<in> set ((F(l := ys)) l') \<or> (l' = l \<and> i \<in> set xs)" for i l' using assms(2) by auto
  show "flight (F(l := ys)) (X \<union> set xs) L"
  proof (rule flightI)
    show "distinct ((F(l := ys)) l')" for l' using F(1) d by simp
    show "i \<notin> X \<union> set xs" if "i \<in> set ((F(l := ys)) l')" for i l'
    proof
      assume "i \<in> X \<union> set xs"
      with F(2) [of i l'] that old have "i \<in> set xs" by blast
      with F(3) [of i l' l] that old have "l' = l" by blast
      with that d \<open>i \<in> set xs\<close> show False by auto
    qed
    show "l' = l''" if "i \<in> set ((F(l := ys)) l')" "i \<in> set ((F(l := ys)) l'')" for i l' l''
      using that F(3) [of i l' l''] old by blast
    show "i \<in> L \<longleftrightarrow> i \<in> X \<union> set xs \<or> (\<exists>l'. i \<in> set ((F(l := ys)) l'))" for i
      using F(4) [of i] old by blast
  qed
qed

lemma flight_grow: "flight F X L \<Longrightarrow> J \<inter> L = {} \<Longrightarrow> flight F (X \<union> J) (L \<union> J)"
  unfolding flight_def by blast

lemma flight_drop: "flight F (X \<union> J) L \<Longrightarrow> J \<inter> X = {} \<Longrightarrow> flight F X (L - J)"
  unfolding flight_def by blast

text \<open>The handles a packet owns. A packet in a queue holds all of its handles.\<close>

definition msg_slots :: "MessagePacket \<Rightarrow> nat list" where
  "msg_slots m = (if owns_handles_m m then somes (msg_handles_m m) else [])"

definition sealed :: "MessagePacket \<Rightarrow> bool" where
  "sealed m \<longleftrightarrow> length (msg_handles_m m) = unat (num_handles_m m) \<and> None \<notin> set (msg_handles_m m) \<and>
     (owns_handles_m m \<or> msg_handles_m m = [])"

lemma msg_slots_sealed: "sealed m \<Longrightarrow> msg_slots m = map the (msg_handles_m m)"
  by (auto simp: sealed_def msg_slots_def somes_all)

lemma set_txid_handles [simp]:
  "msg_slots (MessagePacket_set_txid txid m) = msg_slots m" "sealed (MessagePacket_set_txid txid m) = sealed m"
  by (simp_all add: MessagePacket_set_txid_def Let_def msg_slots_def sealed_def)

definition flying :: "chan_state \<Rightarrow> place \<Rightarrow> nat list" where
  "flying st l = concat (map msg_slots (packets st l))"

definition tabs_ok :: "(zx_koid \<Rightarrow> HandleTable) \<Rightarrow> hstate \<Rightarrow> bool" where
  "tabs_ok tabs s \<longleftrightarrow> (\<forall>p. p \<noteq> ZX_KOID_INVALID \<longrightarrow> process_m (tabs p) = p \<and> table_inv (tabs p) s)"

text \<open>The invariant, with the set \<open>X\<close> of loose handles that are in no message.\<close>

definition ipc_inv :: "nat set \<Rightarrow> ipc_state \<Rightarrow> bool" where
  "ipc_inv X ipc \<longleftrightarrow>
     tabs_ok (tabs_m ipc) (hs_m ipc) \<and> chan_inv (chs_m ipc) \<and>
     (\<forall>l. \<forall>m\<in>set (packets (chs_m ipc) l). sealed m) \<and> flight (flying (chs_m ipc)) X (loose (hs_m ipc))"

lemma ipc_invD:
  assumes "ipc_inv X ipc"
  shows "tabs_ok (tabs_m ipc) (hs_m ipc)" "chan_inv (chs_m ipc)" "m \<in> set (packets (chs_m ipc) l) \<Longrightarrow> sealed m"
    "flight (flying (chs_m ipc)) X (loose (hs_m ipc))"
  using assms by (auto simp: ipc_inv_def)

lemma ipc_inv_table:
  assumes "ipc_inv X ipc" "p \<noteq> ZX_KOID_INVALID"
  shows "table_inv (tabs_m ipc p) (hs_m ipc)" "process_m (tabs_m ipc p) = p"
  using ipc_invD(1) [OF assms(1)] assms(2) by (simp_all add: tabs_ok_def)

lemma ipc_inv_cong:
  assumes "ipc_inv X ipc" "tabs_m ipc' = tabs_m ipc" "hs_m ipc' = hs_m ipc"
    "chan_inv (chs_m ipc')" "packets (chs_m ipc') = packets (chs_m ipc)"
  shows "ipc_inv X ipc'"
proof -
  have "flying (chs_m ipc') = flying (chs_m ipc)" by (simp add: flying_def fun_eq_iff assms(5))
  then show ?thesis using assms by (simp add: ipc_inv_def)
qed

lemma ipc_inv_recv_sizes [simp]: "ipc_inv X (record_recv_msg_sz n ipc) = ipc_inv X ipc"
  by (simp add: ipc_inv_def record_recv_msg_sz_def)

text \<open>A packet in hand: its handles count as handles in no message.\<close>

definition carries :: "nat set \<Rightarrow> MessagePacket \<Rightarrow> ipc_state \<Rightarrow> bool" where
  "carries X m ipc \<longleftrightarrow>
     length (msg_handles_m m) = unat (num_handles_m m) \<and> distinct (msg_slots m) \<and> set (msg_slots m) \<inter> X = {} \<and>
     ipc_inv (X \<union> set (msg_slots m)) ipc"

text \<open>An operation on the table of one process.\<close>

lemma tabs_ok_put:
  assumes "tabs_ok tabs s" "table_ok (tabs p, s) (t', s')" "p \<noteq> ZX_KOID_INVALID"
  shows "tabs_ok (tabs(p := t')) s'"
  unfolding tabs_ok_def
proof (intro allI impI)
  fix q :: zx_koid assume q: "q \<noteq> ZX_KOID_INVALID"
  have pq: "process_m (tabs q) = q" "process_m (tabs p) = p" "table_inv (tabs q) s" using assms q by (simp_all add: tabs_ok_def)
  show "process_m ((tabs(p := t')) q) = q \<and> table_inv ((tabs(p := t')) q) s'"
  proof (cases "q = p")
    case True
    then show ?thesis using assms(2) pq by (simp add: table_ok_def)
  next
    case False
    have "slots_frame p s s'" using assms(2) pq by (simp add: table_ok_def)
    from table_inv_other(1) [OF pq(3) this] pq False show ?thesis by simp
  qed
qed

lemma ipc_inv_put:
  assumes "ipc_inv X ipc" "p \<noteq> ZX_KOID_INVALID" "table_ok (ts_of p ipc) ts'" "makes_loose J (hs_m ipc) (snd ts')"
  shows "ipc_inv (X \<union> J) (put_ts p ts' ipc)" "J \<inter> X = {}"
proof -
  obtain t' s' where ts': "ts' = (t', s')" by fastforce
  have "tabs_ok ((tabs_m ipc)(p := t')) s'"
    using tabs_ok_put [OF ipc_invD(1) [OF assms(1)] _ assms(2)] assms(3) by (simp add: ts' ts_of_def)
  moreover have "loose s' = loose (hs_m ipc) \<union> J" "J \<inter> loose (hs_m ipc) = {}"
    using assms(4) by (simp_all add: makes_loose_def ts')
  ultimately show "ipc_inv (X \<union> J) (put_ts p ts' ipc)"
    using assms(1) flight_grow [OF ipc_invD(4) [OF assms(1)]] by (simp add: ipc_inv_def put_ts_def ts')
  show "J \<inter> X = {}"
    using ipc_invD(4) [OF assms(1)] \<open>J \<inter> loose (hs_m ipc) = {}\<close> unfolding flight_def by blast
qed

lemmas ipc_inv_put_same = ipc_inv_put(1) [where J = "{}", simplified]

lemma ipc_inv_table_op:
  assumes "ipc_inv X ipc" "p \<noteq> ZX_KOID_INVALID"
    "\<And>t s. table_inv t s \<Longrightarrow> table_ok (t, s) (f (t, s)) \<and> makes_loose {} s (snd (f (t, s)))"
  shows "ipc_inv X (put_ts p (f (ts_of p ipc)) ipc)"
  using assms(3) [OF ipc_inv_table(1) [OF assms(1,2)]] by (intro ipc_inv_put_same [OF assms(1,2)]) (simp_all add: ts_of_def)

subsection \<open>A packet in hand\<close>

lemma flying_upd: "packets st' = (packets st)(l := ms) \<Longrightarrow> flying st' = (flying st)(l := concat (map msg_slots ms))"
  by (auto simp: flying_def fun_eq_iff)

text \<open>It is queued, it is taken from a place, or it is dropped.\<close>

lemma carries_send:
  assumes "carries X m ipc" "sealed m" "chan_inv chs"
    and "packets chs = (packets (chs_m ipc))(l := packets (chs_m ipc) l @ [m'])" "sealed m'" "msg_slots m' = msg_slots m"
  shows "ipc_inv X (ipc\<lparr>chs_m := chs\<rparr>)"
proof -
  have c: "distinct (msg_slots m)" "set (msg_slots m) \<inter> X = {}" "ipc_inv (X \<union> set (msg_slots m)) ipc"
    using assms(1) by (simp_all add: carries_def)
  have "flying chs = (flying (chs_m ipc))(l := flying (chs_m ipc) l @ msg_slots m)"
    using flying_upd [OF assms(4)] assms(6) by (simp add: flying_def)
  then have "flight (flying chs) X (loose (hs_m ipc))"
    using flight_add [OF ipc_invD(4) [OF c(3)] c(1,2)] by simp
  moreover have "\<forall>x\<in>set (packets chs l'). sealed x" for l'
    using ipc_invD(3) [OF c(3)] assms(4,5) by auto
  ultimately show ?thesis using c(3) assms(3) by (simp add: ipc_inv_def)
qed

lemma carries_take:
  assumes "ipc_inv X ipc" "packets (chs_m ipc) l = m # ms" "packets chs = (packets (chs_m ipc))(l := ms)" "chan_inv chs"
  shows "carries X m (ipc\<lparr>chs_m := chs\<rparr>)" "sealed m"
proof -
  show m: "sealed m" using ipc_invD(3) [OF assms(1), of m l] assms(2) by simp
  have "flying (chs_m ipc) l = msg_slots m @ concat (map msg_slots ms)" using assms(2) by (simp add: flying_def)
  note take = flight_take [OF ipc_invD(4) [OF assms(1)] this]
  have "flight (flying chs) (X \<union> set (msg_slots m)) (loose (hs_m ipc))"
    using take(1) flying_upd [OF assms(3)] by simp
  moreover have "\<forall>x\<in>set (packets chs l'). sealed x" for l'
    using ipc_invD(3) [OF assms(1), of _ l] ipc_invD(3) [OF assms(1), of _ l'] assms(2,3) by (cases "l' = l") auto
  ultimately have "ipc_inv (X \<union> set (msg_slots m)) (ipc\<lparr>chs_m := chs\<rparr>)"
    using assms(1,4) by (simp add: ipc_inv_def)
  with take(2,3) m show "carries X m (ipc\<lparr>chs_m := chs\<rparr>)" by (simp add: carries_def sealed_def)
qed

lemma destroy_eq:
  assumes "length (msg_handles_m m) = unat (num_handles_m m)"
  shows "MessagePacket_destroy m s = fold HandleTableArena_Delete (msg_slots m) s"
proof -
  have "fold HandleOwner_destroy hs s = fold HandleTableArena_Delete (somes hs) s" for hs s
  proof (induction hs arbitrary: s)
    case (Cons h hs)
    then show ?case by (cases h) (simp_all add: HandleOwner_destroy_def)
  qed simp
  moreover have "fold (\<lambda>ix. HandleOwner_destroy (hs ! ix)) [0..<length hs] = fold HandleOwner_destroy hs" for hs
    using fold_map [of HandleOwner_destroy "(!) hs" "[0..<length hs]"] by (simp add: map_nth comp_def)
  ultimately show ?thesis using assms [symmetric] by (simp add: MessagePacket_destroy_def msg_slots_def)
qed

lemma flight_loose: "flight F X L \<Longrightarrow> X \<subseteq> L"
  by (auto simp: flight_def)

lemma tabs_ok_heap: "tabs_ok tabs s \<Longrightarrow> heap_inv s"
  using table_inv_heap [of "tabs 1" s] by (simp add: tabs_ok_def ZX_KOID_INVALID_def)

lemma ipc_inv_destroy:
  assumes "ipc_inv (X \<union> set (msg_slots m)) ipc" "length (msg_handles_m m) = unat (num_handles_m m)"
    "distinct (msg_slots m)" "set (msg_slots m) \<inter> X = {}"
  shows "ipc_inv X (ipc\<lparr>hs_m := MessagePacket_destroy m (hs_m ipc)\<rparr>)"
proof -
  let ?s = "hs_m ipc" and ?J = "set (msg_slots m)"
  have "?J \<subseteq> loose ?s" using flight_loose [OF ipc_invD(4) [OF assms(1)]] by simp
  then have J: "\<forall>i\<in>?J. dispatcher_m (slots_m ?s i) \<noteq> None \<and> process_id_m (slots_m ?s i) = ZX_KOID_INVALID"
    by (auto simp: loose_def)
  note del = fold_Delete [OF tabs_ok_heap [OF ipc_invD(1) [OF assms(1)]] assms(3) J, folded destroy_eq [OF assms(2)]]
  have pids: "process_id_m (slots_m (MessagePacket_destroy m ?s) i) = process_id_m (slots_m ?s i)" for i
    using del by simp
  have "tabs_ok (tabs_m ipc) (MessagePacket_destroy m ?s)"
    using ipc_invD(1) [OF assms(1)] del unfolding tabs_ok_def table_inv_def pids by blast
  moreover have "loose (MessagePacket_destroy m ?s) = loose ?s - ?J"
    using del by (auto simp: loose_def split: if_splits)
  ultimately show ?thesis
    using assms(1) flight_drop [OF ipc_invD(4) [OF assms(1)] assms(4)] by (simp add: ipc_inv_def)
qed

lemma carries_drop: "carries X m ipc \<Longrightarrow> ipc_inv X (drop_packet (Some m) ipc)"
  using ipc_inv_destroy by (simp add: carries_def drop_packet_def)

text \<open>Its handles go to the table of process \<open>p\<close>.\<close>

lemma table_inv_observers:
  assumes "table_inv t s" "handle_count_m d = handle_count_m (dispatchers_m s k)"
  shows "table_inv t (s\<lparr>dispatchers_m := (dispatchers_m s)(k := d)\<rparr>)"
  using assms by (auto simp: table_inv_def heap_inv_def hs_inv_def handles_of_def)

lemma handle_count_Cancel [simp]: "handle_count_m (Dispatcher_Cancel h d) = handle_count_m d"
  by (simp add: Dispatcher_Cancel_def Let_def)

lemma add_handle_ok:
  assumes "ipc_inv (insert h X) ipc" "h \<notin> X" "p \<noteq> ZX_KOID_INVALID"
  shows "ipc_inv X (add_handle p h ipc)"
    "slots_m (hs_m (add_handle p h ipc)) =
       (slots_m (hs_m ipc))(h := (slots_m (hs_m ipc) h)\<lparr>process_id_m := p\<rparr>)"
    "tabs_m (add_handle p h ipc) =
       (tabs_m ipc)(p := (tabs_m ipc p)\<lparr>handles_m := h # handles_m (tabs_m ipc p), table_count_m := table_count_m (tabs_m ipc p) + 1\<rparr>)"
    "packets (chs_m (add_handle p h ipc)) = packets (chs_m ipc)"
proof -
  let ?s = "hs_m ipc" and ?t = "tabs_m ipc p"
  define k where "k = the (dispatcher_m (slots_m ?s h))"
  obtain t' s' where add: "AddHandleLocked h (?t, ?s) = (t', s')" by (rule prod.exhaust)
  let ?ipc = "put_ts p (t', s') ipc"
  define chs where "chs = (if type_m (dispatchers_m ?s k) = ZX_OBJ_TYPE_CHANNEL
    then ChannelDispatcher_set_owner k p (chs_m ipc) else chs_m ipc)"
  have eq: "add_handle p h ipc = ?ipc\<lparr>chs_m := chs\<rparr>"
    unfolding add_handle_def Let_def k_def [symmetric] ts_of_def add by (simp add: chs_def put_ts_def)
  note p = ipc_inv_table [OF assms(1,3)]
  have s': "slots_m s' = (slots_m ?s)(h := (slots_m ?s h)\<lparr>process_id_m := p\<rparr>)"
    and t': "t' = ?t\<lparr>handles_m := h # handles_m ?t, table_count_m := table_count_m ?t + 1\<rparr>"
    using add p by (auto simp: AddHandleLocked_def Let_def slots_set_process_id)
  then show "slots_m (hs_m (add_handle p h ipc)) = (slots_m ?s)(h := (slots_m ?s h)\<lparr>process_id_m := p\<rparr>)"
    "tabs_m (add_handle p h ipc) = (tabs_m ipc)(p := ?t\<lparr>handles_m := h # handles_m ?t, table_count_m := table_count_m ?t + 1\<rparr>)"
    by (simp_all add: eq put_ts_def)
  show "packets (chs_m (add_handle p h ipc)) = packets (chs_m ipc)" by (simp add: eq chs_def)
  have "h \<in> loose ?s" using flight_loose [OF ipc_invD(4) [OF assms(1)]] by simp
  then have "table_ok (?t, ?s) (t', s')" using AddHandleLocked_ok [OF p(1), of h] by (simp add: loose_def add)
  from tabs_ok_put [OF ipc_invD(1) [OF assms(1)] this assms(3)] have "tabs_ok ((tabs_m ipc)(p := t')) s'" .
  moreover have "loose s' = loose ?s - {h}" using assms(3) by (auto simp: loose_def s' split: if_splits)
  moreover have "flight (flying (chs_m ipc)) X (loose ?s - {h})"
    using flight_drop [of "flying (chs_m ipc)" X "{h}" "loose ?s"] ipc_invD(4) [OF assms(1)] assms(2) by simp
  ultimately have "ipc_inv X ?ipc" using assms(1) by (simp add: ipc_inv_def put_ts_def)
  then show "ipc_inv X (add_handle p h ipc)"
    unfolding eq by (rule ipc_inv_cong)
      (use ipc_invD(2) [OF assms(1)] in \<open>auto simp: put_ts_def chs_def intro: chan_inv_SetOwner\<close>)
qed

lemma receive_handle_ok:
  assumes "ipc_inv (insert h X) ipc" "h \<notin> X" "p \<noteq> ZX_KOID_INVALID"
  shows "ipc_inv X (receive_handle p h ipc)"
    "slots_m (hs_m (receive_handle p h ipc)) =
       (slots_m (hs_m ipc))(h := (slots_m (hs_m ipc) h)\<lparr>process_id_m := p\<rparr>)"
    "tabs_m (receive_handle p h ipc) =
       (tabs_m ipc)(p := (tabs_m ipc p)\<lparr>handles_m := h # handles_m (tabs_m ipc p), table_count_m := table_count_m (tabs_m ipc p) + 1\<rparr>)"
    "packets (chs_m (receive_handle p h ipc)) = packets (chs_m ipc)"
proof -
  define k where "k = the (dispatcher_m (slots_m (hs_m ipc) h))"
  define ipc1 where "ipc1 = (if is_waitable (dispatchers_m (hs_m ipc) k)
    then ipc\<lparr>hs_m := (hs_m ipc)\<lparr>dispatchers_m := (dispatchers_m (hs_m ipc))(k := Dispatcher_Cancel h (dispatchers_m (hs_m ipc) k))\<rparr>\<rparr>
    else ipc)"
  have eq: "receive_handle p h ipc = add_handle p h ipc1"
    by (simp add: receive_handle_def Let_def ipc1_def k_def)
  have same: "slots_m (hs_m ipc1) = slots_m (hs_m ipc)" "tabs_m ipc1 = tabs_m ipc" "chs_m ipc1 = chs_m ipc"
    by (simp_all add: ipc1_def)
  have "tabs_ok (tabs_m ipc) (hs_m ipc1)"
    using ipc_invD(1) [OF assms(1)] table_inv_observers by (auto simp: ipc1_def tabs_ok_def)
  then have "ipc_inv (insert h X) ipc1" using assms(1) same by (simp add: ipc_inv_def loose_def)
  from add_handle_ok [OF this assms(2,3)] same
  show "ipc_inv X (receive_handle p h ipc)"
    "slots_m (hs_m (receive_handle p h ipc)) =
       (slots_m (hs_m ipc))(h := (slots_m (hs_m ipc) h)\<lparr>process_id_m := p\<rparr>)"
    "tabs_m (receive_handle p h ipc) =
       (tabs_m ipc)(p := (tabs_m ipc p)\<lparr>handles_m := h # handles_m (tabs_m ipc p), table_count_m := table_count_m (tabs_m ipc p) + 1\<rparr>)"
    "packets (chs_m (receive_handle p h ipc)) = packets (chs_m ipc)"
    by (simp_all add: eq)
qed

lemma receive_handles_ok:
  assumes "ipc_inv (X \<union> set hs) ipc" "set hs \<inter> X = {}" "distinct hs" "p \<noteq> ZX_KOID_INVALID"
  shows "ipc_inv X (fold (receive_handle p) hs ipc) \<and>
    slots_m (hs_m (fold (receive_handle p) hs ipc)) =
      (\<lambda>i. if i \<in> set hs then (slots_m (hs_m ipc) i)\<lparr>process_id_m := p\<rparr> else slots_m (hs_m ipc) i) \<and>
    handles_m (tabs_m (fold (receive_handle p) hs ipc) p) = rev hs @ handles_m (tabs_m ipc p) \<and>
    random_value_m (tabs_m (fold (receive_handle p) hs ipc) p) = random_value_m (tabs_m ipc p) \<and>
    (\<forall>q. q \<noteq> p \<longrightarrow> tabs_m (fold (receive_handle p) hs ipc) q = tabs_m ipc q) \<and>
    packets (chs_m (fold (receive_handle p) hs ipc)) = packets (chs_m ipc)"
  using assms
proof (induction hs arbitrary: ipc)
  case (Cons h hs)
  let ?ipc = "receive_handle p h ipc"
  have "ipc_inv (insert h (X \<union> set hs)) ipc" "h \<notin> X \<union> set hs" using Cons.prems by auto
  note one = receive_handle_ok [OF this Cons.prems(4)]
  note rest = Cons.IH [OF one(1) _ _ Cons.prems(4)]
  then show ?case using Cons.prems one(2-4) by (auto simp: fun_eq_iff)
qed simp

subsection \<open>The system calls keep every handle in one place\<close>

lemma drop_unowned [simp]: "\<not> owns_handles_m m \<Longrightarrow> drop_packet (Some m) ipc = ipc"
  by (simp add: drop_packet_def MessagePacket_destroy_def)

lemma unat_num_handles [simp]: "unat (ucast (n :: 16 word) :: 32 word) = unat n"
proof -
  have "unat n < 2 ^ 32" using unsigned_less [of n, where 'a = nat] by simp
  then show ?thesis by (simp add: unsigned_ucast_eq take_bit_nat_eq_self_iff)
qed

lemma copy_array_to_user_le:
  "copy_array_to_user dst pos n = ZX_OK \<Longrightarrow> n' \<le> n \<Longrightarrow> copy_array_to_user dst pos n' = ZX_OK"
  by (auto simp: copy_array_to_user_def list_all_iff zx_consts split: if_splits)

lemma lookup_ok:
  assumes "ipc_inv X ipc" "p \<noteq> ZX_KOID_INVALID"
    "GetDispatcherWithRightsImpl ty v r w (tabs_m ipc p) (hs_m ipc) = (result, out, t)"
  shows "ipc_inv X (put_ts p (t, hs_m ipc) ipc)"
proof -
  obtain n where "t = (tabs_m ipc p)\<lparr>policy_calls_m := n\<rparr>"
    using assms(3) by (auto simp: GetDispatcherWithRightsImpl_def Let_def split: prod.splits option.splits if_splits
        dest!: GetHandleLocked_table)
  with table_ok_refl [OF ipc_inv_table(1) [OF assms(1,2)]] show ?thesis
    by (intro ipc_inv_put_same [OF assms(1,2)]) (simp_all add: ts_of_def)
qed

lemma close_user_handles_ok:
  assumes "ipc_inv X ipc" "p \<noteq> ZX_KOID_INVALID"
  shows "ipc_inv X (close_user_handles uh stack n p ipc)"
  unfolding close_user_handles_def RemoveUserHandles_def
  by (rule ipc_inv_table_op [OF assms]) (use RemoveUserHandles_loop_ok RemoveUserHandles_loop_loose in blast)

text \<open>The handles of a packet that is read are received, or lost when the copy to the caller faults.\<close>

lemma msg_get_handles_ok:
  assumes "carries X m ipc" "sealed m" "p \<noteq> ZX_KOID_INVALID"
    "msg_get_handles map_handle p m handles (ucast (num_handles_m m)) ipc = (status, hvs, m', ipc')"
  shows "\<not> owns_handles_m m'"
    "if copy_array_to_user handles 0 (unat (num_handles_m m)) = ZX_OK
     then status = ZX_OK \<and> ipc' = fold (receive_handle p) (msg_slots m) ipc \<and> ipc_inv X ipc' \<and>
       hvs = map (\<lambda>h. map_handle h (tabs_m ipc p) (hs_m ipc)) (msg_slots m)
     else status \<noteq> ZX_OK \<and> ipc' = ipc \<and> ipc_inv (X \<union> set (msg_slots m)) ipc"
proof -
  have n: "take (unat (num_handles_m m)) (msg_handles_m m) = msg_handles_m m"
    using assms(2) by (simp add: sealed_def)
  note eq = assms(4) [unfolded msg_get_handles_def Let_def n unat_num_handles, folded msg_slots_sealed [OF assms(2)]]
  show "\<not> owns_handles_m m'" using eq by (auto simp: set_owns_handles_def split: if_splits)
  have c: "ipc_inv (X \<union> set (msg_slots m)) ipc" "set (msg_slots m) \<inter> X = {}" "distinct (msg_slots m)"
    using assms(1) by (simp_all add: carries_def)
  from receive_handles_ok [OF this assms(3)] c(1) eq
  show "if copy_array_to_user handles 0 (unat (num_handles_m m)) = ZX_OK
     then status = ZX_OK \<and> ipc' = fold (receive_handle p) (msg_slots m) ipc \<and> ipc_inv X ipc' \<and>
       hvs = map (\<lambda>h. map_handle h (tabs_m ipc p) (hs_m ipc)) (msg_slots m)
     else status \<noteq> ZX_OK \<and> ipc' = ipc \<and> ipc_inv (X \<union> set (msg_slots m)) ipc"
    by (auto split: if_splits)
qed

text \<open>The end of \<open>channel_read\<close> and \<open>channel_read_out\<close>.\<close>

lemma read_tail_ok:
  assumes "carries X m ipc" "sealed m" "p \<noteq> ZX_KOID_INVALID"
    "(if (ucast (num_handles_m m) :: 32 word) > 0 then msg_get_handles map_handle p m handles (ucast (num_handles_m m)) ipc
      else (ZX_OK, [], m, ipc)) = (status, hvs, m', ipc')"
  shows "\<exists>X'. X \<subseteq> X' \<and> ipc_inv X' (drop_packet (Some m') ipc') \<and>
    (copy_array_to_user handles 0 (unat (num_handles_m m)) = ZX_OK \<longrightarrow> X' = X)"
proof (cases "(ucast (num_handles_m m) :: 32 word) > 0")
  case True
  note g = msg_get_handles_ok [OF assms(1-3), of map_handle handles status hvs m' ipc']
  show ?thesis
  proof (cases "copy_array_to_user handles 0 (unat (num_handles_m m)) = ZX_OK")
    case ok: True
    then show ?thesis using g True assms(4) by auto
  next
    case False
    with g True assms(4) have "ipc_inv (X \<union> set (msg_slots m)) (drop_packet (Some m') ipc')" by simp
    with False show ?thesis by blast
  qed
next
  case False
  then show ?thesis using carries_drop [OF assms(1)] assms(4) by auto
qed

lemma channel_read_ok:
  assumes "ipc_inv X ipc" "p \<noteq> ZX_KOID_INVALID"
    "channel_read map_handle p v options bytes handles nb nh ab ah ipc = (status, counts, data, hvs, ipc')"
  shows "\<exists>X'. X \<subseteq> X' \<and> ipc_inv X' ipc' \<and> (copy_array_to_user handles 0 (unat nh) = ZX_OK \<longrightarrow> X' = X)"
proof -
  obtain result out t where l: "GetDispatcherWithRightsImpl (Some ZX_OBJ_TYPE_CHANNEL) v ZX_RIGHT_READ False
      (tabs_m ipc p) (hs_m ipc) = (result, out, t)" by (metis prod.collapse)
  let ?ipc1 = "put_ts p (t, hs_m ipc) ipc"
  note i1 = lookup_ok [OF assms(1,2) l]
  let ?k = "fst (the out)" and ?disc = "options AND ZX_CHANNEL_READ_MAY_DISCARD \<noteq> 0"
  obtain r n1 n2 msg chs where rd: "ChannelDispatcher_Read ?k p nb nh ?disc (chs_m ?ipc1) = (r, n1, n2, msg, chs)"
    by (metis prod.collapse)
  let ?ipc2 = "?ipc1\<lparr>chs_m := chs\<rparr>"
  note pk = packets_Read [OF rd]
  have chs: "chan_inv chs" using chan_inv_Read [OF ipc_invD(2) [OF i1], of ?k p nb nh ?disc] rd by simp
  note unf = channel_read_def Let_def l case_prod_conv rd
  show ?thesis
  proof (cases msg)
    case None
    with pk have same: "chs = chs_m ?ipc1" "r \<noteq> ZX_OK" by simp_all
    have "ipc' = ?ipc1"
      using assms(3) None same unfolding unf
      by (auto simp: drop_packet_def zx_consts split: if_splits prod.splits)
    then show ?thesis using i1 by blast
  next
    case (Some m)
    have p: "packets (chs_m ?ipc1) (Queue ?k) = m # packets chs (Queue ?k)"
      "packets chs = (packets (chs_m ?ipc1))(Queue ?k := packets chs (Queue ?k))"
      "n2 = ucast (num_handles_m m)" "r = ZX_OK \<longrightarrow> n2 \<le> nh" using pk Some by auto
    note c = carries_take [OF i1 p(1,2) chs]
    note dropped = carries_drop [OF c(1)]
    obtain st2 hvs2 m2 ipc2 where g: "(if n2 > 0 then msg_get_handles map_handle p m handles n2 ?ipc2
        else (ZX_OK, [], m, ?ipc2)) = (st2, hvs2, m2, ipc2)" by (metis prod.collapse)
    from read_tail_ok [OF c(1,2) assms(2) g [unfolded p(3)]] obtain X' where
      X': "X \<subseteq> X'" "ipc_inv X' (drop_packet (Some m2) ipc2)"
        "copy_array_to_user handles 0 (unat (num_handles_m m)) = ZX_OK \<longrightarrow> X' = X" by blast
    have rec: "drop_packet (Some m2) (record_recv_msg_sz n1 ipc2) = record_recv_msg_sz n1 (drop_packet (Some m2) ipc2)"
      by (simp add: drop_packet_def record_recv_msg_sz_def)
    consider "ipc' = ?ipc1" | "ipc' = drop_packet (Some m) ?ipc2"
      | "r = ZX_OK" "ipc' = drop_packet (Some m2) ipc2 \<or> ipc' = record_recv_msg_sz n1 (drop_packet (Some m2) ipc2)"
      using assms(3) unfolding unf Some option.sel g rec
      by (simp split: if_splits prod.splits)
    then show ?thesis
    proof cases
      case 3
      then have "n2 \<le> nh" using p(4) by simp
      then have "unat (num_handles_m m) \<le> unat nh" by (simp add: p(3) word_le_nat_alt)
      then have "copy_array_to_user handles 0 (unat nh) = ZX_OK \<longrightarrow> X' = X" using X'(3) copy_array_to_user_le by blast
      with X' 3 show ?thesis by auto
    qed (use i1 dropped in blast)+
  qed
qed

lemma put_ts_same [simp]: "put_ts p (ts_of p ipc) ipc = ipc"
  by (simp add: put_ts_def ts_of_def)

lemma Create_handles:
  assumes "MessagePacket_Create pmm src n h = (ZX_OK, r)"
  obtains m where "r = Some m" "length (msg_handles_m m) = unat h" "unat (num_handles_m m) = unat h"
    "\<not> owns_handles_m m"
proof -
  obtain st0 r0 where c: "MessagePacket_CreateCommon pmm n h = (st0, r0)" by (rule prod.exhaust)
  obtain m0 where m0: "r0 = Some m0"
    using assms c by (cases r0) (auto simp: MessagePacket_Create_def MessagePacket_CreateCommon_def Let_def zx_consts
        split: if_splits option.splits)
  have h: "\<not> h > of_nat kMaxMessageHandles" and f: "msg_handles_m m0 = replicate (unat h) None" "num_handles_m m0 = ucast h"
    "\<not> owns_handles_m m0"
    using c m0 by (auto simp: MessagePacket_CreateCommon_def Let_def split: if_splits option.splits)
  have "unat h \<le> 64" using h by (simp add: kMaxMessageHandles_def word_le_nat_alt not_less)
  then have "unat (ucast h :: 16 word) = unat h" by (simp add: unsigned_ucast_eq take_bit_nat_eq_self_iff)
  moreover obtain chain where "r = Some (m0\<lparr>buffer_chain_m := chain\<rparr>)"
    using assms c m0 by (auto simp: MessagePacket_Create_def split: if_splits prod.splits)
  ultimately show ?thesis using f by (intro that [of "m0\<lparr>buffer_chain_m := chain\<rparr>"]) simp_all
qed

lemma carries_empty:
  assumes "ipc_inv X ipc" "length (msg_handles_m m) = unat (num_handles_m m)" "\<not> owns_handles_m m"
  shows "carries X m ipc"
  using assms by (simp add: carries_def msg_slots_def)

lemma carries_cong:
  assumes "carries X m ipc" "chan_inv chs" "packets chs = packets (chs_m ipc)"
  shows "carries X m (ipc\<lparr>chs_m := chs\<rparr>)"
  using assms ipc_inv_cong [of "X \<union> set (msg_slots m)" ipc "ipc\<lparr>chs_m := chs\<rparr>"] by (simp add: carries_def)

text \<open>A kind of handle array whose entries keep the contract of \<open>message_entry\<close>.\<close>

locale sent_handles =
  fixes uh :: "'v user_handles"
  assumes entries: "message_entry (uh_entry uh channel)"
begin

lemma put_handles_ok:
  assumes "ipc_inv X ipc" "p \<noteq> ZX_KOID_INVALID"
    and m: "length (msg_handles_m m) = unat n" "unat (num_handles_m m) = unat n" "\<not> owns_handles_m m"
    and put: "msg_put_handles uh m n k (ts_of p ipc) = (status, m', ts', bk)"
  shows "carries X m' (put_ts p ts' ipc)" "status = ZX_OK \<Longrightarrow> sealed m'"
proof -
  note table = ipc_inv_table [OF assms(1,2)]
  have "carries X m' (put_ts p ts' ipc) \<and> (status = ZX_OK \<longrightarrow> sealed m')"
  proof (cases "copy_array_from_user (uh_values uh) 0 (unat n)")
    case None
    then have "m' = m" "ts' = ts_of p ipc" "status \<noteq> ZX_OK" using put by (auto simp: msg_put_handles_def zx_consts)
    then show ?thesis using carries_empty [OF assms(1)] m by simp
  next
    case (Some vs)
    obtain st hs vs' ts1 where l: "msg_put_loop (uh_entry uh (Some k)) 0 vs ZX_OK (ts_of p ipc) = (st, hs, vs', ts1)"
      by (metis prod.collapse)
    note loop = message_entry.put_loop_ok [OF entries table(1) l [unfolded ts_of_def]]
    have res: "ts' = ts1" "m' = m\<lparr>msg_handles_m := hs, owns_handles_m := True\<rparr>" "status = ZX_OK \<longrightarrow> st = ZX_OK"
      using put by (auto simp: msg_put_handles_def Some l Let_def set_owns_handles_def split: if_splits option.splits)
    have len: "length hs = unat n" using loop length_copy_array_from_user [OF Some] by simp
    have "table_ok (ts_of p ipc) ts1" "makes_loose (set (somes hs)) (hs_m ipc) (snd ts1)"
      using loop by (simp_all add: ts_of_def)
    from ipc_inv_put [OF assms(1,2) this] loop len m have "carries X m' (put_ts p ts' ipc)"
      by (simp add: carries_def res msg_slots_def)
    moreover have "sealed m'" if "status = ZX_OK" using that loop len m(2) by (simp add: sealed_def res)
    ultimately show ?thesis by blast
  qed
  then show "carries X m' (put_ts p ts' ipc)" "status = ZX_OK \<Longrightarrow> sealed m'" by simp_all
qed

text \<open>Both \<open>channel_write\<close> and the first half of a call put the handles into a packet the same way.\<close>

lemma pack_ok:
  assumes "ipc_inv X ipc" "p \<noteq> ZX_KOID_INVALID" "MessagePacket_Create pmm src nb n = (ZX_OK, r)"
    and "(if n > 0 then msg_put_handles uh (the r) n k (ts_of p ipc) else (ZX_OK, the r, ts_of p ipc, None)) = (status, m', ts', bk)"
  shows "carries X m' (put_ts p ts' ipc)" "status = ZX_OK \<Longrightarrow> sealed m'"
proof -
  obtain m where m: "r = Some m" "length (msg_handles_m m) = unat n" "unat (num_handles_m m) = unat n" "\<not> owns_handles_m m"
    by (rule Create_handles [OF assms(3)])
  have "carries X m' (put_ts p ts' ipc) \<and> (status = ZX_OK \<longrightarrow> sealed m')"
  proof (cases "n > 0")
    case True
    with assms(4) m(1) have "msg_put_handles uh m n k (ts_of p ipc) = (status, m', ts', bk)" by simp
    from put_handles_ok [OF assms(1,2) m(2-4) this] show ?thesis by blast
  next
    case False
    then have "n = 0" by (simp add: word_gt_0)
    with False assms(4) m show ?thesis using carries_empty [OF assms(1), of m] by (auto simp: sealed_def)
  qed
  then show "carries X m' (put_ts p ts' ipc)" "status = ZX_OK \<Longrightarrow> sealed m'" by simp_all
qed

lemma write_ok:
  assumes "ipc_inv X ipc" "p \<noteq> ZX_KOID_INVALID"
  shows "ipc_inv X (snd (channel_write uh stack pmm p v options src nb n ipc))"
proof -
  obtain result out t where l: "GetDispatcherWithRightsImpl (Some ZX_OBJ_TYPE_CHANNEL) v ZX_RIGHT_WRITE False
      (tabs_m ipc p) (hs_m ipc) = (result, out, t)" by (metis prod.collapse)
  let ?ipc1 = "put_ts p (t, hs_m ipc) ipc" and ?k = "fst (the out)"
  note i1 = lookup_ok [OF assms l]
  note clean = close_user_handles_ok [OF assms, of uh stack n] close_user_handles_ok [OF i1 assms(2), of uh stack n]
  obtain st r where c: "MessagePacket_Create pmm src nb n = (st, r)" by (rule prod.exhaust)
  obtain st2 m ts bk where pk: "(if n > 0 then msg_put_handles uh (the r) n ?k (ts_of p ?ipc1)
      else (ZX_OK, the r, ts_of p ?ipc1, None)) = (st2, m, ts, bk)" by (metis prod.collapse)
  let ?ipc2 = "put_ts p ts ?ipc1"
  obtain st3 chs where w: "ChannelDispatcher_Write ?k p m (chs_m ?ipc2) = (st3, chs)" by (rule prod.exhaust)
  note unf = channel_write_def Let_def l case_prod_conv c pk w
  show ?thesis
  proof (cases "options = 0 \<and> result = ZX_OK \<and> st = ZX_OK")
    case False
    then show ?thesis using clean unfolding unf by (auto split: if_splits)
  next
    case True
    note p = pack_ok [OF i1 assms(2) c [unfolded True [THEN conjunct2, THEN conjunct2]] pk]
    note inv2 = carries_def [THEN iffD1, OF p(1), THEN conjunct2, THEN conjunct2, THEN conjunct2]
    have fail: "ipc_inv X (close_user_handles uh stack n p (drop_packet (Some m) ?ipc2))"
      by (rule close_user_handles_ok [OF carries_drop [OF p(1)] assms(2)])
    have "ipc_inv X (if st3 \<noteq> ZX_OK then drop_packet (Some m) (?ipc2\<lparr>chs_m := chs\<rparr>) else ?ipc2\<lparr>chs_m := chs\<rparr>)" if ok: "st2 = ZX_OK"
    proof (cases "st3 = ZX_OK")
      case False
      then have "chs = chs_m ?ipc2" using w by (auto simp: ChannelDispatcher_Write_def split: if_splits option.splits)
      then show ?thesis using False carries_drop [OF p(1)] by simp
    next
      case st3: True
      then obtain peer where "chs = Channel_WriteSelf peer m (chs_m ?ipc2)"
        using w by (auto simp: ChannelDispatcher_Write_def zx_consts split: if_splits option.splits)
      moreover from packets_WriteSelf [OF ipc_invD(2) [OF inv2]] obtain l where
        "packets (Channel_WriteSelf peer m (chs_m ?ipc2)) = (packets (chs_m ?ipc2))(l := packets (chs_m ?ipc2) l @ [m])" by blast
      ultimately show ?thesis
        using st3 carries_send [OF p(1) p(2) [OF ok] chan_inv_WriteSelf [OF ipc_invD(2) [OF inv2]] _ p(2) [OF ok] refl] by simp
    qed
    with fail True show ?thesis unfolding unf by (auto split: if_splits)
  qed
qed

lemma call_begin_ok:
  assumes "ipc_inv X ipc" "p \<noteq> ZX_KOID_INVALID"
    "channel_call_begin uh stack pmm w p v options src nb n ipc = Some (status, k, ipc')"
  shows "ipc_inv X ipc'"
proof -
  obtain result out t where l: "GetDispatcherWithRightsImpl (Some ZX_OBJ_TYPE_CHANNEL) v (ZX_RIGHT_WRITE OR ZX_RIGHT_READ) False
      (tabs_m ipc p) (hs_m ipc) = (result, out, t)" by (metis prod.collapse)
  let ?ipc1 = "put_ts p (t, hs_m ipc) ipc" and ?k = "fst (the out)"
  note i1 = lookup_ok [OF assms(1,2) l]
  note clean = close_user_handles_ok [OF assms(1,2), of uh stack n] close_user_handles_ok [OF i1 assms(2), of uh stack n]
  obtain st r where c: "MessagePacket_Create pmm src nb n = (st, r)" by (rule prod.exhaust)
  obtain st2 m ts bk where pk: "(if n > 0 then msg_put_handles uh (the r) n ?k (ts_of p ?ipc1)
      else (ZX_OK, the r, ts_of p ?ipc1, None)) = (st2, m, ts, bk)" by (metis prod.collapse)
  let ?ipc2 = "put_ts p ts ?ipc1"
  note unf = channel_call_begin_def Let_def l case_prod_conv c pk
  show ?thesis
  proof (cases "(options = 0 \<and> \<not> nb < 4) \<and> result = ZX_OK \<and> st = ZX_OK")
    case False
    then show ?thesis using clean assms(3) unfolding unf by (auto split: if_splits)
  next
    case True
    note p = pack_ok [OF i1 assms(2) c [unfolded True [THEN conjunct2, THEN conjunct2]] pk]
    note inv2 = carries_def [THEN iffD1, OF p(1), THEN conjunct2, THEN conjunct2, THEN conjunct2]
    show ?thesis
    proof (cases "st2 = ZX_OK")
      case False
      then show ?thesis using True carries_drop [OF p(1)] assms(3) unfolding unf by auto
    next
      case ok: True
      then obtain res chs where cb: "Call_begin w ?k p m (chs_m ?ipc2) = Some (res, chs)"
        using assms(3) True unfolding unf by (auto split: option.splits)
      note packets = packets_Call [OF cb ipc_invD(2) [OF inv2]]
      note chs = chan_inv_Call [OF ipc_invD(2) [OF inv2] cb]
      show ?thesis
      proof (cases res)
        case (Some e)
        then have "ipc' = drop_packet (Some m) (?ipc2\<lparr>chs_m := chs\<rparr>)"
          using assms(3) True ok cb unfolding unf by simp
        then show ?thesis using carries_drop [OF carries_cong [OF p(1) chs]] packets Some by simp
      next
        case None
        then have "ipc' = ?ipc2\<lparr>chs_m := chs\<rparr>" using assms(3) True ok cb unfolding unf by simp
        moreover obtain l txid where
          "packets chs = (packets (chs_m ?ipc2))(l := packets (chs_m ?ipc2) l @ [MessagePacket_set_txid txid m])"
          using packets None by auto
        ultimately show ?thesis
          using carries_send [OF p(1) p(2) [OF ok] chs _ _ set_txid_handles(1)] p(2) [OF ok] by simp
      qed
    qed
  qed
qed

end

interpretation plain_handles: sent_handles "handle_array user again"
  by unfold_locales (use plain_entry.entry_ok in blast)

interpretation disposition_handles: sent_handles "disposition_array map_ok user again out"
  by unfold_locales (use disposition_entry.entry_ok in blast)

lemma read_out_ok:
  assumes "carries X m ipc" "sealed m" "p \<noteq> ZX_KOID_INVALID"
    "channel_read_out map_handle p m bytes handles nb nh ab ah ipc = (status, data, hvs, ipc')"
  shows "\<exists>X'. X \<subseteq> X' \<and> ipc_inv X' ipc' \<and> (copy_array_to_user handles 0 (unat nh) = ZX_OK \<longrightarrow> X' = X)"
proof -
  note dropped = carries_drop [OF assms(1)]
  obtain st2 hvs2 m2 ipc2 where g: "(if (ucast (num_handles_m m) :: 32 word) > 0
      then msg_get_handles map_handle p m handles (ucast (num_handles_m m)) ipc
      else (ZX_OK, [], m, ipc)) = (st2, hvs2, m2, ipc2)" by (metis prod.collapse)
  from read_tail_ok [OF assms(1-3) g] obtain X' where X': "X \<subseteq> X'" "ipc_inv X' (drop_packet (Some m2) ipc2)"
    "copy_array_to_user handles 0 (unat (num_handles_m m)) = ZX_OK \<longrightarrow> X' = X" by blast
  consider "ipc' = drop_packet (Some m) ipc"
    | "\<not> nh < ucast (num_handles_m m)" "ipc' = drop_packet (Some m2) ipc2"
    using assms(4) unfolding channel_read_out_def Let_def g case_prod_conv by (simp split: if_splits prod.splits)
  then show ?thesis
  proof cases
    case 2
    then have "unat (num_handles_m m) \<le> unat nh" by (simp add: not_less word_le_nat_alt)
    then have "copy_array_to_user handles 0 (unat nh) = ZX_OK \<longrightarrow> X' = X" using X'(3) copy_array_to_user_le by blast
    with X' 2 show ?thesis by auto
  qed (use dropped in blast)
qed

lemma call_end_ok:
  assumes "ipc_inv X ipc" "p \<noteq> ZX_KOID_INVALID" "channel_m (mwaiters_m (chs_m ipc) w) = Some k"
    "channel_call_end map_handle w k p ew bytes handles nb nh ab ah ipc = (status, data, hvs, ipc')"
  shows "\<exists>X'. X \<subseteq> X' \<and> ipc_inv X' ipc' \<and> (copy_array_to_user handles 0 (unat nh) = ZX_OK \<longrightarrow> X' = X)"
proof -
  note chs = ipc_invD(2) [OF assms(1)]
  obtain st reply chs' where r: "ResumeInterruptedCall w k ew (chs_m ipc) = (st, reply, chs')" by (metis prod.collapse)
  note pk = packets_Resume [OF assms(3) chs r]
  have chs': "chan_inv chs'" using chan_inv_Resume [OF chs assms(3), of ew] r by simp
  let ?ipc = "ipc\<lparr>chs_m := chs'\<rparr>"
  show ?thesis
  proof (cases reply)
    case None
    have "reply_ok (mwaiters_m (chs_m ipc) w)" by (rule chan_waiters(4) [OF chs])
    then have "st \<noteq> ZX_OK"
      using r None assms(3) by (auto simp: Resume_eq [OF assms(3)] reply_ok_def zx_consts split: if_splits)
    then have "ipc' = ?ipc" using assms(4) unfolding channel_call_end_def Let_def r case_prod_conv by simp
    moreover have "ipc_inv X ?ipc" by (rule ipc_inv_cong [OF assms(1)]) (use pk None chs' in simp_all)
    ultimately show ?thesis by blast
  next
    case (Some m)
    then have p: "st = ZX_OK" "packets (chs_m ipc) (Reply w) = m # []" "packets chs' = (packets (chs_m ipc))(Reply w := [])"
      using pk by simp_all
    note c = carries_take [OF assms(1) p(2,3) chs']
    obtain st1 data1 hvs1 ipc1 where ro: "channel_read_out map_handle p m bytes handles nb nh ab ah ?ipc = (st1, data1, hvs1, ipc1)"
      by (metis prod.collapse)
    have "ipc' = ipc1 \<or> ipc' = record_recv_msg_sz (data_size_m m) ipc1"
      using assms(4) unfolding channel_call_end_def Let_def r case_prod_conv
      by (auto simp: Some p(1) channel_call_epilogue_def ro Let_def split: if_splits)
    with read_out_ok [OF c assms(2) ro] show ?thesis by auto
  qed
qed

subsection \<open>The end of an endpoint and of a thread\<close>

text \<open>The destructor of an endpoint closes the handles in its queue. Its peer and the threads that wait
  in a call hold references to it, so it runs without them. The destructor of a thread does the
  same for a reply the thread has not fetched.\<close>

definition channel_freed :: "zx_koid \<Rightarrow> ipc_state \<Rightarrow> ipc_state" where
  "channel_freed k ipc =
     ipc\<lparr>chs_m := (chs_m ipc)\<lparr>chans_m := (chans_m (chs_m ipc))(k := ChannelDispatcher_new k)\<rparr>,
         hs_m := snd (ChannelDispatcher_destroy (chans_m (chs_m ipc) k) (hs_m ipc))\<rparr>"

definition thread_freed :: "nat \<Rightarrow> ipc_state \<Rightarrow> ipc_state" where
  "thread_freed w ipc =
     drop_packet (waiter_msg_m (mwaiters_m (chs_m ipc) w)) (ipc\<lparr>chs_m := MessageWaiter_destroy w (chs_m ipc)\<rparr>)"

lemma drop_all_ok:
  assumes "ipc_inv (X \<union> set (concat (map msg_slots ms))) ipc" "distinct (concat (map msg_slots ms))"
    "set (concat (map msg_slots ms)) \<inter> X = {}" "\<forall>m\<in>set ms. sealed m"
  shows "ipc_inv X (ipc\<lparr>hs_m := fold MessagePacket_destroy ms (hs_m ipc)\<rparr>)"
  using assms
proof (induction ms arbitrary: ipc)
  case (Cons m ms)
  let ?rest = "set (concat (map msg_slots ms))"
  have "ipc_inv (X \<union> ?rest) (ipc\<lparr>hs_m := MessagePacket_destroy m (hs_m ipc)\<rparr>)"
  proof (rule ipc_inv_destroy)
    show "ipc_inv (X \<union> ?rest \<union> set (msg_slots m)) ipc" using Cons.prems(1) by (simp add: Un_ac)
  qed (use Cons.prems(2-4) in \<open>auto simp: sealed_def\<close>)
  from Cons.IH [OF this] Cons.prems(2-4) show ?case by auto
qed simp

lemma channel_freed_ok:
  assumes "ipc_inv X ipc" "peer_m (chans_m (chs_m ipc) k) = None"
  shows "ipc_inv X (channel_freed k ipc)"
proof -
  let ?ms = "messages_m (chans_m (chs_m ipc) k)"
  let ?chs = "(chs_m ipc)\<lparr>chans_m := (chans_m (chs_m ipc))(k := ChannelDispatcher_new k)\<rparr>"
  have "packets ?chs l = ((packets (chs_m ipc))(Queue k := [])) l" for l
    by (cases l) (simp_all add: ChannelDispatcher_new_def)
  then have p: "packets ?chs = (packets (chs_m ipc))(Queue k := [])" by blast
  have "flying (chs_m ipc) (Queue k) = concat (map msg_slots ?ms) @ []" by (simp add: flying_def)
  note take = flight_take [OF ipc_invD(4) [OF assms(1)] this]
  have wait: "waiters_m (chans_m (chs_m ipc) k) = []"
    using chan_invD(2) [OF ipc_invD(2) [OF assms(1)], of k] assms(2) by (simp add: chan_ok_def)
  have "chan_inv ?chs"
    by (rule chan_inv_upd_same [OF ipc_invD(2) [OF assms(1)], where k = k and d = "ChannelDispatcher_new k"])
      (simp_all add: assms(2) wait ChannelDispatcher_new_def chan_ok_def bit_signal_masks)
  moreover have "flying ?chs = (flying (chs_m ipc))(Queue k := [])" using flying_upd [OF p] by simp
  moreover have "\<forall>m\<in>set (packets ?chs l). sealed m" for l using ipc_invD(3) [OF assms(1)] p by auto
  ultimately have "ipc_inv (X \<union> set (concat (map msg_slots ?ms))) (ipc\<lparr>chs_m := ?chs\<rparr>)"
    using assms(1) take(1) by (simp add: ipc_inv_def)
  from drop_all_ok [OF this take(2,3)] ipc_invD(3) [OF assms(1), of _ "Queue k"] show ?thesis
    by (simp add: channel_freed_def ChannelDispatcher_destroy_def)
qed

lemma thread_freed_ok:
  assumes "ipc_inv X ipc" shows "ipc_inv X (thread_freed w ipc)"
proof -
  note chs = ipc_invD(2) [OF assms]
  note p = packets_Exit [OF chs, of w]
  show ?thesis
  proof (cases "waiter_msg_m (mwaiters_m (chs_m ipc) w)")
    case None
    then have "packets (MessageWaiter_destroy w (chs_m ipc)) = packets (chs_m ipc)"
      using p by (simp add: fun_upd_idem)
    then show ?thesis
      using ipc_inv_cong [OF assms, of "ipc\<lparr>chs_m := MessageWaiter_destroy w (chs_m ipc)\<rparr>"] chan_inv_Exit [OF chs]
      by (simp add: thread_freed_def None drop_packet_def)
  next
    case (Some m)
    then have "packets (chs_m ipc) (Reply w) = m # []" by simp
    from carries_drop [OF carries_take(1) [OF assms this p chan_inv_Exit [OF chs]]] show ?thesis
      by (simp add: thread_freed_def Some)
  qed
qed

subsection \<open>Runs\<close>

inductive ipc_step :: "bool \<Rightarrow> ipc_state \<Rightarrow> ipc_state \<Rightarrow> bool" where
  read: "p \<noteq> ZX_KOID_INVALID \<Longrightarrow>
    sys_channel_read p v options bytes handles nb nh ab ah ipc = (st, counts, data, hvs, ipc') \<Longrightarrow>
    ipc_step (copy_array_to_user handles 0 (unat nh) \<noteq> ZX_OK) ipc ipc'"
| read_etc: "p \<noteq> ZX_KOID_INVALID \<Longrightarrow>
    sys_channel_read_etc p v options bytes handles nb nh ab ah ipc = (st, counts, data, his, ipc') \<Longrightarrow>
    ipc_step (copy_array_to_user handles 0 (unat nh) \<noteq> ZX_OK) ipc ipc'"
| send: "p \<noteq> ZX_KOID_INVALID \<Longrightarrow> ipc_step False ipc (snd (sys_channel_write stack pmm p v options src nb user again n ipc))"
| send_etc: "p \<noteq> ZX_KOID_INVALID \<Longrightarrow>
    ipc_step False ipc (snd (sys_channel_write_etc stack pmm p v options src nb map_ok duser dagain out n ipc))"
| call: "p \<noteq> ZX_KOID_INVALID \<Longrightarrow>
    channel_call_begin (handle_array user again) stack pmm w p v options src nb n ipc = Some (status, k, ipc') \<Longrightarrow>
    ipc_step False ipc ipc'"
| call_etc: "p \<noteq> ZX_KOID_INVALID \<Longrightarrow>
    channel_call_begin (disposition_array map_ok duser dagain out) stack pmm w p v options src nb n ipc = Some (status, k, ipc') \<Longrightarrow>
    ipc_step False ipc ipc'"
| reply: "p \<noteq> ZX_KOID_INVALID \<Longrightarrow> channel_m (mwaiters_m (chs_m ipc) w) = Some k \<Longrightarrow>
    channel_call_end MapHandleToValue w k p ew bytes handles nb nh ab2 ah2 ipc = (st, data, hvs, ipc') \<Longrightarrow>
    ipc_step (copy_array_to_user handles 0 (unat nh) \<noteq> ZX_OK) ipc ipc'"
| reply_etc: "p \<noteq> ZX_KOID_INVALID \<Longrightarrow> channel_m (mwaiters_m (chs_m ipc) w) = Some k \<Longrightarrow>
    channel_call_end MapHandleToInfo w k p ew bytes handles nb nh ab2 ah2 ipc = (st, data, his, ipc') \<Longrightarrow>
    ipc_step (copy_array_to_user handles 0 (unat nh) \<noteq> ZX_OK) ipc ipc'"
| close: "p \<noteq> ZX_KOID_INVALID \<Longrightarrow> ipc_step False ipc (put_ts p (snd (sys_handle_close v (ts_of p ipc))) ipc)"
| close_many: "p \<noteq> ZX_KOID_INVALID \<Longrightarrow>
    ipc_step False ipc (put_ts p (snd (sys_handle_close_many stack user n' (ts_of p ipc))) ipc)"
| dup_replace: "p \<noteq> ZX_KOID_INVALID \<Longrightarrow> handle_dup_replace ok is_replace v r (ts_of p ipc) = (st, None, ts') \<Longrightarrow>
    ipc_step False ipc (put_ts p ts' ipc)"
| dup_replace_ok: "p \<noteq> ZX_KOID_INVALID \<Longrightarrow> handle_dup_replace ok is_replace v r (ts_of p ipc) = (st, Some j, ts') \<Longrightarrow>
    ipc_step False ipc (add_handle p j (put_ts p ts' ipc))"
| dup_replace_fault: "p \<noteq> ZX_KOID_INVALID \<Longrightarrow> handle_dup_replace ok is_replace v r (ts_of p ipc) = (st, Some j, ts') \<Longrightarrow>
    ipc_step False ipc (put_ts p (delete_owned j ts') ipc)"
| create: "p \<noteq> ZX_KOID_INVALID \<Longrightarrow> Handle_Make ok k r (hs_m ipc) = (Some j, s') \<Longrightarrow>
    ipc_step False ipc (add_handle p j (ipc\<lparr>hs_m := s'\<rparr>))"
| exit: "p \<noteq> ZX_KOID_INVALID \<Longrightarrow> ipc_step False ipc (put_ts p (HandleTable_Clean (ts_of p ipc)) ipc)"
| zero_handles: "ipc_step False ipc (ipc\<lparr>chs_m := ChannelDispatcher_on_zero_handles k (chs_m ipc)\<rparr>)"
| channel_freed: "peer_m (chans_m (chs_m ipc) k) = None \<Longrightarrow> ipc_step False ipc (channel_freed k ipc)"
| thread_freed: "ipc_step False ipc (thread_freed w ipc)"

text \<open>A handle to an object, new or not: it is loose until it is added to a table.\<close>

lemma make_ok:
  assumes "ipc_inv X ipc" "Handle_Make ok k r (hs_m ipc) = (Some j, s')"
  shows "ipc_inv (insert j X) (ipc\<lparr>hs_m := s'\<rparr>)" "j \<notin> X"
    "dispatcher_m (slots_m s' j) = Some k" "rights_m (slots_m s' j) = r" "\<And>i. i \<noteq> j \<Longrightarrow> slots_m s' i = slots_m (hs_m ipc) i"
proof -
  note heap = tabs_ok_heap [OF ipc_invD(1) [OF assms(1)]]
  then have hs: "hs_inv (hs_m ipc)" by (simp add: heap_inv_def)
  note m = Handle_Make_Some [OF hs assms(2)]
  show "dispatcher_m (slots_m s' j) = Some k" "rights_m (slots_m s' j) = r" "\<And>i. i \<noteq> j \<Longrightarrow> slots_m s' i = slots_m (hs_m ipc) i"
    using m by simp_all
  have old: "dispatcher_m (slots_m (hs_m ipc) j) = None" using m(2) hs by (auto simp: hs_inv_def)
  then have "process_id_m (slots_m (hs_m ipc) j) = ZX_KOID_INVALID" using heap by (auto simp: heap_inv_def)
  then have pid: "process_id_m (slots_m s' i) = process_id_m (slots_m (hs_m ipc) i)" for i
    using m(6,9) by (cases "i = j") simp_all
  have "heap_inv s'"
    using m heap unfolding heap_inv_def by (metis option.distinct(1))
  then have "tabs_ok (tabs_m ipc) s'"
    using ipc_invD(1) [OF assms(1)] pid unfolding tabs_ok_def table_inv_def by simp
  moreover have "i \<in> loose s' \<longleftrightarrow> i \<in> loose (hs_m ipc) \<union> {j}" for i
    using m(4,6,9) by (cases "i = j") (simp_all add: loose_def)
  then have l: "loose s' = loose (hs_m ipc) \<union> {j}" by blast
  have notin: "j \<notin> loose (hs_m ipc)" using old by (simp add: loose_def)
  ultimately show "ipc_inv (insert j X) (ipc\<lparr>hs_m := s'\<rparr>)"
    using assms(1) flight_grow [OF ipc_invD(4) [OF assms(1)], of "{j}"] l by (simp add: ipc_inv_def)
  show "j \<notin> X" using notin flight_loose [OF ipc_invD(4) [OF assms(1)]] by blast
qed

lemma dup_fault_ok:
  assumes "ipc_inv X ipc" "p \<noteq> ZX_KOID_INVALID" "handle_dup_replace ok is_replace v r (ts_of p ipc) = (st, Some j, ts')"
  shows "ipc_inv X (put_ts p (delete_owned j ts') ipc)"
proof -
  note t = ipc_inv_table [OF assms(1,2)]
  obtain t' s' where p: "ts' = (t', s')" by fastforce
  note d = assms(3) [unfolded ts_of_def]
  note ok = handle_dup_replace_ok [OF t(1) d]
  have j: "process_id_m (slots_m s' j) = ZX_KOID_INVALID" "dispatcher_m (slots_m s' j) \<noteq> None" "table_inv t' s'"
    using ok dup_of_disp [OF t(1)] by (auto simp: p table_ok_def)
  have ml: "makes_loose {j} (hs_m ipc) s'" using handle_dup_replace_loose [OF t(1) d] by (simp add: p)
  have "makes_loose {} (hs_m ipc) (snd (delete_owned j ts'))"
    unfolding makes_loose_def delete_owned_def p snd_conv
  proof (intro conjI ballI)
    have "loose (HandleTableArena_Delete j s') = loose s' - {j}"
      using j by (auto simp: loose_def slots_Delete split: if_splits)
    then show "loose (HandleTableArena_Delete j s') = loose (hs_m ipc) \<union> {}" using ml by (auto simp: makes_loose_def)
    show "slots_m (HandleTableArena_Delete j s') i = slots_m (hs_m ipc) i" if "i \<in> loose (hs_m ipc)" for i
      using ml that j by (auto simp: makes_loose_def slots_Delete)
  qed simp
  moreover have "table_ok (ts_of p ipc) (delete_owned j ts')"
    using table_ok_trans [OF conjunct1 [OF ok]] delete_owned_ok [OF j(3,1,2)] by (simp add: p ts_of_def)
  ultimately show ?thesis by - (rule ipc_inv_put_same [OF assms(1,2)])
qed

lemma ipc_step_ok:
  assumes "ipc_step fault ipc ipc'" "ipc_inv X ipc"
  shows "\<exists>X'. X \<subseteq> X' \<and> ipc_inv X' ipc' \<and> (\<not> fault \<longrightarrow> X' = X)"
  using assms
proof (induction rule: ipc_step.induct)
  case (read p v options bytes handles nb nh ab ah ipc st counts data hvs ipc')
  from channel_read_ok [OF read(3,1) read(2) [unfolded sys_channel_read_def]] show ?case by simp
next
  case (read_etc p v options bytes handles nb nh ab ah ipc st counts data his ipc')
  from channel_read_ok [OF read_etc(3,1) read_etc(2) [unfolded sys_channel_read_etc_def]] show ?case by simp
next
  case (send p ipc stack pmm v options src nb user n)
  from plain_handles.write_ok [OF send(2,1)] show ?case by (auto simp: sys_channel_write_def)
next
  case (send_etc p ipc stack pmm v options src nb map_ok duser out n)
  from disposition_handles.write_ok [OF send_etc(2,1)] show ?case by (auto simp: sys_channel_write_etc_def)
next
  case (call p user stack pmm w v options src nb n ipc status k ipc')
  from plain_handles.call_begin_ok [OF call(3,1,2)] show ?case by blast
next
  case (call_etc p map_ok duser out stack pmm w v options src nb n ipc status k ipc')
  from disposition_handles.call_begin_ok [OF call_etc(3,1,2)] show ?case by blast
next
  case (reply p ipc w k ew bytes handles nb nh ab2 ah2 st data hvs ipc')
  from call_end_ok [OF reply(4,1-3)] show ?case by simp
next
  case (reply_etc p ipc w k ew bytes handles nb nh ab2 ah2 st data his ipc')
  from call_end_ok [OF reply_etc(4,1-3)] show ?case by simp
next
  case (close p ipc v)
  have "ipc_inv X (put_ts p (snd (sys_handle_close v (ts_of p ipc))) ipc)"
    unfolding sys_handle_close_eq
    by (rule ipc_inv_table_op [OF close(2,1)]) (use RemoveHandles_loop_ok RemoveHandles_loop_loose in blast)
  then show ?case by blast
next
  case (close_many p ipc stack user n')
  have "ipc_inv X (put_ts p (snd (sys_handle_close_many stack user n' (ts_of p ipc))) ipc)"
    unfolding sys_handle_close_many_def RemoveUserHandles_def
    by (rule ipc_inv_table_op [OF close_many(2,1)]) (use RemoveUserHandles_loop_ok RemoveUserHandles_loop_loose in blast)
  then show ?case by blast
next
  case (dup_replace p ok is_replace v r ipc st ts')
  note t = ipc_inv_table(1) [OF dup_replace(3,1)] and d = dup_replace(2) [unfolded ts_of_def]
  have "ipc_inv X (put_ts p ts' ipc)"
    using ipc_inv_put_same [OF dup_replace(3,1), of ts'] handle_dup_replace_ok [OF t d] handle_dup_replace_loose [OF t d]
    by (simp add: ts_of_def)
  then show ?case by blast
next
  case (dup_replace_ok p ok is_replace v r ipc st j ts')
  note t = ipc_inv_table(1) [OF dup_replace_ok(3,1)] and d = dup_replace_ok(2) [unfolded ts_of_def]
  have "ipc_inv (X \<union> {j}) (put_ts p ts' ipc)" "{j} \<inter> X = {}"
    using ipc_inv_put [OF dup_replace_ok(3,1), of ts' "{j}"] handle_dup_replace_ok [OF t d] handle_dup_replace_loose [OF t d]
    by (simp_all add: ts_of_def)
  then show ?case using add_handle_ok(1) [of j X, OF _ _ dup_replace_ok(1)] by auto
next
  case (dup_replace_fault p ok is_replace v r ipc st j ts')
  from dup_fault_ok [OF dup_replace_fault(3,1,2)] show ?case by blast
next
  case (create p ok k r ipc j s')
  from add_handle_ok(1) [OF make_ok(1,2) [OF create(3,2)] create(1)] show ?case by blast
next
  case (exit p ipc)
  have "ipc_inv X (put_ts p (HandleTable_Clean (ts_of p ipc)) ipc)"
    by (rule ipc_inv_table_op [OF exit(2,1)]) (use HandleTable_Clean_ok(1) HandleTable_Clean_loose in blast)
  then show ?case by blast
next
  case (zero_handles ipc k)
  have "ipc_inv X (ipc\<lparr>chs_m := ChannelDispatcher_on_zero_handles k (chs_m ipc)\<rparr>)"
    by (rule ipc_inv_cong [OF zero_handles]) (simp_all add: chan_inv_close [OF ipc_invD(2) [OF zero_handles]])
  then show ?case by blast
next
  case (channel_freed ipc k)
  then show ?case using channel_freed_ok by blast
next
  case (thread_freed ipc w)
  then show ?case using thread_freed_ok by blast
qed

end
