(* ===== verification/Ipc_Properties.thy ===== *)
theory Ipc_Properties
  imports Channel_Transfer
begin

section \<open>Properties of handle transfer\<close>

text \<open>
  What the channel system calls promise about handles: each live handle has one holder in every
  run, a read gives the reader exactly the handles of the message, and the one way in which a
  handle gets lost.
\<close>

definition held :: "ipc_state \<Rightarrow> place \<Rightarrow> nat list" where
  "held ipc l = (case l of Table p \<Rightarrow> if p = ZX_KOID_INVALID then [] else handles_m (tabs_m ipc p) | _ \<Rightarrow> flying (chs_m ipc) l)"

lemma held_flying: "held ipc (Queue k) = flying (chs_m ipc) (Queue k)" "held ipc (Reply t) = flying (chs_m ipc) (Reply t)"
  by (simp_all add: held_def)

lemma held_table:
  "ipc_inv X ipc \<Longrightarrow> i \<in> set (held ipc (Table p)) \<longleftrightarrow> p \<noteq> ZX_KOID_INVALID \<and> process_id_m (slots_m (hs_m ipc) i) = p"
  using ipc_inv_table [of X ipc p] by (auto simp: held_def table_inv_def)

lemma held_loose:
  assumes "ipc_inv X ipc" "i \<in> set (held ipc l)" "\<And>p. l \<noteq> Table p"
  shows "i \<in> loose (hs_m ipc)" "i \<notin> X" "i \<in> set (flying (chs_m ipc) l)"
proof -
  show f: "i \<in> set (flying (chs_m ipc) l)" using assms(2,3) by (cases l) (auto simp: held_def)
  with flightD(2,4) [OF ipc_invD(4) [OF assms(1)]] show "i \<in> loose (hs_m ipc)" "i \<notin> X" by blast+
qed

text \<open>A handle has at most one holder, a held handle is alive, and a live handle without a holder
  is one of \<open>X\<close>.\<close>

lemma held_once:
  assumes "ipc_inv X ipc"
  shows "distinct (held ipc l)" "i \<in> set (held ipc l) \<Longrightarrow> i \<in> set (held ipc l') \<Longrightarrow> l' = l"
    "i \<in> set (held ipc l) \<Longrightarrow> dispatcher_m (slots_m (hs_m ipc) i) \<noteq> None"
    "dispatcher_m (slots_m (hs_m ipc) i) \<noteq> None \<Longrightarrow> i \<notin> X \<Longrightarrow> \<exists>l. i \<in> set (held ipc l)"
    "i \<in> X \<Longrightarrow> dispatcher_m (slots_m (hs_m ipc) i) \<noteq> None \<and> i \<notin> set (held ipc l)"
proof -
  note fl = flightD [OF ipc_invD(4) [OF assms]]
  have heap: "heap_inv (hs_m ipc)" using tabs_ok_heap [OF ipc_invD(1) [OF assms]] .
  show "distinct (held ipc l)"
    using fl(1) ipc_inv_table(1) [OF assms] by (cases l) (auto simp: held_def table_inv_def)
  have tab: "process_id_m (slots_m (hs_m ipc) i) = p" "p \<noteq> ZX_KOID_INVALID" if "i \<in> set (held ipc (Table p))" for i p
    using held_table [OF assms] that by blast+
  have other: "process_id_m (slots_m (hs_m ipc) i) = ZX_KOID_INVALID" "dispatcher_m (slots_m (hs_m ipc) i) \<noteq> None"
    if "i \<in> set (held ipc l)" "\<And>p. l \<noteq> Table p" for i l
    using held_loose(1) [OF assms that] by (auto simp: loose_def)
  show "l' = l" if h: "i \<in> set (held ipc l)" "i \<in> set (held ipc l')"
  proof (cases "\<exists>p. l = Table p \<or> l' = Table p")
    case True
    then show ?thesis using h tab other by metis
  next
    case False
    then have "i \<in> set (flying (chs_m ipc) l)" "i \<in> set (flying (chs_m ipc) l')"
      using held_loose(3) [OF assms] h by blast+
    then show ?thesis using fl(3) by blast
  qed
  show "dispatcher_m (slots_m (hs_m ipc) i) \<noteq> None" if h: "i \<in> set (held ipc l)"
  proof (cases "\<exists>p. l = Table p")
    case True
    then show ?thesis using h tab heap unfolding heap_inv_def by metis
  next
    case False
    then show ?thesis using h other by blast
  qed
  show "\<exists>l. i \<in> set (held ipc l)" if "dispatcher_m (slots_m (hs_m ipc) i) \<noteq> None" "i \<notin> X"
  proof (cases "process_id_m (slots_m (hs_m ipc) i) = ZX_KOID_INVALID")
    case True
    with that fl(4) obtain l where l: "i \<in> set (flying (chs_m ipc) l)" by (auto simp: loose_def)
    then have "i \<in> set (held ipc l)" by (cases l) (simp_all add: held_def flying_def)
    then show ?thesis by blast
  next
    case False
    then show ?thesis using held_table [OF assms] by blast
  qed
  show "dispatcher_m (slots_m (hs_m ipc) i) \<noteq> None \<and> i \<notin> set (held ipc l)" if "i \<in> X"
  proof -
    have l: "i \<in> loose (hs_m ipc)" using that flight_loose [OF ipc_invD(4) [OF assms]] by blast
    then have "i \<notin> set (held ipc l)"
      using held_loose(2) [OF assms] tab that by (cases l) (auto simp: loose_def)
    with l show ?thesis by (simp add: loose_def)
  qed
qed

definition any_step :: "ipc_state \<Rightarrow> ipc_state \<Rightarrow> bool" where
  "any_step ipc ipc' \<longleftrightarrow> (\<exists>fault. ipc_step fault ipc ipc')"

lemma ipc_run_inv: "(ipc_step False)\<^sup>*\<^sup>* ipc ipc' \<Longrightarrow> ipc_inv X ipc \<Longrightarrow> ipc_inv X ipc'"
proof (induction rule: rtranclp_induct)
  case (step ipc' ipc'')
  then show ?case using ipc_step_ok [of False ipc' ipc'' X] by blast
qed simp

lemma any_run_inv: "any_step\<^sup>*\<^sup>* ipc ipc' \<Longrightarrow> ipc_inv X ipc \<Longrightarrow> \<exists>X'. X \<subseteq> X' \<and> ipc_inv X' ipc'"
proof (induction rule: rtranclp_induct)
  case (step ipc' ipc'')
  then obtain X' fault where X': "X \<subseteq> X'" "ipc_inv X' ipc'" "ipc_step fault ipc' ipc''" by (auto simp: any_step_def)
  with ipc_step_ok [OF X'(3,2)] show ?case by (meson order_trans)
qed blast

subsection \<open>A read that finds a message\<close>

text \<open>The read of process \<open>p\<close> through handle value \<open>v\<close> reaches the packet \<open>m\<close> at the front of the queue of
  endpoint \<open>k\<close>, with buffers large enough and writable up to the handle array.\<close>

definition reads_message ::
  "zx_koid \<Rightarrow> zx_handle \<Rightarrow> 32 word \<Rightarrow> user_out \<Rightarrow> 32 word \<Rightarrow> 32 word \<Rightarrow> bool option \<Rightarrow> bool option \<Rightarrow> ipc_state
     \<Rightarrow> zx_koid \<Rightarrow> MessagePacket \<Rightarrow> bool" where
  "reads_message p v options bytes nb nh ab ah ipc k m \<longleftrightarrow>
     p \<noteq> ZX_KOID_INVALID \<and>
     (case GetDispatcherWithRightsImpl (Some ZX_OBJ_TYPE_CHANNEL) v ZX_RIGHT_READ False (tabs_m ipc p) (hs_m ipc) of
        (status, out, t) \<Rightarrow> status = ZX_OK \<and> map_option fst out = Some k) \<and>
     options AND NOT ZX_CHANNEL_READ_MAY_DISCARD = 0 \<and> chan_owner_m (chans_m (chs_m ipc) k) = p \<and>
     messages_m (chans_m (chs_m ipc) k) = m # tl (messages_m (chans_m (chs_m ipc) k)) \<and> msg_ok m \<and>
     data_size_m m \<le> nb \<and> ucast (num_handles_m m) \<le> nh \<and> ab \<noteq> Some False \<and> ah \<noteq> Some False \<and>
     copy_array_to_user bytes 0 (unat (data_size_m m)) = ZX_OK"

lemma read_message_eq:
  assumes inv: "ipc_inv X ipc" and rm: "reads_message p v options bytes nb nh ab ah ipc k m"
  obtains ipc2 where "carries X m ipc2" "sealed m" "p \<noteq> ZX_KOID_INVALID"
    "packets (chs_m ipc2) = (packets (chs_m ipc))(Queue k := tl (messages_m (chans_m (chs_m ipc) k)))"
    "hs_m ipc2 = hs_m ipc" "\<And>q. handles_m (tabs_m ipc2 q) = handles_m (tabs_m ipc q)"
    "\<And>map_handle handles. channel_read map_handle p v options bytes handles nb nh ab ah ipc =
       (let (status, hvs, msg, ipc3) =
              (if (ucast (num_handles_m m) :: 32 word) > 0
               then msg_get_handles map_handle p m handles (ucast (num_handles_m m)) ipc2 else (ZX_OK, [], m, ipc2))
        in if status \<noteq> ZX_OK
           then (status, (data_size_m m, ucast (num_handles_m m)), msg_bytes m, hvs, drop_packet (Some msg) ipc3)
           else (ZX_OK, (data_size_m m, ucast (num_handles_m m)), msg_bytes m, hvs,
                 drop_packet (Some msg) (record_recv_msg_sz (data_size_m m) ipc3)))"
proof -
  let ?rest = "tl (messages_m (chans_m (chs_m ipc) k))"
  obtain out t where l: "GetDispatcherWithRightsImpl (Some ZX_OBJ_TYPE_CHANNEL) v ZX_RIGHT_READ False (tabs_m ipc p) (hs_m ipc) =
      (ZX_OK, out, t)" "map_option fst out = Some k"
    using rm by (auto simp: reads_message_def split: prod.splits)
  then have k: "fst (the out) = k" by auto
  have p: "p \<noteq> ZX_KOID_INVALID" using rm by (simp add: reads_message_def)
  let ?ipc1 = "put_ts p (t, hs_m ipc) ipc"
  let ?chs = "(chs_m ipc)\<lparr>chans_m := (chans_m (chs_m ipc))(k := read_pop ?rest (chans_m (chs_m ipc) k))\<rparr>"
  let ?ipc2 = "?ipc1\<lparr>chs_m := ?chs\<rparr>"
  note i1 = lookup_ok [OF inv p l(1)]
  have q: "messages_m (chans_m (chs_m ?ipc1) k) = m # ?rest" and c1: "chs_m ?ipc1 = chs_m ipc"
    using rm by (simp_all add: reads_message_def put_ts_def)
  have rd: "ChannelDispatcher_Read k p nb nh disc (chs_m ?ipc1) = (ZX_OK, data_size_m m, ucast (num_handles_m m), Some m, ?chs)" for disc
    using rm unfolding Read_Cons [OF q] by (auto simp: reads_message_def c1 not_less)
  have "packets ?chs l = ((packets (chs_m ipc))(Queue k := ?rest)) l" for l by (cases l) (simp_all add: read_pop_def)
  then have pk: "packets ?chs = (packets (chs_m ipc))(Queue k := ?rest)" by blast
  have chs: "chan_inv ?chs" using chan_inv_Read [OF ipc_invD(2) [OF i1], of k p nb nh False] rd by simp
  have q': "packets (chs_m ?ipc1) (Queue k) = m # ?rest" using q by simp
  have "packets ?chs = (packets (chs_m ?ipc1))(Queue k := ?rest)" unfolding c1 by (rule pk)
  note c = carries_take [OF i1 q' this chs]
  obtain n where t: "t = (tabs_m ipc p)\<lparr>policy_calls_m := n\<rparr>"
    using l(1) by (auto simp: GetDispatcherWithRightsImpl_def Let_def split: prod.splits option.splits if_splits
        dest!: GetHandleLocked_table)
  have data: "(if data_size_m m > 0 then CopyDataTo bytes m else (ZX_OK, [])) = (ZX_OK, msg_bytes m)"
  proof (cases "data_size_m m > 0")
    case True
    then show ?thesis using CopyDataTo_msg [of m bytes] rm by (simp add: reads_message_def)
  next
    case False
    then have "data_size_m m = 0" by (simp add: word_gt_0)
    moreover have "length (msg_bytes m) = unat (data_size_m m)" using rm by (simp add: reads_message_def)
    ultimately show ?thesis by simp
  qed
  have conds: "options AND NOT ZX_CHANNEL_READ_MAY_DISCARD = 0" "ab \<noteq> Some False" "ah \<noteq> Some False"
    using rm by (simp_all add: reads_message_def)
  show thesis
  proof (rule that [OF c p])
    show "packets (chs_m ?ipc2) = (packets (chs_m ipc))(Queue k := ?rest)" using pk by simp
    show "hs_m ?ipc2 = hs_m ipc" by (simp add: put_ts_def)
    show "handles_m (tabs_m ?ipc2 q) = handles_m (tabs_m ipc q)" for q by (simp add: put_ts_def t)
    show "channel_read map_handle p v options bytes handles nb nh ab ah ipc =
       (let (status, hvs, msg, ipc3) =
              (if (ucast (num_handles_m m) :: 32 word) > 0
               then msg_get_handles map_handle p m handles (ucast (num_handles_m m)) ?ipc2 else (ZX_OK, [], m, ?ipc2))
        in if status \<noteq> ZX_OK
           then (status, (data_size_m m, ucast (num_handles_m m)), msg_bytes m, hvs, drop_packet (Some msg) ipc3)
           else (ZX_OK, (data_size_m m, ucast (num_handles_m m)), msg_bytes m, hvs,
                 drop_packet (Some msg) (record_recv_msg_sz (data_size_m m) ipc3)))" for map_handle handles
      unfolding channel_read_def Let_def l(1) case_prod_conv k rd option.sel data
      using conds by (simp add: zx_consts)
  qed
qed

text \<open>What the reader holds after the handles of a packet in hand have been received.\<close>

lemma received_ok:
  assumes "carries X m ipc" "sealed m" "p \<noteq> ZX_KOID_INVALID" "ipc' = fold (receive_handle p) (msg_slots m) ipc"
    and h: "h \<in> set (msg_slots m)"
  shows "MapHandleToValue h (tabs_m ipc' p) (hs_m ipc') = MapHandleToValue h (tabs_m ipc p) (hs_m ipc)"
    "fst (GetHandleLocked (MapHandleToValue h (tabs_m ipc' p) (hs_m ipc')) skip (tabs_m ipc' p) (hs_m ipc')) = Some h"
    "slots_m (hs_m ipc') h = (slots_m (hs_m ipc) h)\<lparr>process_id_m := p\<rparr>"
proof -
  have c: "ipc_inv (X \<union> set (msg_slots m)) ipc" "set (msg_slots m) \<inter> X = {}" "distinct (msg_slots m)"
    using assms(1) by (simp_all add: carries_def)
  note r = receive_handles_ok [OF c assms(3), folded assms(4)]
  then show s: "slots_m (hs_m ipc') h = (slots_m (hs_m ipc) h)\<lparr>process_id_m := p\<rparr>" using h by simp
  with r show "MapHandleToValue h (tabs_m ipc' p) (hs_m ipc') = MapHandleToValue h (tabs_m ipc p) (hs_m ipc)"
    by (simp add: MapHandleToValue_def map_handle_to_value_def)
  show "fst (GetHandleLocked (MapHandleToValue h (tabs_m ipc' p) (hs_m ipc')) skip (tabs_m ipc' p) (hs_m ipc')) = Some h"
    using GetHandleLocked_iff [OF ipc_inv_table(1) [OF conjunct1 [OF r] assms(3)]] r h by simp
qed

text \<open>A handle that may not be transferred survives \<open>msg_put_handles\<close>.\<close>

lemma get_handle_keeps:
  assumes "table_inv t s" "i \<in> set (handles_m t)" "\<not> HasRights ZX_RIGHT_TRANSFER (slots_m s i)"
    "get_handle_for_message_locked channel v (t, s) = (r, ts')"
  shows "i \<in> set (handles_m (fst ts')) \<and> slots_m (snd ts') i = slots_m s i \<and>
    MapHandleToValue i (fst ts') (snd ts') = MapHandleToValue i t s \<and>
    (v = MapHandleToValue i t s \<longrightarrow> (\<exists>e. r = Inl e))"
proof -
  note ok = get_handle_for_message_ok [OF assms(1,4)]
  have rand: "random_value_m (fst ts') = random_value_m t" using ok by (simp add: table_ok_def)
  show ?thesis
  proof (cases r)
    case (Inl e)
    then show ?thesis using ok rand assms(2) by (simp add: MapHandleToValue_def)
  next
    case (Inr j)
    then have j: "j \<in> set (handles_m t)" "v = MapHandleToValue j t s" "HasRights ZX_RIGHT_TRANSFER (slots_m s j)"
        "handles_m (fst ts') = remove1 j (handles_m t)"
      using ok by (simp_all add: in_flight_from_def)
    then have ij: "i \<noteq> j" using assms(3) by auto
    obtain h t1 where g: "GetHandleLocked v False t s = (h, t1)" by fastforce
    have "slots_m (snd ts') = (slots_m s)(j := (slots_m s j)\<lparr>process_id_m := ZX_KOID_INVALID\<rparr>)"
      using assms(4) Inr by (auto simp: get_handle_for_message_locked_def g Let_def RemoveHandleLocked_def slots_set_process_id
          split: if_splits)
    then have s: "slots_m (snd ts') i = slots_m s i" using ij by simp
    moreover have "v \<noteq> MapHandleToValue i t s"
      using GetHandleLocked_iff [OF assms(1), of v False] j(1,2) assms(2) ij by (metis option.inject)
    ultimately show ?thesis using ij j(4) assms(2) rand by (simp add: MapHandleToValue_def)
  qed
qed

lemma put_loop_keeps:
  assumes "table_inv t s" "i \<in> set (handles_m t)" "\<not> HasRights ZX_RIGHT_TRANSFER (slots_m s i)"
    "msg_put_loop (uh_entry (handle_array user again) channel) ix vs status (t, s) = (status', hs, vs', ts')"
  shows "i \<in> set (handles_m (fst ts')) \<and> slots_m (snd ts') i = slots_m s i \<and>
    (MapHandleToValue i t s \<in> set vs \<longrightarrow> None \<in> set hs)"
  using assms
proof (induction vs arbitrary: ix status t s status' hs vs' ts')
  case Nil
  then show ?case by auto
next
  case (Cons v vs)
  obtain r t1 s1 where g: "get_handle_for_message_locked channel v (t, s) = (r, t1, s1)" by (metis prod.collapse)
  note one = get_handle_keeps [OF Cons.prems(1-3) g]
  have inv: "table_inv t1 s1" using get_handle_for_message_ok [OF Cons.prems(1) g] by (simp add: table_ok_def)
  have e: "uh_entry (handle_array user again) channel ix v (t, s) = (r, v, t1, s1)" by (simp add: handle_array_def g)
  let ?status = "case r of Inl e \<Rightarrow> if status = ZX_OK then e else status | Inr h \<Rightarrow> status"
  obtain status2 hs2 vs2 ts2 where l:
    "msg_put_loop (uh_entry (handle_array user again) channel) (ix + 1) vs ?status (t1, s1) = (status2, hs2, vs2, ts2)"
    by (metis prod.collapse)
  have res: "hs = (case r of Inl e \<Rightarrow> None | Inr h \<Rightarrow> Some h) # hs2" "ts' = ts2"
    using Cons.prems(4) e l by simp_all
  from Cons.IH [OF inv _ _ l] one Cons.prems(3) show ?case by (auto simp: res)
qed

subsection \<open>An example\<close>

text \<open>Process 2 has a handle to endpoint 1025, whose queue holds a message with one handle, to
  object 1026.\<close>

definition channel_hstate :: hstate where
  "channel_hstate = empty_hstate\<lparr>dispatchers_m := (dispatchers_m empty_hstate)(1025 :=
     Dispatcher_new 1025 ZX_OBJ_TYPE_CHANNEL ZX_DEFAULT_CHANNEL_RIGHTS ZX_OBJECT_WRITABLE 0)\<rparr>"

definition example_start :: ipc_state where
  "example_start = \<lparr>tabs_m = (\<lambda>p. HandleTable_new p 0x2468ace), hs_m = channel_hstate, chs_m = one_channel, recv_sizes_m = []\<rparr>"

definition example_reader :: ipc_state where
  "example_reader =
     (let (j, s) = Handle_Make True 1025 ZX_DEFAULT_CHANNEL_RIGHTS channel_hstate
      in add_handle 2 (the j) (example_start\<lparr>hs_m := s\<rparr>))"

definition example_packet :: "nat \<Rightarrow> MessagePacket" where
  "example_packet j =
     (the (snd (MessagePacket_Create zero_pages (user_bytes []) 0 1)))\<lparr>msg_handles_m := [Some j], owns_handles_m := True\<rparr>"

definition example_ipc :: ipc_state where
  "example_ipc =
     (let (j, s) = Handle_Make True 1026 ZX_RIGHT_TRANSFER (hs_m example_reader)
      in example_reader\<lparr>hs_m := s, chs_m := Channel_WriteSelf 1025 (example_packet (the j)) (chs_m example_reader)\<rparr>)"

definition example_value :: zx_handle where
  "example_value = MapHandleToValue (hd (handles_m (tabs_m example_ipc 2))) (tabs_m example_ipc 2) (hs_m example_ipc)"

definition example_front :: MessagePacket where
  "example_front = hd (messages_m (chans_m (chs_m example_ipc) 1025))"

lemma heap_inv_channel_hstate: "heap_inv channel_hstate"
  using heap_inv_empty
  by (auto simp: heap_inv_def hs_inv_def channel_hstate_def handles_of_def empty_hstate_def Dispatcher_new_def)

lemma ipc_inv_start: "ipc_inv {} example_start"
proof -
  have slots: "slots_m channel_hstate i = \<lparr>process_id_m = ZX_KOID_INVALID, dispatcher_m = None, rights_m = 0, base_value_m = 0\<rparr>" for i
    by (simp add: channel_hstate_def empty_hstate_def)
  have "tabs_ok (\<lambda>p. HandleTable_new p 0x2468ace) channel_hstate"
    using heap_inv_channel_hstate mixer_ok_new
    by (auto simp: tabs_ok_def table_inv_def slots HandleTable_new_def)
  moreover have "packets one_channel l = []" for l
    by (cases l) (auto simp: one_channel_def no_channels_def ChannelDispatcher_Create_def GenerateKernelObjectId_def
        ChannelDispatcher_Init_def ChannelDispatcher_new_def MessageWaiter_new_def Let_def)
  moreover have "loose channel_hstate = {}" by (simp add: loose_def slots)
  ultimately show ?thesis
    using chan_inv_one_channel by (simp add: ipc_inv_def example_start_def flight_def flying_def)
qed

lemma example_packet_ok:
  "msg_ok (example_packet j)" "sealed (example_packet j)" "msg_slots (example_packet j) = [j]"
  "data_size_m (example_packet j) = 0" "num_handles_m (example_packet j) = 1" "msg_handles_m (example_packet j) = [Some j]"
  "length (msg_handles_m (example_packet j)) = unat (num_handles_m (example_packet j))"
proof -
  obtain st r where c: "MessagePacket_Create zero_pages (user_bytes []) 0 1 = (st, r)" by (rule prod.exhaust)
  have "\<not> (0 :: 32 word) > kMaxMessageSize" "\<not> (1 :: 32 word) > of_nat kMaxMessageHandles"
    "BufferChain_Alloc zero_pages (unat (PayloadOffset 1 + 0)) \<noteq> None"
    by (simp_all add: kMaxMessageSize_def kMaxMessageHandles_def BufferChain_Alloc_def zero_pages_def Let_def)
  with MessagePacket_Create_cases [OF pmm_ok_zero_pages c] obtain msg where
    msg: "r = Some msg" "st = ZX_OK" "msg_ok msg" "data_size_m msg = 0" "unat (num_handles_m msg) = 1"
    by (cases r) auto
  then have n: "num_handles_m msg = 1" by (metis unsigned_1 unsigned_word_eqI)
  have p: "example_packet j = msg\<lparr>msg_handles_m := [Some j], owns_handles_m := True\<rparr>"
    by (simp add: example_packet_def c msg(1))
  show "msg_ok (example_packet j)" "sealed (example_packet j)" "msg_slots (example_packet j) = [j]"
    "data_size_m (example_packet j) = 0" "num_handles_m (example_packet j) = 1" "msg_handles_m (example_packet j) = [Some j]"
    "length (msg_handles_m (example_packet j)) = unat (num_handles_m (example_packet j))"
    using msg n by (simp_all add: p sealed_def msg_slots_def msg_ok_def Let_def)
qed

lemma example_reader_ok:
  obtains j where "ipc_inv {} example_reader" "handles_m (tabs_m example_reader 2) = [j]"
    "dispatcher_m (slots_m (hs_m example_reader) j) = Some 1025"
    "rights_m (slots_m (hs_m example_reader) j) = ZX_DEFAULT_CHANNEL_RIGHTS"
    "chs_m example_reader = ChannelDispatcher_set_owner 1025 2 one_channel"
    "type_m (dispatchers_m (hs_m example_reader) 1025) = ZX_OBJ_TYPE_CHANNEL"
    "(ipc_step False) example_start example_reader"
    "\<forall>r. fst (Handle_Make True 1026 r (hs_m example_reader)) \<noteq> None"
proof -
  obtain j s where m: "Handle_Make True 1025 ZX_DEFAULT_CHANNEL_RIGHTS channel_hstate = (Some j, s)"
    "arena_m s = \<lparr>top_m = 40, committed_m = 16384, end_m = end_m (GPArena_Init kMaxHandleCount), count_m = 1, free_m = []\<rparr>"
    "type_m (dispatchers_m s 1025) = ZX_OBJ_TYPE_CHANNEL"
    by (simp add: Handle_Make_def HandleTableArena_Alloc_def GPArena_Alloc_def GPArena_Grow_def channel_hstate_def
        construct_handle_def increment_handle_count_def Dispatcher_new_def
        GPArena_Init_def empty_hstate_def size_defs Let_def)
  have m': "Handle_Make True 1025 ZX_DEFAULT_CHANNEL_RIGHTS (hs_m example_start) = (Some j, s)"
    using m(1) by (simp add: example_start_def)
  note made = make_ok [OF ipc_inv_start m']
  have p: "(2 :: zx_koid) \<noteq> ZX_KOID_INVALID" by (simp add: ZX_KOID_INVALID_def)
  note add = add_handle_ok [OF made(1,2) p]
  have r: "example_reader = add_handle 2 j (example_start\<lparr>hs_m := s\<rparr>)" by (simp add: example_reader_def m)
  have arena: "arena_m (hs_m example_reader) = arena_m s"
    "type_m (dispatchers_m (hs_m example_reader) 1025) = ZX_OBJ_TYPE_CHANNEL"
    "chs_m example_reader = ChannelDispatcher_set_owner 1025 2 one_channel"
    using made(3) m(3) by (simp_all add: r add_handle_def Let_def put_ts_def ts_of_def AddHandleLocked_def set_process_id_def example_start_def)
  show thesis
  proof (rule that [of j])
    show "ipc_inv {} example_reader" using add(1) by (simp add: r)
    show "handles_m (tabs_m example_reader 2) = [j]" using add(3) by (simp add: r example_start_def HandleTable_new_def)
    show "dispatcher_m (slots_m (hs_m example_reader) j) = Some 1025"
      "rights_m (slots_m (hs_m example_reader) j) = ZX_DEFAULT_CHANNEL_RIGHTS"
      using add(2) made(3,4) by (simp_all add: r)
    show "(ipc_step False) example_start example_reader" unfolding r by (rule ipc_step.create [OF p m'])
    show "\<forall>r. fst (Handle_Make True 1026 r (hs_m example_reader)) \<noteq> None"
      by (simp add: Handle_Make_def HandleTableArena_Alloc_def GPArena_Alloc_def arena m(2) sizeof_Handle_def Let_def)
  qed (rule arena)+
qed

lemma example_ipc_ok:
  "ipc_inv {} example_ipc" "(ipc_step False)\<^sup>*\<^sup>* example_start example_reader"
  "reads_message 2 example_value 0 (\<lambda>_. True) 0 1 (Some True) None example_ipc 1025 example_front"
  "num_handles_m example_front = 1" "length (msg_slots example_front) = 1"
proof -
  have p: "(2 :: zx_koid) \<noteq> ZX_KOID_INVALID" by (simp add: ZX_KOID_INVALID_def)
  obtain j where r: "ipc_inv {} example_reader" "handles_m (tabs_m example_reader 2) = [j]"
    "dispatcher_m (slots_m (hs_m example_reader) j) = Some 1025"
    "rights_m (slots_m (hs_m example_reader) j) = ZX_DEFAULT_CHANNEL_RIGHTS"
    "chs_m example_reader = ChannelDispatcher_set_owner 1025 2 one_channel"
    "type_m (dispatchers_m (hs_m example_reader) 1025) = ZX_OBJ_TYPE_CHANNEL"
    "(ipc_step False) example_start example_reader"
    "\<forall>r. fst (Handle_Make True 1026 r (hs_m example_reader)) \<noteq> None" by (rule example_reader_ok)
  show "(ipc_step False)\<^sup>*\<^sup>* example_start example_reader" using r(7) by blast
  obtain i s where m: "Handle_Make True 1026 ZX_RIGHT_TRANSFER (hs_m example_reader) = (Some i, s)"
    using r(8) by (metis option.exhaust prod.collapse)
  note made = make_ok [OF r(1) m]
  note pk = example_packet_ok [of i]
  let ?chs = "Channel_WriteSelf 1025 (example_packet i) (chs_m example_reader)"
  have c: "carries {} (example_packet i) (example_reader\<lparr>hs_m := s\<rparr>)"
    using made(1) pk by (simp add: carries_def)
  obtain l where l: "packets ?chs = (packets (chs_m example_reader))(l := packets (chs_m example_reader) l @ [example_packet i])"
    by (rule packets_WriteSelf [OF ipc_invD(2) [OF r(1)]])
  have e: "example_ipc = (example_reader\<lparr>hs_m := s\<rparr>)\<lparr>chs_m := ?chs\<rparr>" by (simp add: example_ipc_def m)
  show inv: "ipc_inv {} example_ipc"
    unfolding e by (rule carries_send [OF c pk(2) chan_inv_WriteSelf [OF ipc_invD(2) [OF r(1)]] _ pk(2) refl]) (simp add: l)
  have "matching_waiter (chs_m example_reader) 1025 (example_packet i) = None"
    by (simp add: r(5) matching_waiter_def ChannelDispatcher_set_owner_def p ChannelDispatcher_Init_def ChannelDispatcher_new_def)
  then have q: "messages_m (chans_m (chs_m example_ipc) 1025) = [example_packet i]" "chan_owner_m (chans_m (chs_m example_ipc) 1025) = 2"
    using p by (simp_all add: e messages_WriteSelf, simp_all add: r(5) Channel_WriteSelf_def Let_def ChannelDispatcher_set_owner_def
        ChannelDispatcher_Init_def ChannelDispatcher_new_def)
  then have f: "example_front = example_packet i" by (simp add: example_front_def)
  then show "num_handles_m example_front = 1" "length (msg_slots example_front) = 1" using pk by simp_all
  have "i \<noteq> j" using made(1,2) r(1,2) table_not_loose [OF ipc_inv_table(1) [OF made(1) p], of i]
      flight_loose [OF ipc_invD(4) [OF made(1)]] by auto
  then have sj: "slots_m (hs_m example_ipc) j = slots_m (hs_m example_reader) j" using made(5) [of j] by (simp add: e)
  have tab: "handles_m (tabs_m example_ipc 2) = [j]" by (simp add: e r(2))
  have v: "example_value = MapHandleToValue j (tabs_m example_ipc 2) (hs_m example_ipc)" by (simp add: example_value_def tab)
  have g: "fst (GetHandleLocked example_value False (tabs_m example_ipc 2) (hs_m example_ipc)) = Some j"
    using GetHandleLocked_iff [OF ipc_inv_table(1) [OF inv p]] tab v by simp
  then obtain t where g': "GetHandleLocked example_value False (tabs_m example_ipc 2) (hs_m example_ipc) = (Some j, t)"
    by (metis prod.collapse)
  have ty: "type_m (dispatchers_m (hs_m example_ipc) 1025) = ZX_OBJ_TYPE_CHANNEL"
    using m r(6) by (auto simp: e Handle_Make_def HandleTableArena_Alloc_def construct_handle_def Let_def
        increment_handle_count_def split: prod.splits option.splits)
  have "GetDispatcherWithRightsImpl (Some ZX_OBJ_TYPE_CHANNEL) example_value ZX_RIGHT_READ False (tabs_m example_ipc 2) (hs_m example_ipc) =
      (ZX_OK, Some (1025, ZX_DEFAULT_CHANNEL_RIGHTS), t)"
    using r(3,4) ty by (simp add: GetDispatcherWithRightsImpl_def g' sj DownCastDispatcher_def HasRights_def zx_consts)
  then show "reads_message 2 example_value 0 (\<lambda>_. True) 0 1 (Some True) None example_ipc 1025 example_front"
    using pk p q by (simp add: reads_message_def f copy_array_to_user_def)
qed

text \<open>Process 2 with a second handle, which it may duplicate but not transfer.\<close>

definition example_caller :: ipc_state where
  "example_caller =
     (let (j, s) = Handle_Make True 1026 ZX_RIGHT_DUPLICATE (hs_m example_reader)
      in add_handle 2 (the j) (example_reader\<lparr>hs_m := s\<rparr>))"

lemma example_caller_ok:
  obtains i j t where "ipc_inv {} example_caller" "handles_m (tabs_m example_caller 2) = [i, j]"
    "\<not> HasRights ZX_RIGHT_TRANSFER (slots_m (hs_m example_caller) i)" "dispatcher_m (slots_m (hs_m example_caller) i) = Some 1026"
    "GetDispatcherWithRightsImpl (Some ZX_OBJ_TYPE_CHANNEL) (MapHandleToValue j (tabs_m example_caller 2) (hs_m example_caller))
       (ZX_RIGHT_WRITE OR ZX_RIGHT_READ) False (tabs_m example_caller 2) (hs_m example_caller) =
       (ZX_OK, Some (1025, ZX_DEFAULT_CHANNEL_RIGHTS), t)"
proof -
  have p: "(2 :: zx_koid) \<noteq> ZX_KOID_INVALID" by (simp add: ZX_KOID_INVALID_def)
  obtain j where r: "ipc_inv {} example_reader" "handles_m (tabs_m example_reader 2) = [j]"
    "dispatcher_m (slots_m (hs_m example_reader) j) = Some 1025"
    "rights_m (slots_m (hs_m example_reader) j) = ZX_DEFAULT_CHANNEL_RIGHTS"
    "type_m (dispatchers_m (hs_m example_reader) 1025) = ZX_OBJ_TYPE_CHANNEL"
    "\<forall>r. fst (Handle_Make True 1026 r (hs_m example_reader)) \<noteq> None" by (rule example_reader_ok)
  obtain i s where m: "Handle_Make True 1026 ZX_RIGHT_DUPLICATE (hs_m example_reader) = (Some i, s)"
    using r(6) by (metis option.exhaust prod.collapse)
  note made = make_ok [OF r(1) m]
  have e: "example_caller = add_handle 2 i (example_reader\<lparr>hs_m := s\<rparr>)" by (simp add: example_caller_def m)
  note add = add_handle_ok [OF made(1,2) p, folded e]
  have tab: "handles_m (tabs_m example_caller 2) = [i, j]" using add(3) r(2) by simp
  have ij: "i \<noteq> j"
    using tab ipc_inv_table(1) [OF add(1) p] by (auto simp: table_inv_def)
  have si: "rights_m (slots_m (hs_m example_caller) i) = ZX_RIGHT_DUPLICATE" "dispatcher_m (slots_m (hs_m example_caller) i) = Some 1026"
    and sj: "rights_m (slots_m (hs_m example_caller) j) = ZX_DEFAULT_CHANNEL_RIGHTS" "dispatcher_m (slots_m (hs_m example_caller) j) = Some 1025"
    using add(2) made(3,4) made(5) [of j] r(3,4) ij by simp_all
  have ty: "type_m (dispatchers_m (hs_m example_caller) 1025) = ZX_OBJ_TYPE_CHANNEL"
    using m r(5) by (auto simp: e add_handle_def put_ts_def ts_of_def AddHandleLocked_def set_process_id_def Handle_Make_def
        HandleTableArena_Alloc_def construct_handle_def Let_def increment_handle_count_def split: prod.splits option.splits)
  have "fst (GetHandleLocked (MapHandleToValue j (tabs_m example_caller 2) (hs_m example_caller)) False (tabs_m example_caller 2)
      (hs_m example_caller)) = Some j"
    using GetHandleLocked_iff [OF ipc_inv_table(1) [OF add(1) p]] tab by simp
  then obtain t where g: "GetHandleLocked (MapHandleToValue j (tabs_m example_caller 2) (hs_m example_caller)) False (tabs_m example_caller 2)
      (hs_m example_caller) = (Some j, t)" by (metis prod.collapse)
  show thesis
    by (rule that [OF add(1) tab, of t])
      (use si sj ty in \<open>simp_all add: HasRights_def GetDispatcherWithRightsImpl_def g DownCastDispatcher_def zx_consts\<close>)
qed

subsection \<open>Properties\<close>

text \<open>C1: Every live handle has exactly one holder: the table of one process, a message in the
  queue of one endpoint, or a reply that one thread has not fetched. This holds through every run
  of channel writes, reads and calls (plain and with dispositions), closes, duplications and
  replacements, process and thread exits and the end of endpoints, on all their error paths, as
  long as no reader passes a handle buffer it cannot write. In particular no system call loses a
  handle and none duplicates one.\<close>
theorem ipc_handles_held_once:
  assumes "(ipc_step False)\<^sup>*\<^sup>* ipc ipc'" "ipc_inv {} ipc" "dispatcher_m (slots_m (hs_m ipc') i) \<noteq> None"
  shows "\<exists>!l. i \<in> set (held ipc' l)"
proof -
  have inv: "ipc_inv {} ipc'" by (rule ipc_run_inv [OF assms(1,2)])
  from held_once(4) [OF inv assms(3)] obtain l where "i \<in> set (held ipc' l)" by blast
  then show ?thesis using held_once(2) [OF inv] by blast
qed

theorem ipc_handles_held_once_witness:
  "\<exists>i. dispatcher_m (slots_m (hs_m example_reader) i) = Some 1025 \<and> (\<exists>!l. i \<in> set (held example_reader l))"
proof -
  obtain j where "dispatcher_m (slots_m (hs_m example_reader) j) = Some 1025" by (rule example_reader_ok)
  with ipc_handles_held_once [OF example_ipc_ok(2) ipc_inv_start, of j] show ?thesis by auto
qed

text \<open>C14: In every run whatever, also when readers pass buffers that fault, no handle is ever held
  twice, in two tables, two messages or a table and a message, and none that is held has been
  freed: every handle in a table or in a message still refers to its object.\<close>
theorem ipc_no_double_ownership:
  assumes "any_step\<^sup>*\<^sup>* ipc ipc'" "ipc_inv X ipc"
  shows "distinct (held ipc' l) \<and> (l \<noteq> l' \<longrightarrow> set (held ipc' l) \<inter> set (held ipc' l') = {}) \<and>
    (\<forall>i\<in>set (held ipc' l). dispatcher_m (slots_m (hs_m ipc') i) \<noteq> None)"
proof -
  obtain X' where inv: "ipc_inv X' ipc'" using any_run_inv [OF assms] by blast
  show ?thesis using held_once(1-3) [OF inv] by blast
qed

theorem ipc_no_double_ownership_witness:
  "length (messages_m (chans_m (chs_m example_ipc) 1025)) > 0 \<and>
   set (held example_ipc (Table 2)) \<inter> set (held example_ipc (Queue 1025)) = {}"
proof -
  have "any_step\<^sup>*\<^sup>* example_ipc example_ipc" by simp
  from ipc_no_double_ownership [OF this example_ipc_ok(1), of "Table 2" "Queue 1025"] example_ipc_ok(3)
  show ?thesis by (simp add: reads_message_def) (metis length_greater_0_conv list.distinct(1))
qed

text \<open>C9: \<open>zx_channel_read\<close> moves the message at the front of the queue to the reader: it returns the
  bytes of the message and one value for each of its handles. Each value now finds its handle in
  the table of the reader; the handle refers to the same object and has the same rights as in
  the message. The message leaves the queue, and the tables of other processes stay as they are.\<close>
theorem channel_read_moves_handles:
  assumes "ipc_inv X ipc" "reads_message p v options bytes nb nh ab ah ipc k m"
    and "copy_array_to_user handles 0 (unat (num_handles_m m)) = ZX_OK"
  shows "\<exists>ipc' hvs. sys_channel_read p v options bytes handles nb nh ab ah ipc =
      (ZX_OK, (data_size_m m, ucast (num_handles_m m)), msg_bytes m, hvs, ipc') \<and>
    length hvs = unat (num_handles_m m) \<and>
    (\<forall>n<unat (num_handles_m m). \<exists>h. msg_handles_m m ! n = Some h \<and>
       fst (GetHandleLocked (hvs ! n) False (tabs_m ipc' p) (hs_m ipc')) = Some h \<and>
       dispatcher_m (slots_m (hs_m ipc') h) = dispatcher_m (slots_m (hs_m ipc) h) \<and>
       rights_m (slots_m (hs_m ipc') h) = rights_m (slots_m (hs_m ipc) h)) \<and>
    messages_m (chans_m (chs_m ipc') k) = tl (messages_m (chans_m (chs_m ipc) k)) \<and>
    (\<forall>q. q \<noteq> p \<longrightarrow> handles_m (tabs_m ipc' q) = handles_m (tabs_m ipc q))"
proof -
  obtain ipc2 where c: "carries X m ipc2" "sealed m" "p \<noteq> ZX_KOID_INVALID"
    and pk: "packets (chs_m ipc2) = (packets (chs_m ipc))(Queue k := tl (messages_m (chans_m (chs_m ipc) k)))"
    and hs: "hs_m ipc2 = hs_m ipc" and tabs: "\<And>q. handles_m (tabs_m ipc2 q) = handles_m (tabs_m ipc q)"
    and eq: "\<And>(map_handle :: nat \<Rightarrow> HandleTable \<Rightarrow> hstate \<Rightarrow> zx_handle) handles. channel_read map_handle p v options bytes handles nb nh ab ah ipc =
       (let (status, hvs, msg, ipc3) =
              (if (ucast (num_handles_m m) :: 32 word) > 0
               then msg_get_handles map_handle p m handles (ucast (num_handles_m m)) ipc2 else (ZX_OK, [], m, ipc2))
        in if status \<noteq> ZX_OK
           then (status, (data_size_m m, ucast (num_handles_m m)), msg_bytes m, hvs, drop_packet (Some msg) ipc3)
           else (ZX_OK, (data_size_m m, ucast (num_handles_m m)), msg_bytes m, hvs,
                 drop_packet (Some msg) (record_recv_msg_sz (data_size_m m) ipc3)))"
    by (rule read_message_eq [OF assms(1,2)]) blast
  define ipc3 where "ipc3 = fold (receive_handle p) (msg_slots m) ipc2"
  define ipc' where "ipc' = record_recv_msg_sz (data_size_m m) ipc3"
  let ?hvs = "map (\<lambda>h. MapHandleToValue h (tabs_m ipc2 p) (hs_m ipc2)) (msg_slots m)"
  have slots: "msg_slots m = map the (msg_handles_m m)" "length (msg_handles_m m) = unat (num_handles_m m)"
    "None \<notin> set (msg_handles_m m)"
    using msg_slots_sealed [OF c(2)] c(2) by (simp_all add: sealed_def)
  have res: "sys_channel_read p v options bytes handles nb nh ab ah ipc =
      (ZX_OK, (data_size_m m, ucast (num_handles_m m)), msg_bytes m, ?hvs, ipc')"
  proof (cases "(ucast (num_handles_m m) :: 32 word) > 0")
    case True
    obtain st hvs m' ipc4 where g: "msg_get_handles MapHandleToValue p m handles (ucast (num_handles_m m)) ipc2 = (st, hvs, m', ipc4)"
      by (metis prod.collapse)
    from msg_get_handles_ok [OF c g] assms(3) True show ?thesis
      by (simp add: sys_channel_read_def eq g ipc3_def ipc'_def)
  next
    case False
    then have "num_handles_m m = 0" using unat_num_handles [of "num_handles_m m"] by (simp add: word_gt_0 unat_eq_0)
    then have nil: "msg_handles_m m = []" using slots(2) by simp
    then have "drop_packet (Some m) x = x" for x
      by (simp add: drop_packet_def MessagePacket_destroy_def \<open>num_handles_m m = 0\<close>)
    with False nil slots(1) show ?thesis by (simp add: sys_channel_read_def eq ipc3_def ipc'_def)
  qed
  have same: "tabs_m ipc' = tabs_m ipc3" "hs_m ipc' = hs_m ipc3" "chs_m ipc' = chs_m ipc3"
    by (simp_all add: ipc'_def record_recv_msg_sz_def)
  note got = received_ok [OF c ipc3_def]
  have "\<exists>h. msg_handles_m m ! n = Some h \<and>
       fst (GetHandleLocked (?hvs ! n) False (tabs_m ipc' p) (hs_m ipc')) = Some h \<and>
       dispatcher_m (slots_m (hs_m ipc') h) = dispatcher_m (slots_m (hs_m ipc) h) \<and>
       rights_m (slots_m (hs_m ipc') h) = rights_m (slots_m (hs_m ipc) h)" if n: "n < unat (num_handles_m m)" for n
  proof -
    have "msg_handles_m m ! n \<in> set (msg_handles_m m)" using n slots(2) by simp
    then obtain h where h: "msg_handles_m m ! n = Some h" using slots(3) by (metis option.exhaust)
    have v: "?hvs ! n = MapHandleToValue h (tabs_m ipc2 p) (hs_m ipc2)" using n h slots(1,2) by simp
    have "h \<in> set (msg_slots m)" using slots n h by (force simp: in_set_conv_nth)
    from got [OF this] h show ?thesis unfolding v same by (intro exI [of _ h]) (simp add: hs)
  qed
  moreover have "messages_m (chans_m (chs_m ipc') k) = tl (messages_m (chans_m (chs_m ipc) k))"
    "\<And>q. q \<noteq> p \<Longrightarrow> handles_m (tabs_m ipc' q) = handles_m (tabs_m ipc q)"
  proof -
    have cc: "ipc_inv (X \<union> set (msg_slots m)) ipc2" "set (msg_slots m) \<inter> X = {}" "distinct (msg_slots m)"
      using c(1) by (simp_all add: carries_def)
    note r = receive_handles_ok [OF cc c(3), folded ipc3_def]
    have "packets (chs_m ipc3) (Queue k) = tl (messages_m (chans_m (chs_m ipc) k))" using r pk by simp
    then show "messages_m (chans_m (chs_m ipc') k) = tl (messages_m (chans_m (chs_m ipc) k))" by (simp add: same)
    show "handles_m (tabs_m ipc' q) = handles_m (tabs_m ipc q)" if "q \<noteq> p" for q using r that tabs by (simp add: same)
  qed
  ultimately show ?thesis using res slots(1,2) by (intro exI [of _ ipc'] exI [of _ ?hvs]) simp
qed

theorem channel_read_moves_handles_witness:
  "\<exists>ipc' hv. sys_channel_read 2 example_value 0 (\<lambda>_. True) (\<lambda>_. True) 0 1 (Some True) None example_ipc =
      (ZX_OK, (data_size_m example_front, 1), msg_bytes example_front, [hv], ipc') \<and>
    fst (GetHandleLocked hv False (tabs_m ipc' 2) (hs_m ipc')) = msg_handles_m example_front ! 0"
proof -
  have "copy_array_to_user (\<lambda>_. True) 0 (unat (num_handles_m example_front)) = ZX_OK"
    by (simp add: copy_array_to_user_def list_all_iff)
  from channel_read_moves_handles [OF example_ipc_ok(1,3) this] obtain ipc' hvs where
    r: "sys_channel_read 2 example_value 0 (\<lambda>_. True) (\<lambda>_. True) 0 1 (Some True) None example_ipc =
      (ZX_OK, (data_size_m example_front, 1), msg_bytes example_front, hvs, ipc')" "length hvs = 1"
    "fst (GetHandleLocked (hvs ! 0) False (tabs_m ipc' 2) (hs_m ipc')) = msg_handles_m example_front ! 0"
    by (auto simp: example_ipc_ok(4))
  then show ?thesis by (cases hvs) auto
qed

text \<open>C31: If the handle array of the reader cannot be written, \<open>zx_channel_read\<close> fails after the
  message has left the queue and after the packet has given up its handles. They are then in no
  table and in no message, and no later operation of any process or of the kernel closes them or
  gives them to anyone: their objects stay alive for ever.\<close>
theorem read_fault_leaks_handles:
  assumes "ipc_inv X ipc" "reads_message p v options bytes nb nh ab ah ipc k m"
    and "copy_array_to_user handles 0 (unat (num_handles_m m)) \<noteq> ZX_OK" "h \<in> set (msg_slots m)"
  shows "\<exists>ipc'. sys_channel_read p v options bytes handles nb nh ab ah ipc =
      (ZX_ERR_INVALID_ARGS, (data_size_m m, ucast (num_handles_m m)), msg_bytes m, [], ipc') \<and>
    (\<forall>ipc'' l. any_step\<^sup>*\<^sup>* ipc' ipc'' \<longrightarrow>
       dispatcher_m (slots_m (hs_m ipc'') h) \<noteq> None \<and> h \<notin> set (held ipc'' l))"
proof -
  obtain ipc2 where c: "carries X m ipc2" "sealed m" "p \<noteq> ZX_KOID_INVALID"
    and eq: "\<And>(map_handle :: nat \<Rightarrow> HandleTable \<Rightarrow> hstate \<Rightarrow> zx_handle) handles. channel_read map_handle p v options bytes handles nb nh ab ah ipc =
       (let (status, hvs, msg, ipc3) =
              (if (ucast (num_handles_m m) :: 32 word) > 0
               then msg_get_handles map_handle p m handles (ucast (num_handles_m m)) ipc2 else (ZX_OK, [], m, ipc2))
        in if status \<noteq> ZX_OK
           then (status, (data_size_m m, ucast (num_handles_m m)), msg_bytes m, hvs, drop_packet (Some msg) ipc3)
           else (ZX_OK, (data_size_m m, ucast (num_handles_m m)), msg_bytes m, hvs,
                 drop_packet (Some msg) (record_recv_msg_sz (data_size_m m) ipc3)))"
    by (rule read_message_eq [OF assms(1,2)]) blast
  have "unat (num_handles_m m) \<noteq> 0"
  proof
    assume "unat (num_handles_m m) = 0"
    then show False using assms(3) by (simp add: copy_array_to_user_def)
  qed
  then have pos: "(ucast (num_handles_m m) :: 32 word) > 0"
    using unat_num_handles [of "num_handles_m m"] by (auto simp: word_gt_0 simp del: unat_num_handles)
  have st: "copy_array_to_user handles 0 (unat (num_handles_m m)) = ZX_ERR_INVALID_ARGS"
    using assms(3) by (simp add: copy_array_to_user_def split: if_splits)
  then have g: "msg_get_handles MapHandleToValue p m handles (ucast (num_handles_m m)) ipc2 =
      (ZX_ERR_INVALID_ARGS, [], set_owns_handles False m, ipc2)"
    by (simp add: msg_get_handles_def Let_def zx_consts)
  have "sys_channel_read p v options bytes handles nb nh ab ah ipc =
      (ZX_ERR_INVALID_ARGS, (data_size_m m, ucast (num_handles_m m)), msg_bytes m, [], ipc2)"
    using pos by (simp add: sys_channel_read_def eq g zx_consts set_owns_handles_def)
  moreover have inv: "ipc_inv (X \<union> set (msg_slots m)) ipc2" using c(1) by (simp add: carries_def)
  have "dispatcher_m (slots_m (hs_m ipc'') h) \<noteq> None \<and> h \<notin> set (held ipc'' l)" if run: "any_step\<^sup>*\<^sup>* ipc2 ipc''" for ipc'' l
  proof -
    obtain X' where X': "X \<union> set (msg_slots m) \<subseteq> X'" "ipc_inv X' ipc''" using any_run_inv [OF run inv] by blast
    then show ?thesis using held_once(5) [OF X'(2), of h l] assms(4) by blast
  qed
  ultimately show ?thesis by (intro exI [of _ ipc2]) simp
qed

theorem read_fault_leaks_handles_witness:
  "\<exists>h ipc'. sys_channel_read 2 example_value 0 (\<lambda>_. True) (\<lambda>_. False) 0 1 (Some True) None example_ipc =
      (ZX_ERR_INVALID_ARGS, (data_size_m example_front, 1), msg_bytes example_front, [], ipc') \<and>
    msg_slots example_front = [h] \<and> dispatcher_m (slots_m (hs_m ipc') h) \<noteq> None \<and> (\<forall>l. h \<notin> set (held ipc' l))"
proof -
  obtain h where h: "msg_slots example_front = [h]" using example_ipc_ok(5) by (cases "msg_slots example_front") auto
  have "copy_array_to_user (\<lambda>_. False) 0 (unat (num_handles_m example_front)) \<noteq> ZX_OK"
    by (simp add: copy_array_to_user_def example_ipc_ok(4) zx_consts)
  from read_fault_leaks_handles [OF example_ipc_ok(1,3) this, of h] h obtain ipc' where
    "sys_channel_read 2 example_value 0 (\<lambda>_. True) (\<lambda>_. False) 0 1 (Some True) None example_ipc =
      (ZX_ERR_INVALID_ARGS, (data_size_m example_front, 1), msg_bytes example_front, [], ipc')"
    "\<forall>ipc'' l. any_step\<^sup>*\<^sup>* ipc' ipc'' \<longrightarrow> dispatcher_m (slots_m (hs_m ipc'') h) \<noteq> None \<and> h \<notin> set (held ipc'' l)"
    by (auto simp: example_ipc_ok(4))
  with h show ?thesis by blast
qed

text \<open>C32: \<open>zx_channel_call\<close> does not consume a handle that lacks \<open>ZX_RIGHT_TRANSFER\<close>: when the
  array of handles to send contains one, the call fails before it waits, and that handle is still
  open in the table of the caller, with the same object and rights.\<close>
theorem call_keeps_unsendable_handle:
  assumes "ipc_inv X ipc" "p \<noteq> ZX_KOID_INVALID" "\<not> nb < 4"
    and look: "GetDispatcherWithRightsImpl (Some ZX_OBJ_TYPE_CHANNEL) v (ZX_RIGHT_WRITE OR ZX_RIGHT_READ) False
      (tabs_m ipc p) (hs_m ipc) = (ZX_OK, Some (k, rights), t)"
    and create: "MessagePacket_Create pmm src nb n = (ZX_OK, Some m)"
    and vs: "copy_array_from_user user 0 (unat n) = Some vs" "MapHandleToValue i (tabs_m ipc p) (hs_m ipc) \<in> set vs"
    and i: "i \<in> set (handles_m (tabs_m ipc p))" "\<not> HasRights ZX_RIGHT_TRANSFER (slots_m (hs_m ipc) i)"
  shows "\<exists>status ipc'. channel_call_begin (handle_array user again) stack pmm w p v 0 src nb n ipc = Some (Some status, k, ipc') \<and>
    status \<noteq> ZX_OK \<and> i \<in> set (handles_m (tabs_m ipc' p)) \<and> slots_m (hs_m ipc') i = slots_m (hs_m ipc) i"
proof -
  let ?ipc1 = "put_ts p (t, hs_m ipc) ipc"
  note i1 = lookup_ok [OF assms(1,2) look]
  note tab1 = ipc_inv_table(1) [OF i1 assms(2)]
  obtain c where t: "t = (tabs_m ipc p)\<lparr>policy_calls_m := c\<rparr>"
    using look by (auto simp: GetDispatcherWithRightsImpl_def Let_def split: prod.splits option.splits if_splits
        dest!: GetHandleLocked_table)
  have same: "tabs_m ?ipc1 p = t" "hs_m ?ipc1 = hs_m ipc" by (simp_all add: put_ts_def)
  obtain status hs vs' ts where l: "msg_put_loop (uh_entry (handle_array user again) (Some k)) 0 vs ZX_OK (t, hs_m ipc) = (status, hs, vs', ts)"
    by (metis prod.collapse)
  have keep: "i \<in> set (handles_m (fst ts)) \<and> slots_m (snd ts) i = slots_m (hs_m ipc) i \<and> None \<in> set hs"
    using put_loop_keeps [OF tab1 [unfolded same] _ i(2) l] i(1) vs(2) by (simp add: t MapHandleToValue_def)
  have loop: "distinct (somes hs)" "makes_loose (set (somes hs)) (hs_m ipc) (snd ts)" "status \<noteq> ZX_OK"
    using plain_entry.put_loop_ok [OF tab1 [unfolded same] l] keep by auto
  have n: "n > 0" using vs length_copy_array_from_user [OF vs(1)] by (cases "n = 0") (auto simp: word_gt_0)
  let ?m = "m\<lparr>msg_handles_m := hs, owns_handles_m := True\<rparr>"
  let ?ipc2 = "put_ts p ts ?ipc1"
  have put: "msg_put_handles (handle_array user again) m n k (ts_of p ?ipc1) = (status, ?m, ts, None)"
    using l vs(1) loop(3) by (simp add: msg_put_handles_def ts_of_def same, simp add: handle_array_def set_owns_handles_def)
  have call: "channel_call_begin (handle_array user again) stack pmm w p v 0 src nb n ipc =
      Some (Some status, k, drop_packet (Some ?m) ?ipc2)"
    using assms(3) n loop(3) by (simp add: channel_call_begin_def Let_def look create put)
  have len: "length (msg_handles_m m) = unat n" "unat (num_handles_m m) = unat n" "\<not> owns_handles_m m"
    using Create_handles [OF create] by auto
  have c: "carries X ?m ?ipc2" by (rule plain_handles.put_handles_ok(1) [OF i1 assms(2) len put])
  have inv2: "ipc_inv (X \<union> set (somes hs)) ?ipc2" "length hs = unat (num_handles_m m)" using c by (simp_all add: carries_def msg_slots_def)
  have at2: "tabs_m ?ipc2 p = fst ts" "hs_m ?ipc2 = snd ts" by (simp_all add: put_ts_def)
  have loose: "set (somes hs) \<subseteq> loose (snd ts)" using flight_loose [OF ipc_invD(4) [OF inv2(1)]] by (simp add: at2)
  have "i \<notin> set (somes hs)"
    using keep loose table_not_loose [OF ipc_inv_table(1) [OF inv2(1) assms(2)], of i] by (auto simp: at2)
  moreover have "MessagePacket_destroy ?m (snd ts) = fold HandleTableArena_Delete (somes hs) (snd ts)"
    using destroy_eq [of ?m "snd ts"] inv2(2) by (simp add: msg_slots_def)
  moreover have "heap_inv (snd ts)" using tabs_ok_heap [OF ipc_invD(1) [OF inv2(1)]] by (simp add: at2)
  then have "slots_m (fold HandleTableArena_Delete (somes hs) (snd ts)) =
      (\<lambda>i. if i \<in> set (somes hs) then (slots_m (snd ts) i)\<lparr>dispatcher_m := None\<rparr> else slots_m (snd ts) i)"
    using fold_Delete [OF _ loop(1)] loose by (auto simp: loose_def)
  ultimately have "slots_m (hs_m (drop_packet (Some ?m) ?ipc2)) i = slots_m (hs_m ipc) i"
    using keep by (simp add: drop_packet_def at2)
  moreover have "i \<in> set (handles_m (tabs_m (drop_packet (Some ?m) ?ipc2) p))" using keep by (simp add: drop_packet_def at2)
  ultimately show ?thesis using call loop(3) by blast
qed

theorem call_keeps_unsendable_handle_witness:
  "\<exists>v hv i status ipc'.
     channel_call_begin (handle_array (user_bytes [hv]) (user_bytes [hv])) [] zero_pages 7 2 v 0 (user_bytes [1, 2, 3, 4]) 4 1 example_caller =
       Some (Some status, 1025, ipc') \<and> status \<noteq> ZX_OK \<and>
     i \<in> set (handles_m (tabs_m ipc' 2)) \<and> dispatcher_m (slots_m (hs_m ipc') i) = Some 1026"
proof -
  obtain i j t where c: "ipc_inv {} example_caller" "handles_m (tabs_m example_caller 2) = [i, j]"
    "\<not> HasRights ZX_RIGHT_TRANSFER (slots_m (hs_m example_caller) i)" "dispatcher_m (slots_m (hs_m example_caller) i) = Some 1026"
    "GetDispatcherWithRightsImpl (Some ZX_OBJ_TYPE_CHANNEL) (MapHandleToValue j (tabs_m example_caller 2) (hs_m example_caller))
       (ZX_RIGHT_WRITE OR ZX_RIGHT_READ) False (tabs_m example_caller 2) (hs_m example_caller) =
       (ZX_OK, Some (1025, ZX_DEFAULT_CHANNEL_RIGHTS), t)" by (rule example_caller_ok)
  let ?hv = "MapHandleToValue i (tabs_m example_caller 2) (hs_m example_caller)"
  obtain st r where m: "MessagePacket_Create zero_pages (user_bytes [1, 2, 3, 4]) 4 1 = (st, r)" by (rule prod.exhaust)
  have "\<not> (4 :: 32 word) > kMaxMessageSize" "\<not> (1 :: 32 word) > of_nat kMaxMessageHandles"
    "BufferChain_Alloc zero_pages (unat (PayloadOffset 1 + 4)) \<noteq> None"
    "copy_array_from_user (user_bytes [1, 2, 3, 4]) 0 (unat (4 :: 32 word)) \<noteq> (None :: byte list option)"
    by (simp_all add: kMaxMessageSize_def kMaxMessageHandles_def BufferChain_Alloc_def zero_pages_def Let_def)
  with MessagePacket_Create_cases [OF pmm_ok_zero_pages m] obtain msg where msg: "st = ZX_OK" "r = Some msg"
    by (cases r) auto
  have two: "(2 :: zx_koid) \<noteq> ZX_KOID_INVALID" by (simp add: ZX_KOID_INVALID_def)
  have "copy_array_from_user (user_bytes [?hv]) 0 (unat (1 :: 32 word)) = Some [?hv]" by simp
  from call_keeps_unsendable_handle [OF c(1) two _ c(5) m [unfolded msg] this, of i "user_bytes [?hv]" "[]" 7] c(2-4)
  show ?thesis by fastforce
qed

end
