(* ===== verification/MBuf_Chain.thy ===== *)
theory MBuf_Chain
  imports Ordered_Queue
begin

section \<open>MBufChain\<close>

text \<open>
  Model of \<open>zircon/kernel/object/mbuf.cc\<close> and \<open>include/object/mbuf.h\<close>, the buffer of a socket.

  \<^item> The pointer \<open>head_\<close> into the list \<open>tail_\<close> is the position of the node it points to. Popping the
    front of the list moves every position.
  \<^item> \<open>avail\<close> is how many allocations succeed before the first one fails; every loop stops at that
    one. The byte counts are far below \<open>2^32\<close> and natural numbers.
  \<^item> \<open>chain_stream\<close> reads the chain as a stream of bytes, and \<open>holds_datagrams\<close> says which datagrams
    it holds. The operations are shown to implement a bounded queue of bytes, and of datagrams
    as long as no buffer that began a datagram has been recycled.
\<close>

definition kHeaderSize :: nat where "kHeaderSize = 8 + 4 * 4"
definition kMallocSize :: nat where "kMallocSize = 2048 - 16"
definition kPayloadSize :: nat where "kPayloadSize = kMallocSize - kHeaderSize"
definition kSizeMax :: nat where "kSizeMax = 128 * kPayloadSize"

record MBuf =
  off_m :: nat
  len_m :: nat
  pkt_len_m :: nat
  mbuf_data_m :: "byte list"

record MBufChain =
  freelist_m :: "MBuf list"
  tail_bufs_m :: "MBuf list"
  head_buf_m :: "nat option"
  size_m :: nat

definition MBuf_new :: MBuf where
  "MBuf_new = \<lparr>off_m = 0, len_m = 0, pkt_len_m = 0, mbuf_data_m = replicate kPayloadSize 0\<rparr>"

definition MBufChain_new :: MBufChain where
  "MBufChain_new = \<lparr>freelist_m = [], tail_bufs_m = [], head_buf_m = None, size_m = 0\<rparr>"

definition MBuf_rem :: "MBuf \<Rightarrow> nat" where
  "MBuf_rem b = kPayloadSize - (off_m b + len_m b)"

definition MBufChain_is_full :: "MBufChain \<Rightarrow> bool" where
  "MBufChain_is_full c \<longleftrightarrow> size_m c \<ge> kSizeMax"

definition MBufChain_is_empty :: "MBufChain \<Rightarrow> bool" where
  "MBufChain_is_empty c \<longleftrightarrow> size_m c = 0"

definition MBufChain_size :: "bool \<Rightarrow> MBufChain \<Rightarrow> nat" where
  "MBufChain_size datagram c =
     (if datagram \<and> size_m c \<noteq> 0 then pkt_len_m (hd (tail_bufs_m c)) else size_m c)"

definition MBufChain_max_size :: "MBufChain \<Rightarrow> nat" where
  "MBufChain_max_size c = kSizeMax"

definition AllocMBuf :: "nat \<Rightarrow> MBufChain \<Rightarrow> MBuf option \<times> nat \<times> MBufChain" where
  "AllocMBuf avail c =
     (case freelist_m c of
        [] \<Rightarrow> if avail = 0 then (None, avail, c) else (Some MBuf_new, avail - 1, c)
      | b # rest \<Rightarrow> (Some b, avail, c\<lparr>freelist_m := rest\<rparr>))"

definition FreeMBuf :: "MBuf \<Rightarrow> MBufChain \<Rightarrow> MBufChain" where
  "FreeMBuf buf c = c\<lparr>freelist_m := buf\<lparr>off_m := 0, len_m := 0\<rparr> # freelist_m c\<rparr>"

subsection \<open>Reading\<close>

text \<open>Popping the front buffer of \<open>tail_\<close> and freeing it, where \<open>head_\<close> becomes null if it pointed
  there.\<close>

definition free_front :: "MBufChain \<Rightarrow> MBufChain" where
  "free_front c =
     (let cur = hd (tail_bufs_m c);
          c = c\<lparr>head_buf_m := (case head_buf_m c of None \<Rightarrow> None | Some h \<Rightarrow> if h = 0 then None else Some (h - 1))\<rparr>;
          c = c\<lparr>tail_bufs_m := tl (tail_bufs_m c)\<rparr>
      in FreeMBuf cur c)"

lemma tail_free_front [simp]: "tail_bufs_m (free_front c) = tl (tail_bufs_m c)"
  by (simp add: free_front_def FreeMBuf_def Let_def)

text \<open>The loop of \<open>ReadHelper\<close> on a chain that is consumed; \<open>out\<close> is what has been copied so far.\<close>

function read_loop ::
  "user_out \<Rightarrow> nat \<Rightarrow> bool \<Rightarrow> nat \<Rightarrow> byte list \<Rightarrow> MBufChain \<Rightarrow> zx_status \<times> nat \<times> byte list \<times> MBufChain" where
  "read_loop dst len datagram pos out c =
     (if pos < len \<and> tail_bufs_m c \<noteq> [] then
        let b = hd (tail_bufs_m c);
            copy_len = min (len_m b) (len - pos);
            status = copy_array_to_user dst pos copy_len
        in if status \<noteq> ZX_OK then (status, pos, out, c)
           else let out = out @ take copy_len (drop (off_m b) (mbuf_data_m b));
                    pos = pos + copy_len;
                    b = b\<lparr>off_m := off_m b + copy_len, len_m := len_m b - copy_len\<rparr>;
                    c = c\<lparr>tail_bufs_m := b # tl (tail_bufs_m c), size_m := size_m c - copy_len\<rparr>
                in if len_m b = 0 \<or> datagram
                   then read_loop dst len datagram pos out (free_front (c\<lparr>size_m := size_m c - len_m b\<rparr>))
                   else read_loop dst len datagram pos out c
      else (ZX_OK, pos, out, c))"
  by pat_completeness auto

termination
  by (relation "measure (\<lambda>(dst, len, datagram, pos, out, c). (len - pos) + length (tail_bufs_m c))")
    (auto simp: min_def neq_Nil_conv split: if_splits)

function drain_loop :: "MBufChain \<Rightarrow> MBufChain" where
  "drain_loop c =
     (if tail_bufs_m c \<noteq> [] \<and> pkt_len_m (hd (tail_bufs_m c)) = 0
      then drain_loop (free_front (c\<lparr>size_m := size_m c - len_m (hd (tail_bufs_m c))\<rparr>))
      else c)"
  by pat_completeness auto

termination
  by (relation "measure (\<lambda>c. length (tail_bufs_m c))") auto

declare read_loop.simps [simp del] drain_loop.simps [simp del]

definition MBufChain_Read ::
  "user_out \<Rightarrow> nat \<Rightarrow> bool \<Rightarrow> MBufChain \<Rightarrow> zx_status \<times> byte list \<times> nat \<times> MBufChain" where
  "MBufChain_Read dst len datagram c =
     (if size_m c = 0 then (ZX_OK, [], 0, c)
      else let len = (if datagram \<and> len > pkt_len_m (hd (tail_bufs_m c))
                      then pkt_len_m (hd (tail_bufs_m c)) else len);
               (status, pos, out, c) = read_loop dst len datagram 0 [] c
           in if status \<noteq> ZX_OK then (status, out, 0, c)
              else let c = (if datagram then drain_loop c else c)
                   in (ZX_OK, out, pos, c))"

text \<open>The same loop on a chain that is only looked at.\<close>

fun peek_loop :: "user_out \<Rightarrow> nat \<Rightarrow> nat \<Rightarrow> byte list \<Rightarrow> MBuf list \<Rightarrow> zx_status \<times> nat \<times> byte list" where
  "peek_loop dst len pos out [] = (ZX_OK, pos, out)"
| "peek_loop dst len pos out (b # bs) =
     (if pos < len then
        let copy_len = min (len_m b) (len - pos);
            status = copy_array_to_user dst pos copy_len
        in if status \<noteq> ZX_OK then (status, pos, out)
           else peek_loop dst len (pos + copy_len) (out @ take copy_len (drop (off_m b) (mbuf_data_m b))) bs
      else (ZX_OK, pos, out))"

definition MBufChain_Peek ::
  "user_out \<Rightarrow> nat \<Rightarrow> bool \<Rightarrow> MBufChain \<Rightarrow> zx_status \<times> byte list \<times> nat" where
  "MBufChain_Peek dst len datagram c =
     (if size_m c = 0 then (ZX_OK, [], 0)
      else let len = (if datagram \<and> len > pkt_len_m (hd (tail_bufs_m c))
                      then pkt_len_m (hd (tail_bufs_m c)) else len);
               (status, pos, out) = peek_loop dst len 0 [] (tail_bufs_m c)
           in if status \<noteq> ZX_OK then (status, out, 0) else (ZX_OK, out, pos))"

subsection \<open>Writing\<close>

text \<open>Linking a buffer behind \<open>head_\<close>, or at the front when there is no head.\<close>

definition link_buf :: "MBuf \<Rightarrow> MBufChain \<Rightarrow> MBufChain" where
  "link_buf next c =
     (case head_buf_m c of
        None \<Rightarrow> c\<lparr>tail_bufs_m := next # tail_bufs_m c, head_buf_m := Some 0\<rparr>
      | Some h \<Rightarrow> c\<lparr>tail_bufs_m := take (h + 1) (tail_bufs_m c) @ next # drop (h + 1) (tail_bufs_m c),
                    head_buf_m := Some (h + 1)\<rparr>)"

definition free_bufs :: "MBuf list \<Rightarrow> MBufChain \<Rightarrow> MBufChain" where
  "free_bufs bufs c = fold FreeMBuf bufs c"

text \<open>The first loop of \<open>WriteDatagram\<close>: \<open>None\<close> when an allocation failed and the buffers are freed.\<close>

fun alloc_bufs :: "nat \<Rightarrow> nat \<Rightarrow> MBuf list \<Rightarrow> MBufChain \<Rightarrow> MBuf list option \<times> nat \<times> MBufChain" where
  "alloc_bufs 0 avail bufs c = (Some bufs, avail, c)"
| "alloc_bufs (Suc need) avail bufs c =
     (case AllocMBuf avail c of
        (None, avail, c) \<Rightarrow> (None, avail, free_bufs bufs c)
      | (Some buf, avail, c) \<Rightarrow> alloc_bufs need avail (buf # bufs) c)"

text \<open>The second loop: the buffers it has left behind, and whether all bytes could be read.\<close>

fun copy_bufs :: "user_in \<Rightarrow> nat \<Rightarrow> nat \<Rightarrow> MBuf list \<Rightarrow> bool \<times> MBuf list" where
  "copy_bufs src len pos [] = (True, [])"
| "copy_bufs src len pos (buf # bufs) =
     (let copy_len = min kPayloadSize (len - pos) in
      case copy_array_from_user src pos copy_len of
        None \<Rightarrow> (False, buf # bufs)
      | Some bs \<Rightarrow>
          let buf = buf\<lparr>mbuf_data_m := write_at 0 bs (mbuf_data_m buf), len_m := len_m buf + copy_len\<rparr>;
              (ok, bufs) = copy_bufs src len (pos + copy_len) bufs
          in (ok, buf # bufs))"

definition WriteDatagram :: "user_in \<Rightarrow> nat \<Rightarrow> nat \<Rightarrow> MBufChain \<Rightarrow> zx_status \<times> nat \<times> MBufChain" where
  "WriteDatagram src len avail c =
     (if len = 0 then (ZX_ERR_INVALID_ARGS, 0, c)
      else if len > kSizeMax then (ZX_ERR_OUT_OF_RANGE, 0, c)
      else if len + size_m c > kSizeMax then (ZX_ERR_SHOULD_WAIT, 0, c)
      else case alloc_bufs (1 + (len - 1) div kPayloadSize) avail [] c of
        (None, _, c) \<Rightarrow> (ZX_ERR_SHOULD_WAIT, 0, c)
      | (Some bufs, _, c) \<Rightarrow>
          let (ok, bufs) = copy_bufs src len 0 bufs in
          if \<not> ok then (ZX_ERR_INVALID_ARGS, 0, free_bufs bufs c)
          else let bufs = (hd bufs)\<lparr>pkt_len_m := len\<rparr> # tl bufs;
                   c = fold link_buf bufs c
               in (ZX_OK, len, c\<lparr>size_m := size_m c + len\<rparr>))"

text \<open>The loop of \<open>WriteStream\<close>. The buffer \<open>head_\<close> points to is updated in place.\<close>

definition head_MBuf :: "MBufChain \<Rightarrow> MBuf" where
  "head_MBuf c = tail_bufs_m c ! the (head_buf_m c)"

text \<open>A full head buffer is followed by a new one; \<open>None\<close> when there is no memory for it.\<close>

definition grow_head :: "nat \<Rightarrow> MBufChain \<Rightarrow> (nat \<times> MBufChain) option" where
  "grow_head avail c =
     (if MBuf_rem (head_MBuf c) = 0
      then case AllocMBuf avail c of
             (None, avail, c) \<Rightarrow> None
           | (Some next, avail, c) \<Rightarrow> Some (avail, link_buf next c)
      else Some (avail, c))"

lemma AllocMBuf_decreases:
  "AllocMBuf avail c = (Some b, avail', c') \<Longrightarrow>
   avail' + length (freelist_m c') < avail + length (freelist_m c)"
  by (auto simp: AllocMBuf_def split: list.splits if_splits)

lemma freelist_link_buf [simp]: "freelist_m (link_buf b c) = freelist_m c"
  by (simp add: link_buf_def split: option.split)

lemma grow_head_progress:
  "grow_head avail c = Some (avail', c') \<Longrightarrow>
   MBuf_rem (head_MBuf c') \<noteq> 0 \<and> avail' = avail \<and> c' = c \<or>
   avail' + length (freelist_m c') < avail + length (freelist_m c)"
  by (auto simp: grow_head_def split: if_splits option.splits prod.splits dest: AllocMBuf_decreases)

function write_loop :: "user_in \<Rightarrow> nat \<Rightarrow> nat \<Rightarrow> nat \<Rightarrow> MBufChain \<Rightarrow> zx_status \<times> nat \<times> MBufChain" where
  "write_loop src len pos avail c =
     (if pos < len then
        case grow_head avail c of
          None \<Rightarrow> (ZX_OK, pos, c)
        | Some (avail', c') \<Rightarrow>
            let h = the (head_buf_m c');
                b = head_MBuf c';
                wanted = min (MBuf_rem b) (len - pos);
                copy_len = (if size_m c' + wanted > kSizeMax then kSizeMax - size_m c' else wanted)
            in if size_m c' + wanted > kSizeMax \<and> copy_len = 0 then (ZX_OK, pos, c')
               else case copy_array_from_user src pos copy_len of
                 None \<Rightarrow> (ZX_ERR_INVALID_ARGS, pos, c')
               | Some bs \<Rightarrow>
                   write_loop src len (pos + copy_len) avail'
                     (c'\<lparr>tail_bufs_m := (tail_bufs_m c')[h := b\<lparr>mbuf_data_m := write_at (off_m b + len_m b) bs (mbuf_data_m b),
                                                          len_m := len_m b + copy_len\<rparr>],
                         size_m := size_m c' + copy_len\<rparr>)
      else (ZX_OK, pos, c))"
  by pat_completeness auto

termination
proof (relation "measures [\<lambda>(src, len, pos, avail, c). len - pos, \<lambda>(src, len, pos, avail, c). avail + length (freelist_m c)]",
    goal_cases)
  case (2 src len pos avail c r avail' c' h b wanted copy_len bs)
  from 2(3,2) have "grow_head avail c = Some (avail', c')" by simp
  from grow_head_progress [OF this] 2 show ?case by (auto simp: min_def split: if_splits)
qed simp

declare write_loop.simps [simp del]

text \<open>A chain without a head gets one; \<open>None\<close> when there is no memory for it.\<close>

definition ensure_head :: "nat \<Rightarrow> MBufChain \<Rightarrow> (nat \<times> MBufChain) option" where
  "ensure_head avail c =
     (if head_buf_m c = None
      then case AllocMBuf avail c of
             (None, avail, c) \<Rightarrow> None
           | (Some b, avail, c) \<Rightarrow> Some (avail, c\<lparr>tail_bufs_m := b # tail_bufs_m c, head_buf_m := Some 0\<rparr>)
      else Some (avail, c))"

definition WriteStream :: "user_in \<Rightarrow> nat \<Rightarrow> nat \<Rightarrow> MBufChain \<Rightarrow> zx_status \<times> nat \<times> MBufChain" where
  "WriteStream src len avail c =
     (case ensure_head avail c of
        None \<Rightarrow> (ZX_ERR_SHOULD_WAIT, 0, c)
      | Some (avail, c) \<Rightarrow>
          (case write_loop src len 0 avail c of
             (status, pos, c) \<Rightarrow>
               if status \<noteq> ZX_OK then (status, 0, c)
               else if pos = 0 then (ZX_ERR_SHOULD_WAIT, 0, c)
               else (ZX_OK, pos, c)))"

subsection \<open>The chain as a stream\<close>

definition mbuf_ok :: "MBuf \<Rightarrow> bool" where
  "mbuf_ok b \<longleftrightarrow> length (mbuf_data_m b) = kPayloadSize \<and> off_m b + len_m b \<le> kPayloadSize"

definition mbuf_bytes :: "MBuf \<Rightarrow> byte list" where
  "mbuf_bytes b = take (len_m b) (drop (off_m b) (mbuf_data_m b))"

definition bufs_bytes :: "MBuf list \<Rightarrow> byte list" where
  "bufs_bytes bs = concat (map mbuf_bytes bs)"

definition chain_stream :: "MBufChain \<Rightarrow> byte list" where
  "chain_stream c = bufs_bytes (tail_bufs_m c)"

text \<open>Buffers hold their bytes inside their arrays, free buffers are empty, and \<open>head_\<close> points to
  the last buffer.\<close>

definition chain_shape :: "MBufChain \<Rightarrow> bool" where
  "chain_shape c \<longleftrightarrow> list_all mbuf_ok (tail_bufs_m c) \<and>
     list_all (\<lambda>b. mbuf_ok b \<and> off_m b = 0 \<and> len_m b = 0) (freelist_m c) \<and>
     head_buf_m c = (if tail_bufs_m c = [] then None else Some (length (tail_bufs_m c) - 1))"

definition chain_inv :: "MBufChain \<Rightarrow> bool" where
  "chain_inv c \<longleftrightarrow> chain_shape c \<and> size_m c = length (chain_stream c) \<and> size_m c \<le> kSizeMax"

lemma bufs_bytes_simps [simp]:
  "bufs_bytes [] = []" "bufs_bytes (b # bs) = mbuf_bytes b @ bufs_bytes bs"
  "bufs_bytes (bs @ cs) = bufs_bytes bs @ bufs_bytes cs"
  by (simp_all add: bufs_bytes_def)

lemma length_mbuf_bytes [simp]: "mbuf_ok b \<Longrightarrow> length (mbuf_bytes b) = len_m b"
  by (auto simp: mbuf_ok_def mbuf_bytes_def)

lemma mbuf_new_ok [simp]: "mbuf_ok MBuf_new" "off_m MBuf_new = 0" "len_m MBuf_new = 0" "pkt_len_m MBuf_new = 0"
  by (simp_all add: mbuf_ok_def MBuf_new_def)

lemma chain_inv_new: "chain_inv MBufChain_new"
  by (simp add: chain_inv_def chain_shape_def MBufChain_new_def chain_stream_def)

lemma AllocMBuf_shape:
  assumes "chain_shape c" "AllocMBuf avail c = (Some b, avail', c')"
  shows "mbuf_ok b" "off_m b = 0" "len_m b = 0" "chain_shape c'" "tail_bufs_m c' = tail_bufs_m c" "size_m c' = size_m c"
    "head_buf_m c' = head_buf_m c" "b = MBuf_new \<or> b \<in> set (freelist_m c)" "set (freelist_m c') \<subseteq> set (freelist_m c)"
  using assms by (auto simp: AllocMBuf_def chain_shape_def split: list.splits if_splits)

lemma AllocMBuf_None: "AllocMBuf avail c = (None, avail', c') \<Longrightarrow> avail = 0 \<and> c' = c"
  by (auto simp: AllocMBuf_def split: list.splits if_splits)

lemma link_buf_shape:
  assumes "chain_shape c" "mbuf_ok b"
  shows "chain_shape (link_buf b c)" "tail_bufs_m (link_buf b c) = tail_bufs_m c @ [b]"
    "size_m (link_buf b c) = size_m c" "head_buf_m (link_buf b c) = Some (length (tail_bufs_m c))"
  using assms by (auto simp: link_buf_def chain_shape_def split: option.split)

lemma free_front_shape:
  assumes "chain_shape c" "tail_bufs_m c = b # rest"
  shows "chain_shape (free_front c)" "size_m (free_front c) = size_m c"
    "freelist_m (free_front c) = b\<lparr>off_m := 0, len_m := 0\<rparr> # freelist_m c"
  using assms by (auto simp: free_front_def FreeMBuf_def chain_shape_def mbuf_ok_def Let_def)

lemma FreeMBuf_shape:
  "chain_shape c \<Longrightarrow> mbuf_ok b \<Longrightarrow> chain_shape (FreeMBuf b c)"
  by (simp add: FreeMBuf_def chain_shape_def mbuf_ok_def)

lemma FreeMBuf_frame [simp]:
  "tail_bufs_m (FreeMBuf b c) = tail_bufs_m c" "size_m (FreeMBuf b c) = size_m c" "head_buf_m (FreeMBuf b c) = head_buf_m c"
  by (simp_all add: FreeMBuf_def)

text \<open>Taking \<open>n\<close> bytes from the front of a buffer.\<close>

definition advance :: "nat \<Rightarrow> MBuf \<Rightarrow> MBuf" where
  "advance n b = b\<lparr>off_m := off_m b + n, len_m := len_m b - n\<rparr>"

lemma advance_bytes:
  assumes "mbuf_ok b" "n \<le> len_m b"
  shows "mbuf_ok (advance n b)" "mbuf_bytes (advance n b) = drop n (mbuf_bytes b)"
    "take n (drop (off_m b) (mbuf_data_m b)) = take n (mbuf_bytes b)" "len_m (advance n b) = len_m b - n"
    "pkt_len_m (advance n b) = pkt_len_m b"
  using assms by (simp_all add: advance_def mbuf_ok_def mbuf_bytes_def drop_take ac_simps)

lemma read_loop_end:
  "\<not> (pos < len \<and> tail_bufs_m c \<noteq> []) \<Longrightarrow> read_loop dst len dg pos out c = (ZX_OK, pos, out, c)"
  by (subst read_loop.simps) (rule if_not_P)

lemma read_loop_step:
  assumes "pos < len" "tail_bufs_m c = b # rest" "n = min (len_m b) (len - pos)"
  shows "read_loop dst len dg pos out c =
    (if copy_array_to_user dst pos n \<noteq> ZX_OK then (copy_array_to_user dst pos n, pos, out, c)
     else let c' = c\<lparr>tail_bufs_m := advance n b # rest, size_m := size_m c - n\<rparr> in
       read_loop dst len dg (pos + n) (out @ take n (drop (off_m b) (mbuf_data_m b)))
         (if len_m b - n = 0 \<or> dg then free_front (c'\<lparr>size_m := size_m c' - (len_m b - n)\<rparr>) else c'))"
  by (subst read_loop.simps) (simp add: assms Let_def advance_def)

definition user_copy :: "user_out \<Rightarrow> nat \<Rightarrow> nat \<Rightarrow> zx_status" where
  "user_copy dst pos n = (if copy_array_to_user dst pos n = ZX_OK then ZX_OK else ZX_ERR_INVALID_ARGS)"

lemma user_copy_zero [simp]: "user_copy dst pos 0 = ZX_OK"
  by (simp add: user_copy_def copy_array_to_user_OK_iff)

lemma copy_array_to_user_cases: "copy_array_to_user dst pos n = user_copy dst pos n"
  by (simp add: user_copy_def copy_array_to_user_def)

lemma user_copy_split:
  "user_copy dst pos (a + b) = (if user_copy dst pos a = ZX_OK then user_copy dst (pos + a) b else ZX_ERR_INVALID_ARGS)"
  using copy_array_to_user_split [of dst pos a b] by (simp add: user_copy_def)

lemma chain_shape_front:
  assumes "chain_shape c" "tail_bufs_m c = b # rest" "mbuf_ok b'"
  shows "chain_shape (c\<lparr>tail_bufs_m := b' # rest, size_m := n\<rparr>)"
  using assms by (simp add: chain_shape_def)

lemma read_loop_stream:
  assumes "chain_shape c" "size_m c = length (bufs_bytes bs)" "tail_bufs_m c = bs"
    and "n = min (len - pos) (length (bufs_bytes bs))"
  shows "\<exists>k c'. read_loop dst len False pos out c = (user_copy dst pos n, pos + k, out @ take k (bufs_bytes bs), c') \<and>
    k \<le> n \<and> (user_copy dst pos n = ZX_OK \<longrightarrow> k = n) \<and> chain_shape c' \<and>
    chain_stream c' = drop k (bufs_bytes bs) \<and> size_m c' = length (bufs_bytes bs) - k"
  using assms
proof (induction bs arbitrary: c pos out n)
  case Nil
  then show ?case by (simp add: read_loop_end chain_stream_def)
next
  case (Cons b rest)
  have ok: "mbuf_ok b" "list_all mbuf_ok rest" using Cons.prems(1,3) by (simp_all add: chain_shape_def)
  show ?case
  proof (cases "pos < len")
    case False
    with Cons.prems show ?thesis by (simp add: read_loop_end chain_stream_def)
  next
    case pos: True
    define m where "m = min (len_m b) (len - pos)"
    have m: "m \<le> len_m b" "m \<le> n" "m \<le> len - pos"
      using Cons.prems(4) ok by (auto simp: m_def)
    note adv = advance_bytes [OF ok(1) m(1)]
    let ?c = "c\<lparr>tail_bufs_m := advance m b # rest, size_m := size_m c - m\<rparr>"
    have shape: "chain_shape (?c\<lparr>size_m := x\<rparr>)" for x
      using chain_shape_front [OF Cons.prems(1,3) adv(1)] by simp
    note step = read_loop_step [OF pos Cons.prems(3) m_def, of dst False out]
    have split: "user_copy dst pos n = (if user_copy dst pos m = ZX_OK then user_copy dst (pos + m) (n - m) else ZX_ERR_INVALID_ARGS)"
      using user_copy_split [of dst pos m "n - m"] m(2) by simp
    show ?thesis
    proof (cases "user_copy dst pos m = ZX_OK")
      case False
      then have "user_copy dst pos m = ZX_ERR_INVALID_ARGS" by (simp add: user_copy_def split: if_splits)
      with False split step Cons.prems show ?thesis
        by (intro exI [of _ 0] exI [of _ c]) (simp add: copy_array_to_user_cases chain_stream_def)
    next
      case fine: True
      show ?thesis
      proof (cases "m = len_m b")
        case False
        then have last: "m = len - pos" "m < len_m b" using m by (auto simp: m_def)
        then have "n = m" using Cons.prems(4) ok by simp
        moreover have "read_loop dst len False pos out c = (ZX_OK, pos + m, out @ take m (mbuf_bytes b), ?c)"
          unfolding step using fine last adv(3) pos by (simp add: copy_array_to_user_cases Let_def read_loop_end)
        ultimately show ?thesis
          using shape [of "size_m c - m"] fine last adv Cons.prems(2) ok
          by (intro exI [of _ m] exI [of _ ?c]) (simp add: chain_stream_def)
      next
        case whole: True
        let ?f = "free_front (?c\<lparr>size_m := size_m c - m - (len_m b - m)\<rparr>)"
        have f: "chain_shape ?f" "size_m ?f = length (bufs_bytes rest)" "tail_bufs_m ?f = rest"
          using free_front_shape [OF shape, where b = "advance m b" and rest = rest] Cons.prems(2) ok whole by simp_all
        have rest: "n - m = min (len - (pos + m)) (length (bufs_bytes rest))"
          using Cons.prems(4) ok whole m by (simp add: m_def)
        from Cons.IH [OF f rest, of "out @ take m (drop (off_m b) (mbuf_data_m b))"] obtain k c' where k:
          "read_loop dst len False (pos + m) (out @ take m (drop (off_m b) (mbuf_data_m b))) ?f =
             (user_copy dst (pos + m) (n - m), pos + m + k,
              (out @ take m (drop (off_m b) (mbuf_data_m b))) @ take k (bufs_bytes rest), c')"
          "k \<le> n - m" "user_copy dst (pos + m) (n - m) = ZX_OK \<longrightarrow> k = n - m" "chain_shape c'"
          "chain_stream c' = drop k (bufs_bytes rest)" "size_m c' = length (bufs_bytes rest) - k" by auto
        have "read_loop dst len False pos out c =
            (user_copy dst pos n, pos + (m + k), out @ take (m + k) (bufs_bytes (b # rest)), c')"
          unfolding step using fine whole k(1) adv(3) ok split
          by (simp add: copy_array_to_user_cases Let_def add.assoc)
        moreover have "chain_stream c' = drop (m + k) (bufs_bytes (b # rest))"
          "size_m c' = length (bufs_bytes (b # rest)) - (m + k)"
          using k(5,6) whole ok by simp_all
        ultimately show ?thesis
          using k(2-4) m(2) split fine by (intro exI [of _ "m + k"] exI [of _ c']) auto
      qed
    qed
  qed
qed

text \<open>Appending bytes to the buffer \<open>head_\<close> points to, the last one.\<close>

lemma shape_last:
  assumes "chain_shape c" "tail_bufs_m c \<noteq> []"
  obtains bs b where "tail_bufs_m c = bs @ [b]" "head_buf_m c = Some (length bs)" "head_MBuf c = b" "mbuf_ok b"
proof -
  obtain bs b where bs: "tail_bufs_m c = bs @ [b]" using assms(2) by (metis append_butlast_last_id)
  with assms(1) have "head_buf_m c = Some (length bs)" "mbuf_ok b" by (simp_all add: chain_shape_def)
  with bs that show ?thesis by (simp add: head_MBuf_def)
qed

definition append_buf :: "byte list \<Rightarrow> MBuf \<Rightarrow> MBuf" where
  "append_buf data b = b\<lparr>mbuf_data_m := write_at (off_m b + len_m b) data (mbuf_data_m b), len_m := len_m b + length data\<rparr>"

lemma append_buf_bytes:
  assumes "mbuf_ok b" "length data \<le> MBuf_rem b"
  shows "mbuf_ok (append_buf data b)" "mbuf_bytes (append_buf data b) = mbuf_bytes b @ data"
    "pkt_len_m (append_buf data b) = pkt_len_m b"
  using assms window_write_at_end [of "off_m b" "len_m b" data "mbuf_data_m b"]
  by (auto simp: mbuf_ok_def MBuf_rem_def append_buf_def mbuf_bytes_def)

lemma append_last:
  assumes "chain_shape c" "tail_bufs_m c \<noteq> []" "length data \<le> MBuf_rem (head_MBuf c)"
    and "c' = c\<lparr>tail_bufs_m := (tail_bufs_m c)[the (head_buf_m c) := append_buf data (head_MBuf c)], size_m := n\<rparr>"
  shows "chain_shape c'" "chain_stream c' = chain_stream c @ data" "tail_bufs_m c' \<noteq> []"
proof -
  obtain bs b where b: "tail_bufs_m c = bs @ [b]" "head_buf_m c = Some (length bs)" "head_MBuf c = b" "mbuf_ok b"
    using shape_last [OF assms(1,2)] .
  note app = append_buf_bytes [OF b(4), of data]
  have t: "tail_bufs_m c' = bs @ [append_buf data b]" by (simp add: assms(4) b list_update_append)
  show "chain_shape c'" "chain_stream c' = chain_stream c @ data" "tail_bufs_m c' \<noteq> []"
    using assms(1,3) app b t by (auto simp: chain_shape_def chain_stream_def assms(4))
qed

lemma grow_head_shape:
  assumes "chain_shape c" "tail_bufs_m c \<noteq> []" "grow_head avail c = Some (avail', c')"
  shows "chain_shape c' \<and> tail_bufs_m c' \<noteq> [] \<and> chain_stream c' = chain_stream c \<and> size_m c' = size_m c \<and>
    0 < MBuf_rem (head_MBuf c') \<and> avail - 1 \<le> avail'"
proof (cases "MBuf_rem (head_MBuf c) = 0")
  case False
  with assms show ?thesis by (simp add: grow_head_def)
next
  case True
  with assms(3) obtain b c0 where b: "AllocMBuf avail c = (Some b, avail', c0)" "c' = link_buf b c0"
    by (auto simp: grow_head_def split: option.splits prod.splits)
  note a = AllocMBuf_shape [OF assms(1) b(1)]
  note l = link_buf_shape [OF a(4) a(1)]
  have "mbuf_bytes b = []" using a(3) by (simp add: mbuf_bytes_def)
  moreover have "head_MBuf c' = b" using l(2,4) by (simp add: b(2) head_MBuf_def)
  moreover have "avail - 1 \<le> avail'" using b(1) by (auto simp: AllocMBuf_def split: list.splits if_splits)
  ultimately show ?thesis
    using l a by (simp add: b(2) chain_stream_def MBuf_rem_def kPayloadSize_def kMallocSize_def kHeaderSize_def)
qed

lemma write_loop_end:
  "\<not> pos < len \<Longrightarrow> write_loop src len pos avail c = (ZX_OK, pos, c)"
  "pos < len \<Longrightarrow> grow_head avail c = None \<Longrightarrow> write_loop src len pos avail c = (ZX_OK, pos, c)"
  by (subst write_loop.simps, simp)+

lemma write_loop_step:
  assumes "pos < len" "grow_head avail c = Some (avail', c1)"
    and "wanted = min (MBuf_rem (head_MBuf c1)) (len - pos)"
    and "n = (if size_m c1 + wanted > kSizeMax then kSizeMax - size_m c1 else wanted)"
  shows "write_loop src len pos avail c =
    (if size_m c1 + wanted > kSizeMax \<and> n = 0 then (ZX_OK, pos, c1)
     else case copy_array_from_user src pos n of
       None \<Rightarrow> (ZX_ERR_INVALID_ARGS, pos, c1)
     | Some bs \<Rightarrow> write_loop src len (pos + n) avail'
         (c1\<lparr>tail_bufs_m := (tail_bufs_m c1)[the (head_buf_m c1) := (head_MBuf c1)\<lparr>
              mbuf_data_m := write_at (off_m (head_MBuf c1) + len_m (head_MBuf c1)) bs (mbuf_data_m (head_MBuf c1)),
              len_m := len_m (head_MBuf c1) + n\<rparr>],
             size_m := size_m c1 + n\<rparr>))"
  by (subst write_loop.simps)
    (simp only: assms(1,2) if_True option.case prod.case Let_def assms(3) [symmetric] assms(4) [symmetric])

lemma write_loop_stream:
  assumes "chain_shape c" "tail_bufs_m c \<noteq> []" "size_m c = length (chain_stream c)" "size_m c \<le> kSizeMax"
  shows "\<exists>st k bs c'. write_loop src len pos avail c = (st, pos + k, c') \<and> k \<le> len - pos \<and>
    copy_array_from_user src pos k = Some bs \<and> chain_stream c' = chain_stream c @ bs \<and> chain_inv c' \<and>
    (st = ZX_OK \<or> st = ZX_ERR_INVALID_ARGS \<and> copy_array_from_user src pos (len - pos) = None) \<and>
    (st = ZX_OK \<longrightarrow> len - pos \<le> avail \<longrightarrow> k = min (len - pos) (kSizeMax - size_m c))"
  using assms
proof (induction "len - pos" arbitrary: pos avail c rule: less_induct)
  case less
  note prems = less.prems
  have stop: "chain_inv c" using prems by (simp add: chain_inv_def)
  show ?case
  proof (cases "pos < len")
    case False
    then show ?thesis using stop by (auto simp: write_loop_end intro!: exI [of _ "0 :: nat"])
  next
    case pos: True
    show ?thesis
    proof (cases "grow_head avail c")
      case None
      then have "avail = 0"
        by (auto simp: grow_head_def split: if_splits option.splits prod.splits dest: AllocMBuf_None)
      then show ?thesis using stop pos None by (auto simp: write_loop_end intro!: exI [of _ "0 :: nat"])
    next
      case (Some r)
      obtain avail' c1 where r: "r = (avail', c1)" by (rule prod.exhaust)
      have g: "chain_shape c1" "tail_bufs_m c1 \<noteq> []" "chain_stream c1 = chain_stream c" "size_m c1 = size_m c"
        "0 < MBuf_rem (head_MBuf c1)" "avail - 1 \<le> avail'"
        using grow_head_shape [OF prems(1,2) Some [unfolded r]] by simp_all
      have inv1: "chain_inv c1" using g prems(3,4) by (simp add: chain_inv_def)
      define wanted where "wanted = min (MBuf_rem (head_MBuf c1)) (len - pos)"
      define n where "n = (if size_m c1 + wanted > kSizeMax then kSizeMax - size_m c1 else wanted)"
      have w: "0 < wanted" "n \<le> wanted" "wanted \<le> len - pos" "n \<le> MBuf_rem (head_MBuf c1)" "size_m c + n \<le> kSizeMax"
        using pos g(4,5) prems(4) by (auto simp: wanted_def n_def)
      let ?next = "\<lambda>bs. c1\<lparr>tail_bufs_m := (tail_bufs_m c1)[the (head_buf_m c1) := append_buf bs (head_MBuf c1)], size_m := size_m c1 + n\<rparr>"
      have unf: "write_loop src len pos avail c =
          (if size_m c1 + wanted > kSizeMax \<and> n = 0 then (ZX_OK, pos, c1)
           else case copy_array_from_user src pos n of
             None \<Rightarrow> (ZX_ERR_INVALID_ARGS, pos, c1)
           | Some bs \<Rightarrow> write_loop src len (pos + n) avail' (?next bs))"
        unfolding write_loop_step [OF pos Some [unfolded r] wanted_def n_def]
        by (auto simp: append_buf_def dest: length_copy_array_from_user split: option.split)
      show ?thesis
      proof (cases "n = 0")
        case True
        with w have "size_m c1 + wanted > kSizeMax" "size_m c = kSizeMax" using g(4) prems(4) by (auto simp: n_def split: if_splits)
        with True unf inv1 g(3) show ?thesis by (auto intro!: exI [of _ "0 :: nat"])
      next
        case n: False
        show ?thesis
        proof (cases "copy_array_from_user src pos n")
          case None
          have "len - pos = n + (len - pos - n)" using w by simp
          then have "copy_array_from_user src pos (len - pos) = None"
            using None by (metis copy_array_from_user_split option.case(1))
          with None n unf inv1 g(3) show ?thesis by (auto intro!: exI [of _ "0 :: nat"])
        next
          case bs: (Some bs)
          have len: "length bs = n" using bs by (rule length_copy_array_from_user)
          have app: "chain_shape (?next bs)" "chain_stream (?next bs) = chain_stream c @ bs" "tail_bufs_m (?next bs) \<noteq> []"
            using append_last [OF g(1,2) _ refl, of bs "size_m c1 + n"] w(4) len g(3) by simp_all
          have sz: "size_m (?next bs) = length (chain_stream (?next bs))" "size_m (?next bs) \<le> kSizeMax"
            using app(2) g(4) prems(3) w(5) len by simp_all
          have "\<exists>st k bs' c'. write_loop src len (pos + n) avail' (?next bs) = (st, pos + n + k, c') \<and> k \<le> len - (pos + n) \<and>
              copy_array_from_user src (pos + n) k = Some bs' \<and> chain_stream c' = chain_stream (?next bs) @ bs' \<and> chain_inv c' \<and>
              (st = ZX_OK \<or> st = ZX_ERR_INVALID_ARGS \<and> copy_array_from_user src (pos + n) (len - (pos + n)) = None) \<and>
              (st = ZX_OK \<longrightarrow> len - (pos + n) \<le> avail' \<longrightarrow> k = min (len - (pos + n)) (kSizeMax - size_m (?next bs)))"
            by (rule less.hyps [OF _ app(1,3) sz]) (use n pos in simp)
          then obtain st k bs' c' where ih:
            "write_loop src len (pos + n) avail' (?next bs) = (st, pos + n + k, c')" "k \<le> len - (pos + n)"
            "copy_array_from_user src (pos + n) k = Some bs'" "chain_stream c' = chain_stream (?next bs) @ bs'" "chain_inv c'"
            "st = ZX_OK \<or> st = ZX_ERR_INVALID_ARGS \<and> copy_array_from_user src (pos + n) (len - (pos + n)) = None"
            "st = ZX_OK \<longrightarrow> len - (pos + n) \<le> avail' \<longrightarrow> k = min (len - (pos + n)) (kSizeMax - size_m (?next bs))"
            by blast
          have res: "write_loop src len pos avail c = (st, pos + (n + k), c')"
            using unf n bs ih(1) by (simp add: add.assoc)
          have data: "copy_array_from_user src pos (n + k) = Some (bs @ bs')"
            using copy_array_from_user_append [OF bs ih(3)] .
          have fault: "st = ZX_OK \<or> st = ZX_ERR_INVALID_ARGS \<and> copy_array_from_user src pos (len - pos) = None"
          proof -
            have "len - pos = n + (len - (pos + n))" using w by simp
            then show ?thesis using ih(6) bs copy_array_from_user_split [of src pos n "len - (pos + n)"] by auto
          qed
          have all: "n + k = min (len - pos) (kSizeMax - size_m c)" if "st = ZX_OK" "len - pos \<le> avail"
          proof -
            have "len - (pos + n) \<le> avail'" using that(2) g(6) n by simp
            with ih(7) that(1) have "k = min (len - (pos + n)) (kSizeMax - (size_m c + n))" using g(4) by simp
            then show ?thesis using w by linarith
          qed
          show ?thesis
            using res ih(2,5) data ih(4) app(2) fault all w
            by (intro exI [of _ st] exI [of _ "n + k"] exI [of _ "bs @ bs'"] exI [of _ c']) auto
        qed
      qed
    qed
  qed
qed

lemma chain_inv_empty_iff: "chain_inv c \<Longrightarrow> size_m c = 0 \<longleftrightarrow> chain_stream c = []"
  by (simp add: chain_inv_def)

lemma Read_stream:
  assumes "chain_inv c" "MBufChain_Read dst len False c = (st, out, n, c')"
  shows "chain_inv c'" "out @ chain_stream c' = chain_stream c" "st = user_copy dst 0 (min len (size_m c))"
    "st = ZX_OK \<Longrightarrow> out = take len (chain_stream c) \<and> n = length out" "st \<noteq> ZX_OK \<Longrightarrow> n = 0"
proof -
  have "chain_inv c' \<and> out @ chain_stream c' = chain_stream c \<and> st = user_copy dst 0 (min len (size_m c)) \<and>
      (st = ZX_OK \<longrightarrow> out = take len (chain_stream c) \<and> n = length out) \<and> (st \<noteq> ZX_OK \<longrightarrow> n = 0)"
  proof (cases "size_m c = 0")
    case True
    with assms chain_inv_empty_iff [OF assms(1)] show ?thesis by (auto simp: MBufChain_Read_def)
  next
    case False
    let ?S = "chain_stream c" and ?n = "min len (size_m c)"
    have c: "chain_shape c" "size_m c = length (bufs_bytes (tail_bufs_m c))" "size_m c \<le> kSizeMax"
      using assms(1) by (simp_all add: chain_inv_def chain_stream_def)
    have n: "?n = min (len - 0) (length (bufs_bytes (tail_bufs_m c)))" using c(2) by simp
    from read_loop_stream [OF c(1,2) refl n, of dst "[]"] obtain k c1 where k:
      "read_loop dst len False 0 [] c = (user_copy dst 0 ?n, k, take k ?S, c1)" "k \<le> ?n"
      "user_copy dst 0 ?n = ZX_OK \<longrightarrow> k = ?n" "chain_shape c1" "chain_stream c1 = drop k ?S" "size_m c1 = length ?S - k"
      by (auto simp: chain_stream_def)
    have "chain_inv c1" using k(4-6) c by (simp add: chain_inv_def chain_stream_def)
    moreover have "(st, out, n, c') = (user_copy dst 0 ?n, take k ?S, if user_copy dst 0 ?n \<noteq> ZX_OK then 0 else k, c1)"
      using assms(2) False k(1) by (auto simp: MBufChain_Read_def split: if_splits)
    moreover have "take ?n ?S = take len ?S" using assms(1) by (simp add: chain_inv_def min_def)
    ultimately show ?thesis using k assms(1) by (auto simp: chain_inv_def)
  qed
  then show "chain_inv c'" "out @ chain_stream c' = chain_stream c" "st = user_copy dst 0 (min len (size_m c))"
    "st = ZX_OK \<Longrightarrow> out = take len (chain_stream c) \<and> n = length out" "st \<noteq> ZX_OK \<Longrightarrow> n = 0" by blast+
qed

lemma ensure_head_shape:
  assumes "chain_shape c" "ensure_head avail c = Some (a1, c1)"
  shows "chain_shape c1 \<and> tail_bufs_m c1 \<noteq> [] \<and> chain_stream c1 = chain_stream c \<and> size_m c1 = size_m c \<and> avail - 1 \<le> a1"
proof (cases "head_buf_m c")
  case (Some h)
  then show ?thesis using assms by (auto simp: ensure_head_def chain_shape_def split: if_splits)
next
  case None
  with assms obtain b c2 where b: "AllocMBuf avail c = (Some b, a1, c2)" "c1 = c2\<lparr>tail_bufs_m := b # tail_bufs_m c2, head_buf_m := Some 0\<rparr>"
    by (auto simp: ensure_head_def split: option.splits prod.splits)
  note a = AllocMBuf_shape [OF assms(1) b(1)]
  have "tail_bufs_m c = []" using assms(1) None by (auto simp: chain_shape_def split: if_splits)
  moreover have "avail - 1 \<le> a1" using b(1) by (auto simp: AllocMBuf_def split: list.splits if_splits)
  moreover have "mbuf_bytes b = []" using a(3) by (simp add: mbuf_bytes_def)
  ultimately show ?thesis using a by (simp add: b(2) chain_shape_def chain_stream_def)
qed

text \<open>The bytes \<open>WriteStream\<close> appends: a prefix of the user's buffer, also when it fails.\<close>

lemma WriteStream_stream:
  assumes "chain_inv c" "WriteStream src len avail c = (st, n, c')"
  shows "\<exists>k bs. k \<le> len \<and> copy_array_from_user src 0 k = Some bs \<and> chain_stream c' = chain_stream c @ bs \<and> chain_inv c' \<and>
    (st = ZX_OK \<longrightarrow> n = k \<and> 0 < k) \<and> (st \<noteq> ZX_OK \<longrightarrow> n = 0) \<and>
    (st = ZX_ERR_SHOULD_WAIT \<longrightarrow> k = 0) \<and>
    (st = ZX_OK \<or> st = ZX_ERR_SHOULD_WAIT \<or> st = ZX_ERR_INVALID_ARGS \<and> copy_array_from_user src 0 len = None) \<and>
    (st \<noteq> ZX_ERR_INVALID_ARGS \<longrightarrow> len < avail \<longrightarrow> k = min len (kSizeMax - size_m c))"
proof (cases "ensure_head avail c")
  case None
  then have "avail = 0" by (auto simp: ensure_head_def split: if_splits option.splits prod.splits dest: AllocMBuf_None)
  with None assms show ?thesis by (auto simp: WriteStream_def intro!: exI [of _ "0 :: nat"])
next
  case (Some r)
  obtain a1 c1 where r: "r = (a1, c1)" by (rule prod.exhaust)
  have c1: "chain_shape c1" "tail_bufs_m c1 \<noteq> []" "chain_stream c1 = chain_stream c" "size_m c1 = size_m c" "avail - 1 \<le> a1"
    using ensure_head_shape [of c avail a1 c1] assms(1) Some r by (simp_all add: chain_inv_def)
  have sz: "size_m c1 = length (chain_stream c1)" "size_m c1 \<le> kSizeMax" using c1 assms(1) by (simp_all add: chain_inv_def)
  from write_loop_stream [OF c1(1,2) sz, of src len 0 a1] c1 obtain st1 k bs c2 where w:
    "write_loop src len 0 a1 c1 = (st1, k, c2)" "k \<le> len" "copy_array_from_user src 0 k = Some bs"
    "chain_stream c2 = chain_stream c @ bs" "chain_inv c2"
    "st1 = ZX_OK \<or> st1 = ZX_ERR_INVALID_ARGS \<and> copy_array_from_user src 0 len = None"
    "st1 = ZX_OK \<longrightarrow> len \<le> a1 \<longrightarrow> k = min len (kSizeMax - size_m c)" by auto
  have "(st, n, c') = (if st1 \<noteq> ZX_OK then (st1, 0, c2) else if k = 0 then (ZX_ERR_SHOULD_WAIT, 0, c2) else (ZX_OK, k, c2))"
    using assms(2) Some r w(1) by (simp add: WriteStream_def)
  moreover have "len \<le> a1" if "len < avail" using that c1(5) by linarith
  ultimately show ?thesis using w by (intro exI [of _ k] exI [of _ bs]) (auto split: if_splits)
qed

subsection \<open>Peeking\<close>

lemma peek_loop_end: "\<not> pos < len \<Longrightarrow> peek_loop dst len pos out bs = (ZX_OK, pos, out)"
  by (cases bs) simp_all

lemma read_loop_peek:
  "tail_bufs_m c = bs \<Longrightarrow>
   (let (st, p, o', c') = read_loop dst len dg pos out c in (st, p, o')) = peek_loop dst len pos out bs"
proof (induction bs arbitrary: c pos out)
  case Nil
  then show ?case by (simp add: read_loop_end)
next
  case (Cons b rest)
  show ?case
  proof (cases "pos < len")
    case False
    then show ?thesis by (simp add: read_loop_end)
  next
    case pos: True
    define n where "n = min (len_m b) (len - pos)"
    note step = read_loop_step [OF pos Cons.prems n_def, of dst dg out]
    show ?thesis
    proof (cases "copy_array_to_user dst pos n = ZX_OK")
      case False
      then show ?thesis using pos by (simp add: step n_def)
    next
      case True
      let ?c = "c\<lparr>tail_bufs_m := advance n b # rest, size_m := size_m c - n\<rparr>"
      let ?out = "out @ take n (drop (off_m b) (mbuf_data_m b))"
      have peek: "peek_loop dst len pos out (b # rest) = peek_loop dst len (pos + n) ?out rest"
        using pos True by (simp add: n_def Let_def)
      show ?thesis
      proof (cases "len_m b - n = 0 \<or> dg")
        case freed: True
        have "read_loop dst len dg pos out c = read_loop dst len dg (pos + n) ?out (free_front (?c\<lparr>size_m := size_m ?c - (len_m b - n)\<rparr>))"
          unfolding step Let_def using True freed by (simp only: simp_thms if_True if_False)
        then show ?thesis unfolding peek using Cons.IH [of "free_front (?c\<lparr>size_m := size_m ?c - (len_m b - n)\<rparr>)" "pos + n" ?out] by simp
      next
        case kept: False
        then have "\<not> pos + n < len" by (auto simp: n_def)
        moreover have "read_loop dst len dg pos out c = read_loop dst len dg (pos + n) ?out ?c"
          unfolding step Let_def using True kept by (simp only: simp_thms if_True if_False)
        ultimately show ?thesis unfolding peek by (simp add: read_loop_end peek_loop_end)
      qed
    qed
  qed
qed

lemma Peek_Read:
  "MBufChain_Peek dst len datagram c =
     (let (status, out, actual, c') = MBufChain_Read dst len datagram c in (status, out, actual))"
proof (cases "size_m c = 0")
  case True
  then show ?thesis by (simp add: MBufChain_Peek_def MBufChain_Read_def)
next
  case False
  define l where "l = (if datagram \<and> len > pkt_len_m (hd (tail_bufs_m c)) then pkt_len_m (hd (tail_bufs_m c)) else len)"
  obtain st p o' c' where r: "read_loop dst l datagram 0 [] c = (st, p, o', c')" by (rule prod_cases4)
  then have "peek_loop dst l 0 [] (tail_bufs_m c) = (st, p, o')"
    using read_loop_peek [of c "tail_bufs_m c" dst l datagram 0 "[]"] by simp
  with False r show ?thesis by (simp add: MBufChain_Peek_def MBufChain_Read_def l_def [symmetric])
qed

text \<open>C29: \<open>MBufChain::Peek\<close> is \<open>MBufChain::Read\<close> without its effect: on every chain, for stream and
  datagram sockets and for every user buffer, faulting or not, it returns the same status, bytes
  and count. One helper serves both, consuming its buffers in one instance and only iterating over
  them in the other.\<close>
theorem Peek_equals_Read:
  "MBufChain_Peek dst len datagram c =
     (let (status, out, actual, c') = MBufChain_Read dst len datagram c in (status, out, actual))"
  by (rule Peek_Read)

subsection \<open>The chain as a list of datagrams\<close>

text \<open>A datagram is a buffer with its length, followed by buffers with length 0.\<close>

definition dgram_ok :: "MBuf list \<Rightarrow> bool" where
  "dgram_ok g \<longleftrightarrow> g \<noteq> [] \<and> pkt_len_m (hd g) = length (bufs_bytes g) \<and> 0 < length (bufs_bytes g) \<and>
     list_all (\<lambda>b. pkt_len_m b = 0) (tl g)"

definition holds_datagrams :: "MBufChain \<Rightarrow> byte list list \<Rightarrow> bool" where
  "holds_datagrams c ds \<longleftrightarrow> chain_inv c \<and>
     (\<exists>gs. tail_bufs_m c = concat gs \<and> list_all dgram_ok gs \<and> map bufs_bytes gs = ds)"

lemma drain_loop_drops:
  assumes "chain_shape c" "tail_bufs_m c = bs @ rest" "size_m c = length (chain_stream c)"
    and "list_all (\<lambda>b. pkt_len_m b = 0) bs" "rest = [] \<or> pkt_len_m (hd rest) \<noteq> 0"
  shows "chain_shape (drain_loop c) \<and> tail_bufs_m (drain_loop c) = rest \<and>
    size_m (drain_loop c) = length (bufs_bytes rest)"
  using assms
proof (induction bs arbitrary: c)
  case Nil
  then have "drain_loop c = c" by (subst drain_loop.simps) auto
  with Nil show ?case by (simp add: chain_stream_def)
next
  case (Cons b bs)
  let ?c = "c\<lparr>size_m := size_m c - len_m b\<rparr>"
  have t: "tail_bufs_m ?c = b # (bs @ rest)" "mbuf_ok b" using Cons.prems(1,2) by (simp_all add: chain_shape_def)
  have sh: "chain_shape ?c" using Cons.prems(1) by (simp add: chain_shape_def)
  note f = free_front_shape [OF sh t(1)]
  have "drain_loop c = drain_loop (free_front ?c)"
    using Cons.prems(2,4) by (subst drain_loop.simps) simp
  moreover have "size_m (free_front ?c) = length (chain_stream (free_front ?c))"
    using f(2) Cons.prems(2,3) t by (simp add: chain_stream_def)
  ultimately show ?case
    using Cons.IH [OF f(1) _ _ _ Cons.prems(5)] Cons.prems(2,4) by simp
qed

lemma read_loop_datagram:
  assumes "chain_shape c" "tail_bufs_m c = bs @ rest" "size_m c = length (chain_stream c)"
    and "len - pos \<le> length (bufs_bytes bs)" "pos < len" "user_copy dst pos (len - pos) = ZX_OK"
  shows "\<exists>m c'. read_loop dst len True pos out c = (ZX_OK, len, out @ take (len - pos) (bufs_bytes bs), c') \<and>
    0 < m \<and> m \<le> length bs \<and> tail_bufs_m c' = drop m bs @ rest \<and> chain_shape c' \<and> size_m c' = length (chain_stream c')"
  using assms
proof (induction bs arbitrary: c pos out)
  case Nil
  then show ?case by simp
next
  case (Cons b bs)
  have ok: "mbuf_ok b" using Cons.prems(1,2) by (simp add: chain_shape_def)
  define n where "n = min (len_m b) (len - pos)"
  have n: "n \<le> len_m b" "n \<le> len - pos" by (simp_all add: n_def)
  note adv = advance_bytes [OF ok n(1)]
  have t: "tail_bufs_m c = b # (bs @ rest)" using Cons.prems(2) by simp
  note step = read_loop_step [OF Cons.prems(5) t n_def, of dst True out]
  let ?c = "c\<lparr>tail_bufs_m := advance n b # (bs @ rest), size_m := size_m c - n - (len_m b - n)\<rparr>"
  have sh: "chain_shape ?c" by (rule chain_shape_front [OF Cons.prems(1) t adv(1)])
  have f: "chain_shape (free_front ?c)" "size_m (free_front ?c) = size_m c - n - (len_m b - n)"
    "tail_bufs_m (free_front ?c) = bs @ rest"
    using free_front_shape [OF sh, where b = "advance n b" and rest = "bs @ rest"] by simp_all
  have fsz: "size_m (free_front ?c) = length (chain_stream (free_front ?c))"
    using f(2,3) Cons.prems(3) t ok n by (simp add: chain_stream_def)
  have "len - pos = n + (len - (pos + n))" using n by simp
  then have uc: "user_copy dst pos n = ZX_OK" "user_copy dst (pos + n) (len - (pos + n)) = ZX_OK"
    using Cons.prems(6) user_copy_split [of dst pos n "len - (pos + n)"] by (auto split: if_splits)
  have one: "read_loop dst len True pos out c = read_loop dst len True (pos + n) (out @ take n (mbuf_bytes b)) (free_front ?c)"
    unfolding step using uc(1) adv(3) by (simp add: copy_array_to_user_cases Let_def)
  show ?case
  proof (cases "pos + n < len")
    case False
    then have "n = len - pos" using n by simp
    with False one f fsz n ok Cons.prems(5) show ?thesis
      by (intro exI [of _ 1] exI [of _ "free_front ?c"]) (simp add: read_loop_end)
  next
    case True
    then have "n = len_m b" by (auto simp: n_def)
    then have len: "len - (pos + n) \<le> length (bufs_bytes bs)" using Cons.prems(4) ok by simp
    from Cons.IH [OF f(1,3) fsz len True uc(2), of "out @ take n (mbuf_bytes b)"] obtain m c' where ih:
      "read_loop dst len True (pos + n) (out @ take n (mbuf_bytes b)) (free_front ?c) =
         (ZX_OK, len, (out @ take n (mbuf_bytes b)) @ take (len - (pos + n)) (bufs_bytes bs), c')"
      "0 < m" "m \<le> length bs" "tail_bufs_m c' = drop m bs @ rest" "chain_shape c'" "size_m c' = length (chain_stream c')" by auto
    have "take (len - pos) (bufs_bytes (b # bs)) = take n (mbuf_bytes b) @ take (len - (pos + n)) (bufs_bytes bs)"
      using ok \<open>n = len_m b\<close> True by simp
    with one ih show ?thesis by (intro exI [of _ "Suc m"] exI [of _ c']) simp
  qed
qed

definition fresh_buf :: "MBuf \<Rightarrow> bool" where
  "fresh_buf b \<longleftrightarrow> mbuf_ok b \<and> off_m b = 0 \<and> len_m b = 0"

definition clean_freelist :: "MBufChain \<Rightarrow> bool" where
  "clean_freelist c \<longleftrightarrow> list_all (\<lambda>b. pkt_len_m b = 0) (freelist_m c)"

lemma free_bufs_frame:
  "list_all mbuf_ok bufs \<Longrightarrow> chain_shape c \<Longrightarrow>
   chain_shape (free_bufs bufs c) \<and> tail_bufs_m (free_bufs bufs c) = tail_bufs_m c \<and> size_m (free_bufs bufs c) = size_m c"
  unfolding free_bufs_def by (induction bufs arbitrary: c) (simp_all add: FreeMBuf_shape)

lemma alloc_bufs_spec:
  assumes "chain_shape c" "list_all fresh_buf acc" "alloc_bufs need avail acc c = (r, avail', c')"
  shows "chain_shape c' \<and> tail_bufs_m c' = tail_bufs_m c \<and> size_m c' = size_m c \<and> (need \<le> avail \<longrightarrow> r \<noteq> None) \<and>
    (\<forall>bufs. r = Some bufs \<longrightarrow> length bufs = need + length acc \<and> list_all fresh_buf bufs \<and>
       (clean_freelist c \<and> list_all (\<lambda>b. pkt_len_m b = 0) acc \<longrightarrow> list_all (\<lambda>b. pkt_len_m b = 0) bufs))"
  using assms
proof (induction need arbitrary: avail acc c)
  case 0
  then show ?case by auto
next
  case (Suc need)
  obtain rb a1 c1 where al: "AllocMBuf avail c = (rb, a1, c1)" by (rule prod_cases3)
  show ?case
  proof (cases rb)
    case None
    with al AllocMBuf_None have "avail = 0" "c1 = c" by blast+
    moreover have "list_all mbuf_ok acc" using Suc.prems(2) by (auto simp: list_all_iff fresh_buf_def)
    ultimately show ?thesis using Suc.prems al None free_bufs_frame [of acc c] by auto
  next
    case (Some b)
    note a = AllocMBuf_shape [OF Suc.prems(1) al [unfolded Some]]
    have acc: "list_all fresh_buf (b # acc)" using a(1-3) Suc.prems(2) by (simp add: fresh_buf_def list_all_iff)
    have res: "alloc_bufs need a1 (b # acc) c1 = (r, avail', c')" using Suc.prems(3) al Some by simp
    have "avail \<le> a1 + 1" using al by (auto simp: AllocMBuf_def split: list.splits if_splits)
    moreover have "clean_freelist c \<Longrightarrow> clean_freelist c1 \<and> pkt_len_m b = 0"
      using a(8,9) by (auto simp: clean_freelist_def list_all_iff)
    ultimately show ?thesis using Suc.IH [OF a(4) acc res] a(5,6) by auto
  qed
qed

lemma copy_bufs_spec:
  assumes "list_all fresh_buf bufs" "len - pos \<le> length bufs * kPayloadSize"
  shows "list_all mbuf_ok (snd (copy_bufs src len pos bufs)) \<and>
    length (snd (copy_bufs src len pos bufs)) = length bufs \<and>
    map pkt_len_m (snd (copy_bufs src len pos bufs)) = map pkt_len_m bufs \<and>
    (case copy_array_from_user src pos (len - pos) of
       None \<Rightarrow> \<not> fst (copy_bufs src len pos bufs)
     | Some d \<Rightarrow> fst (copy_bufs src len pos bufs) \<and> bufs_bytes (snd (copy_bufs src len pos bufs)) = d)"
  using assms
proof (induction bufs arbitrary: pos)
  case Nil
  then show ?case by simp
next
  case (Cons b bufs)
  have b: "mbuf_ok b" "off_m b = 0" "len_m b = 0" "list_all fresh_buf bufs" using Cons.prems(1) by (simp_all add: fresh_buf_def list_all_iff)
  define n where "n = min kPayloadSize (len - pos)"
  have n: "len - pos = n + (len - (pos + n))" by (simp add: n_def)
  have rest: "len - (pos + n) \<le> length bufs * kPayloadSize" using Cons.prems(2) by (simp add: n_def)
  have okb: "list_all mbuf_ok bufs" using b(4) by (auto simp: list_all_iff fresh_buf_def)
  show ?case
  proof (cases "copy_array_from_user src pos n")
    case None
    then have "copy_array_from_user src pos (len - pos) = None" by (subst n) (simp add: copy_array_from_user_split)
    then show ?thesis using None b okb by (simp add: n_def [symmetric] Let_def)
  next
    case (Some bs)
    have len: "length bs = n" "n \<le> MBuf_rem b"
      using length_copy_array_from_user [OF Some] b by (simp_all add: MBuf_rem_def n_def)
    let ?b = "append_buf bs b"
    note app = append_buf_bytes [OF b(1), of bs]
    have ab: "mbuf_ok ?b" "mbuf_bytes ?b = bs" "pkt_len_m ?b = pkt_len_m b"
      using app len b by (simp_all add: mbuf_bytes_def)
    have "copy_array_from_user src pos (len - pos) =
        (case copy_array_from_user src (pos + n) (len - (pos + n)) of None \<Rightarrow> None | Some ys \<Rightarrow> Some (bs @ ys))"
      by (subst n) (simp add: copy_array_from_user_split Some)
    moreover have "copy_bufs src len pos (b # bufs) =
        (fst (copy_bufs src len (pos + n) bufs), ?b # snd (copy_bufs src len (pos + n) bufs))"
      using Some b len by (simp add: n_def [symmetric] Let_def append_buf_def split: prod.split)
    ultimately show ?thesis using Cons.IH [OF b(4) rest] ab by (simp split: option.splits)
  qed
qed

lemma fold_link_buf:
  assumes "chain_shape c" "list_all mbuf_ok bufs"
  shows "chain_shape (fold link_buf bufs c) \<and> tail_bufs_m (fold link_buf bufs c) = tail_bufs_m c @ bufs \<and>
    size_m (fold link_buf bufs c) = size_m c"
  using assms
proof (induction bufs arbitrary: c)
  case (Cons b bufs)
  with link_buf_shape [of c b] show ?case by simp
qed simp

lemma enough_bufs: "0 < len \<Longrightarrow> len \<le> (1 + (len - 1) div kPayloadSize) * kPayloadSize"
proof -
  assume "0 < len"
  have k: "0 < kPayloadSize" by (simp add: kPayloadSize_def kMallocSize_def kHeaderSize_def)
  have "len - 1 < kPayloadSize + (len - 1) div kPayloadSize * kPayloadSize"
    using dividend_less_div_times [OF k, of "len - 1"] by simp
  with \<open>0 < len\<close> show ?thesis by simp
qed

lemma WriteDatagram_spec:
  assumes "holds_datagrams c ds" "WriteDatagram src len avail c = (st, n, c')"
  shows "st \<noteq> ZX_OK \<Longrightarrow> n = 0 \<and> holds_datagrams c' ds"
    "st = ZX_OK \<Longrightarrow> len \<le> kPayloadSize \<or> clean_freelist c \<Longrightarrow>
       \<exists>d. copy_array_from_user src 0 len = Some d \<and> n = len \<and> holds_datagrams c' (ds @ [d])"
proof -
  from assms(1) obtain gs where inv: "chain_inv c" and gs: "tail_bufs_m c = concat gs" "list_all dgram_ok gs" "map bufs_bytes gs = ds"
    by (auto simp: holds_datagrams_def)
  have sh: "chain_shape c" using inv by (simp add: chain_inv_def)
  have keep: "holds_datagrams c2 ds" if "chain_shape c2" "tail_bufs_m c2 = tail_bufs_m c" "size_m c2 = size_m c" for c2
    using that inv gs by (auto simp: holds_datagrams_def chain_inv_def chain_stream_def)
  have *: "(st \<noteq> ZX_OK \<longrightarrow> n = 0 \<and> holds_datagrams c' ds) \<and>
    (st = ZX_OK \<longrightarrow> len \<le> kPayloadSize \<or> clean_freelist c \<longrightarrow>
       (\<exists>d. copy_array_from_user src 0 len = Some d \<and> n = len \<and> holds_datagrams c' (ds @ [d])))"
  proof (cases "len = 0 \<or> len > kSizeMax \<or> len + size_m c > kSizeMax")
    case True
    then show ?thesis using assms by (auto simp: WriteDatagram_def split: if_splits)
  next
    case False
    let ?need = "1 + (len - 1) div kPayloadSize"
    obtain r a1 c1 where al: "alloc_bufs ?need avail [] c = (r, a1, c1)" by (rule prod_cases3)
    note sp = alloc_bufs_spec [OF sh _ al, simplified]
    show ?thesis
    proof (cases r)
      case None
      then have "(st, n, c') = (ZX_ERR_SHOULD_WAIT, 0, c1)" using assms(2) False al by (simp add: WriteDatagram_def)
      then show ?thesis using sp keep by simp
    next
      case (Some bufs)
      have b: "length bufs = ?need" "list_all fresh_buf bufs" "clean_freelist c \<Longrightarrow> list_all (\<lambda>b. pkt_len_m b = 0) bufs"
        using sp Some by auto
      have fits: "len - 0 \<le> length bufs * kPayloadSize" using enough_bufs [of len] False b(1) by simp
      obtain ok bufs1 where cb: "copy_bufs src len 0 bufs = (ok, bufs1)" by (rule prod.exhaust)
      note cs = copy_bufs_spec [OF b(2) fits, of src, unfolded cb, simplified]
      show ?thesis
      proof (cases ok)
        case False2: False
        then have "(st, n, c') = (ZX_ERR_INVALID_ARGS, 0, free_bufs bufs1 c1)"
          using assms(2) False al Some cb by (simp add: WriteDatagram_def)
        then show ?thesis using keep free_bufs_frame [of bufs1 c1] cs sp by simp
      next
        case True
        then obtain d where d: "copy_array_from_user src 0 len = Some d" "bufs_bytes bufs1 = d"
          using cs by (auto split: option.splits)
        obtain b0 bs where b0: "bufs1 = b0 # bs" using cs b(1) by (cases bufs1) auto
        let ?g = "b0\<lparr>pkt_len_m := len\<rparr> # bs"
        let ?c = "(fold link_buf ?g c1)\<lparr>size_m := size_m (fold link_buf ?g c1) + len\<rparr>"
        have res: "(st, n, c') = (ZX_OK, len, ?c)"
          using assms(2) False al Some cb True b0 by (auto simp: WriteDatagram_def Let_def)
        have okg: "list_all mbuf_ok ?g" using cs b0 by (simp add: mbuf_ok_def)
        note fl = fold_link_buf [OF conjunct1 [OF sp] okg]
        have gb: "bufs_bytes ?g = d" using d b0 by (simp add: mbuf_bytes_def)
        have dl: "length d = len" using d(1) by (rule length_copy_array_from_user)
        have tails: "list_all (\<lambda>b. pkt_len_m b = 0) bs" if "len \<le> kPayloadSize \<or> clean_freelist c"
        proof (cases "clean_freelist c")
          case True
          then have "list_all (\<lambda>x. x = 0) (map pkt_len_m bufs1)" using b(3) cs by (simp add: list_all_iff)
          then show ?thesis by (simp add: b0 list_all_iff)
        next
          case False3: False
          then have "(len - 1) div kPayloadSize = 0" using that False by (intro div_less) linarith
          then have "length bufs1 = 1" using cs b(1) by simp
          then show ?thesis by (simp add: b0)
        qed
        have "dgram_ok ?g" if "len \<le> kPayloadSize \<or> clean_freelist c"
          using tails [OF that] gb dl False by (simp add: dgram_ok_def del: bufs_bytes_simps)
        moreover have "chain_inv ?c"
          using fl sp inv gb dl False okg by (simp add: chain_inv_def chain_stream_def chain_shape_def)
        moreover have "tail_bufs_m ?c = concat (gs @ [?g])" using fl sp gs(1) by simp
        ultimately have "holds_datagrams ?c (ds @ [d])" if "len \<le> kPayloadSize \<or> clean_freelist c"
          unfolding holds_datagrams_def using that gs(2,3) gb by (intro conjI exI [of _ "gs @ [?g]"]) simp_all
        then show ?thesis using res d(1) by simp
      qed
    qed
  qed
  from * show "st \<noteq> ZX_OK \<Longrightarrow> n = 0 \<and> holds_datagrams c' ds"
    "st = ZX_OK \<Longrightarrow> len \<le> kPayloadSize \<or> clean_freelist c \<Longrightarrow>
       \<exists>d. copy_array_from_user src 0 len = Some d \<and> n = len \<and> holds_datagrams c' (ds @ [d])" by blast+
qed

lemma Read_datagram:
  assumes "holds_datagrams c (d # ds)" "0 < len" "user_copy dst 0 (min len (length d)) = ZX_OK"
  shows "\<exists>c'. MBufChain_Read dst len True c = (ZX_OK, take len d, min len (length d), c') \<and> holds_datagrams c' ds"
proof -
  from assms(1) obtain g gs where inv: "chain_inv c" and gs: "tail_bufs_m c = g @ concat gs" "dgram_ok g" "list_all dgram_ok gs"
    "bufs_bytes g = d" "map bufs_bytes gs = ds"
    by (auto simp: holds_datagrams_def map_eq_Cons_conv)
  have sh: "chain_shape c" and sz: "size_m c = length (chain_stream c)" using inv by (simp_all add: chain_inv_def)
  have d: "0 < length d" "pkt_len_m (hd g) = length d" "g \<noteq> []" "list_all (\<lambda>b. pkt_len_m b = 0) (tl g)"
    using gs(2,4) by (simp_all add: dgram_ok_def)
  have ne: "size_m c \<noteq> 0" using sz gs(1,4) d(1) by (simp add: chain_stream_def)
  define l where "l = min len (length d)"
  have l: "(if True \<and> len > pkt_len_m (hd (tail_bufs_m c)) then pkt_len_m (hd (tail_bufs_m c)) else len) = l"
    using d gs(1) by (simp add: l_def)
  have "l - 0 \<le> length (bufs_bytes g)" "0 < l" using gs(4) assms(2) d(1) by (simp_all add: l_def)
  from read_loop_datagram [OF sh gs(1) sz this, of dst "[]"] assms(3) gs(4) obtain m c1 where r:
    "read_loop dst l True 0 [] c = (ZX_OK, l, take l d, c1)" "0 < m" "tail_bufs_m c1 = drop m g @ concat gs"
    "chain_shape c1" "size_m c1 = length (chain_stream c1)" by (auto simp: l_def)
  have "drop m g = drop (m - 1) (tl g)" using r(2) by (metis Suc_diff_1 drop_Suc)
  moreover have "set (drop (m - 1) (tl g)) \<subseteq> set (tl g)" by (rule set_drop_subset)
  ultimately have body: "list_all (\<lambda>b. pkt_len_m b = 0) (drop m g)" using d(4) by (auto simp: list_all_iff)
  have "concat gs = [] \<or> pkt_len_m (hd (concat gs)) \<noteq> 0"
    using gs(3) by (cases gs) (auto simp: dgram_ok_def)
  note dr = drain_loop_drops [OF r(4,3,5) body this]
  have "length (bufs_bytes (concat gs)) \<le> kSizeMax" using inv gs(1) by (simp add: chain_inv_def chain_stream_def)
  then have "holds_datagrams (drain_loop c1) ds"
    using dr gs(3,5) by (auto simp: holds_datagrams_def chain_inv_def chain_stream_def)
  moreover have "MBufChain_Read dst len True c = (ZX_OK, take l d, l, drain_loop c1)"
    using ne r(1) l by (simp add: MBufChain_Read_def)
  moreover have "take l d = take len d" by (simp add: l_def min_def)
  ultimately show ?thesis by (simp add: l_def)
qed

lemma kPayloadSize_value: "kPayloadSize = 2008"
  by (simp add: kPayloadSize_def kMallocSize_def kHeaderSize_def)

lemma holds_datagrams_new: "holds_datagrams MBufChain_new []"
  using chain_inv_new by (auto simp: holds_datagrams_def MBufChain_new_def intro!: exI [of _ "[]"])

lemma WriteDatagram_succeeds:
  assumes "chain_shape c" "0 < len" "len + size_m c \<le> kSizeMax" "1 + (len - 1) div kPayloadSize \<le> avail"
    and "copy_array_from_user src 0 len = Some d"
  shows "\<exists>c'. WriteDatagram src len avail c = (ZX_OK, len, c')"
proof -
  let ?need = "1 + (len - 1) div kPayloadSize"
  obtain r a1 c1 where al: "alloc_bufs ?need avail [] c = (r, a1, c1)" by (rule prod_cases3)
  note sp = alloc_bufs_spec [OF assms(1) _ al, simplified]
  from sp assms(4) obtain bufs where b: "r = Some bufs" "length bufs = ?need" "list_all fresh_buf bufs" by auto
  have fits: "len - 0 \<le> length bufs * kPayloadSize" using enough_bufs [OF assms(2)] b(2) by simp
  have "fst (copy_bufs src len 0 bufs)"
    using copy_bufs_spec [OF b(3) fits, of src] assms(5) by simp
  then show ?thesis
    using assms(2,3) al b(1) by (auto simp: WriteDatagram_def Let_def split: prod.split)
qed

text \<open>C15: A chain written with \<open>WriteDatagram\<close> and read with the datagram flag is a queue of datagrams. A
  write that fails, for want of room, of memory or of user bytes, leaves the queue as it is; one
  that succeeds puts exactly the user's bytes behind it, provided the datagram fits one buffer or
  no buffer of the free list carries an old packet length. A read of \<open>n > 0\<close> bytes whose copy to the
  user does not fault takes the first datagram, delivers its first \<open>n\<close> bytes and throws the rest
  away; on an empty chain a read delivers nothing.\<close>
theorem datagram_queue:
  assumes "holds_datagrams c ds"
  shows "(case WriteDatagram src len avail c of (st, k, c') \<Rightarrow>
            (st \<noteq> ZX_OK \<longrightarrow> k = 0 \<and> holds_datagrams c' ds) \<and>
            (st = ZX_OK \<and> (len \<le> kPayloadSize \<or> clean_freelist c) \<longrightarrow>
               (\<exists>d. copy_array_from_user src 0 len = Some d \<and> k = len \<and> holds_datagrams c' (ds @ [d])))) \<and>
         (case ds of
            [] \<Rightarrow> MBufChain_Read dst n True c = (ZX_OK, [], 0, c)
          | d # ds' \<Rightarrow> 0 < n \<and> user_copy dst 0 (min n (length d)) = ZX_OK \<longrightarrow>
              (\<exists>c'. MBufChain_Read dst n True c = (ZX_OK, take n d, min n (length d), c') \<and> holds_datagrams c' ds'))"
proof (intro conjI)
  show "case WriteDatagram src len avail c of (st, k, c') \<Rightarrow>
            (st \<noteq> ZX_OK \<longrightarrow> k = 0 \<and> holds_datagrams c' ds) \<and>
            (st = ZX_OK \<and> (len \<le> kPayloadSize \<or> clean_freelist c) \<longrightarrow>
               (\<exists>d. copy_array_from_user src 0 len = Some d \<and> k = len \<and> holds_datagrams c' (ds @ [d])))"
    using WriteDatagram_spec [OF assms] by (auto split: prod.split)
  show "case ds of
            [] \<Rightarrow> MBufChain_Read dst n True c = (ZX_OK, [], 0, c)
          | d # ds' \<Rightarrow> 0 < n \<and> user_copy dst 0 (min n (length d)) = ZX_OK \<longrightarrow>
              (\<exists>c'. MBufChain_Read dst n True c = (ZX_OK, take n d, min n (length d), c') \<and> holds_datagrams c' ds')"
  proof (cases ds)
    case Nil
    have "concat gs = []" if "list_all dgram_ok gs" "map bufs_bytes gs = []" for gs using that by simp
    then have "size_m c = 0" using assms Nil by (auto simp: holds_datagrams_def chain_inv_def chain_stream_def)
    then show ?thesis using Nil by (simp add: MBufChain_Read_def)
  next
    case (Cons d ds')
    then show ?thesis using Read_datagram [OF assms [unfolded Cons]] by auto
  qed
qed

theorem datagram_queue_witness:
  "\<exists>c. holds_datagrams c [[1, 2, 3]] \<and>
     (\<exists>c'. MBufChain_Read (\<lambda>_. True) 2 True c = (ZX_OK, [1, 2], 2, c') \<and> holds_datagrams c' [])"
proof -
  have new: "chain_shape MBufChain_new" "size_m MBufChain_new = 0"
    using chain_inv_new by (simp_all add: chain_inv_def MBufChain_new_def)
  have src: "copy_array_from_user (user_bytes [1, 2, 3]) 0 3 = Some ([1, 2, 3] :: byte list)" by simp
  obtain c where w: "WriteDatagram (user_bytes [1, 2, 3]) 3 1 MBufChain_new = (ZX_OK, 3, c)"
    using WriteDatagram_succeeds [OF new(1) _ _ _ src, of 1] new(2) by (auto simp: kPayloadSize_value kSizeMax_def)
  have h: "holds_datagrams c [[1, 2, 3]]"
    using datagram_queue [OF holds_datagrams_new, where src = "user_bytes [1, 2, 3]" and len = 3 and avail = 1] w by (simp add: kPayloadSize_value)
  moreover have "user_copy (\<lambda>_. True) 0 2 = ZX_OK" by (simp add: user_copy_def copy_array_to_user_OK_iff)
  ultimately show ?thesis using datagram_queue [OF h, where dst = "\<lambda>_. True" and n = 2] by (auto simp: eval_nat_numeral)
qed

lemma pkt_len_frame [simp]: "mbuf_ok (b\<lparr>pkt_len_m := n\<rparr>) = mbuf_ok b" "mbuf_bytes (b\<lparr>pkt_len_m := n\<rparr>) = mbuf_bytes b"
  by (simp_all add: mbuf_ok_def mbuf_bytes_def)

lemma fresh_write:
  assumes "mbuf_ok b" "off_m b = 0" "len_m b = 0" "length bs \<le> kPayloadSize"
  shows "b\<lparr>mbuf_data_m := write_at 0 bs (mbuf_data_m b), len_m := length bs\<rparr> = append_buf bs b"
    "mbuf_bytes (append_buf bs b) = bs" "mbuf_ok (append_buf bs b)" "len_m (append_buf bs b) = length bs"
  using append_buf_bytes [OF assms(1), of bs] assms by (simp_all add: append_buf_def MBuf_rem_def mbuf_bytes_def)

lemma user_copy_prefix: "user_copy dst 0 m = ZX_OK \<Longrightarrow> k \<le> m \<Longrightarrow> user_copy dst 0 k = ZX_OK"
  using user_copy_split [of dst 0 k "m - k"] by (auto split: if_splits)

text \<open>Reading the front buffer with the datagram flag, in a chain whose next buffer carries a packet
  length or is missing.\<close>

lemma Read_front:
  assumes "chain_shape c" "tail_bufs_m c = b # rest" "size_m c = length (chain_stream c)" "0 < n" "n \<le> len_m b"
    and "pkt_len_m b \<noteq> 0" "n = min len (pkt_len_m b)" "user_copy dst 0 n = ZX_OK" "rest = [] \<or> pkt_len_m (hd rest) \<noteq> 0"
  shows "\<exists>c'. MBufChain_Read dst len True c = (ZX_OK, take n (mbuf_bytes b), n, c') \<and> chain_shape c' \<and>
    tail_bufs_m c' = rest \<and> size_m c' = length (chain_stream c') \<and>
    freelist_m c' = (advance n b)\<lparr>off_m := 0, len_m := 0\<rparr> # freelist_m c"
proof -
  have ok: "mbuf_ok b" using assms(1,2) by (simp add: chain_shape_def)
  note adv = advance_bytes [OF ok assms(5)]
  let ?c = "c\<lparr>tail_bufs_m := advance n b # rest, size_m := size_m c - n - (len_m b - n)\<rparr>"
  have "chain_shape ?c" by (rule chain_shape_front [OF assms(1,2) adv(1)])
  then have f: "chain_shape (free_front ?c)" "size_m (free_front ?c) = size_m c - n - (len_m b - n)"
    "tail_bufs_m (free_front ?c) = rest" "freelist_m (free_front ?c) = (advance n b)\<lparr>off_m := 0, len_m := 0\<rparr> # freelist_m c"
    using free_front_shape [of ?c "advance n b" rest] by simp_all
  have len: "(if True \<and> len > pkt_len_m (hd (tail_bufs_m c)) then pkt_len_m (hd (tail_bufs_m c)) else len) = n"
    using assms(2,7) by simp
  have "n = min (len_m b) (n - 0)" using assms(5) by simp
  from read_loop_step [OF assms(4,2) this, of dst True "[]"] assms(8) adv(3)
  have "read_loop dst n True 0 [] c = (ZX_OK, n, take n (mbuf_bytes b), free_front ?c)"
    by (simp add: copy_array_to_user_cases Let_def read_loop_end)
  moreover have "drain_loop (free_front ?c) = free_front ?c"
    using f(3) assms(9) by (subst drain_loop.simps) auto
  moreover have "size_m c \<noteq> 0" using assms(2-5) ok by (simp add: chain_stream_def)
  ultimately have "MBufChain_Read dst len True c = (ZX_OK, take n (mbuf_bytes b), n, free_front ?c)"
    using len by (simp add: MBufChain_Read_def)
  moreover have "size_m (free_front ?c) = length (chain_stream (free_front ?c))"
    using f(2,3) assms(2,3,5) ok by (simp add: chain_stream_def)
  ultimately show ?thesis using f by blast
qed

lemma WriteDatagram_steps:
  assumes "0 < len" "len + size_m c \<le> kSizeMax" "1 + (len - 1) div kPayloadSize = k" "alloc_bufs k avail [] c = (Some bufs, a, c1)"
    and "copy_bufs src len 0 bufs = (True, b # bs)"
  shows "WriteDatagram src len avail c =
    (ZX_OK, len, (fold link_buf (b\<lparr>pkt_len_m := len\<rparr> # bs) c1)\<lparr>size_m := size_m (fold link_buf (b\<lparr>pkt_len_m := len\<rparr> # bs) c1) + len\<rparr>)"
  using assms(1,2,4,5) unfolding WriteDatagram_def assms(3) by (simp add: Let_def)

lemma alloc_one: "freelist_m c = [] \<Longrightarrow> 0 < avail \<Longrightarrow> alloc_bufs 1 avail [] c = (Some [MBuf_new], avail - 1, c)"
  by (simp add: AllocMBuf_def)

lemma alloc_recycled:
  "freelist_m c = [b] \<Longrightarrow> 0 < avail \<Longrightarrow>
   alloc_bufs 2 avail [] c = (Some [MBuf_new, b], avail - 1, c\<lparr>freelist_m := []\<rparr>)"
  by (simp add: AllocMBuf_def numeral_2_eq_2)

text \<open>C36: A buffer keeps the length of the datagram it once began when it is freed, and a later datagram
  that spans two buffers may get it as its second one. Write a datagram that fits one buffer, read
  it, write a second one of two buffers, and read up to \<open>n\<close> bytes of that: the bytes behind the first
  buffer are not thrown away. The next read delivers them as if they were another datagram.\<close>
theorem recycled_buffer_splits_datagram:
  assumes "copy_array_from_user src1 0 l1 = Some d1" "0 < l1" "l1 \<le> kPayloadSize"
    and "copy_array_from_user src2 0 l2 = Some d2" "kPayloadSize < l2" "l2 \<le> 2 * kPayloadSize"
    and "copy_array_to_user dst 0 kPayloadSize = ZX_OK" "0 < n" "n \<le> kPayloadSize" "n \<le> l2 - kPayloadSize" "0 < avail"
  shows "\<exists>c1 c2 c3 c4 c5.
    WriteDatagram src1 l1 avail MBufChain_new = (ZX_OK, l1, c1) \<and>
    MBufChain_Read dst l1 True c1 = (ZX_OK, d1, l1, c2) \<and> MBufChain_is_empty c2 \<and>
    WriteDatagram src2 l2 avail c2 = (ZX_OK, l2, c3) \<and>
    MBufChain_Read dst n True c3 = (ZX_OK, take n d2, n, c4) \<and>
    MBufChain_size False c4 = l2 - kPayloadSize \<and>
    MBufChain_Read dst n True c4 = (ZX_OK, take (min n l1) (drop kPayloadSize d2), min n l1, c5)"
proof -
  have k: "0 < kPayloadSize" "kPayloadSize + kPayloadSize \<le> kSizeMax" by (simp_all add: kPayloadSize_value kSizeMax_def)
  have d: "length d1 = l1" "length d2 = l2" using assms(1,4) by (simp_all add: length_copy_array_from_user)
  have uc: "user_copy dst 0 m = ZX_OK" if "m \<le> kPayloadSize" for m
    using assms(7) that by (auto simp: copy_array_to_user_cases intro: user_copy_prefix)
  let ?b1 = "(append_buf d1 MBuf_new)\<lparr>pkt_len_m := l1\<rparr>"
  have b1: "mbuf_ok ?b1" "mbuf_bytes ?b1 = d1" "len_m ?b1 = l1"
    using fresh_write [OF mbuf_new_ok(1-3), of d1] d assms(3) by simp_all
  define c1 where "c1 = \<lparr>freelist_m = [], tail_bufs_m = [?b1], head_buf_m = Some 0, size_m = l1\<rparr>"
  have w1: "WriteDatagram src1 l1 avail MBufChain_new = (ZX_OK, l1, c1)"
  proof -
    have "1 + (l1 - 1) div kPayloadSize = 1" using assms(2,3) by (simp add: div_eq_0_iff)
    moreover have "alloc_bufs 1 avail [] MBufChain_new = (Some [MBuf_new], avail - 1, MBufChain_new)"
      using assms(11) by (intro alloc_one) (simp_all add: MBufChain_new_def)
    moreover have "copy_bufs src1 l1 0 [MBuf_new] = (True, [append_buf d1 MBuf_new])"
      using assms(1,3) fresh_write(1) [OF mbuf_new_ok(1-3), of d1] d by (simp add: Let_def)
    moreover have "l1 + size_m MBufChain_new \<le> kSizeMax" using assms(3) k by (simp add: MBufChain_new_def)
    ultimately show ?thesis
      using WriteDatagram_steps [OF assms(2)] by (simp add: c1_def MBufChain_new_def link_buf_def del: copy_bufs.simps)
  qed
  have sh1: "chain_shape c1" "size_m c1 = length (chain_stream c1)"
    using b1 d by (simp_all add: c1_def chain_shape_def chain_stream_def)
  from Read_front [OF sh1(1) _ sh1(2), of ?b1 "[]" l1 l1 dst] assms(2) b1 uc [OF assms(3)] obtain c2 where r1:
    "MBufChain_Read dst l1 True c1 = (ZX_OK, take l1 d1, l1, c2)" "chain_shape c2" "tail_bufs_m c2 = []"
    "size_m c2 = length (chain_stream c2)" "freelist_m c2 = [(advance l1 ?b1)\<lparr>off_m := 0, len_m := 0\<rparr>]"
    by (auto simp: c1_def)
  let ?r = "(advance l1 ?b1)\<lparr>off_m := 0, len_m := 0\<rparr>"
  let ?x = "take kPayloadSize d2" and ?y = "drop kPayloadSize d2"
  have rec: "mbuf_ok ?r" "off_m ?r = 0" "len_m ?r = 0" "pkt_len_m ?r = l1"
    using r1(2,5) by (simp_all add: chain_shape_def advance_def append_buf_def)
  let ?B = "(append_buf ?x MBuf_new)\<lparr>pkt_len_m := l2\<rparr>" and ?C = "append_buf ?y ?r"
  have lx: "length ?x = kPayloadSize" "length ?y = l2 - kPayloadSize" "length ?y \<le> kPayloadSize"
    using d assms(5,6) by simp_all
  have B: "mbuf_ok ?B" "mbuf_bytes ?B = ?x" "len_m ?B = kPayloadSize"
    using fresh_write [OF mbuf_new_ok(1-3), of ?x] lx by simp_all
  have C: "mbuf_ok ?C" "mbuf_bytes ?C = ?y" "len_m ?C = l2 - kPayloadSize" "pkt_len_m ?C = l1"
    using fresh_write [OF rec(1-3) lx(3)] lx rec(4) by (simp_all add: append_buf_def)
  define c3 where "c3 = c2\<lparr>freelist_m := [], tail_bufs_m := [?B, ?C], head_buf_m := Some 1, size_m := l2\<rparr>"
  have w2: "WriteDatagram src2 l2 avail c2 = (ZX_OK, l2, c3)"
  proof -
    have "(l2 - 1) div kPayloadSize = 1" using assms(5,6) k(1) by (intro div_nat_eqI) simp_all
    then have "1 + (l2 - 1) div kPayloadSize = 2" by simp
    moreover have "copy_bufs src2 l2 0 [MBuf_new, ?r] = (True, [append_buf ?x MBuf_new, ?C])"
    proof -
      have "copy_array_from_user src2 0 (kPayloadSize + (l2 - kPayloadSize)) = Some (?x @ ?y)" using assms(4,5) by simp
      then obtain xs ys where xy: "copy_array_from_user src2 0 kPayloadSize = Some xs"
        "copy_array_from_user src2 kPayloadSize (l2 - kPayloadSize) = Some ys" "xs @ ys = ?x @ ?y"
        by (subst (asm) copy_array_from_user_split) (auto split: option.splits)
      moreover have "xs = ?x" "ys = ?y"
        using xy(3) [symmetric] length_copy_array_from_user [OF xy(1)] by simp_all
      ultimately show ?thesis
        using assms(5,6) fresh_write(1) [OF mbuf_new_ok(1-3), of ?x] fresh_write(1) [OF rec(1-3) lx(3)] lx rec
        by (simp add: Let_def)
    qed
    moreover have "0 < l2" "l2 + size_m c2 \<le> kSizeMax" "head_buf_m c2 = None"
      using assms(5,6) k r1(2,3,4) by (simp_all add: chain_stream_def chain_shape_def)
    ultimately show ?thesis
      using WriteDatagram_steps [OF _ _ _ alloc_recycled [OF r1(5) assms(11)]] r1(3,4)
      by (simp add: c3_def link_buf_def chain_stream_def del: copy_bufs.simps)
  qed
  have sh3: "chain_shape c3" "size_m c3 = length (chain_stream c3)"
    using B C d by (simp_all add: c3_def chain_shape_def chain_stream_def)
  from Read_front [OF sh3(1) _ sh3(2), of ?B "[?C]" n n dst] assms(5,8,9) B C(4) uc [OF assms(9)] assms(2) obtain c4 where r2:
    "MBufChain_Read dst n True c3 = (ZX_OK, take n ?x, n, c4)" "chain_shape c4" "tail_bufs_m c4 = [?C]"
    "size_m c4 = length (chain_stream c4)" by (auto simp: c3_def)
  have m: "0 < min n l1" "min n l1 \<le> len_m ?C" "min n l1 \<le> kPayloadSize" using assms(2,8,9,10) C(3) by auto
  from Read_front [OF r2(2,3,4) m(1,2), of n dst] C(4) uc [OF m(3)] assms(2) obtain c5 where r3:
    "MBufChain_Read dst n True c4 = (ZX_OK, take (min n l1) ?y, min n l1, c5)" by (auto simp: C(2))
  show ?thesis
    using w1 w2 r1 r2 r3 d C(1,2) lx assms(9)
    by (intro exI [of _ c1] exI [of _ c2] exI [of _ c3] exI [of _ c4] exI [of _ c5])
      (simp add: MBufChain_is_empty_def MBufChain_size_def chain_stream_def)
qed

theorem recycled_buffer_splits_datagram_witness:
  "\<exists>c1 c2 c3 c4 c5.
    WriteDatagram (\<lambda>_. Some 1) 10 1 MBufChain_new = (ZX_OK, 10, c1) \<and>
    MBufChain_Read (\<lambda>_. True) 10 True c1 = (ZX_OK, replicate 10 1, 10, c2) \<and>
    WriteDatagram (\<lambda>_. Some 2) 3000 1 c2 = (ZX_OK, 3000, c3) \<and>
    MBufChain_Read (\<lambda>_. True) 5 True c3 = (ZX_OK, replicate 5 2, 5, c4) \<and>
    MBufChain_size False c4 = 992 \<and>
    MBufChain_Read (\<lambda>_. True) 5 True c4 = (ZX_OK, replicate 5 2, 5, c5)"
proof -
  have src: "copy_array_from_user (\<lambda>_. Some x) 0 n = Some (replicate n x)" for x :: byte and n
    by (simp add: copy_array_from_user_Some_iff)
  have to: "copy_array_to_user (\<lambda>_. True) 0 kPayloadSize = ZX_OK" by (simp add: copy_array_to_user_OK_iff)
  have tk: "take 5 (replicate 3000 (2 :: byte)) = replicate 5 2" "take 5 (drop 2008 (replicate 3000 (2 :: byte))) = replicate 5 2"
    by (simp_all only: take_replicate drop_replicate) (simp_all add: min_def)
  show ?thesis
    using recycled_buffer_splits_datagram [OF src [where n = 10 and x = 1] _ _ src [where n = 3000 and x = 2] _ _ to, where n = 5 and avail = 1]
    unfolding kPayloadSize_value tk(1) by (simp add: tk(2)) blast
qed

end
