(* ===== verification/Socket.thy ===== *)
theory Socket
  imports MBuf_Chain Event_Pair
begin

section \<open>SocketDispatcher\<close>

text \<open>
  Model of \<open>zircon/kernel/object/socket_dispatcher.cc\<close>. Each endpoint owns the \<open>MBufChain\<close> its
  peer writes to. \<open>size_t\<close> values are natural numbers; \<open>avail\<close> is how many buffer allocations
  succeed during a write. The theory interprets the contract of peered endpoints and, for stream
  sockets, that of an ordered queue, and shows which signals an endpoint has.
\<close>

abbreviation ZX_SOCKET_READABLE :: zx_signals where "ZX_SOCKET_READABLE \<equiv> ZX_OBJECT_READABLE"
abbreviation ZX_SOCKET_WRITABLE :: zx_signals where "ZX_SOCKET_WRITABLE \<equiv> ZX_OBJECT_WRITABLE"
abbreviation ZX_SOCKET_PEER_CLOSED :: zx_signals where "ZX_SOCKET_PEER_CLOSED \<equiv> ZX_OBJECT_PEER_CLOSED"
abbreviation ZX_SOCKET_PEER_WRITE_DISABLED :: zx_signals where "ZX_SOCKET_PEER_WRITE_DISABLED \<equiv> ZX_OBJECT_SIGNAL_4"
abbreviation ZX_SOCKET_WRITE_DISABLED :: zx_signals where "ZX_SOCKET_WRITE_DISABLED \<equiv> ZX_OBJECT_SIGNAL_5"
abbreviation ZX_SOCKET_READ_THRESHOLD :: zx_signals where "ZX_SOCKET_READ_THRESHOLD \<equiv> ZX_OBJECT_SIGNAL_10"
abbreviation ZX_SOCKET_WRITE_THRESHOLD :: zx_signals where "ZX_SOCKET_WRITE_THRESHOLD \<equiv> ZX_OBJECT_SIGNAL_11"

definition ZX_SOCKET_SHUTDOWN_WRITE :: "32 word" where [zx_consts]: "ZX_SOCKET_SHUTDOWN_WRITE = push_bit 0 1"
definition ZX_SOCKET_SHUTDOWN_READ :: "32 word" where [zx_consts]: "ZX_SOCKET_SHUTDOWN_READ = push_bit 1 1"
definition ZX_SOCKET_DATAGRAM :: "32 word" where [zx_consts]: "ZX_SOCKET_DATAGRAM = push_bit 0 1"
definition ZX_SOCKET_CREATE_MASK :: "32 word" where [zx_consts]: "ZX_SOCKET_CREATE_MASK = ZX_SOCKET_DATAGRAM"

datatype ReadType = kConsume | kPeek

record socket = peered +
  flags_m :: "32 word"
  sock_data_m :: MBufChain
  read_threshold_m :: nat
  write_threshold_m :: nat
  read_disabled_m :: bool

type_synonym sockets = "zx_koid \<Rightarrow> socket"

definition SocketDispatcher_new :: "zx_koid \<Rightarrow> zx_signals \<Rightarrow> 32 word \<Rightarrow> socket" where
  "SocketDispatcher_new koid starting_signals flags =
     \<lparr>koid_m = koid, type_m = ZX_OBJ_TYPE_SOCKET, default_rights_m = ZX_DEFAULT_SOCKET_RIGHTS,
      extra_signals_m = 0, handle_count_m = 0, signals_m = starting_signals, observers_m = [],
      calls_m = [], peer_m = None, peer_koid_m = 0,
      flags_m = flags, sock_data_m = MBufChain_new, read_threshold_m = 0, write_threshold_m = 0,
      read_disabled_m = False\<rparr>"

definition SocketDispatcher_Init :: "zx_koid \<Rightarrow> socket \<Rightarrow> socket" where
  "SocketDispatcher_Init other d = d\<lparr>peer_m := Some other, peer_koid_m := other\<rparr>"

definition SocketDispatcher_Create ::
  "32 word \<Rightarrow> bool \<Rightarrow> bool \<Rightarrow> bool \<Rightarrow> zx_koid \<Rightarrow> sockets
     \<Rightarrow> zx_status \<times> (zx_koid \<times> zx_koid \<times> zx_rights) option \<times> zx_koid \<times> sockets" where
  "SocketDispatcher_Create flags ac_holder ac0 ac1 global_koid s =
     (if flags AND NOT ZX_SOCKET_CREATE_MASK \<noteq> 0 then (ZX_ERR_INVALID_ARGS, None, global_koid, s)
      else let starting_signals = ZX_SOCKET_WRITABLE in
      if \<not> ac_holder then (ZX_ERR_NO_MEMORY, None, global_koid, s)
      else if \<not> ac0 then (ZX_ERR_NO_MEMORY, None, global_koid, s)
      else let (k0, global_koid) = GenerateKernelObjectId global_koid in
      if \<not> ac1 then (ZX_ERR_NO_MEMORY, None, global_koid, s)
      else let (k1, global_koid) = GenerateKernelObjectId global_koid;
               s = s(k0 := SocketDispatcher_Init k1 (SocketDispatcher_new k0 starting_signals flags));
               s = s(k1 := SocketDispatcher_Init k0 (SocketDispatcher_new k1 starting_signals flags))
           in (ZX_OK, Some (k0, k1, ZX_DEFAULT_SOCKET_RIGHTS), global_koid, s))"

definition SocketDispatcher_on_zero_handles_locked :: "socket \<Rightarrow> socket" where
  "SocketDispatcher_on_zero_handles_locked d = d"

definition SocketDispatcher_OnPeerZeroHandlesLocked :: "socket \<Rightarrow> socket" where
  "SocketDispatcher_OnPeerZeroHandlesLocked d = UpdateStateLocked ZX_SOCKET_WRITABLE ZX_SOCKET_PEER_CLOSED d"

abbreviation SocketDispatcher_on_zero_handles :: "zx_koid \<Rightarrow> sockets \<Rightarrow> sockets" where
  "SocketDispatcher_on_zero_handles \<equiv>
     peered_on_zero_handles SocketDispatcher_on_zero_handles_locked SocketDispatcher_OnPeerZeroHandlesLocked"

subsection \<open>Shutting down\<close>

definition ShutdownOtherLocked :: "32 word \<Rightarrow> socket \<Rightarrow> zx_status \<times> socket" where
  "ShutdownOtherLocked how d =
     (let shutdown_read = how AND ZX_SOCKET_SHUTDOWN_READ \<noteq> 0;
          shutdown_write = how AND ZX_SOCKET_SHUTDOWN_WRITE \<noteq> 0;
          clear_mask = (if shutdown_read then ZX_SOCKET_WRITABLE else 0);
          set_mask = (if shutdown_read then ZX_SOCKET_WRITE_DISABLED else 0);
          d = (if shutdown_write then d\<lparr>read_disabled_m := True\<rparr> else d);
          set_mask = (if shutdown_write then set_mask OR ZX_SOCKET_PEER_WRITE_DISABLED else set_mask)
      in (ZX_OK, UpdateStateLocked clear_mask set_mask d))"

definition Socket_Shutdown :: "zx_koid \<Rightarrow> 32 word \<Rightarrow> sockets \<Rightarrow> zx_status \<times> sockets" where
  "Socket_Shutdown self how s =
     (let shutdown_read = how AND ZX_SOCKET_SHUTDOWN_READ \<noteq> 0;
          shutdown_write = how AND ZX_SOCKET_SHUTDOWN_WRITE \<noteq> 0;
          signals = signals_m (s self);
          want_signals = (if shutdown_read then ZX_SOCKET_PEER_WRITE_DISABLED else 0) OR
                         (if shutdown_write then ZX_SOCKET_WRITE_DISABLED else 0);
          have_signals = signals AND (ZX_SOCKET_PEER_WRITE_DISABLED OR ZX_SOCKET_WRITE_DISABLED)
      in if want_signals = have_signals then (ZX_OK, s)
         else let d = (if shutdown_read then (s self)\<lparr>read_disabled_m := True\<rparr> else s self);
                  set_mask = (if shutdown_read then ZX_SOCKET_PEER_WRITE_DISABLED else 0);
                  clear_mask = (if shutdown_write then ZX_SOCKET_WRITABLE else 0);
                  set_mask = (if shutdown_write then set_mask OR ZX_SOCKET_WRITE_DISABLED else set_mask);
                  s = s(self := UpdateStateLocked clear_mask set_mask d)
              in case peer_m (s self) of
                   None \<Rightarrow> (ZX_OK, s)
                 | Some peer \<Rightarrow> (let (status, p) = ShutdownOtherLocked how (s peer) in (status, s(peer := p))))"

subsection \<open>Writing and reading\<close>

definition Socket_WriteSelfLocked ::
  "zx_koid \<Rightarrow> user_in \<Rightarrow> nat \<Rightarrow> nat \<Rightarrow> sockets \<Rightarrow> zx_status \<times> nat \<times> sockets" where
  "Socket_WriteSelfLocked self src len avail s =
     (if MBufChain_is_full (sock_data_m (s self)) then (ZX_ERR_SHOULD_WAIT, 0, s)
      else let was_empty = MBufChain_is_empty (sock_data_m (s self));
               (status, st, data) =
                 (if flags_m (s self) AND ZX_SOCKET_DATAGRAM \<noteq> 0
                  then WriteDatagram src len avail (sock_data_m (s self))
                  else WriteStream src len avail (sock_data_m (s self)));
               s = s(self := (s self)\<lparr>sock_data_m := data\<rparr>)
           in if status \<noteq> ZX_OK then (status, 0, s)
              else let peer = peer_m (s self);
                       set_mask = (if st > 0 \<and> was_empty then ZX_SOCKET_READABLE else 0);
                       set_mask = (if st > 0 \<and> read_threshold_m (s self) > 0 \<and>
                                      MBufChain_size False data \<ge> read_threshold_m (s self)
                                   then set_mask OR ZX_SOCKET_READ_THRESHOLD else set_mask);
                       s = (if set_mask \<noteq> 0 then s(self := UpdateStateLocked 0 set_mask (s self)) else s);
                       clear_mask = (case peer of
                                       None \<Rightarrow> 0
                                     | Some p \<Rightarrow>
                                         if st > 0 \<and> write_threshold_m (s p) > 0 \<and>
                                            MBufChain_max_size data - MBufChain_size False data < write_threshold_m (s p)
                                         then ZX_SOCKET_WRITE_THRESHOLD else 0);
                       clear_mask = (if peer \<noteq> None \<and> MBufChain_is_full data
                                     then clear_mask OR ZX_SOCKET_WRITABLE else clear_mask);
                       s = (if clear_mask \<noteq> 0
                            then s(the peer := UpdateStateLocked clear_mask 0 (s (the peer))) else s)
                   in (ZX_OK, st, s))"

definition Socket_Write ::
  "zx_koid \<Rightarrow> user_in \<Rightarrow> nat \<Rightarrow> nat \<Rightarrow> sockets \<Rightarrow> zx_status \<times> nat \<times> sockets" where
  "Socket_Write self src len avail s =
     (case peer_m (s self) of
        None \<Rightarrow> (ZX_ERR_PEER_CLOSED, 0, s)
      | Some peer \<Rightarrow>
          if signals_m (s self) AND ZX_SOCKET_WRITE_DISABLED \<noteq> 0 then (ZX_ERR_BAD_STATE, 0, s)
          else if len = 0 then (ZX_OK, 0, s)
          else if len \<noteq> len mod 2 ^ 32 then (ZX_ERR_INVALID_ARGS, 0, s)
          else Socket_WriteSelfLocked peer src len avail s)"

text \<open>The bytes in the result are those copied to the user, also before a fault.\<close>

definition Socket_Read ::
  "zx_koid \<Rightarrow> ReadType \<Rightarrow> user_out \<Rightarrow> nat \<Rightarrow> sockets \<Rightarrow> zx_status \<times> byte list \<times> nat \<times> sockets" where
  "Socket_Read self type dst len s =
     (if len \<noteq> len mod 2 ^ 32 then (ZX_ERR_INVALID_ARGS, [], 0, s)
      else if MBufChain_is_empty (sock_data_m (s self))
      then (if peer_m (s self) = None then ZX_ERR_PEER_CLOSED
            else if read_disabled_m (s self) then ZX_ERR_BAD_STATE else ZX_ERR_SHOULD_WAIT, [], 0, s)
      else let datagram = flags_m (s self) AND ZX_SOCKET_DATAGRAM \<noteq> 0 in
      case type of
        kPeek \<Rightarrow> (let (status, out, actual) = MBufChain_Peek dst len datagram (sock_data_m (s self))
                   in if status \<noteq> ZX_OK then (status, out, 0, s) else (ZX_OK, out, actual, s))
      | kConsume \<Rightarrow>
          let was_full = MBufChain_is_full (sock_data_m (s self));
              (status, out, actual, data) = MBufChain_Read dst len datagram (sock_data_m (s self));
              s = s(self := (s self)\<lparr>sock_data_m := data\<rparr>)
          in if status \<noteq> ZX_OK then (status, out, 0, s)
             else let clear_mask = (if read_threshold_m (s self) > 0 \<and>
                                       MBufChain_size False data < read_threshold_m (s self)
                                    then ZX_SOCKET_READ_THRESHOLD else 0);
                      clear_mask = (if MBufChain_is_empty data then clear_mask OR ZX_SOCKET_READABLE else clear_mask);
                      s = (if clear_mask \<noteq> 0 then s(self := UpdateStateLocked clear_mask 0 (s self)) else s);
                      s = (case peer_m (s self) of
                             None \<Rightarrow> s
                           | Some p \<Rightarrow>
                               let set_mask = (if write_threshold_m (s p) > 0 \<and>
                                                  MBufChain_max_size data - MBufChain_size False data \<ge> write_threshold_m (s p)
                                               then ZX_SOCKET_WRITE_THRESHOLD else 0);
                                   set_mask = (if was_full \<and> actual > 0
                                               then set_mask OR ZX_SOCKET_WRITABLE else set_mask)
                               in if set_mask \<noteq> 0 then s(p := UpdateStateLocked 0 set_mask (s p)) else s)
                  in (ZX_OK, out, actual, s))"

subsection \<open>Information and thresholds\<close>

record zx_info_socket =
  options_i :: "32 word"
  rx_buf_max :: nat
  rx_buf_size :: nat
  rx_buf_available :: nat
  tx_buf_max :: nat
  tx_buf_size :: nat

definition Socket_GetInfo :: "zx_koid \<Rightarrow> sockets \<Rightarrow> zx_info_socket" where
  "Socket_GetInfo self s =
     (let d = s self;
          info = \<lparr>options_i = flags_m d, rx_buf_max = MBufChain_max_size (sock_data_m d),
                  rx_buf_size = MBufChain_size False (sock_data_m d),
                  rx_buf_available = MBufChain_size (flags_m d AND ZX_SOCKET_DATAGRAM \<noteq> 0) (sock_data_m d),
                  tx_buf_max = 0, tx_buf_size = 0\<rparr>
      in case peer_m d of
           None \<Rightarrow> info
         | Some p \<Rightarrow> info\<lparr>tx_buf_max := MBufChain_max_size (sock_data_m (s p)),
                          tx_buf_size := MBufChain_size False (sock_data_m (s p))\<rparr>)"

definition GetReadThreshold :: "socket \<Rightarrow> nat" where
  "GetReadThreshold d = read_threshold_m d"

definition GetWriteThreshold :: "socket \<Rightarrow> nat" where
  "GetWriteThreshold d = write_threshold_m d"

definition SetReadThreshold :: "nat \<Rightarrow> socket \<Rightarrow> zx_status \<times> socket" where
  "SetReadThreshold v d =
     (if v > MBufChain_max_size (sock_data_m d) then (ZX_ERR_INVALID_ARGS, d)
      else let d = d\<lparr>read_threshold_m := v\<rparr> in
           (ZX_OK,
            if v = 0 then UpdateStateLocked ZX_SOCKET_READ_THRESHOLD 0 d
            else if MBufChain_size False (sock_data_m d) \<ge> read_threshold_m d
            then UpdateStateLocked 0 ZX_SOCKET_READ_THRESHOLD d
            else UpdateStateLocked ZX_SOCKET_READ_THRESHOLD 0 d))"

definition SetWriteThreshold :: "zx_koid \<Rightarrow> nat \<Rightarrow> sockets \<Rightarrow> zx_status \<times> sockets" where
  "SetWriteThreshold self v s =
     (case peer_m (s self) of
        None \<Rightarrow> (ZX_ERR_PEER_CLOSED, s)
      | Some p \<Rightarrow>
          let data = sock_data_m (s p) in
          if v > MBufChain_max_size data then (ZX_ERR_INVALID_ARGS, s)
          else let d = (s self)\<lparr>write_threshold_m := v\<rparr> in
               (ZX_OK, s(self :=
                 if v = 0 then UpdateStateLocked ZX_SOCKET_WRITE_THRESHOLD 0 d
                 else if MBufChain_max_size data - MBufChain_size False data \<ge> write_threshold_m d
                 then UpdateStateLocked 0 ZX_SOCKET_WRITE_THRESHOLD d
                 else UpdateStateLocked ZX_SOCKET_WRITE_THRESHOLD 0 d)))"

interpretation socket_hooks: peered_hooks
  SocketDispatcher_on_zero_handles_locked SocketDispatcher_OnPeerZeroHandlesLocked
  by unfold_locales
    (auto simp: SocketDispatcher_on_zero_handles_locked_def SocketDispatcher_OnPeerZeroHandlesLocked_def
      bit.conj_disj_distrib2 intro: disp_inv_intros)

subsection \<open>Frames\<close>

lemma UpdateStateLocked_socket [simp]:
  "flags_m (UpdateStateLocked c s d) = flags_m d" "sock_data_m (UpdateStateLocked c s d) = sock_data_m d"
  "read_threshold_m (UpdateStateLocked c s d) = read_threshold_m d"
  "write_threshold_m (UpdateStateLocked c s d) = write_threshold_m d"
  "read_disabled_m (UpdateStateLocked c s d) = read_disabled_m d"
  by (simp_all add: UpdateStateLocked_eq Let_def)

lemma bit_socket_masks:
  "bit ZX_OBJECT_SIGNAL_4 n \<longleftrightarrow> n = 4" "bit ZX_OBJECT_SIGNAL_5 n \<longleftrightarrow> n = 5"
  "bit ZX_OBJECT_SIGNAL_10 n \<longleftrightarrow> n = 10" "bit ZX_OBJECT_SIGNAL_11 n \<longleftrightarrow> n = 11"
  by (simp_all only: zx_consts bit_push_bit_iff bit_1_iff) auto

lemma mask_nonzero [simp]: "ZX_OBJECT_SIGNAL_4 \<noteq> 0" "ZX_OBJECT_SIGNAL_5 \<noteq> 0" "ZX_OBJECT_SIGNAL_10 \<noteq> 0" "ZX_OBJECT_SIGNAL_11 \<noteq> 0"
  by (simp_all add: zx_consts)

text \<open>A guarded update is an update: with empty masks nothing changes.\<close>

lemma UpdateStateLocked_zero [simp]: "UpdateStateLocked 0 0 d = d"
  by (simp add: UpdateStateLocked_eq updated_signals_def)

lemma guarded_update:
  "s x = d \<Longrightarrow> (if m \<noteq> 0 then s(x := UpdateStateLocked 0 m d) else s) = s(x := UpdateStateLocked 0 m d)"
  "s x = d \<Longrightarrow> (if m \<noteq> 0 then s(x := UpdateStateLocked m 0 d) else s) = s(x := UpdateStateLocked m 0 d)"
  by auto

subsection \<open>A pair of stream sockets\<close>

text \<open>One endpoint \<open>x\<close> of a pair and its peer \<open>y\<close>; \<open>sock_bytes\<close> is what waits in the endpoint.\<close>

definition sock_half :: "zx_koid \<Rightarrow> zx_koid \<Rightarrow> sockets \<Rightarrow> bool" where
  "sock_half x y s \<longleftrightarrow> chain_inv (sock_data_m (s x)) \<and> flags_m (s x) AND ZX_SOCKET_DATAGRAM = 0 \<and>
     extra_signals_m (s x) = 0 \<and> (peer_m (s x) = Some y \<or> peer_m (s x) = None)"

definition sock_pair :: "zx_koid \<Rightarrow> zx_koid \<Rightarrow> sockets \<Rightarrow> bool" where
  "sock_pair a b s \<longleftrightarrow> a \<noteq> b \<and> sock_half a b s \<and> sock_half b a s \<and> (peer_m (s a) = None \<longleftrightarrow> peer_m (s b) = None)"

definition sock_bytes :: "socket \<Rightarrow> byte list" where
  "sock_bytes d = chain_stream (sock_data_m d)"

lemma sock_pair_sym: "sock_pair a b s \<longleftrightarrow> sock_pair b a s"
  by (auto simp: sock_pair_def)

text \<open>The signals that tell the state of the buffers: \<open>READABLE\<close> (0) and \<open>READ_THRESHOLD\<close> (10) of the
  endpoint's own buffer, \<open>WRITABLE\<close> (1) and \<open>WRITE_THRESHOLD\<close> (11) of its peer's, and
  \<open>WRITE_DISABLED\<close> (5).\<close>

definition sock_signals :: "zx_koid \<Rightarrow> zx_koid \<Rightarrow> sockets \<Rightarrow> bool" where
  "sock_signals x y s \<longleftrightarrow>
     (let sig = signals_m (s x); own = size_m (sock_data_m (s x)); there = size_m (sock_data_m (s y)) in
      (bit sig 0 \<longleftrightarrow> own \<noteq> 0) \<and>
      (bit sig 10 \<longleftrightarrow> 0 < read_threshold_m (s x) \<and> read_threshold_m (s x) \<le> own) \<and>
      (peer_m (s x) \<noteq> None \<longrightarrow>
        (bit sig 11 \<longleftrightarrow> 0 < write_threshold_m (s x) \<and> write_threshold_m (s x) \<le> kSizeMax - there) \<and>
        (bit sig 1 \<longrightarrow> there < kSizeMax) \<and> (there < kSizeMax \<and> \<not> bit sig 5 \<longrightarrow> bit sig 1)))"

lemma sock_signals_same:
  assumes "\<And>z. z = x \<or> z = y \<Longrightarrow> size_m (sock_data_m (s' z)) = size_m (sock_data_m (s z))"
    and "read_threshold_m (s' x) = read_threshold_m (s x)" "write_threshold_m (s' x) = write_threshold_m (s x)"
    and "peer_m (s' x) = peer_m (s x)" "\<And>i. i < 24 \<Longrightarrow> bit (signals_m (s' x)) i = bit (signals_m (s x)) i"
  shows "sock_signals x y s' = sock_signals x y s"
  using assms(1) [of x] assms(1) [of y] assms(2-4) assms(5) [of 0] assms(5) [of 1] assms(5) [of 5] assms(5) [of 10] assms(5) [of 11]
  by (simp add: sock_signals_def Let_def)

lemma sock_pair_same:
  assumes "sock_pair a b s"
    and "\<And>z. z = a \<or> z = b \<Longrightarrow> chain_inv (sock_data_m (s' z)) \<and> flags_m (s' z) = flags_m (s z) \<and>
      extra_signals_m (s' z) = extra_signals_m (s z) \<and> peer_m (s' z) = peer_m (s z)"
  shows "sock_pair a b s'"
  using assms(1) assms(2) [of a] assms(2) [of b] unfolding sock_pair_def sock_half_def by metis

lemmas chain_tests = MBufChain_is_full_def MBufChain_is_empty_def MBufChain_size_def MBufChain_max_size_def

lemma and_bit_5: "x AND ZX_SOCKET_WRITE_DISABLED = 0 \<longleftrightarrow> \<not> bit x 5"
  by (simp only: zx_consts bit_iff_and_push_bit_not_eq_0 not_not)

text \<open>The masks a successful write sets at the reader and clears at the writer.\<close>

definition write_set_mask :: "MBufChain \<Rightarrow> MBufChain \<Rightarrow> socket \<Rightarrow> zx_signals" where
  "write_set_mask c c' reader =
     (let m = (if size_m c = 0 then ZX_SOCKET_READABLE else 0) in
      if 0 < read_threshold_m reader \<and> read_threshold_m reader \<le> size_m c' then m OR ZX_SOCKET_READ_THRESHOLD else m)"

definition write_clear_mask :: "MBufChain \<Rightarrow> socket \<Rightarrow> zx_signals" where
  "write_clear_mask c' writer =
     (let m = (if 0 < write_threshold_m writer \<and> kSizeMax - size_m c' < write_threshold_m writer
               then ZX_SOCKET_WRITE_THRESHOLD else 0) in
      if kSizeMax \<le> size_m c' then m OR ZX_SOCKET_WRITABLE else m)"

lemma bit_write_masks:
  "bit (write_set_mask c c' d) n \<longleftrightarrow>
     n = 0 \<and> size_m c = 0 \<or> n = 10 \<and> 0 < read_threshold_m d \<and> read_threshold_m d \<le> size_m c'"
  "bit (write_clear_mask c' d) n \<longleftrightarrow>
     n = 1 \<and> kSizeMax \<le> size_m c' \<or> n = 11 \<and> 0 < write_threshold_m d \<and> kSizeMax - size_m c' < write_threshold_m d"
  by (auto simp: write_set_mask_def write_clear_mask_def Let_def bit_simps bit_socket_masks bit_signal_masks)

lemma WriteSelfLocked_stream:
  assumes "size_m (sock_data_m (s b)) < kSizeMax" "WriteStream src len avail (sock_data_m (s b)) = (st, k, c')"
    and "flags_m (s b) AND ZX_SOCKET_DATAGRAM = 0"
  shows "st \<noteq> ZX_OK \<Longrightarrow> Socket_WriteSelfLocked b src len avail s = (st, 0, s(b := (s b)\<lparr>sock_data_m := c'\<rparr>))"
    "st = ZX_OK \<Longrightarrow> 0 < k \<Longrightarrow> peer_m (s b) = Some a \<Longrightarrow> a \<noteq> b \<Longrightarrow>
     Socket_WriteSelfLocked b src len avail s =
       (ZX_OK, k, s(b := UpdateStateLocked 0 (write_set_mask (sock_data_m (s b)) c' (s b)) ((s b)\<lparr>sock_data_m := c'\<rparr>),
                    a := UpdateStateLocked (write_clear_mask c' (s a)) 0 (s a)))"
  using assms
  by (simp_all add: Socket_WriteSelfLocked_def Let_def guarded_update chain_tests write_set_mask_def write_clear_mask_def
      cong: if_cong split del: if_split)

text \<open>A write: what it appends to the buffer of \<open>b\<close>, and the signals afterwards.\<close>

lemma Socket_Write_effect:
  assumes "sock_pair a b s" "Socket_Write a src len avail s = (st, n, s')"
  shows "\<exists>k bs. copy_array_from_user src 0 k = Some bs \<and> k \<le> len \<and> sock_bytes (s' b) = sock_bytes (s b) @ bs \<and>
    sock_pair a b s' \<and> sock_data_m (s' a) = sock_data_m (s a) \<and> (st = ZX_OK \<longrightarrow> n = k) \<and>
    (\<forall>z. bit (signals_m (s z)) 5 \<longrightarrow> bit (signals_m (s' z)) 5) \<and>
    (copy_array_from_user src 0 len \<noteq> None \<longrightarrow> sock_signals a b s \<and> sock_signals b a s \<longrightarrow> sock_signals a b s' \<and> sock_signals b a s')"
proof -
  have pair: "a \<noteq> b" "chain_inv (sock_data_m (s b))" "flags_m (s b) AND ZX_SOCKET_DATAGRAM = 0"
    "peer_m (s a) = Some b \<and> peer_m (s b) = Some a \<or> peer_m (s a) = None \<and> peer_m (s b) = None"
    using assms(1) by (auto simp: sock_pair_def sock_half_def)
  let ?c = "sock_data_m (s b)"
  have inv: "chain_inv (sock_data_m (s a))" using assms(1) by (simp add: sock_pair_def sock_half_def)
  show ?thesis
  proof (cases "s' = s \<and> (st = ZX_OK \<longrightarrow> n = 0)")
    case True
    then show ?thesis using assms(1) by (intro exI [of _ 0] exI [of _ "[]"]) simp
  next
    case False
    then have peer: "peer_m (s a) = Some b" "peer_m (s b) = Some a" and
      w: "Socket_WriteSelfLocked b src len avail s = (st, n, s')"
      using assms(2) pair(4) by (auto simp: Socket_Write_def split: if_splits)
    have room: "size_m ?c < kSizeMax" using w False by (auto simp: Socket_WriteSelfLocked_def chain_tests split: if_splits)
    obtain st1 n1 c' where ws: "WriteStream src len avail ?c = (st1, n1, c')" by (rule prod_cases3)
    from WriteStream_stream [OF pair(2) ws] obtain k bs where k: "k \<le> len" "copy_array_from_user src 0 k = Some bs"
      "chain_stream c' = chain_stream ?c @ bs" "chain_inv c'" "st1 = ZX_OK \<longrightarrow> n1 = k \<and> 0 < k"
      "st1 = ZX_ERR_SHOULD_WAIT \<longrightarrow> k = 0"
      "st1 = ZX_OK \<or> st1 = ZX_ERR_SHOULD_WAIT \<or> st1 = ZX_ERR_INVALID_ARGS \<and> copy_array_from_user src 0 len = None" by blast
    have sz: "size_m c' = size_m ?c + k" "size_m c' \<le> kSizeMax"
      using k(3,4) pair(2) length_copy_array_from_user [OF k(2)] by (simp_all add: chain_inv_def)
    show ?thesis
    proof (cases "st1 = ZX_OK")
      case fail: False
      then have res: "st = st1" "n = 0" "s' = s(b := (s b)\<lparr>sock_data_m := c'\<rparr>)"
        using w WriteSelfLocked_stream(1) [where s = s and b = b, OF room ws pair(3) fail] by auto
      have "sock_pair a b s'" by (rule sock_pair_same [OF assms(1)]) (use k(4) inv in \<open>auto simp: res\<close>)
      moreover have "sock_signals a b s' \<and> sock_signals b a s'"
        if "copy_array_from_user src 0 len \<noteq> None" "sock_signals a b s \<and> sock_signals b a s"
      proof -
        have "size_m c' = size_m ?c" using that(1) fail k(6,7) sz by auto
        then have "sock_signals a b s' = sock_signals a b s" "sock_signals b a s' = sock_signals b a s"
          by (simp_all add: res sock_signals_def Let_def)
        with that(2) show ?thesis by simp
      qed
      ultimately show ?thesis
        using k(1-3) fail res pair(1) by (intro exI [of _ k] exI [of _ bs]) (simp add: sock_bytes_def)
    next
      case ok: True
      have res: "st = ZX_OK" "n = k"
        "s' = s(b := UpdateStateLocked 0 (write_set_mask ?c c' (s b)) ((s b)\<lparr>sock_data_m := c'\<rparr>),
                a := UpdateStateLocked (write_clear_mask c' (s a)) 0 (s a))"
        using w WriteSelfLocked_stream(2) [where s = s and b = b, OF room ws pair(3) ok _ peer(2) pair(1)] ok k(5) by auto
      have "sock_pair a b s'" by (rule sock_pair_same [OF assms(1)]) (use k(4) inv in \<open>auto simp: res\<close>)
      moreover have "sock_signals b a s'" if "sock_signals b a s"
        using that sz pair(1) ok k(5) unfolding sock_signals_def Let_def res
        by (simp add: bit_write_masks bit_simps) linarith
      moreover have "sock_signals a b s'" if "sock_signals a b s"
        using that sz pair(1) ok k(5) peer room unfolding sock_signals_def Let_def res
        by (simp add: bit_write_masks bit_simps) linarith
      moreover have "\<forall>z. bit (signals_m (s z)) 5 \<longrightarrow> bit (signals_m (s' z)) 5"
        by (simp add: res bit_simps bit_write_masks)
      moreover have "sock_bytes (s' b) = sock_bytes (s b) @ bs" "sock_data_m (s' a) = sock_data_m (s a)"
        using k(3) pair(1) by (simp_all add: res sock_bytes_def)
      ultimately show ?thesis
        using k(1,2) res(1,2) by (intro exI [of _ k] exI [of _ bs]) simp
    qed
  qed
qed

text \<open>The masks a successful read clears at the reader and sets at the writer.\<close>

definition read_clear_mask :: "MBufChain \<Rightarrow> socket \<Rightarrow> zx_signals" where
  "read_clear_mask c' reader =
     (let m = (if 0 < read_threshold_m reader \<and> size_m c' < read_threshold_m reader then ZX_SOCKET_READ_THRESHOLD else 0) in
      if size_m c' = 0 then m OR ZX_SOCKET_READABLE else m)"

definition read_set_mask :: "MBufChain \<Rightarrow> nat \<Rightarrow> MBufChain \<Rightarrow> socket \<Rightarrow> zx_signals" where
  "read_set_mask c actual c' writer =
     (let m = (if 0 < write_threshold_m writer \<and> write_threshold_m writer \<le> kSizeMax - size_m c'
               then ZX_SOCKET_WRITE_THRESHOLD else 0) in
      if kSizeMax \<le> size_m c \<and> 0 < actual then m OR ZX_SOCKET_WRITABLE else m)"

lemma bit_read_masks:
  "bit (read_clear_mask c' d) n \<longleftrightarrow>
     n = 0 \<and> size_m c' = 0 \<or> n = 10 \<and> 0 < read_threshold_m d \<and> size_m c' < read_threshold_m d"
  "bit (read_set_mask c k c' d) n \<longleftrightarrow>
     n = 1 \<and> kSizeMax \<le> size_m c \<and> 0 < k \<or> n = 11 \<and> 0 < write_threshold_m d \<and> write_threshold_m d \<le> kSizeMax - size_m c'"
  by (auto simp: read_clear_mask_def read_set_mask_def Let_def bit_simps bit_socket_masks bit_signal_masks)

lemma Read_consume_stream:
  assumes "len < 2 ^ 32" "size_m (sock_data_m (s b)) \<noteq> 0" "flags_m (s b) AND ZX_SOCKET_DATAGRAM = 0"
    and "MBufChain_Read dst len False (sock_data_m (s b)) = (st, out, k, c')"
  shows "st \<noteq> ZX_OK \<Longrightarrow> Socket_Read b kConsume dst len s = (st, out, 0, s(b := (s b)\<lparr>sock_data_m := c'\<rparr>))"
    "st = ZX_OK \<Longrightarrow> peer_m (s b) = None \<Longrightarrow>
     Socket_Read b kConsume dst len s =
       (ZX_OK, out, k, s(b := UpdateStateLocked (read_clear_mask c' (s b)) 0 ((s b)\<lparr>sock_data_m := c'\<rparr>)))"
    "st = ZX_OK \<Longrightarrow> peer_m (s b) = Some a \<Longrightarrow> a \<noteq> b \<Longrightarrow>
     Socket_Read b kConsume dst len s =
       (ZX_OK, out, k, s(b := UpdateStateLocked (read_clear_mask c' (s b)) 0 ((s b)\<lparr>sock_data_m := c'\<rparr>),
                         a := UpdateStateLocked 0 (read_set_mask (sock_data_m (s b)) k c' (s a)) (s a)))"
  using assms
  by (simp_all add: Socket_Read_def Let_def guarded_update chain_tests read_clear_mask_def read_set_mask_def
      cong: if_cong split del: if_split)

lemma Socket_Read_effect:
  assumes "sock_pair a b s" "Socket_Read b type dst len s = (st, out, n, s')"
  shows "sock_pair a b s' \<and> sock_data_m (s' a) = sock_data_m (s a) \<and>
    (if type = kPeek then s' = s else out @ sock_bytes (s' b) = sock_bytes (s b)) \<and>
    (st = ZX_OK \<longrightarrow> out = take len (sock_bytes (s b)) \<and> n = length out) \<and>
    (\<forall>z. bit (signals_m (s z)) 5 \<longrightarrow> bit (signals_m (s' z)) 5) \<and>
    (copy_array_to_user dst 0 len = ZX_OK \<longrightarrow> sock_signals a b s \<and> sock_signals b a s \<longrightarrow> sock_signals a b s' \<and> sock_signals b a s')"
proof (cases "len < 2 ^ 32 \<and> size_m (sock_data_m (s b)) \<noteq> 0")
  case False
  then have "len \<noteq> len mod 2 ^ 32 \<or> size_m (sock_data_m (s b)) = 0" by (metis mod_less_divisor zero_less_numeral zero_less_power)
  then have "s' = s" "out = []" "st \<noteq> ZX_OK" using assms(2) by (auto simp: Socket_Read_def chain_tests split: if_splits)
  then show ?thesis using assms(1) by simp
next
  case True
  let ?c = "sock_data_m (s b)"
  have pair: "a \<noteq> b" "chain_inv ?c" "chain_inv (sock_data_m (s a))" "flags_m (s b) AND ZX_SOCKET_DATAGRAM = 0"
    "peer_m (s b) = Some a \<or> peer_m (s b) = None" "peer_m (s a) = None \<longleftrightarrow> peer_m (s b) = None"
    using assms(1) by (simp_all add: sock_pair_def sock_half_def)
  obtain st1 out1 k c' where r: "MBufChain_Read dst len False ?c = (st1, out1, k, c')" by (rule prod_cases4)
  note R = Read_stream [OF pair(2) r]
  have bytes: "out1 @ chain_stream c' = chain_stream ?c" by (rule R(2))
  have sz: "size_m ?c = length out1 + size_m c'" "size_m ?c \<le> kSizeMax"
    using bytes [symmetric] R(1) pair(2) by (simp_all add: chain_inv_def)
  have safe: "st1 = ZX_OK" if "copy_array_to_user dst 0 len = ZX_OK"
    using user_copy_prefix [of dst len "min len (size_m ?c)"] that R(3) by (simp add: copy_array_to_user_cases)
  show ?thesis
  proof (cases type)
    case kPeek
    have "MBufChain_Peek dst len False ?c = (st1, out1, k)" using Peek_Read [of dst len False ?c] r by simp
    then have "s' = s \<and> (st = ZX_OK \<longrightarrow> out = take len (sock_bytes (s b)) \<and> n = length out)"
      using assms(2) True kPeek pair(4) R(4) by (auto simp: Socket_Read_def chain_tests sock_bytes_def split: if_splits)
    then show ?thesis using assms(1) kPeek by simp
  next
    case kConsume
    note eqs = Read_consume_stream [where s = s and b = b, OF conjunct1 [OF True] conjunct2 [OF True] pair(4) r]
    show ?thesis
    proof (cases "st1 = ZX_OK")
      case False
      then have res: "st = st1" "out = out1" "s' = s(b := (s b)\<lparr>sock_data_m := c'\<rparr>)"
        using eqs(1) assms(2) kConsume by auto
      have "sock_pair a b s'" by (rule sock_pair_same [OF assms(1)]) (use R(1) pair(3) in \<open>auto simp: res\<close>)
      then show ?thesis using False safe bytes pair(1) kConsume by (auto simp: res sock_bytes_def)
    next
      case ok: True
      define s1 where "s1 = s(b := UpdateStateLocked (read_clear_mask c' (s b)) 0 ((s b)\<lparr>sock_data_m := c'\<rparr>))"
      have res: "st = ZX_OK" "out = out1" "n = k"
        "s' = (if peer_m (s b) = None then s1 else s1(a := UpdateStateLocked 0 (read_set_mask ?c k c' (s a)) (s a)))"
        using eqs(2,3) [OF ok] assms(2) kConsume pair(1,5) by (auto simp: s1_def)
      have k: "size_m ?c = k + size_m c'" using R(4) ok sz(1) by simp
      have "sock_pair a b s'" by (rule sock_pair_same [OF assms(1)]) (use R(1) pair(3) in \<open>auto simp: res s1_def\<close>)
      moreover
      have fb: "size_m (sock_data_m (s' b)) = size_m c'" "signals_m (s' b) = signals_m (s b) AND NOT (read_clear_mask c' (s b))"
        "read_threshold_m (s' b) = read_threshold_m (s b)" "write_threshold_m (s' b) = write_threshold_m (s b)"
        "peer_m (s' b) = peer_m (s b)"
        using pair(1) by (simp_all add: res s1_def)
      have fa: "size_m (sock_data_m (s' a)) = size_m (sock_data_m (s a))"
        "read_threshold_m (s' a) = read_threshold_m (s a)" "write_threshold_m (s' a) = write_threshold_m (s a)"
        "peer_m (s' a) = peer_m (s a)"
        "signals_m (s' a) = signals_m (s a) OR (if peer_m (s a) = None then 0 else read_set_mask ?c k c' (s a))"
        using pair(1,6) by (simp_all add: res s1_def)
      have "sock_signals b a s'" if "sock_signals b a s"
        using that sz unfolding sock_signals_def Let_def fb fa
        by (simp add: bit_read_masks bit_simps) linarith
      moreover have "sock_signals a b s'" if "sock_signals a b s"
      proof (cases "peer_m (s a) = None")
        case True
        then show ?thesis using that unfolding sock_signals_def Let_def fb fa by simp
      next
        case False
        let ?S = "signals_m (s a)" and ?w = "write_threshold_m (s a)"
        have old: "bit ?S 11 \<longleftrightarrow> 0 < ?w \<and> ?w \<le> kSizeMax - size_m ?c" "bit ?S 1 \<longrightarrow> size_m ?c < kSizeMax"
          "size_m ?c < kSizeMax \<and> \<not> bit ?S 5 \<longrightarrow> bit ?S 1" using that False by (simp_all add: sock_signals_def Let_def)
        have "bit (signals_m (s' a)) 11 \<longleftrightarrow> 0 < ?w \<and> ?w \<le> kSizeMax - size_m c'"
          using old(1) sz False by (auto simp: fa(5) bit_read_masks bit_simps)
        moreover have "bit (signals_m (s' a)) 1 \<longrightarrow> size_m c' < kSizeMax"
          using old(2) sz(2) k False by (auto simp: fa(5) bit_read_masks bit_simps)
        moreover have "size_m c' < kSizeMax \<and> \<not> bit (signals_m (s' a)) 5 \<longrightarrow> bit (signals_m (s' a)) 1"
          using old(3) sz(2) k False by (auto simp: fa(5) bit_read_masks bit_simps)
        moreover have "bit (signals_m (s' a)) 0 = bit ?S 0" "bit (signals_m (s' a)) 10 = bit ?S 10"
          using False by (simp_all add: fa(5) bit_read_masks bit_simps)
        ultimately show ?thesis using that unfolding sock_signals_def Let_def fb fa(1-4) by simp
      qed
      moreover have "sock_bytes (s' b) = chain_stream c'" "sock_data_m (s' a) = sock_data_m (s a)"
        using pair(1) by (simp_all add: res s1_def sock_bytes_def)
      moreover have "\<forall>z. bit (signals_m (s z)) 5 \<longrightarrow> bit (signals_m (s' z)) 5"
        by (simp add: res(4) s1_def bit_simps bit_read_masks)
      ultimately show ?thesis using bytes kConsume R(4) ok by (simp add: res(1-3) sock_bytes_def)
    qed
  qed
qed

lemma sock_signals_mono:
  assumes "sock_signals x y s" "\<And>z. z = x \<or> z = y \<Longrightarrow> size_m (sock_data_m (s' z)) = size_m (sock_data_m (s z))"
    and "read_threshold_m (s' x) = read_threshold_m (s x)" "write_threshold_m (s' x) = write_threshold_m (s x)"
    and "bit (signals_m (s' x)) 0 = bit (signals_m (s x)) 0" "bit (signals_m (s' x)) 10 = bit (signals_m (s x)) 10"
    and "peer_m (s' x) \<noteq> None \<Longrightarrow> peer_m (s x) \<noteq> None \<and> bit (signals_m (s' x)) 11 = bit (signals_m (s x)) 11 \<and>
      (bit (signals_m (s' x)) 1 \<longrightarrow> bit (signals_m (s x)) 1) \<and>
      (\<not> bit (signals_m (s' x)) 5 \<longrightarrow> \<not> bit (signals_m (s x)) 5 \<and> bit (signals_m (s' x)) 1 = bit (signals_m (s x)) 1)"
  shows "sock_signals x y s'"
proof -
  have "size_m (sock_data_m (s' x)) = size_m (sock_data_m (s x))" "size_m (sock_data_m (s' y)) = size_m (sock_data_m (s y))"
    using assms(2) by blast+
  then show ?thesis
    using assms(1) assms(7) unfolding sock_signals_def Let_def assms(3-6) by auto
qed

text \<open>Operations that leave the buffers alone, seen from one endpoint.\<close>

definition sock_quiet :: "socket \<Rightarrow> socket \<Rightarrow> bool" where
  "sock_quiet d d' \<longleftrightarrow> sock_data_m d' = sock_data_m d \<and> flags_m d' = flags_m d \<and> extra_signals_m d' = extra_signals_m d \<and>
     peer_m d' = peer_m d \<and> read_threshold_m d' = read_threshold_m d \<and> write_threshold_m d' = write_threshold_m d \<and>
     (\<forall>i\<in>{0, 10, 11}. bit (signals_m d') i = bit (signals_m d) i) \<and>
     (bit (signals_m d') 1 \<longrightarrow> bit (signals_m d) 1) \<and>
     (\<not> bit (signals_m d') 5 \<longrightarrow> \<not> bit (signals_m d) 5 \<and> bit (signals_m d') 1 = bit (signals_m d) 1)"

lemma sock_quiet_refl [simp]: "sock_quiet d d"
  by (simp add: sock_quiet_def)

lemma sock_quietD:
  assumes "sock_quiet d d'"
  shows "sock_data_m d' = sock_data_m d" "flags_m d' = flags_m d" "extra_signals_m d' = extra_signals_m d" "peer_m d' = peer_m d"
    "read_threshold_m d' = read_threshold_m d" "write_threshold_m d' = write_threshold_m d"
    "bit (signals_m d') 0 = bit (signals_m d) 0" "bit (signals_m d') 10 = bit (signals_m d) 10"
    "bit (signals_m d') 11 = bit (signals_m d) 11" "bit (signals_m d') 1 \<longrightarrow> bit (signals_m d) 1"
    "\<not> bit (signals_m d') 5 \<longrightarrow> \<not> bit (signals_m d) 5 \<and> bit (signals_m d') 1 = bit (signals_m d) 1"
  using assms unfolding sock_quiet_def by blast+

lemma sock_quiet_signals:
  assumes "sock_signals x y s" "sock_quiet (s x) (s' x)" "sock_quiet (s y) (s' y)"
  shows "sock_signals x y s'"
  using assms(1) sock_quietD [OF assms(2)] sock_quietD(1) [OF assms(3)]
  by - (rule sock_signals_mono, assumption, elim disjE, simp_all)

lemma sock_quiet_effect:
  assumes "sock_pair a b s" "sock_quiet (s a) (s' a)" "sock_quiet (s b) (s' b)"
  shows "sock_pair a b s'" "sock_data_m (s' a) = sock_data_m (s a)" "sock_data_m (s' b) = sock_data_m (s b)"
    "sock_signals a b s \<Longrightarrow> sock_signals a b s'" "sock_signals b a s \<Longrightarrow> sock_signals b a s'"
proof -
  have "chain_inv (sock_data_m (s a))" "chain_inv (sock_data_m (s b))"
    using assms(1) by (simp_all add: sock_pair_def sock_half_def)
  then show "sock_pair a b s'"
    using sock_quietD(1-4) [OF assms(2)] sock_quietD(1-4) [OF assms(3)]
    by - (rule sock_pair_same [OF assms(1)], elim disjE, simp_all)
  show "sock_data_m (s' a) = sock_data_m (s a)" "sock_data_m (s' b) = sock_data_m (s b)"
    using sock_quietD(1) assms(2,3) by blast+
  show "sock_signals a b s \<Longrightarrow> sock_signals a b s'" "sock_signals b a s \<Longrightarrow> sock_signals b a s'"
    using sock_quiet_signals assms(2,3) by blast+
qed

lemma sock_quiet_update:
  assumes "\<not> bit c 0" "\<not> bit c 10" "\<not> bit c 11" "\<not> bit c 5" "\<not> bit m 0" "\<not> bit m 10" "\<not> bit m 11" "\<not> bit m 1" "bit c 1 \<longrightarrow> bit m 5"
  shows "sock_quiet d (UpdateStateLocked c m (d\<lparr>read_disabled_m := r\<rparr>))"
  unfolding sock_quiet_def using assms by (simp add: bit_simps) blast

lemma sock_quiet_update_same:
  assumes "\<not> bit c 0" "\<not> bit c 10" "\<not> bit c 11" "\<not> bit c 5" "\<not> bit m 0" "\<not> bit m 10" "\<not> bit m 11" "\<not> bit m 1" "bit c 1 \<longrightarrow> bit m 5"
  shows "sock_quiet d (UpdateStateLocked c m d)"
  using sock_quiet_update [OF assms, of d "read_disabled_m d"] by simp

text \<open>What \<open>Shutdown\<close> does to the endpoint it is called on.\<close>

definition shutdown_self :: "32 word \<Rightarrow> socket \<Rightarrow> socket" where
  "shutdown_self how d =
     (let r = how AND ZX_SOCKET_SHUTDOWN_READ \<noteq> 0; w = how AND ZX_SOCKET_SHUTDOWN_WRITE \<noteq> 0;
          m = (if r then ZX_SOCKET_PEER_WRITE_DISABLED else 0)
      in UpdateStateLocked (if w then ZX_SOCKET_WRITABLE else 0) (if w then m OR ZX_SOCKET_WRITE_DISABLED else m)
           (if r then d\<lparr>read_disabled_m := True\<rparr> else d))"

lemma sock_quiet_shutdown:
  "sock_quiet d (snd (ShutdownOtherLocked how d))" "sock_quiet d (shutdown_self how d)"
  by (simp_all add: ShutdownOtherLocked_def shutdown_self_def Let_def bit_simps bit_socket_masks bit_signal_masks
      sock_quiet_update sock_quiet_update_same)

lemma Socket_Shutdown_cases:
  assumes "peer_m (s x) \<noteq> Some x"
  shows "Socket_Shutdown x how s = (ZX_OK, s) \<or>
    Socket_Shutdown x how s = (ZX_OK, (case peer_m (s x) of None \<Rightarrow> s(x := shutdown_self how (s x))
      | Some p \<Rightarrow> s(x := shutdown_self how (s x), p := snd (ShutdownOtherLocked how (s p)))))"
proof (cases "(if how AND ZX_SOCKET_SHUTDOWN_READ \<noteq> 0 then ZX_SOCKET_PEER_WRITE_DISABLED else 0) OR
              (if how AND ZX_SOCKET_SHUTDOWN_WRITE \<noteq> 0 then ZX_SOCKET_WRITE_DISABLED else 0) =
              signals_m (s x) AND (ZX_SOCKET_PEER_WRITE_DISABLED OR ZX_SOCKET_WRITE_DISABLED)")
  case True
  then show ?thesis unfolding Socket_Shutdown_def Let_def if_P [OF True] by simp
next
  case False
  define f where "f = (\<lambda>d. snd (ShutdownOtherLocked how d))"
  have f: "ShutdownOtherLocked how d = (ZX_OK, f d)" for d by (simp add: f_def ShutdownOtherLocked_def Let_def)
  have "peer_m (shutdown_self how (s x)) = peer_m (s x)" by (simp add: shutdown_self_def Let_def)
  then have "Socket_Shutdown x how s = (ZX_OK, (case peer_m (s x) of None \<Rightarrow> s(x := shutdown_self how (s x))
      | Some p \<Rightarrow> s(x := shutdown_self how (s x), p := snd (ShutdownOtherLocked how (s p)))))"
    unfolding Socket_Shutdown_def Let_def if_not_P [OF False] shutdown_self_def [unfolded Let_def, symmetric]
    using assms by (simp add: f split: option.split)
  then show ?thesis by blast
qed

lemma Socket_Shutdown_quiet:
  assumes "sock_pair a b s" "x = a \<or> x = b" "z = a \<or> z = b"
  shows "sock_quiet (s z) (snd (Socket_Shutdown x how s) z)"
proof -
  have "peer_m (s x) \<noteq> Some x" using assms(1,2) by (auto simp: sock_pair_def sock_half_def)
  from Socket_Shutdown_cases [where s = s and x = x, OF this, of how] show ?thesis
    by (auto simp: sock_quiet_shutdown split: option.splits)
qed

lemma sock_pair_user_signal:
  assumes "sock_pair a b s" "x = a \<or> x = b" "z = a \<or> z = b"
  shows "sock_quiet (s z) (snd (peered_user_signal_self x c m s) z)" "sock_quiet (s z) (snd (user_signal_peer x c m s) z)"
proof -
  have ext: "extra_signals_m (s x) = 0" using assms(1,2) by (auto simp: sock_pair_def sock_half_def)
  have q: "sock_quiet d (UpdateStateLocked c m d)" if "m AND NOT ZX_USER_SIGNAL_ALL = 0" "c AND NOT ZX_USER_SIGNAL_ALL = 0" for d
    using user_signal_mask_bit [OF that(1)] user_signal_mask_bit [OF that(2)] by (simp add: sock_quiet_update_same)
  show "sock_quiet (s z) (snd (peered_user_signal_self x c m s) z)" "sock_quiet (s z) (snd (user_signal_peer x c m s) z)"
    using q ext by (simp_all add: peered_user_signal_self_def user_signal_peer_def Let_def split: option.split)
qed

lemma Socket_close_effect:
  assumes "sock_pair a b s" "x = a \<or> x = b"
  shows "sock_pair a b (SocketDispatcher_on_zero_handles x s)"
    "sock_data_m (SocketDispatcher_on_zero_handles x s z) = sock_data_m (s z)"
    "sock_signals a b s \<Longrightarrow> sock_signals a b (SocketDispatcher_on_zero_handles x s)"
    "sock_signals b a s \<Longrightarrow> sock_signals b a (SocketDispatcher_on_zero_handles x s)"
    "bit (signals_m (SocketDispatcher_on_zero_handles x s z)) 5 = bit (signals_m (s z)) 5"
proof -
  let ?s = "SocketDispatcher_on_zero_handles x s"
  have f: "sock_data_m (?s z) = sock_data_m (s z)" "flags_m (?s z) = flags_m (s z)" "extra_signals_m (?s z) = extra_signals_m (s z)"
    "read_threshold_m (?s z) = read_threshold_m (s z)" "write_threshold_m (?s z) = write_threshold_m (s z)"
    "bit (signals_m (?s z)) 0 = bit (signals_m (s z)) 0" "bit (signals_m (?s z)) 10 = bit (signals_m (s z)) 10"
    "bit (signals_m (?s z)) 5 = bit (signals_m (s z)) 5" for z
    by (simp_all add: peered_on_zero_handles_def Let_def SocketDispatcher_on_zero_handles_locked_def
        SocketDispatcher_OnPeerZeroHandlesLocked_def bit_simps bit_signal_masks split: option.split)
  have gone: "peer_m (?s a) = None" "peer_m (?s b) = None"
    using assms by (auto simp: socket_hooks.on_zero_handles_peer sock_pair_def sock_half_def)
  then show "sock_pair a b ?s" using assms(1) by (simp add: sock_pair_def sock_half_def f)
  show "sock_data_m (?s z) = sock_data_m (s z)" "bit (signals_m (?s z)) 5 = bit (signals_m (s z)) 5" by (rule f)+
  show "sock_signals a b s \<Longrightarrow> sock_signals a b ?s" "sock_signals b a s \<Longrightarrow> sock_signals b a ?s"
    using gone by (simp_all add: sock_signals_def Let_def f)
qed

lemma SetReadThreshold_effect:
  assumes "sock_pair a b s" "x = a \<or> x = b" and s'_def: "s' = s(x := snd (SetReadThreshold v (s x)))"
  shows "sock_pair a b s'" "sock_data_m (s' z) = sock_data_m (s z)"
    "sock_signals a b s \<Longrightarrow> sock_signals a b s'" "sock_signals b a s \<Longrightarrow> sock_signals b a s'"
    "bit (signals_m (s' z)) 5 = bit (signals_m (s z)) 5"
proof -
  have f: "sock_data_m (s' z) = sock_data_m (s z)" "flags_m (s' z) = flags_m (s z)" "extra_signals_m (s' z) = extra_signals_m (s z)"
    "write_threshold_m (s' z) = write_threshold_m (s z)" "peer_m (s' z) = peer_m (s z)" for z
    by (simp_all add: s'_def SetReadThreshold_def Let_def)
  show "sock_pair a b s'"
    by (rule sock_pair_same [OF assms(1)]) (use assms(1) in \<open>auto simp: f sock_pair_def sock_half_def\<close>)
  show "sock_data_m (s' z) = sock_data_m (s z)" by (rule f)
  have bits: "bit (signals_m (s' z)) i = bit (signals_m (s z)) i" if "i \<noteq> 10" "i < 24" for z i
    using that by (simp add: s'_def SetReadThreshold_def Let_def bit_simps bit_socket_masks)
  have "bit (signals_m (s' z)) 10 \<longleftrightarrow> 0 < read_threshold_m (s' z) \<and> read_threshold_m (s' z) \<le> size_m (sock_data_m (s z))"
    if "bit (signals_m (s z)) 10 \<longleftrightarrow> 0 < read_threshold_m (s z) \<and> read_threshold_m (s z) \<le> size_m (sock_data_m (s z))" for z
    using that by (cases "z = x") (auto simp: s'_def SetReadThreshold_def Let_def bit_simps bit_socket_masks chain_tests)
  then show "sock_signals a b s \<Longrightarrow> sock_signals a b s'" "sock_signals b a s \<Longrightarrow> sock_signals b a s'"
    by (simp_all add: sock_signals_def Let_def f bits)
  show "bit (signals_m (s' z)) 5 = bit (signals_m (s z)) 5" by (rule bits) simp_all
qed

lemma SetWriteThreshold_effect:
  assumes "sock_pair a b s" "x = a \<or> x = b" and s'_def: "s' = snd (SetWriteThreshold x v s)"
  shows "sock_pair a b s'" "sock_data_m (s' z) = sock_data_m (s z)"
    "sock_signals a b s \<Longrightarrow> sock_signals a b s'" "sock_signals b a s \<Longrightarrow> sock_signals b a s'"
    "bit (signals_m (s' z)) 5 = bit (signals_m (s z)) 5"
proof -
  have f: "sock_data_m (s' z) = sock_data_m (s z)" "flags_m (s' z) = flags_m (s z)" "extra_signals_m (s' z) = extra_signals_m (s z)"
    "read_threshold_m (s' z) = read_threshold_m (s z)" "peer_m (s' z) = peer_m (s z)" for z
    by (simp_all add: s'_def SetWriteThreshold_def Let_def split: option.split)
  show "sock_pair a b s'"
    by (rule sock_pair_same [OF assms(1)]) (use assms(1) in \<open>auto simp: f sock_pair_def sock_half_def\<close>)
  show "sock_data_m (s' z) = sock_data_m (s z)" by (rule f)
  have bits: "bit (signals_m (s' z)) i = bit (signals_m (s z)) i" if "i \<noteq> 11" "i < 24" for z i
    using that by (simp add: s'_def SetWriteThreshold_def Let_def bit_simps bit_socket_masks split: option.split)
  have "bit (signals_m (s' z)) 11 \<longleftrightarrow> 0 < write_threshold_m (s' z) \<and> write_threshold_m (s' z) \<le> kSizeMax - size_m (sock_data_m (s y))"
    if "bit (signals_m (s z)) 11 \<longleftrightarrow> 0 < write_threshold_m (s z) \<and> write_threshold_m (s z) \<le> kSizeMax - size_m (sock_data_m (s y))"
      "peer_m (s z) = Some y" for z y
    using that by (cases "z = x") (auto simp: s'_def SetWriteThreshold_def Let_def bit_simps bit_socket_masks chain_tests split: option.split)
  moreover have "peer_m (s a) \<noteq> None \<Longrightarrow> peer_m (s a) = Some b" "peer_m (s b) \<noteq> None \<Longrightarrow> peer_m (s b) = Some a"
    using assms(1) by (auto simp: sock_pair_def sock_half_def)
  ultimately show "sock_signals a b s \<Longrightarrow> sock_signals a b s'" "sock_signals b a s \<Longrightarrow> sock_signals b a s'"
    unfolding sock_signals_def Let_def f by (simp_all add: bits)
  show "bit (signals_m (s' z)) 5 = bit (signals_m (s z)) 5" by (rule bits) simp_all
qed

subsection \<open>Runs of a pair\<close>

text \<open>What can happen to a pair. \<open>True\<close> is the side of \<open>a\<close>.\<close>

datatype sock_op =
    SWrite bool user_in nat nat
  | SRead bool ReadType user_out nat
  | SShutdown bool "32 word"
  | SReadThreshold bool nat
  | SWriteThreshold bool nat
  | SSignal bool zx_signals zx_signals
  | SSignalPeer bool zx_signals zx_signals
  | SClose bool

fun sock_step :: "zx_koid \<Rightarrow> zx_koid \<Rightarrow> sock_op \<Rightarrow> sockets \<Rightarrow> sockets" where
  "sock_step a b (SWrite side src len avail) s = snd (snd (Socket_Write (if side then a else b) src len avail s))"
| "sock_step a b (SRead side type dst len) s = snd (snd (snd (Socket_Read (if side then a else b) type dst len s)))"
| "sock_step a b (SShutdown side how) s = snd (Socket_Shutdown (if side then a else b) how s)"
| "sock_step a b (SReadThreshold side v) s =
     (let x = if side then a else b in s(x := snd (SetReadThreshold v (s x))))"
| "sock_step a b (SWriteThreshold side v) s = snd (SetWriteThreshold (if side then a else b) v s)"
| "sock_step a b (SSignal side c m) s = snd (peered_user_signal_self (if side then a else b) c m s)"
| "sock_step a b (SSignalPeer side c m) s = snd (user_signal_peer (if side then a else b) c m s)"
| "sock_step a b (SClose side) s = SocketDispatcher_on_zero_handles (if side then a else b) s"

text \<open>The bytes \<open>a\<close> writes: what a successful call reports of the user's buffer, and of a failed call
  as many bytes of it as have reached the chain. The bytes \<open>b\<close> reads: those copied to the user by a
  consuming read.\<close>

fun sock_written :: "zx_koid \<Rightarrow> zx_koid \<Rightarrow> sock_op \<Rightarrow> sockets \<Rightarrow> byte list" where
  "sock_written a b (SWrite True src len avail) s =
     (case Socket_Write a src len avail s of
        (ZX_OK, n, _) \<Rightarrow> the (copy_array_from_user src 0 n)
      | (_, _, s') \<Rightarrow> the (copy_array_from_user src 0 (size_m (sock_data_m (s' b)) - size_m (sock_data_m (s b)))))"
| "sock_written a b _ s = []"

fun sock_read :: "zx_koid \<Rightarrow> zx_koid \<Rightarrow> sock_op \<Rightarrow> sockets \<Rightarrow> byte list" where
  "sock_read a b (SRead False kConsume dst len) s = fst (snd (Socket_Read b kConsume dst len s))"
| "sock_read a b _ s = []"

text \<open>No copy from or to the user faults.\<close>

fun sock_safe :: "sock_op \<Rightarrow> bool" where
  "sock_safe (SWrite side src len avail) \<longleftrightarrow> copy_array_from_user src 0 len \<noteq> None"
| "sock_safe (SRead side type dst len) \<longleftrightarrow> copy_array_to_user dst 0 len = ZX_OK"
| "sock_safe _ \<longleftrightarrow> True"

abbreviation sock_tracked :: "zx_koid \<Rightarrow> zx_koid \<Rightarrow> sockets \<Rightarrow> bool" where
  "sock_tracked a b s \<equiv> sock_signals a b s \<and> sock_signals b a s"

lemma sock_written_eq:
  assumes "sock_pair a b s" "Socket_Write a src len avail s = (st, n, s')"
  shows "sock_bytes (s' b) = sock_bytes (s b) @ sock_written a b (SWrite True src len avail) s"
proof -
  from Socket_Write_effect [OF assms] obtain k bs where k: "copy_array_from_user src 0 k = Some bs"
    "sock_bytes (s' b) = sock_bytes (s b) @ bs" "st = ZX_OK \<longrightarrow> n = k" "sock_pair a b s'" by blast
  have "size_m (sock_data_m (t b)) = length (sock_bytes (t b))" if "sock_pair a b t" for t
    using that by (simp add: sock_pair_def sock_half_def chain_inv_def sock_bytes_def)
  then have "size_m (sock_data_m (s' b)) - size_m (sock_data_m (s b)) = k"
    using k(2,4) assms(1) length_copy_array_from_user [OF k(1)] by simp
  then show ?thesis using k assms(2) by (auto split: zx_status.split)
qed

lemma sock_step_pair:
  assumes "sock_pair a b s"
  shows "sock_pair a b (sock_step a b op s) \<and>
    sock_read a b op s @ sock_bytes (sock_step a b op s b) = sock_bytes (s b) @ sock_written a b op s \<and>
    (sock_safe op \<longrightarrow> sock_tracked a b s \<longrightarrow> sock_tracked a b (sock_step a b op s)) \<and>
    (bit (signals_m (s a)) 5 \<longrightarrow> bit (signals_m (sock_step a b op s a)) 5)"
proof -
  note sym = assms [unfolded sock_pair_sym [of a]]
  have quiet: ?thesis if "\<And>z. z = a \<or> z = b \<Longrightarrow> sock_quiet (s z) (sock_step a b op s z)" "sock_read a b op s = []" "sock_written a b op s = []"
    using sock_quiet_effect [OF assms, of "sock_step a b op s"] that sock_quietD(11) [OF that(1) [of a]]
    by (auto simp: sock_bytes_def)
  show ?thesis
  proof (cases op)
    case (SWrite side src len avail)
    show ?thesis
    proof (cases side)
      case True
      obtain st n s' where w: "Socket_Write a src len avail s = (st, n, s')" by (rule prod_cases3)
      from Socket_Write_effect [OF assms w] sock_written_eq [OF assms w] show ?thesis
        using w by (auto simp: SWrite True simp del: sock_written.simps)
    next
      case False
      obtain st n s' where w: "Socket_Write b src len avail s = (st, n, s')" by (rule prod_cases3)
      from Socket_Write_effect [OF sym w] show ?thesis
        using w by (auto simp: SWrite False sock_pair_sym [of a] sock_bytes_def)
    qed
  next
    case (SRead side type dst len)
    show ?thesis
    proof (cases side)
      case True
      obtain st out n s' where r: "Socket_Read a type dst len s = (st, out, n, s')" by (rule prod_cases4)
      from Socket_Read_effect [OF sym r] show ?thesis
        using r by (auto simp: SRead True sock_pair_sym [of a] sock_bytes_def)
    next
      case False
      obtain st out n s' where r: "Socket_Read b type dst len s = (st, out, n, s')" by (rule prod_cases4)
      from Socket_Read_effect [OF assms r] show ?thesis
        using r by (cases type) (auto simp: SRead False)
    qed
  next
    case (SShutdown side how)
    show ?thesis
      using Socket_Shutdown_quiet [OF assms, of "if side then a else b" _ how] by (intro quiet) (auto simp: SShutdown)
  next
    case (SReadThreshold side v)
    show ?thesis
      using SetReadThreshold_effect [OF assms, of "if side then a else b", OF _ refl, of v]
      by (simp add: SReadThreshold sock_bytes_def Let_def)
  next
    case (SWriteThreshold side v)
    show ?thesis
      using SetWriteThreshold_effect [OF assms, of "if side then a else b", OF _ refl, of v]
      by (simp add: SWriteThreshold sock_bytes_def)
  next
    case (SSignal side c m)
    show ?thesis
      using sock_pair_user_signal(1) [OF assms, of "if side then a else b" _ c m] by (intro quiet) (auto simp: SSignal)
  next
    case (SSignalPeer side c m)
    show ?thesis
      using sock_pair_user_signal(2) [OF assms, of "if side then a else b" _ c m] by (intro quiet) (auto simp: SSignalPeer)
  next
    case (SClose side)
    show ?thesis
      using Socket_close_effect [OF assms, of "if side then a else b"] by (simp add: SClose sock_bytes_def)
  qed
qed

interpretation sock_q: ordered_queue "sock_pair a b" "\<lambda>s. sock_bytes (s b)" "sock_step a b" "sock_written a b" "sock_read a b"
  for a b :: zx_koid
  by unfold_locales (use sock_step_pair in blast)+

lemma sock_tracked_run:
  "sock_pair a b s \<Longrightarrow> sock_tracked a b s \<Longrightarrow> list_all sock_safe ops \<Longrightarrow> sock_tracked a b (queue_run (sock_step a b) ops s)"
proof (induction ops arbitrary: s)
  case (Cons op ops)
  then show ?case using sock_step_pair [OF Cons.prems(1), of op] by simp
qed simp

lemma SocketDispatcher_Create_ok:
  assumes "SocketDispatcher_Create 0 h a0 a1 g s = (ZX_OK, r, g', s')"
  shows "r = Some (g, g + 1, ZX_DEFAULT_SOCKET_RIGHTS)" "sock_pair g (g + 1) s'" "sock_tracked g (g + 1) s'"
    "sock_bytes (s' g) = []" "sock_bytes (s' (g + 1)) = []" "peer_m (s' g) = Some (g + 1)"
proof -
  have s': "s' = s(g := SocketDispatcher_Init (g + 1) (SocketDispatcher_new g ZX_SOCKET_WRITABLE 0),
      g + 1 := SocketDispatcher_Init g (SocketDispatcher_new (g + 1) ZX_SOCKET_WRITABLE 0))"
    "r = Some (g, g + 1, ZX_DEFAULT_SOCKET_RIGHTS)"
    using assms by (auto simp: SocketDispatcher_Create_def GenerateKernelObjectId_def Let_def split: if_splits)
  have k: "0 < kSizeMax" by (simp add: kSizeMax_def kPayloadSize_value)
  have new: "size_m MBufChain_new = 0" "chain_stream MBufChain_new = []" by (simp_all add: MBufChain_new_def chain_stream_def)
  show "r = Some (g, g + 1, ZX_DEFAULT_SOCKET_RIGHTS)" by (rule s')
  show "sock_pair g (g + 1) s'"
    by (simp add: s' sock_pair_def sock_half_def SocketDispatcher_Init_def SocketDispatcher_new_def chain_inv_new)
  show "sock_tracked g (g + 1) s'"
    using k by (simp add: s' sock_signals_def SocketDispatcher_Init_def SocketDispatcher_new_def new bit_signal_masks)
  show "sock_bytes (s' g) = []" "sock_bytes (s' (g + 1)) = []" "peer_m (s' g) = Some (g + 1)"
    by (simp_all add: s' sock_bytes_def SocketDispatcher_Init_def SocketDispatcher_new_def new)
qed

subsection \<open>Properties\<close>

text \<open>C5: A stream socket delivers the bytes written to it once, in order and unchanged. From creation
  on, whatever writes, reads, peeks, shutdowns, threshold changes, signals and closes run on the
  two sides, the bytes one side has read followed by those still queued are the bytes the other
  side has written. A write that faults half-way has still written the bytes before the fault, and a
  read that faults has still taken the bytes it copied.\<close>
theorem socket_stream_in_order:
  assumes "SocketDispatcher_Create 0 h a0 a1 g s = (ZX_OK, Some (a, b, rights), g', s')"
  shows "sock_pair a b (queue_run (sock_step a b) ops s') \<and>
    queue_log (sock_step a b) (sock_read a b) ops s' @ sock_bytes (queue_run (sock_step a b) ops s' b) =
    queue_log (sock_step a b) (sock_written a b) ops s'"
proof -
  note c = SocketDispatcher_Create_ok [OF assms]
  have "a = g" "b = g + 1" using c(1) by simp_all
  then show ?thesis
    using c(2,5) sock_q.inv_run [of g "g + 1" s' ops] sock_q.conserve_run [of g "g + 1" s' ops] by simp
qed

definition example_sockets :: sockets where
  "example_sockets = snd (snd (snd (SocketDispatcher_Create 0 True True True 1024 (\<lambda>k. SocketDispatcher_new k 0 0))))"

lemma example_sockets_Create:
  "\<exists>g. SocketDispatcher_Create 0 True True True 1024 (\<lambda>k. SocketDispatcher_new k 0 0) =
     (ZX_OK, Some (1024, 1025, ZX_DEFAULT_SOCKET_RIGHTS), g, example_sockets)"
  by (simp add: example_sockets_def SocketDispatcher_Create_def GenerateKernelObjectId_def Let_def)

theorem socket_stream_in_order_witness:
  "let ops = [SWrite True (user_bytes [7, 8]) 2 1, SRead False kConsume (\<lambda>_. True) 1] in
   queue_log (sock_step 1024 1025) (sock_read 1024 1025) ops example_sockets @
     sock_bytes (queue_run (sock_step 1024 1025) ops example_sockets 1025) =
   queue_log (sock_step 1024 1025) (sock_written 1024 1025) ops example_sockets"
proof -
  obtain g where "SocketDispatcher_Create 0 True True True 1024 (\<lambda>k. SocketDispatcher_new k 0 0) =
     (ZX_OK, Some (1024, 1025, ZX_DEFAULT_SOCKET_RIGHTS), g, example_sockets)" using example_sockets_Create by blast
  from socket_stream_in_order [OF this, of "[SWrite True (user_bytes [7, 8]) 2 1, SRead False kConsume (\<lambda>_. True) 1]"]
  show ?thesis unfolding Let_def by simp
qed

text \<open>C11: As long as no copy from or to the user faults, the signals of a stream socket tell the state of
  its buffers, through any operations on both sides: \<open>READABLE\<close> is set exactly when bytes are waiting
  and \<open>READ_THRESHOLD\<close> exactly when as many are waiting as a nonzero threshold asks for; while the peer is open,
  \<open>WRITE_THRESHOLD\<close> is set exactly when the peer's buffer has the room a nonzero threshold asks for,
  \<open>WRITABLE\<close> only when that buffer has room, and always when it has room and writing is not disabled.\<close>
theorem socket_signals_track_buffers:
  assumes "SocketDispatcher_Create 0 h a0 a1 g s = (ZX_OK, Some (a, b, rights), g', s')" "list_all sock_safe ops"
  defines "e \<equiv> queue_run (sock_step a b) ops s'"
  shows "(bit (signals_m (e b)) 0 \<longleftrightarrow> sock_bytes (e b) \<noteq> []) \<and>
    (bit (signals_m (e b)) 10 \<longleftrightarrow> 0 < read_threshold_m (e b) \<and> read_threshold_m (e b) \<le> length (sock_bytes (e b))) \<and>
    (peer_m (e a) \<noteq> None \<longrightarrow>
      (bit (signals_m (e a)) 11 \<longleftrightarrow> 0 < write_threshold_m (e a) \<and> write_threshold_m (e a) \<le> kSizeMax - length (sock_bytes (e b))) \<and>
      (bit (signals_m (e a)) 1 \<longrightarrow> length (sock_bytes (e b)) < kSizeMax) \<and>
      (length (sock_bytes (e b)) < kSizeMax \<and> \<not> bit (signals_m (e a)) 5 \<longrightarrow> bit (signals_m (e a)) 1))"
proof -
  note c = SocketDispatcher_Create_ok [OF assms(1)]
  have ab: "a = g" "b = g + 1" using c(1) by simp_all
  have pair: "sock_pair a b e" unfolding e_def ab using c(2) by (rule sock_q.inv_run)
  have tr: "sock_tracked a b e" unfolding e_def ab by (rule sock_tracked_run [OF c(2,3) assms(2)])
  have "size_m (sock_data_m (e b)) = length (sock_bytes (e b))"
    using pair by (simp add: sock_pair_def sock_half_def chain_inv_def sock_bytes_def)
  then show ?thesis using tr unfolding sock_signals_def Let_def by simp
qed

theorem socket_signals_track_buffers_witness:
  "let e = queue_run (sock_step 1024 1025) [SWrite True (user_bytes [7, 8]) 2 1] example_sockets in
   bit (signals_m (e 1025)) 0 \<longleftrightarrow> sock_bytes (e 1025) \<noteq> []"
proof -
  obtain g where "SocketDispatcher_Create 0 True True True 1024 (\<lambda>k. SocketDispatcher_new k 0 0) =
     (ZX_OK, Some (1024, 1025, ZX_DEFAULT_SOCKET_RIGHTS), g, example_sockets)" using example_sockets_Create by blast
  from socket_signals_track_buffers [OF this, of "[SWrite True (user_bytes [7, 8]) 2 1]"]
  show ?thesis unfolding Let_def by simp
qed

lemma faulting_stream:
  assumes "copy_array_from_user src 0 kPayloadSize = Some bs" "src kPayloadSize = None" "kPayloadSize < len" "len \<le> avail"
  shows "\<exists>c'. WriteStream src len avail MBufChain_new = (ZX_ERR_INVALID_ARGS, 0, c') \<and> chain_inv c' \<and> chain_stream c' = bs"
proof -
  have k: "0 < kPayloadSize" "kPayloadSize < kSizeMax" by (simp_all add: kPayloadSize_value kSizeMax_def)
  have lbs: "length bs = kPayloadSize" using assms(1) by (rule length_copy_array_from_user)
  define c0 where "c0 = MBufChain_new\<lparr>tail_bufs_m := [MBuf_new], head_buf_m := Some 0\<rparr>"
  have head: "ensure_head avail MBufChain_new = Some (avail - 1, c0)"
    using assms(3,4) by (simp add: ensure_head_def AllocMBuf_def MBufChain_new_def c0_def)
  have c0: "chain_shape c0" "tail_bufs_m c0 \<noteq> []" "head_MBuf c0 = MBuf_new" "chain_stream c0 = []" "size_m c0 = 0"
    by (simp_all add: c0_def chain_shape_def head_MBuf_def chain_stream_def MBufChain_new_def mbuf_bytes_def)
  have rem: "MBuf_rem MBuf_new = kPayloadSize" by (simp add: MBuf_rem_def)
  let ?c1 = "c0\<lparr>tail_bufs_m := (tail_bufs_m c0)[the (head_buf_m c0) := append_buf bs (head_MBuf c0)], size_m := kPayloadSize\<rparr>"
  note app = append_last [OF c0(1,2), of bs ?c1 kPayloadSize]
  have c1: "chain_shape ?c1" "tail_bufs_m ?c1 \<noteq> []" "chain_stream ?c1 = bs" using app c0 lbs rem by simp_all
  have grow: "grow_head (avail - 1) c0 = Some (avail - 1, c0)" using c0(3) rem k(1) by (simp add: grow_head_def)
  have first: "write_loop src len 0 (avail - 1) c0 = write_loop src len kPayloadSize (avail - 1) ?c1"
    using write_loop_step [OF _ grow refl refl, of 0 len src] assms(1,3) k c0(3,5) rem lbs
    by (simp add: append_buf_def)
  from write_loop_stream [OF c1(1,2), of src len kPayloadSize "avail - 1"] c1(3) lbs k(2) obtain st m ys c2 where w:
    "write_loop src len kPayloadSize (avail - 1) ?c1 = (st, kPayloadSize + m, c2)" "copy_array_from_user src kPayloadSize m = Some ys"
    "chain_stream c2 = bs @ ys" "chain_inv c2"
    "st = ZX_OK \<or> st = ZX_ERR_INVALID_ARGS"
    "st = ZX_OK \<longrightarrow> len - kPayloadSize \<le> avail - 1 \<longrightarrow> m = min (len - kPayloadSize) (kSizeMax - kPayloadSize)"
    by auto
  have "m = 0" using w(2) assms(2) by (cases m) (auto simp: copy_array_from_user_Some_iff)
  moreover from this have "st \<noteq> ZX_OK" using w(6) assms(3,4) k by auto
  ultimately have "WriteStream src len avail MBufChain_new = (ZX_ERR_INVALID_ARGS, 0, c2)" "ys = []"
    using head first w(1,2,5) by (auto simp: WriteStream_def)
  then show ?thesis using w(3,4) by simp
qed

text \<open>C37: A write whose buffer faults after the first chunk leaves that chunk in the peer's buffer but
  returns before it sets \<open>READABLE\<close>; and because the buffer is then not empty, no later write sets it either.
  The bytes of two writes wait in the buffer, the second write has succeeded, and a reader that waits
  for \<open>READABLE\<close> is not woken.\<close>
theorem faulting_write_loses_readable:
  assumes "SocketDispatcher_Create 0 h a0 a1 g s = (ZX_OK, Some (a, b, rights), g', s1)"
    and "copy_array_from_user src 0 kPayloadSize = Some bs" "src kPayloadSize = None" "kPayloadSize < len" "len < 2 ^ 32" "len \<le> avail"
    and "copy_array_from_user src2 0 len2 = Some bs2" "0 < len2" "kPayloadSize + len2 \<le> kSizeMax" "len2 < avail"
  shows "\<exists>s2 s3. Socket_Write a src len avail s1 = (ZX_ERR_INVALID_ARGS, 0, s2) \<and>
    Socket_Write a src2 len2 avail s2 = (ZX_OK, len2, s3) \<and>
    sock_bytes (s3 b) = bs @ bs2 \<and> \<not> bit (signals_m (s3 b)) 0"
proof -
  note c = SocketDispatcher_Create_ok [OF assms(1)]
  have k: "0 < kPayloadSize" "kPayloadSize < kSizeMax" "kSizeMax < 2 ^ 32" by (simp_all add: kPayloadSize_value kSizeMax_def)
  have ab: "a = g" "b = g + 1" "a \<noteq> b" using c(1) by simp_all
  have s1: "sock_data_m (s1 b) = MBufChain_new" "flags_m (s1 b) AND ZX_SOCKET_DATAGRAM = 0" "read_threshold_m (s1 b) = 0"
    "peer_m (s1 a) = Some b" "peer_m (s1 b) = Some a" "\<not> bit (signals_m (s1 a)) 5" "\<not> bit (signals_m (s1 b)) 0"
    using assms(1) ab
    by (auto simp: SocketDispatcher_Create_def GenerateKernelObjectId_def Let_def SocketDispatcher_Init_def
        SocketDispatcher_new_def bit_signal_masks split: if_splits)
  from faulting_stream [OF assms(2-4,6)] obtain c1 where c1: "WriteStream src len avail (sock_data_m (s1 b)) = (ZX_ERR_INVALID_ARGS, 0, c1)"
    "chain_inv c1" "chain_stream c1 = bs" by (auto simp: s1(1))
  define s2 where "s2 = s1(b := (s1 b)\<lparr>sock_data_m := c1\<rparr>)"
  have "size_m (sock_data_m (s1 b)) < kSizeMax" using k by (simp add: s1(1) MBufChain_new_def)
  from WriteSelfLocked_stream(1) [where s = s1 and b = b, OF this c1(1) s1(2)]
  have w1: "Socket_Write a src len avail s1 = (ZX_ERR_INVALID_ARGS, 0, s2)"
    using s1 assms(4,5) by (simp add: Socket_Write_def s2_def and_bit_5)
  have lbs: "length bs = kPayloadSize" using assms(2) by (rule length_copy_array_from_user)
  have sz: "size_m (sock_data_m (s2 b)) = kPayloadSize" using c1(2,3) lbs by (simp add: s2_def chain_inv_def)
  obtain st n c2 where ws: "WriteStream src2 len2 avail (sock_data_m (s2 b)) = (st, n, c2)" by (rule prod_cases3)
  have "chain_inv (sock_data_m (s2 b))" "sock_data_m (s2 b) = c1" using c1(2) by (simp_all add: s2_def)
  from WriteStream_stream [OF this(1) ws] this(2) assms(7,10) obtain m ys where ys:
    "copy_array_from_user src2 0 m = Some ys" "chain_stream c2 = bs @ ys" "st = ZX_OK \<longrightarrow> n = m"
    "st = ZX_ERR_SHOULD_WAIT \<longrightarrow> m = 0" "st = ZX_OK \<or> st = ZX_ERR_SHOULD_WAIT" "st \<noteq> ZX_ERR_INVALID_ARGS \<longrightarrow> m = min len2 (kSizeMax - size_m (sock_data_m (s2 b)))"
    using c1(3) by auto
  have m: "m = len2" using ys(5,6) sz assms(9) by auto
  then have st: "st = ZX_OK" "n = len2" "ys = bs2" using ys assms(7,8) by auto
  have f: "flags_m (s2 b) AND ZX_SOCKET_DATAGRAM = 0" "peer_m (s2 b) = Some a" "read_threshold_m (s2 b) = 0" "peer_m (s2 a) = Some b"
    "\<not> bit (signals_m (s2 a)) 5" "\<not> bit (signals_m (s2 b)) 0"
    using s1 ab(3) by (simp_all add: s2_def)
  have room: "size_m (sock_data_m (s2 b)) < kSizeMax" using sz k(2) by simp
  define s3 where "s3 = s2(b := UpdateStateLocked 0 (write_set_mask (sock_data_m (s2 b)) c2 (s2 b)) ((s2 b)\<lparr>sock_data_m := c2\<rparr>),
    a := UpdateStateLocked (write_clear_mask c2 (s2 a)) 0 (s2 a))"
  have "Socket_WriteSelfLocked b src2 len2 avail s2 = (ZX_OK, len2, s3)"
    using WriteSelfLocked_stream(2) [where s = s2 and b = b, OF room ws f(1) st(1) _ f(2) ab(3)] st(2) assms(8) by (simp add: s3_def)
  then have "Socket_Write a src2 len2 avail s2 = (ZX_OK, len2, s3)"
    using f(4,5) assms(8,9) k by (simp add: Socket_Write_def and_bit_5)
  moreover have "\<not> bit (signals_m (s3 b)) 0" "sock_bytes (s3 b) = bs @ bs2"
    using f(6) ab(3) sz k(1) ys(2) st(3) by (simp_all add: s3_def bit_simps bit_write_masks sock_bytes_def)
  ultimately show ?thesis using w1 by blast
qed

theorem faulting_write_loses_readable_witness:
  "\<exists>s2 s3. Socket_Write 1024 (user_bytes (replicate kPayloadSize 7)) 3000 4000 example_sockets = (ZX_ERR_INVALID_ARGS, 0, s2) \<and>
    Socket_Write 1024 (user_bytes [8]) 1 4000 s2 = (ZX_OK, 1, s3) \<and>
    sock_bytes (s3 1025) = replicate kPayloadSize 7 @ [8] \<and> \<not> bit (signals_m (s3 1025)) 0"
proof -
  obtain g where c: "SocketDispatcher_Create 0 True True True 1024 (\<lambda>k. SocketDispatcher_new k 0 0) =
     (ZX_OK, Some (1024, 1025, ZX_DEFAULT_SOCKET_RIGHTS), g, example_sockets)" using example_sockets_Create by blast
  have "copy_array_from_user (user_bytes (replicate kPayloadSize 7)) 0 kPayloadSize = Some (replicate kPayloadSize (7 :: byte))"
    "user_bytes (replicate kPayloadSize (7 :: byte)) kPayloadSize = None"
    "copy_array_from_user (user_bytes [8]) 0 1 = Some [8 :: byte]"
    by (simp_all add: user_bytes_def)
  from faulting_write_loses_readable [OF c this(1,2) _ _ _ this(3), of 3000 4000] show ?thesis
    by (simp add: kPayloadSize_value kSizeMax_def del: replicate_Suc)
qed

lemma Socket_Shutdown_disables:
  assumes "sock_pair a b s" "how AND ZX_SOCKET_SHUTDOWN_WRITE \<noteq> 0"
  shows "bit (signals_m (snd (Socket_Shutdown a how s) a)) 5"
proof -
  have p: "peer_m (s a) \<noteq> Some a" using assms(1) by (auto simp: sock_pair_def sock_half_def)
  have already: "bit (signals_m (s a)) 5" if "Socket_Shutdown a how s = (ZX_OK, s)"
  proof (cases "(if how AND ZX_SOCKET_SHUTDOWN_READ \<noteq> 0 then ZX_SOCKET_PEER_WRITE_DISABLED else 0) OR
              (if how AND ZX_SOCKET_SHUTDOWN_WRITE \<noteq> 0 then ZX_SOCKET_WRITE_DISABLED else 0) =
              signals_m (s a) AND (ZX_SOCKET_PEER_WRITE_DISABLED OR ZX_SOCKET_WRITE_DISABLED)")
    case True
    from arg_cong [OF this, of "\<lambda>w. bit w 5"] assms(2) show ?thesis by (simp add: bit_simps bit_socket_masks)
  next
    case False
    have "bit (signals_m (snd (Socket_Shutdown a how s) a)) 5"
      unfolding Socket_Shutdown_def Let_def if_not_P [OF False]
      using p assms(2) by (auto simp: bit_simps bit_socket_masks split: option.split prod.split)
    then show ?thesis using that by simp
  qed
  from Socket_Shutdown_cases [where s = s and x = a, OF p, of how] show ?thesis
    using already p assms(2) by (auto simp: shutdown_self_def Let_def bit_simps bit_socket_masks split: option.splits)
qed

lemma disabled_run:
  "sock_pair a b s \<Longrightarrow> bit (signals_m (s a)) 5 \<Longrightarrow>
   bit (signals_m (queue_run (sock_step a b) ops s a)) 5 \<and> queue_log (sock_step a b) (sock_written a b) ops s = []"
proof (induction ops arbitrary: s)
  case (Cons op ops)
  have "Socket_Write a src len avail s = (if peer_m (s a) = None then ZX_ERR_PEER_CLOSED else ZX_ERR_BAD_STATE, 0, s)" for src len avail
    using Cons.prems(2) by (auto simp: Socket_Write_def and_bit_5 split: option.split)
  then have "sock_written a b op s = []"
    by (cases "(a, b, op, s)" rule: sock_written.cases) auto
  then show ?case using Cons.IH [of "sock_step a b op s"] Cons.prems sock_step_pair [OF Cons.prems(1), of op] by simp
qed simp

text \<open>Shutting an endpoint down for writing is permanent. Whatever runs on the pair afterwards, no byte
  is written from that endpoint any more: every write fails, with \<open>BAD_STATE\<close> while the peer is open and with
  \<open>PEER_CLOSED\<close> when it is not, and changes nothing; what the peer still reads is what was queued before.\<close>
theorem shutdown_write_is_permanent:
  assumes "SocketDispatcher_Create 0 h a0 a1 g s = (ZX_OK, Some (a, b, rights), g', s')"
    and "how AND ZX_SOCKET_SHUTDOWN_WRITE \<noteq> 0"
    and "before = queue_run (sock_step a b) ops s'" "later = queue_run (sock_step a b) ops' (snd (Socket_Shutdown a how before))"
  shows "Socket_Write a src len avail later =
      (if peer_m (later a) = None then ZX_ERR_PEER_CLOSED else ZX_ERR_BAD_STATE, 0, later) \<and>
    (\<exists>taken. sock_bytes (before b) = taken @ sock_bytes (later b))"
proof -
  note c = SocketDispatcher_Create_ok [OF assms(1)]
  have ab: "a = g" "b = g + 1" using c(1) by simp_all
  have pair: "sock_pair a b before" unfolding assms(3) ab using c(2) by (rule sock_q.inv_run)
  have q: "sock_quiet (before z) (snd (Socket_Shutdown a how before) z)" if "z = a \<or> z = b" for z
    by (rule Socket_Shutdown_quiet [OF pair _ that]) simp
  have down: "sock_pair a b (snd (Socket_Shutdown a how before))"
    "sock_bytes (snd (Socket_Shutdown a how before) b) = sock_bytes (before b)"
    using sock_quiet_effect(1,3) [OF pair q [of a] q [of b]] by (simp_all add: sock_bytes_def)
  note run = disabled_run [OF down(1) Socket_Shutdown_disables [OF pair assms(2)], of ops']
  have "queue_log (sock_step a b) (sock_read a b) ops' (snd (Socket_Shutdown a how before)) @ sock_bytes (later b) = sock_bytes (before b)"
    using sock_q.conserve_run [OF down(1), of ops'] run down(2) by (simp add: assms(4))
  moreover have "Socket_Write a src len avail later =
      (if peer_m (later a) = None then ZX_ERR_PEER_CLOSED else ZX_ERR_BAD_STATE, 0, later)"
    using run by (auto simp: Socket_Write_def and_bit_5 assms(4) split: option.split)
  ultimately show ?thesis by metis
qed

theorem shutdown_write_is_permanent_witness:
  "let later = snd (Socket_Shutdown 1024 ZX_SOCKET_SHUTDOWN_WRITE example_sockets)
   in Socket_Write 1024 (user_bytes [1]) 1 1 later =
      (if peer_m (later 1024) = None then ZX_ERR_PEER_CLOSED else ZX_ERR_BAD_STATE, 0, later)"
proof -
  obtain g where c: "SocketDispatcher_Create 0 True True True 1024 (\<lambda>k. SocketDispatcher_new k 0 0) =
     (ZX_OK, Some (1024, 1025, ZX_DEFAULT_SOCKET_RIGHTS), g, example_sockets)" using example_sockets_Create by blast
  have "ZX_SOCKET_SHUTDOWN_WRITE AND ZX_SOCKET_SHUTDOWN_WRITE \<noteq> 0" by (simp add: zx_consts)
  from shutdown_write_is_permanent [where ops = "[]" and ops' = "[]" and src = "user_bytes [1]" and len = 1 and avail = 1,
      OF c this refl refl] show ?thesis unfolding Let_def by simp
qed

end
