(* ===== verification/Port.thy ===== *)
theory Port
  imports Dispatcher Ordered_Queue
begin

section \<open>PortDispatcher\<close>

text \<open>
  Model of \<open>zircon/kernel/object/port_dispatcher.cc\<close> and of the semaphore a port waits on,
  \<open>kernel/semaphore.cc\<close>.

  \<^item> Packets and observers are named by references into stores, and \<open>None\<close> in a store is memory that
    has been freed. A packet is embedded in its observer (\<open>Obs i\<close>), comes from the packet arena
    (\<open>Eph i\<close>), or belongs to another kernel object (\<open>Owned i\<close>). An operation whose code would
    touch a freed packet or observer has the result \<open>None\<close>.
  \<^item> The calls \<open>OnMatch\<close> and \<open>OnCancel\<close> of an observer take the lock of the port twice, once to
    queue the packet and once to decide the fate of the observer; \<open>on_zero_handles\<close> drops it
    while it frees a packet and between observers. Each such critical section is a definition of its
    own, so that \<open>Port_Lifetimes\<close> can interleave them.
  \<^item> \<open>Queue\<close> posts the semaphore right after it has dropped the lock. A thread that gets in
    between does not touch the semaphore while it holds the lock, so the post is part of the step.
  \<^item> The union in \<open>zx_port_packet_t\<close> is a datatype; the bytes of a user packet are uninterpreted.
\<close>

definition ZX_PKT_TYPE_USER :: "32 word" where [zx_consts]: "ZX_PKT_TYPE_USER = 0"
definition ZX_PKT_TYPE_SIGNAL_ONE :: "32 word" where [zx_consts]: "ZX_PKT_TYPE_SIGNAL_ONE = 1"
definition ZX_PKT_TYPE_INTERRUPT :: "32 word" where [zx_consts]: "ZX_PKT_TYPE_INTERRUPT = 7"
definition ZX_PORT_BIND_TO_INTERRUPT :: "32 word" where [zx_consts]: "ZX_PORT_BIND_TO_INTERRUPT = push_bit 0 1"
definition ZX_WAIT_ASYNC_TIMESTAMP :: "32 word" where [zx_consts]: "ZX_WAIT_ASYNC_TIMESTAMP = 1"
definition kMaxAllocatedPacketCountPerPort :: nat where "kMaxAllocatedPacketCountPerPort = 4096"

datatype port_payload =
    PkBytes "byte list"
  | PkSignal (sig_trigger: zx_signals) (sig_observed: zx_signals) (sig_count: "64 word") (sig_timestamp: int)
  | PkInterrupt (int_timestamp: int)

record zx_port_packet =
  pk_key :: "64 word"
  pk_type :: "32 word"
  pk_status :: int
  pk_payload :: port_payload

datatype port_allocator = ArenaPortAllocator | OtherPortAllocator nat

datatype packet_ref = Eph nat | Obs nat | Owned nat

record PortPacket =
  packet :: zx_port_packet
  pp_handle :: "handle_ref option"
  pp_observer :: "nat option"
  pp_allocator :: "port_allocator option"

record PortInterruptPacket =
  ip_timestamp :: int
  ip_key :: "64 word"

record PortObserver =
  po_options :: "32 word"
  po_dispatcher :: "zx_koid option"

definition PortPacket_new :: "handle_ref option \<Rightarrow> port_allocator option \<Rightarrow> PortPacket" where
  "PortPacket_new handle allocator =
     \<lparr>packet = \<lparr>pk_key = 0, pk_type = 0, pk_status = 0, pk_payload = PkBytes (replicate 32 0)\<rparr>,
      pp_handle = handle, pp_observer = None, pp_allocator = allocator\<rparr>"

definition is_ephemeral :: "PortPacket \<Rightarrow> bool" where
  "is_ephemeral p \<longleftrightarrow> pp_allocator p \<noteq> None"

definition IsDefaultAllocatedEphemeral :: "PortPacket \<Rightarrow> bool" where
  "IsDefaultAllocatedEphemeral p \<longleftrightarrow> pp_allocator p = Some ArenaPortAllocator \<and> is_ephemeral p"

subsection \<open>Semaphore\<close>

text \<open>\<open>sem_woken\<close> are the threads \<open>WakeOne\<close> has released that have not run yet.\<close>

record Semaphore =
  sem_count :: nat
  sem_waiters :: nat
  sem_woken :: nat

definition Semaphore_Post :: "Semaphore \<Rightarrow> Semaphore" where
  "Semaphore_Post s =
     (if sem_waiters s = 0 then s\<lparr>sem_count := sem_count s + 1\<rparr>
      else s\<lparr>sem_waiters := sem_waiters s - 1, sem_woken := sem_woken s + 1\<rparr>)"

text \<open>\<open>True\<close>: the wait is over with \<open>ZX_OK\<close>; \<open>False\<close>: the thread blocks.\<close>

definition Semaphore_Wait :: "Semaphore \<Rightarrow> bool \<times> Semaphore" where
  "Semaphore_Wait s =
     (if sem_count s > 0 then (True, s\<lparr>sem_count := sem_count s - 1\<rparr>)
      else (False, s\<lparr>sem_waiters := sem_waiters s + 1\<rparr>))"

subsection \<open>The port\<close>

record port = dispatcher +
  port_options_m :: "32 word"
  sema_m :: Semaphore
  zero_handles_m :: bool
  num_ephemeral_packets_m :: nat
  packets_m :: "packet_ref list"
  interrupt_packets_m :: "nat list"
  port_observers_m :: "nat list"

record port_state =
  port_m :: port
  pkts_m :: "packet_ref \<Rightarrow> PortPacket option"
  pobs_m :: "nat \<Rightarrow> PortObserver option"
  ipkts_m :: "nat \<Rightarrow> PortInterruptPacket"
  limit_exceptions_m :: nat

definition PortDispatcher_new :: "zx_koid \<Rightarrow> 32 word \<Rightarrow> port" where
  "PortDispatcher_new koid options =
     \<lparr>koid_m = koid, type_m = ZX_OBJ_TYPE_PORT, default_rights_m = ZX_DEFAULT_PORT_RIGHTS,
      extra_signals_m = 0, handle_count_m = 0, signals_m = 0, observers_m = [], calls_m = [],
      port_options_m = options, sema_m = \<lparr>sem_count = 0, sem_waiters = 0, sem_woken = 0\<rparr>, zero_handles_m = False,
      num_ephemeral_packets_m = 0, packets_m = [], interrupt_packets_m = [], port_observers_m = []\<rparr>"

definition PortDispatcher_Create ::
  "32 word \<Rightarrow> bool \<Rightarrow> zx_koid \<Rightarrow> zx_status \<times> (port \<times> zx_rights) option \<times> zx_koid" where
  "PortDispatcher_Create options ac global_koid =
     (if options \<noteq> 0 \<and> options \<noteq> ZX_PORT_BIND_TO_INTERRUPT then (ZX_ERR_INVALID_ARGS, None, global_koid)
      else if \<not> ac then (ZX_ERR_NO_MEMORY, None, global_koid)
      else let (koid, global_koid) = GenerateKernelObjectId global_koid
           in (ZX_OK, Some (PortDispatcher_new koid options, ZX_DEFAULT_PORT_RIGHTS), global_koid))"

text \<open>\<open>fresh\<close> is the slot of the arena, \<open>None\<close> when it is full.\<close>

definition ArenaPortAllocator_Alloc :: "nat option \<Rightarrow> port_state \<Rightarrow> packet_ref option \<times> port_state" where
  "ArenaPortAllocator_Alloc fresh st =
     (case fresh of
        None \<Rightarrow> (None, st)
      | Some i \<Rightarrow> (Some (Eph i), st\<lparr>pkts_m := (pkts_m st)(Eph i \<mapsto> PortPacket_new None (Some ArenaPortAllocator))\<rparr>))"

definition PortPacket_Free :: "packet_ref \<Rightarrow> port_state \<Rightarrow> port_state" where
  "PortPacket_Free p st = st\<lparr>pkts_m := (pkts_m st)(p := None)\<rparr>"

text \<open>Deleting an observer deletes the packet inside it.\<close>

definition delete_observer :: "nat \<Rightarrow> port_state \<Rightarrow> port_state" where
  "delete_observer i st = st\<lparr>pobs_m := (pobs_m st)(i := None), pkts_m := (pkts_m st)(Obs i := None)\<rparr>"

text \<open>\<open>packet->observer.reset()\<close>.\<close>

definition reset_observer :: "packet_ref \<Rightarrow> PortPacket \<Rightarrow> port_state \<Rightarrow> port_state" where
  "reset_observer p pkt st =
     (case pp_observer pkt of
        None \<Rightarrow> st
      | Some i \<Rightarrow> delete_observer i (st\<lparr>pkts_m := (pkts_m st)(p \<mapsto> pkt\<lparr>pp_observer := None\<rparr>)\<rparr>))"

text \<open>The packet's part in \<open>Queue\<close>: observed signals are added to a queued packet, and put into one
  that is not.\<close>

definition observe :: "bool \<Rightarrow> zx_signals \<Rightarrow> PortPacket \<Rightarrow> PortPacket" where
  "observe queued observed pkt =
     pkt\<lparr>packet := (packet pkt)\<lparr>pk_payload :=
       (case pk_payload (packet pkt) of
          PkSignal trigger obs count timestamp \<Rightarrow>
            if queued then PkSignal trigger (obs OR observed) count timestamp
            else PkSignal trigger observed 1 timestamp
        | payload \<Rightarrow> payload)\<rparr>\<rparr>"

definition Port_Queue :: "packet_ref \<Rightarrow> zx_signals \<Rightarrow> port_state \<Rightarrow> (zx_status \<times> port_state) option" where
  "Port_Queue p observed st =
     (let d = port_m st in
      if zero_handles_m d then Some (ZX_ERR_BAD_HANDLE, st)
      else case pkts_m st p of
        None \<Rightarrow> None
      | Some pkt \<Rightarrow>
          if IsDefaultAllocatedEphemeral pkt \<and> num_ephemeral_packets_m d > kMaxAllocatedPacketCountPerPort
          then Some (ZX_ERR_SHOULD_WAIT, st\<lparr>limit_exceptions_m := limit_exceptions_m st + 1\<rparr>)
          else if observed \<noteq> 0 \<and> p \<in> set (packets_m d)
          then Some (ZX_OK, st\<lparr>pkts_m := (pkts_m st)(p \<mapsto> observe True observed pkt)\<rparr>)
          else let pkt = (if observed \<noteq> 0 then observe False observed pkt else pkt);
                   d = d\<lparr>packets_m := packets_m d @ [p]\<rparr>;
                   d = (if IsDefaultAllocatedEphemeral pkt
                        then d\<lparr>num_ephemeral_packets_m := num_ephemeral_packets_m d + 1\<rparr> else d);
                   d = d\<lparr>sema_m := Semaphore_Post (sema_m d)\<rparr>
               in Some (ZX_OK, st\<lparr>port_m := d, pkts_m := (pkts_m st)(p \<mapsto> pkt)\<rparr>))"

definition QueueUser :: "zx_port_packet \<Rightarrow> nat option \<Rightarrow> port_state \<Rightarrow> (zx_status \<times> port_state) option" where
  "QueueUser pk fresh st =
     (case ArenaPortAllocator_Alloc fresh st of
        (None, st) \<Rightarrow> Some (ZX_ERR_NO_MEMORY, st)
      | (Some p, st) \<Rightarrow>
          let st = st\<lparr>pkts_m := (pkts_m st)(p \<mapsto> (the (pkts_m st p))\<lparr>packet := pk\<lparr>pk_type := ZX_PKT_TYPE_USER\<rparr>\<rparr>)\<rparr>
          in case Port_Queue p 0 st of
               None \<Rightarrow> None
             | Some (status, st) \<Rightarrow> Some (status, if status \<noteq> ZX_OK then PortPacket_Free p st else st))"

definition RemoveInterruptPacket :: "nat \<Rightarrow> port_state \<Rightarrow> bool \<times> port_state" where
  "RemoveInterruptPacket i st =
     (let d = port_m st in
      if i \<in> set (interrupt_packets_m d)
      then (True, st\<lparr>port_m := d\<lparr>interrupt_packets_m := remove1 i (interrupt_packets_m d)\<rparr>\<rparr>)
      else (False, st))"

definition QueueInterruptPacket :: "nat \<Rightarrow> int \<Rightarrow> port_state \<Rightarrow> bool \<times> port_state" where
  "QueueInterruptPacket i timestamp st =
     (let d = port_m st in
      if i \<in> set (interrupt_packets_m d) then (False, st)
      else (True, st\<lparr>ipkts_m := (ipkts_m st)(i := (ipkts_m st i)\<lparr>ip_timestamp := timestamp\<rparr>),
                     port_m := d\<lparr>interrupt_packets_m := interrupt_packets_m d @ [i],
                                 sema_m := Semaphore_Post (sema_m d)\<rparr>\<rparr>))"

text \<open>
  What \<open>Dequeue\<close> does once its wait is over: the packet, or no packet when it has to wait again. The
  code looks at the interrupt packets under the spinlock and, if there is none, at the other
  packets under the lock of the port. What comes between touches the interrupt packets only, which
  the second section does not look at, or the other packets only, which the first did not look at: the
  former can be moved behind and the latter before, so both sections are one step. An
  arena packet is freed after the lock is dropped, when nobody else knows it.
\<close>

definition Dequeue_take :: "port_state \<Rightarrow> (zx_port_packet option \<times> port_state) option" where
  "Dequeue_take st =
     (let d = port_m st in
      if port_options_m d = ZX_PORT_BIND_TO_INTERRUPT \<and> interrupt_packets_m d \<noteq> []
      then let i = hd (interrupt_packets_m d)
           in Some (Some \<lparr>pk_key = ip_key (ipkts_m st i), pk_type = ZX_PKT_TYPE_INTERRUPT, pk_status = zx_status_code ZX_OK,
                          pk_payload = PkInterrupt (ip_timestamp (ipkts_m st i))\<rparr>,
                    st\<lparr>port_m := d\<lparr>interrupt_packets_m := tl (interrupt_packets_m d)\<rparr>\<rparr>)
      else case packets_m d of
        [] \<Rightarrow> Some (None, st)
      | p # rest \<Rightarrow>
          (case pkts_m st p of
             None \<Rightarrow> None
           | Some pkt \<Rightarrow>
               let d = d\<lparr>packets_m := rest\<rparr>;
                   d = (if IsDefaultAllocatedEphemeral pkt
                        then d\<lparr>num_ephemeral_packets_m := num_ephemeral_packets_m d - 1\<rparr> else d);
                   st = reset_observer p pkt (st\<lparr>port_m := d\<rparr>)
               in Some (Some (packet pkt), if is_ephemeral pkt then PortPacket_Free p st else st)))"

lemma Dequeue_take_None: "Dequeue_take st = Some (None, st') \<Longrightarrow> st' = st"
  by (auto simp: Dequeue_take_def Let_def split: if_splits list.splits option.splits)

text \<open>\<open>Dequeue\<close> as one thread runs it with nobody else around: the packet, or no packet when the
  thread blocks.\<close>

function Dequeue :: "port_state \<Rightarrow> (zx_port_packet option \<times> port_state) option" where
  "Dequeue st =
     (let (over, sema) = Semaphore_Wait (sema_m (port_m st));
          st = st\<lparr>port_m := (port_m st)\<lparr>sema_m := sema\<rparr>\<rparr>
      in if \<not> over then Some (None, st)
         else case Dequeue_take st of
                None \<Rightarrow> None
              | Some (None, st) \<Rightarrow> Dequeue st
              | Some (Some pk, st) \<Rightarrow> Some (Some pk, st))"
  by pat_completeness auto

termination
  by (relation "measure (\<lambda>st. sem_count (sema_m (port_m st)))")
    (auto simp: Semaphore_Wait_def split: if_splits dest!: Dequeue_take_None)

declare Dequeue.simps [simp del]

subsection \<open>Observers\<close>

definition PortObserver_new ::
  "nat \<Rightarrow> 32 word \<Rightarrow> handle_ref \<Rightarrow> zx_koid \<Rightarrow> 64 word \<Rightarrow> zx_signals \<Rightarrow> port_state \<Rightarrow> port_state" where
  "PortObserver_new i options handle dispatcher key signals st =
     st\<lparr>pobs_m := (pobs_m st)(i \<mapsto> \<lparr>po_options = options, po_dispatcher = Some dispatcher\<rparr>),
        pkts_m := (pkts_m st)(Obs i \<mapsto> (PortPacket_new (Some handle) None)
          \<lparr>packet := \<lparr>pk_key = key, pk_type = ZX_PKT_TYPE_SIGNAL_ONE, pk_status = zx_status_code ZX_OK,
                      pk_payload = PkSignal signals 0 0 0\<rparr>\<rparr>)\<rparr>"

text \<open>\<open>OnMatch\<close> up to the return of \<open>Queue\<close>, whose status it ignores.\<close>

definition OnMatch_queue :: "int \<Rightarrow> nat \<Rightarrow> zx_signals \<Rightarrow> port_state \<Rightarrow> port_state option" where
  "OnMatch_queue now i signals st =
     (case (pobs_m st i, pkts_m st (Obs i)) of
        (Some ob, Some pkt) \<Rightarrow>
          let st = (if po_options ob AND ZX_WAIT_ASYNC_TIMESTAMP \<noteq> 0
                    then st\<lparr>pkts_m := (pkts_m st)(Obs i \<mapsto> pkt\<lparr>packet := (packet pkt)\<lparr>pk_payload :=
                           (case pk_payload (packet pkt) of
                              PkSignal trigger obs count timestamp \<Rightarrow> PkSignal trigger obs count now
                            | payload \<Rightarrow> payload)\<rparr>\<rparr>)\<rparr>
                    else st)
          in map_option snd (Port_Queue (Obs i) signals st)
      | _ \<Rightarrow> None)"

definition MaybeReap :: "nat \<Rightarrow> port_state \<Rightarrow> port_state option" where
  "MaybeReap i st =
     (case (pobs_m st i, pkts_m st (Obs i)) of
        (Some ob, Some pkt) \<Rightarrow>
          (case po_dispatcher ob of
             None \<Rightarrow> Some st
           | Some dispatcher \<Rightarrow>
               let d = port_m st;
                   st = st\<lparr>pobs_m := (pobs_m st)(i \<mapsto> ob\<lparr>po_dispatcher := None\<rparr>),
                           port_m := d\<lparr>port_observers_m := remove1 i (port_observers_m d)\<rparr>\<rparr>
               in Some (if Obs i \<in> set (packets_m d)
                        then st\<lparr>pkts_m := (pkts_m st)(Obs i \<mapsto> pkt\<lparr>pp_observer := Some i\<rparr>)\<rparr>
                        else delete_observer i st))
      | _ \<Rightarrow> None)"

definition PortObserver_OnMatch :: "int \<Rightarrow> nat \<Rightarrow> zx_signals \<Rightarrow> port_state \<Rightarrow> port_state option" where
  "PortObserver_OnMatch now i signals st =
     (case OnMatch_queue now i signals st of None \<Rightarrow> None | Some st \<Rightarrow> MaybeReap i st)"

definition PortObserver_OnCancel :: "nat \<Rightarrow> zx_signals \<Rightarrow> port_state \<Rightarrow> port_state option" where
  "PortObserver_OnCancel i signals st = MaybeReap i st"

text \<open>\<open>MakeObserver\<close> up to its call of \<open>AddObserver\<close>; \<open>False\<close> when the object cannot be waited on.\<close>

definition MakeObserver_link ::
  "nat \<Rightarrow> 32 word \<Rightarrow> handle_ref \<Rightarrow> 'a dispatcher_scheme \<Rightarrow> 64 word \<Rightarrow> zx_signals \<Rightarrow> port_state \<Rightarrow> bool \<times> port_state" where
  "MakeObserver_link i options handle dispatcher key signals st =
     (if \<not> is_waitable dispatcher then (False, st)
      else let st = PortObserver_new i options handle (koid_m dispatcher) key signals st
           in (True, st\<lparr>port_m := (port_m st)\<lparr>port_observers_m := i # port_observers_m (port_m st)\<rparr>\<rparr>))"

definition port_observer :: "nat \<Rightarrow> zx_koid \<Rightarrow> 64 word \<Rightarrow> SignalObserver" where
  "port_observer i port key = \<lparr>obs_id = i, obs_kind = PortObserverKind port key, triggering_signals_m = 0, handle_m = 0\<rparr>"

subsection \<open>Cancelling and closing\<close>

text \<open>The loop of \<open>CancelQueued\<close> over the queue; a packet it removes is destroyed with its observer.\<close>

fun CancelQueued_loop ::
  "handle_ref option \<Rightarrow> 64 word \<Rightarrow> packet_ref list \<Rightarrow> bool \<times> port_state \<Rightarrow> (bool \<times> port_state) option" where
  "CancelQueued_loop handle key [] res = Some res"
| "CancelQueued_loop handle key (p # ps) (removed, st) =
     (case pkts_m st p of
        None \<Rightarrow> None
      | Some pkt \<Rightarrow>
          if pp_handle pkt = handle \<and> pk_key (packet pkt) = key
          then let d = port_m st;
                   d = (if IsDefaultAllocatedEphemeral pkt
                        then d\<lparr>num_ephemeral_packets_m := num_ephemeral_packets_m d - 1\<rparr> else d);
                   d = d\<lparr>packets_m := remove1 p (packets_m d)\<rparr>
               in CancelQueued_loop handle key ps (True, reset_observer p pkt (st\<lparr>port_m := d\<rparr>))
          else CancelQueued_loop handle key ps (removed, st))"

definition CancelQueued :: "handle_ref option \<Rightarrow> 64 word \<Rightarrow> port_state \<Rightarrow> (bool \<times> port_state) option" where
  "CancelQueued handle key st = CancelQueued_loop handle key (packets_m (port_m st)) (False, st)"

definition CancelQueued_packet :: "packet_ref \<Rightarrow> port_state \<Rightarrow> (bool \<times> port_state) option" where
  "CancelQueued_packet p st =
     (let d = port_m st in
      if p \<in> set (packets_m d)
      then case pkts_m st p of
             None \<Rightarrow> None
           | Some pkt \<Rightarrow>
               let d = (if IsDefaultAllocatedEphemeral pkt
                        then d\<lparr>num_ephemeral_packets_m := num_ephemeral_packets_m d - 1\<rparr> else d);
                   d = d\<lparr>packets_m := remove1 p (packets_m d)\<rparr>
               in Some (True, reset_observer p pkt (st\<lparr>port_m := d\<rparr>))
      else Some (False, st))"

text \<open>\<open>on_zero_handles\<close>: the queue is drained packet by packet, then the observers are unlinked one
  by one, and each is removed from its dispatcher. The lock of the port is released while a packet
  is freed and while an observer is removed.\<close>

definition zero_handles_start :: "port_state \<Rightarrow> port_state" where
  "zero_handles_start st = st\<lparr>port_m := (port_m st)\<lparr>zero_handles_m := True\<rparr>\<rparr>"

definition drain_packet :: "packet_ref \<Rightarrow> packet_ref list \<Rightarrow> port_state \<Rightarrow> port_state option" where
  "drain_packet p rest st =
     (case pkts_m st p of
        None \<Rightarrow> None
      | Some pkt \<Rightarrow>
          let d = (port_m st)\<lparr>packets_m := rest\<rparr> in
          Some (if IsDefaultAllocatedEphemeral pkt
                then PortPacket_Free p (st\<lparr>port_m := d\<lparr>num_ephemeral_packets_m := num_ephemeral_packets_m d - 1\<rparr>\<rparr>)
                else reset_observer p pkt (st\<lparr>port_m := d\<rparr>)))"

text \<open>The next observer and the dispatcher it is to be removed from.\<close>

definition zero_handles_pop :: "port_state \<Rightarrow> ((nat \<times> zx_koid) option \<times> port_state) option" where
  "zero_handles_pop st =
     (case port_observers_m (port_m st) of
        [] \<Rightarrow> Some (None, st)
      | i # rest \<Rightarrow>
          (case pobs_m st i of
             None \<Rightarrow> None
           | Some ob \<Rightarrow>
               (case po_dispatcher ob of
                  None \<Rightarrow> None
                | Some dispatcher \<Rightarrow>
                    Some (Some (i, dispatcher),
                      st\<lparr>port_m := (port_m st)\<lparr>port_observers_m := rest\<rparr>,
                         pobs_m := (pobs_m st)(i \<mapsto> ob\<lparr>po_dispatcher := None\<rparr>)\<rparr>))))"

subsection \<open>The outcomes of QueueUser\<close>

definition user_packet :: "zx_port_packet \<Rightarrow> PortPacket" where
  "user_packet pk = (PortPacket_new None (Some ArenaPortAllocator))\<lparr>packet := pk\<lparr>pk_type := ZX_PKT_TYPE_USER\<rparr>\<rparr>"

lemma user_packet_simps [simp]:
  "IsDefaultAllocatedEphemeral (user_packet pk)" "is_ephemeral (user_packet pk)" "pp_observer (user_packet pk) = None"
  "pp_handle (user_packet pk) = None" "pp_allocator (user_packet pk) = Some ArenaPortAllocator"
  "packet (user_packet pk) = pk\<lparr>pk_type := ZX_PKT_TYPE_USER\<rparr>"
  by (simp_all add: user_packet_def PortPacket_new_def IsDefaultAllocatedEphemeral_def is_ephemeral_def)

lemma QueueUser_unfold:
  "QueueUser pk (Some i) st =
     (case Port_Queue (Eph i) 0 (st\<lparr>pkts_m := (pkts_m st)(Eph i \<mapsto> user_packet pk)\<rparr>) of
        None \<Rightarrow> None
      | Some (status, st) \<Rightarrow> Some (status, if status \<noteq> ZX_OK then PortPacket_Free (Eph i) st else st))"
  by (simp add: QueueUser_def ArenaPortAllocator_Alloc_def user_packet_def)

lemma QueueUser_no_memory: "QueueUser pk None st = Some (ZX_ERR_NO_MEMORY, st)"
  by (simp add: QueueUser_def ArenaPortAllocator_Alloc_def)

lemma fun_upd_None [simp]: "m x = None \<Longrightarrow> m(x := None) = m"
  by (rule ext) simp

lemma QueueUser_closed:
  "pkts_m st (Eph i) = None \<Longrightarrow> zero_handles_m (port_m st) \<Longrightarrow> QueueUser pk (Some i) st = Some (ZX_ERR_BAD_HANDLE, st)"
  by (simp add: QueueUser_unfold Port_Queue_def PortPacket_Free_def)

lemma QueueUser_limit:
  "pkts_m st (Eph i) = None \<Longrightarrow> \<not> zero_handles_m (port_m st) \<Longrightarrow> num_ephemeral_packets_m (port_m st) > kMaxAllocatedPacketCountPerPort
   \<Longrightarrow> QueueUser pk (Some i) st = Some (ZX_ERR_SHOULD_WAIT, st\<lparr>limit_exceptions_m := limit_exceptions_m st + 1\<rparr>)"
  by (simp add: QueueUser_unfold Port_Queue_def PortPacket_Free_def)

lemma QueueUser_ok:
  "\<not> zero_handles_m (port_m st) \<Longrightarrow> num_ephemeral_packets_m (port_m st) \<le> kMaxAllocatedPacketCountPerPort
   \<Longrightarrow> QueueUser pk (Some i) st = Some (ZX_OK, st\<lparr>
         port_m := (port_m st)\<lparr>packets_m := packets_m (port_m st) @ [Eph i],
                               num_ephemeral_packets_m := num_ephemeral_packets_m (port_m st) + 1,
                               sema_m := Semaphore_Post (sema_m (port_m st))\<rparr>,
         pkts_m := (pkts_m st)(Eph i \<mapsto> user_packet pk)\<rparr>)"
  by (simp add: QueueUser_unfold Port_Queue_def Let_def)

text \<open>The first half of \<open>OnMatch\<close> on an observer whose packet is not queued.\<close>

lemma Port_Queue_Obs:
  assumes "pkts_m st (Obs i) = Some pkt" "pp_allocator pkt = None" "Obs i \<notin> set (packets_m (port_m st))" "\<not> zero_handles_m (port_m st)"
  shows "Port_Queue (Obs i) signals st = Some (ZX_OK, st\<lparr>
      port_m := (port_m st)\<lparr>packets_m := packets_m (port_m st) @ [Obs i], sema_m := Semaphore_Post (sema_m (port_m st))\<rparr>,
      pkts_m := (pkts_m st)(Obs i \<mapsto> if signals \<noteq> 0 then observe False signals pkt else pkt)\<rparr>)"
  using assms by (simp add: Port_Queue_def IsDefaultAllocatedEphemeral_def observe_def Let_def)

lemma OnMatch_queue_spec:
  assumes o: "pobs_m st i = Some ob" "pkts_m st (Obs i) = Some pkt" "pp_allocator pkt = None" "pp_observer pkt = None"
    and nq: "Obs i \<notin> set (packets_m (port_m st))"
  shows "\<exists>st' pkt'. OnMatch_queue now i signals st = Some st' \<and> pkts_m st' = (pkts_m st)(Obs i \<mapsto> pkt') \<and> pobs_m st' = pobs_m st \<and>
    pp_allocator pkt' = None \<and> pp_observer pkt' = None \<and>
    packets_m (port_m st') = (if zero_handles_m (port_m st) then packets_m (port_m st) else packets_m (port_m st) @ [Obs i]) \<and>
    port_observers_m (port_m st') = port_observers_m (port_m st) \<and> zero_handles_m (port_m st') = zero_handles_m (port_m st) \<and>
    num_ephemeral_packets_m (port_m st') = num_ephemeral_packets_m (port_m st)"
proof -
  define stamped where "stamped = (if po_options ob AND ZX_WAIT_ASYNC_TIMESTAMP \<noteq> 0
      then pkt\<lparr>packet := (packet pkt)\<lparr>pk_payload := (case pk_payload (packet pkt) of
             PkSignal trigger obs count timestamp \<Rightarrow> PkSignal trigger obs count now | payload \<Rightarrow> payload)\<rparr>\<rparr> else pkt)"
  let ?st = "st\<lparr>pkts_m := (pkts_m st)(Obs i \<mapsto> stamped)\<rparr>"
  have eq: "OnMatch_queue now i signals st = map_option snd (Port_Queue (Obs i) signals ?st)"
    using o by (auto simp: OnMatch_queue_def stamped_def Let_def fun_upd_idem)
  have pa: "pp_allocator stamped = None" "pp_observer stamped = None" using o by (simp_all add: stamped_def)
  show ?thesis
  proof (cases "zero_handles_m (port_m st)")
    case True
    then show ?thesis using pa by (auto simp: eq Port_Queue_def)
  next
    case False
    then show ?thesis using pa nq Port_Queue_Obs [of ?st i stamped signals]
      by (auto simp: eq observe_def)
  qed
qed

end
