(* ===== verification/Port_Lifetimes.thy ===== *)
theory Port_Lifetimes
  imports Port
begin

section \<open>Ports and the objects they watch\<close>

text \<open>
  A port, the objects it watches and the threads that use them, as one system whose steps are the
  critical sections of the code, in any order. The invariant of the system says who owns every
  packet and every observer; it makes all accesses of \<open>Port\<close> safe and leaves nothing behind
  when the port is closed.
\<close>

subsection \<open>The steps of the system\<close>

text \<open>What an observer's call still has to do: queue the packet and then decide its fate, or only
  the second. The dispatcher whose lock the call holds is part of the entry.\<close>

datatype fire = FMatch zx_signals | FReap

text \<open>\<open>takers_m\<close> are the threads in \<open>Dequeue\<close> whose wait is over; \<open>drained_m\<close> says that the first
  loop of \<open>on_zero_handles\<close> has ended; \<open>closing_m\<close> are the observers
  \<open>on_zero_handles\<close> has unlinked but not yet removed. Observers and arena packets get fresh names.\<close>

record port_sys =
  ps_m :: port_state
  watched_m :: "zx_koid \<Rightarrow> dispatcher"
  firing_m :: "(nat \<times> zx_koid \<times> fire) list"
  drained_m :: bool
  closing_m :: "(nat \<times> zx_koid) list"
  takers_m :: nat
  next_obs_m :: nat
  next_pkt_m :: nat

definition fire_of :: "zx_koid \<Rightarrow> observer_call \<Rightarrow> nat \<times> zx_koid \<times> fire" where
  "fire_of k c = (case c of OnMatch i s \<Rightarrow> (i, k, FMatch s) | OnCancel i s \<Rightarrow> (i, k, FReap))"

definition new_calls :: "zx_koid \<Rightarrow> dispatcher \<Rightarrow> dispatcher \<Rightarrow> (nat \<times> zx_koid \<times> fire) list" where
  "new_calls k d d' = map (fire_of k) (drop (length (calls_m d)) (calls_m d'))"

definition locked :: "zx_koid \<Rightarrow> port_sys \<Rightarrow> bool" where
  "locked k sys \<longleftrightarrow> list_ex (\<lambda>(i, k', f). k' = k) (firing_m sys)"

text \<open>An operation on a watched object, with the calls it makes into the observers.\<close>

definition on_watched :: "zx_koid \<Rightarrow> dispatcher \<Rightarrow> port_sys \<Rightarrow> port_sys" where
  "on_watched k d' sys =
     sys\<lparr>watched_m := (watched_m sys)(k := d'), firing_m := firing_m sys @ new_calls k (watched_m sys k) d'\<rparr>"

datatype port_action =
    AQueueUser zx_port_packet bool
  | ADequeueWait | ADequeueTimeout | ADequeueTake
  | AQueueInterrupt nat int | ARemoveInterrupt nat
  | AMakeObserver "32 word" handle_ref zx_koid "64 word" zx_signals
  | AUpdate zx_koid zx_signals zx_signals
  | ACancelHandle zx_koid handle_ref
  | ACancelByKey zx_koid handle_ref "64 word"
  | ACancelQueued handle_ref "64 word"
  | AFireQueue nat int | AFireReap nat
  | AZeroStart | AZeroDrain | AZeroPop | AZeroRemove nat

text \<open>One step; a step that cannot run now leaves the system alone, and \<open>None\<close> is an access to
  freed memory.\<close>

fun port_step :: "port_action \<Rightarrow> port_sys \<Rightarrow> port_sys option" where
  "port_step (AQueueUser pk ok) sys =
     map_option (\<lambda>(status, st). sys\<lparr>ps_m := st, next_pkt_m := next_pkt_m sys + 1\<rparr>)
       (QueueUser pk (if ok then Some (next_pkt_m sys) else None) (ps_m sys))"
| "port_step ADequeueWait sys =
     (let st = ps_m sys;
          (over, sema) = Semaphore_Wait (sema_m (port_m st))
      in Some (sys\<lparr>ps_m := st\<lparr>port_m := (port_m st)\<lparr>sema_m := sema\<rparr>\<rparr>, takers_m := takers_m sys + (if over then 1 else 0)\<rparr>))"
| "port_step ADequeueTimeout sys =
     (let st = ps_m sys; sema = sema_m (port_m st)
      in Some (sys\<lparr>ps_m := st\<lparr>port_m := (port_m st)\<lparr>sema_m := sema\<lparr>sem_waiters := sem_waiters sema - 1\<rparr>\<rparr>\<rparr>\<rparr>))"
| "port_step ADequeueTake sys =
     (let st = ps_m sys; sema = sema_m (port_m st) in
      if takers_m sys > 0
      then map_option (\<lambda>(pk, st). sys\<lparr>ps_m := st, takers_m := takers_m sys - 1\<rparr>) (Dequeue_take st)
      else if sem_woken sema > 0
      then map_option (\<lambda>(pk, st). sys\<lparr>ps_m := st\<rparr>)
             (Dequeue_take (st\<lparr>port_m := (port_m st)\<lparr>sema_m := sema\<lparr>sem_woken := sem_woken sema - 1\<rparr>\<rparr>\<rparr>))
      else Some sys)"
| "port_step (AQueueInterrupt i timestamp) sys = Some (sys\<lparr>ps_m := snd (QueueInterruptPacket i timestamp (ps_m sys))\<rparr>)"
| "port_step (ARemoveInterrupt i) sys = Some (sys\<lparr>ps_m := snd (RemoveInterruptPacket i (ps_m sys))\<rparr>)"
| "port_step (AMakeObserver options handle k key signals) sys =
     (let i = next_obs_m sys; d = watched_m sys k in
      if zero_handles_m (port_m (ps_m sys)) \<or> locked k sys then Some sys
      else let (ok, st) = MakeObserver_link i options handle d key signals (ps_m sys) in
           if \<not> ok then Some sys
           else Some (on_watched k (snd (AddObserver (port_observer i (koid_m (port_m st)) key) handle signals d))
                  (sys\<lparr>ps_m := st, next_obs_m := i + 1\<rparr>)))"
| "port_step (AUpdate k c m) sys =
     Some (if locked k sys then sys else on_watched k (UpdateStateLocked c m (watched_m sys k)) sys)"
| "port_step (ACancelHandle k handle) sys =
     Some (if locked k sys then sys else on_watched k (Dispatcher_Cancel handle (watched_m sys k)) sys)"
| "port_step (ACancelByKey k handle key) sys =
     Some (if locked k sys then sys
           else on_watched k (snd (CancelByKey handle (koid_m (port_m (ps_m sys))) key (watched_m sys k))) sys)"
| "port_step (ACancelQueued handle key) sys =
     map_option (\<lambda>(removed, st). sys\<lparr>ps_m := st\<rparr>) (CancelQueued (Some handle) key (ps_m sys))"
| "port_step (AFireQueue i now) sys =
     (case List.find (\<lambda>(j, k, f). j = i \<and> f \<noteq> FReap) (firing_m sys) of
        Some (j, k, FMatch signals) \<Rightarrow>
          map_option (\<lambda>st. sys\<lparr>ps_m := st, firing_m := map (\<lambda>(j, k, f). (j, k, if j = i then FReap else f)) (firing_m sys)\<rparr>)
            (OnMatch_queue now i signals (ps_m sys))
      | _ \<Rightarrow> Some sys)"
| "port_step (AFireReap i) sys =
     (if list_ex (\<lambda>(j, k, f). j = i \<and> f = FReap) (firing_m sys)
      then map_option (\<lambda>st. sys\<lparr>ps_m := st, firing_m := filter (\<lambda>(j, k, f). j \<noteq> i) (firing_m sys)\<rparr>) (MaybeReap i (ps_m sys))
      else Some sys)"
| "port_step AZeroStart sys = Some (sys\<lparr>ps_m := zero_handles_start (ps_m sys)\<rparr>)"
| "port_step AZeroDrain sys =
     (if \<not> zero_handles_m (port_m (ps_m sys)) \<or> drained_m sys then Some sys
      else case packets_m (port_m (ps_m sys)) of
             [] \<Rightarrow> Some (sys\<lparr>drained_m := True\<rparr>)
           | p # rest \<Rightarrow> map_option (\<lambda>st. sys\<lparr>ps_m := st\<rparr>) (drain_packet p rest (ps_m sys)))"
| "port_step AZeroPop sys =
     (if \<not> drained_m sys then Some sys
      else map_option (\<lambda>(x, st). sys\<lparr>ps_m := st, closing_m := (case x of None \<Rightarrow> [] | Some x \<Rightarrow> [x]) @ closing_m sys\<rparr>)
        (zero_handles_pop (ps_m sys)))"
| "port_step (AZeroRemove i) sys =
     (case List.find (\<lambda>(j, k). j = i) (closing_m sys) of
        None \<Rightarrow> Some sys
      | Some (j, k) \<Rightarrow>
          if locked k sys then Some sys
          else if pobs_m (ps_m sys) i = None then None
          else Some (sys\<lparr>watched_m := (watched_m sys)(k := snd (snd (RemoveObserver i (watched_m sys k)))),
                         ps_m := delete_observer i (ps_m sys),
                         closing_m := filter (\<lambda>(j, k). j \<noteq> i) (closing_m sys)\<rparr>))"

fun port_run :: "port_action list \<Rightarrow> port_sys \<Rightarrow> port_sys option" where
  "port_run [] sys = Some sys"
| "port_run (a # acts) sys = (case port_step a sys of None \<Rightarrow> None | Some sys \<Rightarrow> port_run acts sys)"

subsection \<open>Who owns what\<close>

text \<open>The calls an observer is in, the dispatcher it is being removed from and the dispatchers that
  hold it.\<close>

definition fired :: "port_sys \<Rightarrow> nat \<Rightarrow> (zx_koid \<times> fire) set" where
  "fired sys i = {(k, f). (i, k, f) \<in> set (firing_m sys)}"

definition closed :: "port_sys \<Rightarrow> nat \<Rightarrow> zx_koid set" where
  "closed sys i = {k. (i, k) \<in> set (closing_m sys)}"

definition regd :: "port_sys \<Rightarrow> nat \<Rightarrow> zx_koid set" where
  "regd sys i = {k. i \<in> obs_id ` set (observers_m (watched_m sys k))}"

text \<open>
  The life of an observer. It is linked to its dispatcher, which holds it or is calling it; or
  \<open>on_zero_handles\<close> is about to remove and delete it; or its packet is queued and owns it; or it
  has been deleted and nothing refers to it.
\<close>

definition obs_ok ::
  "nat \<Rightarrow> PortObserver option \<Rightarrow> PortPacket option \<Rightarrow> bool \<Rightarrow> bool \<Rightarrow> bool \<Rightarrow> (zx_koid \<times> fire) set \<Rightarrow> zx_koid set \<Rightarrow> zx_koid set \<Rightarrow> bool" where
  "obs_ok i ob pkt linked queued zero Fs Cs R \<longleftrightarrow>
     (case ob of
        None \<Rightarrow> pkt = None \<and> \<not> linked \<and> \<not> queued \<and> Fs = {} \<and> Cs = {} \<and> R = {}
      | Some ob \<Rightarrow>
          (\<exists>p. pkt = Some p \<and> pp_allocator p = None \<and>
            (case po_dispatcher ob of
               Some k \<Rightarrow> linked \<and> Cs = {} \<and> pp_observer p = None \<and>
                 (Fs = {} \<and> R = {k} \<and> \<not> queued \<or> (\<exists>f. Fs = {(k, f)} \<and> R = {} \<and> (queued \<longrightarrow> f = FReap)))
             | None \<Rightarrow> \<not> linked \<and>
                 ((\<exists>k. Cs = {k} \<and> zero \<and> pp_observer p = None \<and> \<not> queued \<and>
                    (Fs = {} \<and> R \<subseteq> {k} \<or> (\<exists>f. Fs = {(k, f)} \<and> R = {}))) \<or>
                  Cs = {} \<and> queued \<and> pp_observer p = Some i \<and> Fs = {} \<and> R = {}))))"

definition obs_at :: "port_sys \<Rightarrow> nat \<Rightarrow> bool" where
  "obs_at sys i \<longleftrightarrow>
     (let st = ps_m sys; d = port_m st in
      obs_ok i (pobs_m st i) (pkts_m st (Obs i)) (i \<in> set (port_observers_m d)) (Obs i \<in> set (packets_m d)) (zero_handles_m d)
        (fired sys i) (closed sys i) (regd sys i))"

definition eph_at :: "port_state \<Rightarrow> nat \<Rightarrow> bool" where
  "eph_at st i \<longleftrightarrow>
     (case pkts_m st (Eph i) of
        None \<Rightarrow> Eph i \<notin> set (packets_m (port_m st))
      | Some p \<Rightarrow> Eph i \<in> set (packets_m (port_m st)) \<and> pp_allocator p = Some ArenaPortAllocator \<and> pp_observer p = None \<and> pp_handle p = None)"

definition is_Eph :: "packet_ref \<Rightarrow> bool" where
  "is_Eph p \<longleftrightarrow> (\<exists>i. p = Eph i)"

definition queue_ok :: "port_state \<Rightarrow> bool" where
  "queue_ok st \<longleftrightarrow>
     distinct (packets_m (port_m st)) \<and> distinct (port_observers_m (port_m st)) \<and>
     (\<forall>i. Owned i \<notin> set (packets_m (port_m st))) \<and> (\<forall>i. eph_at st i) \<and>
     num_ephemeral_packets_m (port_m st) = length (filter is_Eph (packets_m (port_m st)))"

definition watched_ok :: "port_sys \<Rightarrow> bool" where
  "watched_ok sys \<longleftrightarrow>
     (\<forall>k. koid_m (watched_m sys k) = k \<and> disp_inv (watched_m sys k) \<and> (\<forall>i\<in>disp_ids (watched_m sys k). i < next_obs_m sys))"

definition port_inv :: "port_sys \<Rightarrow> bool" where
  "port_inv sys \<longleftrightarrow> queue_ok (ps_m sys) \<and> watched_ok sys \<and> (\<forall>i. obs_at sys i) \<and>
     (drained_m sys \<longrightarrow> zero_handles_m (port_m (ps_m sys)) \<and> packets_m (port_m (ps_m sys)) = []) \<and>
     (\<forall>i. next_obs_m sys \<le> i \<longrightarrow> pobs_m (ps_m sys) i = None) \<and> (\<forall>i. next_pkt_m sys \<le> i \<longrightarrow> pkts_m (ps_m sys) (Eph i) = None)"

lemma is_Eph_simps [simp]: "is_Eph (Eph i)" "\<not> is_Eph (Obs i)" "\<not> is_Eph (Owned i)"
  by (simp_all add: is_Eph_def)

lemma obs_at_frame:
  assumes "obs_at sys i" "pobs_m (ps_m sys') i = pobs_m (ps_m sys) i" "pkts_m (ps_m sys') (Obs i) = pkts_m (ps_m sys) (Obs i)"
    and "i \<in> set (port_observers_m (port_m (ps_m sys'))) \<longleftrightarrow> i \<in> set (port_observers_m (port_m (ps_m sys)))"
    and "Obs i \<in> set (packets_m (port_m (ps_m sys'))) \<longleftrightarrow> Obs i \<in> set (packets_m (port_m (ps_m sys)))"
    and "zero_handles_m (port_m (ps_m sys)) \<longrightarrow> zero_handles_m (port_m (ps_m sys'))"
    and "fired sys' i = fired sys i" "closed sys' i = closed sys i" "regd sys' i = regd sys i"
  shows "obs_at sys' i"
  using assms unfolding obs_at_def Let_def obs_ok_def by (auto split: option.splits)

text \<open>A queued packet is alive, and how it is owned.\<close>

lemma queued_alive:
  assumes "port_inv sys" "p \<in> set (packets_m (port_m (ps_m sys)))"
  obtains i pkt where "p = Eph i" "pkts_m (ps_m sys) p = Some pkt" "IsDefaultAllocatedEphemeral pkt" "is_ephemeral pkt" "pp_observer pkt = None" "pp_handle pkt = None"
  | i pkt where "p = Obs i" "pkts_m (ps_m sys) p = Some pkt" "\<not> IsDefaultAllocatedEphemeral pkt" "\<not> is_ephemeral pkt" "pp_observer pkt = None \<or> pp_observer pkt = Some i"
proof (cases p)
  case (Eph i)
  have "eph_at (ps_m sys) i" using assms(1) by (simp add: port_inv_def queue_ok_def)
  then obtain pkt where "pkts_m (ps_m sys) p = Some pkt" "pp_allocator pkt = Some ArenaPortAllocator" "pp_observer pkt = None" "pp_handle pkt = None"
    using assms(2) Eph by (auto simp: eph_at_def split: option.splits)
  with that(1) Eph show thesis by (simp add: IsDefaultAllocatedEphemeral_def is_ephemeral_def)
next
  case (Obs i)
  have "obs_at sys i" using assms(1) by (simp add: port_inv_def)
  then obtain pkt where "pkts_m (ps_m sys) p = Some pkt" "pp_allocator pkt = None" "pp_observer pkt = None \<or> pp_observer pkt = Some i"
    using assms(2) Obs by (auto simp: obs_at_def obs_ok_def Let_def split: option.splits)
  with that(2) Obs show thesis by (simp add: IsDefaultAllocatedEphemeral_def is_ephemeral_def)
next
  case (Owned i)
  then show thesis using assms by (simp add: port_inv_def queue_ok_def)
qed

subsection \<open>Every action keeps the ownership\<close>

text \<open>Taking a packet out of the queue, as \<open>Dequeue\<close>, \<open>CancelQueued\<close> and \<open>on_zero_handles\<close> do.\<close>

definition unqueue :: "packet_ref \<Rightarrow> PortPacket \<Rightarrow> port_state \<Rightarrow> port_state" where
  "unqueue p pkt st =
     (let d = port_m st;
          d = d\<lparr>packets_m := remove1 p (packets_m d)\<rparr>;
          d = (if IsDefaultAllocatedEphemeral pkt
               then d\<lparr>num_ephemeral_packets_m := num_ephemeral_packets_m d - 1\<rparr> else d);
          st = reset_observer p pkt (st\<lparr>port_m := d\<rparr>)
      in if is_ephemeral pkt then PortPacket_Free p st else st)"

lemma port_invD:
  assumes "port_inv sys"
  shows "queue_ok (ps_m sys)" "watched_ok sys" "obs_at sys i"
    "drained_m sys \<Longrightarrow> zero_handles_m (port_m (ps_m sys))" "drained_m sys \<Longrightarrow> packets_m (port_m (ps_m sys)) = []"
    "next_obs_m sys \<le> i \<Longrightarrow> pobs_m (ps_m sys) i = None" "next_pkt_m sys \<le> i \<Longrightarrow> pkts_m (ps_m sys) (Eph i) = None"
  using assms by (auto simp: port_inv_def)

lemma queue_okD:
  assumes "queue_ok st"
  shows "distinct (packets_m (port_m st))" "distinct (port_observers_m (port_m st))"
    "Owned i \<notin> set (packets_m (port_m st))" "eph_at st i"
    "num_ephemeral_packets_m (port_m st) = length (filter is_Eph (packets_m (port_m st)))"
  using assms by (simp_all add: queue_ok_def)

lemma queue_okI:
  assumes "distinct (packets_m (port_m st))" "distinct (port_observers_m (port_m st))"
    "\<And>i. Owned i \<notin> set (packets_m (port_m st))" "\<And>i. eph_at st i"
    "num_ephemeral_packets_m (port_m st) = length (filter is_Eph (packets_m (port_m st)))"
  shows "queue_ok st"
  using assms by (simp add: queue_ok_def)

lemma eph_at_frame:
  "eph_at st i \<Longrightarrow> pkts_m st' (Eph i) = pkts_m st (Eph i) \<Longrightarrow>
   (Eph i \<in> set (packets_m (port_m st')) \<longleftrightarrow> Eph i \<in> set (packets_m (port_m st))) \<Longrightarrow> eph_at st' i"
  by (simp add: eph_at_def split: option.splits)

lemma ps_same [simp]: "sys\<lparr>ps_m := ps_m sys\<rparr> = sys"
  by simp

lemma fired_ps [simp]:
  "fired (sys\<lparr>ps_m := st\<rparr>) = fired sys" "closed (sys\<lparr>ps_m := st\<rparr>) = closed sys" "regd (sys\<lparr>ps_m := st\<rparr>) = regd sys"
  "watched_ok (sys\<lparr>ps_m := st\<rparr>) = watched_ok sys"
  by (auto simp: fired_def closed_def regd_def watched_ok_def fun_eq_iff)

lemma port_inv_ps:
  assumes "port_inv sys" "queue_ok st'" "\<And>i. obs_at (sys\<lparr>ps_m := st'\<rparr>) i"
    and "zero_handles_m (port_m (ps_m sys)) \<Longrightarrow> zero_handles_m (port_m st')"
    and "drained_m sys \<Longrightarrow> packets_m (port_m (ps_m sys)) = [] \<Longrightarrow> zero_handles_m (port_m (ps_m sys)) \<Longrightarrow> packets_m (port_m st') = []"
    and "\<And>i. pobs_m (ps_m sys) i = None \<Longrightarrow> pobs_m st' i = None"
    and "\<And>i. pkts_m (ps_m sys) (Eph i) = None \<Longrightarrow> pkts_m st' (Eph i) = None"
  shows "port_inv (sys\<lparr>ps_m := st'\<rparr>)"
  using assms by (auto simp: port_inv_def)

text \<open>The fields of the port that the ownership does not depend on.\<close>

lemma port_inv_port_frame:
  assumes "port_inv sys"
    and "packets_m (port_m st') = packets_m (port_m (ps_m sys))" "port_observers_m (port_m st') = port_observers_m (port_m (ps_m sys))"
    and "zero_handles_m (port_m (ps_m sys)) \<Longrightarrow> zero_handles_m (port_m st')"
    and "num_ephemeral_packets_m (port_m st') = num_ephemeral_packets_m (port_m (ps_m sys))"
    and "pkts_m st' = pkts_m (ps_m sys)" "pobs_m st' = pobs_m (ps_m sys)"
  shows "port_inv (sys\<lparr>ps_m := st'\<rparr>)"
proof (rule port_inv_ps [OF assms(1)])
  have "eph_at st' i" for i
    by (rule eph_at_frame [OF queue_okD(4) [OF port_invD(1) [OF assms(1)]]]) (use assms in simp_all)
  then show "queue_ok st'"
    using queue_okD [OF port_invD(1) [OF assms(1)]] assms by (simp add: queue_ok_def)
  show "obs_at (sys\<lparr>ps_m := st'\<rparr>) i" for i
    by (rule obs_at_frame [OF port_invD(3) [OF assms(1)]]) (use assms in simp_all)
qed (use assms in simp_all)

lemma length_filter_remove1:
  "x \<in> set xs \<Longrightarrow> length (filter P (remove1 x xs)) = length (filter P xs) - (if P x then 1 else 0)"
  by (simp add: filter_remove1 length_remove1)

lemma unqueue_Eph:
  assumes inv: "port_inv sys" and p: "Eph i \<in> set (packets_m (port_m (ps_m sys)))" "pkts_m (ps_m sys) (Eph i) = Some pkt"
    and pkt: "IsDefaultAllocatedEphemeral pkt" "is_ephemeral pkt" "pp_observer pkt = None"
  shows "port_inv (sys\<lparr>ps_m := unqueue (Eph i) pkt (ps_m sys)\<rparr>)"
proof -
  let ?st = "ps_m sys" and ?st' = "unqueue (Eph i) pkt (ps_m sys)"
  have st': "?st' = ?st\<lparr>port_m := (port_m ?st)\<lparr>packets_m := remove1 (Eph i) (packets_m (port_m ?st)),
      num_ephemeral_packets_m := num_ephemeral_packets_m (port_m ?st) - 1\<rparr>, pkts_m := (pkts_m ?st)(Eph i := None)\<rparr>"
    using pkt by (simp add: unqueue_def reset_observer_def PortPacket_Free_def Let_def)
  have q: "queue_ok ?st" using inv by (rule port_invD)
  have "eph_at ?st' j" for j
  proof (cases "j = i")
    case True
    then show ?thesis using queue_okD(1) [OF q] by (simp add: st' eph_at_def)
  next
    case False
    show ?thesis by (rule eph_at_frame [OF queue_okD(4) [OF q]]) (use False in \<open>simp_all add: st'\<close>)
  qed
  then have "queue_ok ?st'"
    using queue_okD [OF q] p(1) by (simp add: st' queue_ok_def length_filter_remove1 notin_set_remove1)
  moreover have "obs_at (sys\<lparr>ps_m := ?st'\<rparr>) j" for j
    by (rule obs_at_frame [OF port_invD(3) [OF inv]]) (simp_all add: st')
  ultimately show ?thesis
    by (rule port_inv_ps [OF inv]) (simp_all add: st')
qed

lemma unqueue_Obs:
  assumes inv: "port_inv sys" and p: "Obs i \<in> set (packets_m (port_m (ps_m sys)))" "pkts_m (ps_m sys) (Obs i) = Some pkt"
    and pkt: "\<not> IsDefaultAllocatedEphemeral pkt" "\<not> is_ephemeral pkt" "pp_observer pkt = None \<or> pp_observer pkt = Some i"
  shows "port_inv (sys\<lparr>ps_m := unqueue (Obs i) pkt (ps_m sys)\<rparr>)"
proof -
  let ?st = "ps_m sys" and ?st' = "unqueue (Obs i) pkt (ps_m sys)"
  have d': "port_m ?st' = (port_m ?st)\<lparr>packets_m := remove1 (Obs i) (packets_m (port_m ?st))\<rparr>"
    using pkt by (auto simp: unqueue_def reset_observer_def delete_observer_def Let_def)
  have pkts': "pkts_m ?st' = (pkts_m ?st)(Obs i := if pp_observer pkt = None then Some pkt else None)"
    and pobs': "pobs_m ?st' = (pobs_m ?st)(i := if pp_observer pkt = None then pobs_m ?st i else None)"
    using pkt p(2) by (auto simp: unqueue_def reset_observer_def delete_observer_def Let_def)
  have q: "queue_ok ?st" and o: "obs_at sys i" using inv by (auto intro: port_invD)
  have mem: "Obs j \<in> set (packets_m (port_m ?st')) \<longleftrightarrow> j \<noteq> i \<and> Obs j \<in> set (packets_m (port_m ?st))"
    "Eph j \<in> set (packets_m (port_m ?st')) \<longleftrightarrow> Eph j \<in> set (packets_m (port_m ?st))" for j
    using q by (auto simp: d' queue_ok_def)
  have "eph_at ?st' j" for j
    by (rule eph_at_frame [OF queue_okD(4) [OF q]]) (simp_all add: mem pkts')
  then have "queue_ok ?st'"
    using queue_okD [OF q] p(1) by (simp add: queue_ok_def d' length_filter_remove1 notin_set_remove1)
  moreover have "obs_at (sys\<lparr>ps_m := ?st'\<rparr>) j" for j
  proof (cases "j = i")
    case True
    have "port_observers_m (port_m ?st') = port_observers_m (port_m ?st)" "zero_handles_m (port_m ?st') = zero_handles_m (port_m ?st)"
      by (simp_all add: d')
    with True show ?thesis
      using o p pkt unfolding obs_at_def Let_def obs_ok_def
      by (auto simp: mem pkts' pobs' split: option.splits)
  next
    case False
    show ?thesis
      by (rule obs_at_frame [OF port_invD(3) [OF inv]]) (use False in \<open>simp_all add: mem pkts' pobs', simp_all add: d'\<close>)
  qed
  ultimately show ?thesis
    by (rule port_inv_ps [OF inv]) (auto simp: d' pkts' pobs')
qed

lemma unqueue_inv:
  assumes "port_inv sys" "p \<in> set (packets_m (port_m (ps_m sys)))" "pkts_m (ps_m sys) p = Some pkt"
  shows "port_inv (sys\<lparr>ps_m := unqueue p pkt (ps_m sys)\<rparr>)"
  using assms(1,2)
proof (cases rule: queued_alive)
  case (1 i pkt')
  with assms show ?thesis by (auto intro: unqueue_Eph)
next
  case (2 i pkt')
  with assms show ?thesis by (auto intro: unqueue_Obs)
qed

lemma Dequeue_take_inv:
  assumes "port_inv sys"
  obtains pk st' where "Dequeue_take (ps_m sys) = Some (pk, st')" "port_inv (sys\<lparr>ps_m := st'\<rparr>)"
proof -
  let ?d = "port_m (ps_m sys)"
  consider (int) "port_options_m ?d = ZX_PORT_BIND_TO_INTERRUPT \<and> interrupt_packets_m ?d \<noteq> []"
    | (none) "\<not> (port_options_m ?d = ZX_PORT_BIND_TO_INTERRUPT \<and> interrupt_packets_m ?d \<noteq> [])" "packets_m ?d = []"
    | (pkt) p rest where "\<not> (port_options_m ?d = ZX_PORT_BIND_TO_INTERRUPT \<and> interrupt_packets_m ?d \<noteq> [])" "packets_m ?d = p # rest"
    by (cases "packets_m ?d") auto
  then show thesis
  proof cases
    case int
    let ?st' = "(ps_m sys)\<lparr>port_m := ?d\<lparr>interrupt_packets_m := tl (interrupt_packets_m ?d)\<rparr>\<rparr>"
    have "port_inv (sys\<lparr>ps_m := ?st'\<rparr>)"
      by (rule port_inv_port_frame [OF assms]) simp_all
    with int show thesis
      by (intro that [of _ ?st']) (auto simp: Dequeue_take_def Let_def)
  next
    case none
    then show thesis
      using assms by (intro that [of None "ps_m sys"]) (simp_all add: Dequeue_take_def Let_def)
  next
    case (pkt p rest)
    then have "p \<in> set (packets_m ?d)" by simp
    with assms obtain q where q: "pkts_m (ps_m sys) p = Some q"
      by (auto elim: queued_alive)
    have "Dequeue_take (ps_m sys) = Some (Some (packet q), unqueue p q (ps_m sys))"
      using pkt q by (auto simp: Dequeue_take_def unqueue_def Let_def)
    with that unqueue_inv [OF assms \<open>p \<in> _\<close> q] show thesis by blast
  qed
qed

lemma drain_packet_unqueue:
  assumes "port_inv sys" "packets_m (port_m (ps_m sys)) = p # rest"
  obtains q where "pkts_m (ps_m sys) p = Some q" "drain_packet p rest (ps_m sys) = Some (unqueue p q (ps_m sys))"
    "port_inv (sys\<lparr>ps_m := unqueue p q (ps_m sys)\<rparr>)"
proof -
  have p: "p \<in> set (packets_m (port_m (ps_m sys)))" using assms(2) by simp
  obtain q where q: "pkts_m (ps_m sys) p = Some q" "is_ephemeral q = IsDefaultAllocatedEphemeral q"
    "is_ephemeral q \<Longrightarrow> pp_observer q = None"
    using assms(1) p by (auto elim: queued_alive)
  have "drain_packet p rest (ps_m sys) = Some (unqueue p q (ps_m sys))"
    using assms(2) q by (auto simp: drain_packet_def unqueue_def reset_observer_def Let_def split: option.split)
  with that q(1) unqueue_inv [OF assms(1) p q(1)] show thesis by blast
qed

text \<open>What cancelling leaves alone: user packets and everything about waiting.\<close>

definition signals_cancelled :: "port_state \<Rightarrow> port_state \<Rightarrow> bool" where
  "signals_cancelled st st' \<longleftrightarrow>
     filter is_Eph (packets_m (port_m st')) = filter is_Eph (packets_m (port_m st)) \<and> (\<forall>i. pkts_m st' (Eph i) = pkts_m st (Eph i)) \<and>
     (\<forall>i. pkts_m st' (Obs i) = None \<or> pkts_m st' (Obs i) = pkts_m st (Obs i)) \<and>
     length (packets_m (port_m st')) \<le> length (packets_m (port_m st)) \<and> sema_m (port_m st') = sema_m (port_m st) \<and>
     port_options_m (port_m st') = port_options_m (port_m st) \<and> interrupt_packets_m (port_m st') = interrupt_packets_m (port_m st)"

lemma signals_cancelled_refl: "signals_cancelled st st"
  by (simp add: signals_cancelled_def)

lemma signals_cancelled_trans: "signals_cancelled st st' \<Longrightarrow> signals_cancelled st' st'' \<Longrightarrow> signals_cancelled st st''"
  unfolding signals_cancelled_def by (metis le_trans)

lemma unqueue_signals_cancelled:
  assumes "pkts_m st (Obs i) = Some q" "\<not> is_ephemeral q" "\<not> IsDefaultAllocatedEphemeral q" "pp_observer q = None \<or> pp_observer q = Some i"
  shows "signals_cancelled st (unqueue (Obs i) q st)"
  using assms by (auto simp: signals_cancelled_def unqueue_def reset_observer_def delete_observer_def filter_remove1 remove1_idem length_remove1 Let_def)

lemma CancelQueued_loop_inv:
  assumes "port_inv sys" "set ps \<subseteq> set (packets_m (port_m (ps_m sys)))" "distinct ps"
  shows "\<exists>removed' st'. CancelQueued_loop (Some handle) key ps (removed, ps_m sys) = Some (removed', st') \<and>
    port_inv (sys\<lparr>ps_m := st'\<rparr>) \<and> signals_cancelled (ps_m sys) st'"
  using assms
proof (induction ps arbitrary: sys removed)
  case Nil
  then show ?case by (simp add: signals_cancelled_refl)
next
  case (Cons p ps)
  then have p: "p \<in> set (packets_m (port_m (ps_m sys)))" by simp
  obtain q where q: "pkts_m (ps_m sys) p = Some q"
    "pp_handle q = None \<or> \<not> is_ephemeral q \<and> \<not> IsDefaultAllocatedEphemeral q \<and> (\<exists>i. p = Obs i \<and> (pp_observer q = None \<or> pp_observer q = Some i))"
    using Cons.prems(1) p by (auto elim: queued_alive)
  show ?case
  proof (cases "pp_handle q = Some handle \<and> pk_key (packet q) = key")
    case True
    let ?st = "unqueue p q (ps_m sys)"
    have *: "packets_m (port_m ?st) = remove1 p (packets_m (port_m (ps_m sys)))"
      by (simp add: unqueue_def reset_observer_def delete_observer_def PortPacket_Free_def Let_def split: option.splits)
    have dist: "distinct (packets_m (port_m (ps_m sys)))"
      using queue_okD(1) [OF port_invD(1) [OF Cons.prems(1)]] .
    have "CancelQueued_loop (Some handle) key (p # ps) (removed, ps_m sys) = CancelQueued_loop (Some handle) key ps (True, ?st)"
      using True q by (simp add: unqueue_def Let_def)
    moreover have "set ps \<subseteq> set (packets_m (port_m ?st))"
      using Cons.prems(2,3) dist by (auto simp: *)
    moreover have "signals_cancelled (ps_m sys) ?st"
      using True q by (auto intro: unqueue_signals_cancelled)
    ultimately show ?thesis
      using Cons.IH [of "sys\<lparr>ps_m := ?st\<rparr>" True] unqueue_inv [OF Cons.prems(1) p q(1)] Cons.prems(3)
      by (auto intro: signals_cancelled_trans)
  next
    case False
    then show ?thesis
      using Cons.IH [of sys removed] Cons.prems q by auto
  qed
qed

text \<open>Queueing: a fresh packet of the arena, and the packet of an observer in a call of \<open>OnMatch\<close>.\<close>

lemma port_inv_next_pkt: "port_inv (sys\<lparr>ps_m := st\<rparr>) \<Longrightarrow> port_inv (sys\<lparr>ps_m := st, next_pkt_m := next_pkt_m sys + 1\<rparr>)"
  by (simp add: port_inv_def obs_at_def watched_ok_def fired_def closed_def regd_def)

lemma QueueUser_inv:
  assumes inv: "port_inv sys"
  obtains status st' where "QueueUser pk (if ok then Some (next_pkt_m sys) else None) (ps_m sys) = Some (status, st')"
    "port_inv (sys\<lparr>ps_m := st', next_pkt_m := next_pkt_m sys + 1\<rparr>)"
proof -
  let ?st = "ps_m sys" and ?i = "next_pkt_m sys"
  let ?d = "port_m ?st"
  have free: "pkts_m ?st (Eph ?i) = None" using inv by (rule port_invD) simp
  have q: "queue_ok ?st" using inv by (rule port_invD)
  have notin: "Eph ?i \<notin> set (packets_m ?d)" using queue_okD(4) [OF q, of ?i] free by (simp add: eph_at_def)
  have same: "port_inv (sys\<lparr>ps_m := ?st, next_pkt_m := ?i + 1\<rparr>)"
    by (rule port_inv_next_pkt) (simp add: inv)
  consider "\<not> ok" | "ok" "zero_handles_m ?d" | "ok" "\<not> zero_handles_m ?d" "num_ephemeral_packets_m ?d > kMaxAllocatedPacketCountPerPort"
    | "ok" "\<not> zero_handles_m ?d" "num_ephemeral_packets_m ?d \<le> kMaxAllocatedPacketCountPerPort" by fastforce
  then show thesis
  proof cases
    case 1
    then show ?thesis by (intro that [OF _ same]) (simp add: QueueUser_no_memory)
  next
    case 2
    then show ?thesis by (intro that [OF _ same]) (simp add: QueueUser_closed [OF free])
  next
    case 3
    have "port_inv (sys\<lparr>ps_m := ?st\<lparr>limit_exceptions_m := limit_exceptions_m ?st + 1\<rparr>\<rparr>)"
      by (rule port_inv_port_frame [OF inv]) simp_all
    with 3 show ?thesis using port_inv_next_pkt by (intro that) (auto simp: QueueUser_limit [OF free])
  next
    case 4
    let ?d' = "?d\<lparr>packets_m := packets_m ?d @ [Eph ?i], num_ephemeral_packets_m := num_ephemeral_packets_m ?d + 1, sema_m := Semaphore_Post (sema_m ?d)\<rparr>"
    let ?st' = "?st\<lparr>port_m := ?d', pkts_m := (pkts_m ?st)(Eph ?i \<mapsto> user_packet pk)\<rparr>"
    have "eph_at ?st' j" for j
    proof (cases "j = ?i")
      case False
      show ?thesis by (rule eph_at_frame [OF queue_okD(4) [OF q]]) (use False in simp_all)
    qed (simp add: eph_at_def)
    then have "queue_ok ?st'" using queue_okD [OF q] notin by (simp add: queue_ok_def)
    moreover have "obs_at (sys\<lparr>ps_m := ?st', next_pkt_m := ?i + 1\<rparr>) j" for j
      by (rule obs_at_frame [OF port_invD(3) [OF inv]]) (simp_all add: fired_def closed_def regd_def)
    ultimately have "port_inv (sys\<lparr>ps_m := ?st', next_pkt_m := ?i + 1\<rparr>)"
      using inv 4(2) by (simp add: port_inv_def watched_ok_def)
    with 4 show ?thesis by (intro that) (simp_all add: QueueUser_ok)
  qed
qed

text \<open>An observer in a call.\<close>

lemma fired_alive:
  assumes "port_inv sys" "(i, k, f) \<in> set (firing_m sys)"
  obtains ob pkt where "pobs_m (ps_m sys) i = Some ob" "pkts_m (ps_m sys) (Obs i) = Some pkt" "pp_allocator pkt = None" "pp_observer pkt = None"
    "fired sys i = {(k, f)}" "regd sys i = {}"
    "po_dispatcher ob = Some k \<and> i \<in> set (port_observers_m (port_m (ps_m sys))) \<and> closed sys i = {} \<and> (Obs i \<in> set (packets_m (port_m (ps_m sys))) \<longrightarrow> f = FReap)
     \<or> po_dispatcher ob = None \<and> i \<notin> set (port_observers_m (port_m (ps_m sys))) \<and> closed sys i = {k} \<and> zero_handles_m (port_m (ps_m sys)) \<and> Obs i \<notin> set (packets_m (port_m (ps_m sys)))"
proof -
  have "(k, f) \<in> fired sys i" using assms(2) by (simp add: fired_def)
  then show thesis
    using that port_invD(3) [OF assms(1), of i] unfolding obs_at_def Let_def obs_ok_def
    by (auto split: option.splits)
qed

lemma mem_reaping:
  "(j, k, f) \<in> set (map (\<lambda>(j, k, f). (j, k, if j = i then FReap else f)) xs) \<longleftrightarrow>
     (\<exists>f'. (j, k, f') \<in> set xs \<and> f = (if j = i then FReap else f'))"
  by (induction xs) auto

lemma AFireQueue_inv:
  assumes inv: "port_inv sys" and fire: "(i, k, FMatch signals) \<in> set (firing_m sys)"
  obtains st' where "OnMatch_queue now i signals (ps_m sys) = Some st'"
    "port_inv (sys\<lparr>ps_m := st', firing_m := map (\<lambda>(j, k, f). (j, k, if j = i then FReap else f)) (firing_m sys)\<rparr>)"
proof -
  let ?st = "ps_m sys" and ?F = "map (\<lambda>(j, k, f). (j, k, if j = i then FReap else f)) (firing_m sys)"
  obtain ob pkt where o: "pobs_m ?st i = Some ob" "pkts_m ?st (Obs i) = Some pkt" "pp_allocator pkt = None" "pp_observer pkt = None"
    and f: "fired sys i = {(k, FMatch signals)}" and r: "regd sys i = {}"
    and c: "po_dispatcher ob = Some k \<and> i \<in> set (port_observers_m (port_m ?st)) \<and> closed sys i = {} \<or>
      po_dispatcher ob = None \<and> i \<notin> set (port_observers_m (port_m ?st)) \<and> closed sys i = {k} \<and> zero_handles_m (port_m ?st)"
    and nq: "Obs i \<notin> set (packets_m (port_m ?st))"
    using fired_alive [OF inv fire] by (metis fire.distinct(1))
  obtain st' pkt' where st': "OnMatch_queue now i signals ?st = Some st'" "pkts_m st' = (pkts_m ?st)(Obs i \<mapsto> pkt')" "pobs_m st' = pobs_m ?st"
    "pp_allocator pkt' = None" "pp_observer pkt' = None"
    "packets_m (port_m st') = (if zero_handles_m (port_m ?st) then packets_m (port_m ?st) else packets_m (port_m ?st) @ [Obs i])"
    "port_observers_m (port_m st') = port_observers_m (port_m ?st)" "zero_handles_m (port_m st') = zero_handles_m (port_m ?st)"
    "num_ephemeral_packets_m (port_m st') = num_ephemeral_packets_m (port_m ?st)"
    using OnMatch_queue_spec [OF o nq, of now signals] by blast
  let ?sys' = "sys\<lparr>ps_m := st', firing_m := ?F\<rparr>"
  have fm: "(i, k', f') \<in> set (firing_m sys) \<longleftrightarrow> k' = k \<and> f' = FMatch signals" for k' f'
    using f by (simp add: fired_def set_eq_iff)
  have F': "fired ?sys' j = (if j = i then {(k, FReap)} else fired sys j)" for j
    using fm by (auto simp: fired_def mem_reaping simp del: set_map)
  have frame: "closed ?sys' = closed sys" "regd ?sys' = regd sys" "watched_ok ?sys' = watched_ok sys"
    by (auto simp: closed_def regd_def watched_ok_def fun_eq_iff)
  have q: "queue_ok ?st" using inv by (rule port_invD)
  have "eph_at st' j" for j
    by (rule eph_at_frame [OF queue_okD(4) [OF q]]) (auto simp: st')
  then have "queue_ok st'"
    using queue_okD [OF q] nq by (auto simp: queue_ok_def st')
  moreover have "obs_at ?sys' j" for j
  proof (cases "j = i")
    case True
    with c o nq r show ?thesis unfolding obs_at_def Let_def obs_ok_def F' frame by (auto simp: st')
  next
    case False
    show ?thesis by (rule obs_at_frame [OF port_invD(3) [OF inv]]) (use False in \<open>auto simp: st' F' frame\<close>)
  qed
  ultimately have "port_inv ?sys'"
    using inv by (auto simp: port_inv_def frame st' o(1))
  with that st'(1) show thesis by blast
qed

lemma AFireReap_inv:
  assumes inv: "port_inv sys" and fire: "(i, k, FReap) \<in> set (firing_m sys)"
  obtains st' where "MaybeReap i (ps_m sys) = Some st'"
    "port_inv (sys\<lparr>ps_m := st', firing_m := filter (\<lambda>(j, k, f). j \<noteq> i) (firing_m sys)\<rparr>)"
proof -
  let ?st = "ps_m sys" and ?F = "filter (\<lambda>(j, k, f). j \<noteq> i) (firing_m sys)"
  obtain ob pkt where o: "pobs_m ?st i = Some ob" "pkts_m ?st (Obs i) = Some pkt" "pp_allocator pkt = None" "pp_observer pkt = None"
    and r: "regd sys i = {}"
    and c: "po_dispatcher ob = Some k \<and> i \<in> set (port_observers_m (port_m ?st)) \<and> closed sys i = {} \<or>
      po_dispatcher ob = None \<and> i \<notin> set (port_observers_m (port_m ?st)) \<and> closed sys i = {k} \<and> zero_handles_m (port_m ?st) \<and> Obs i \<notin> set (packets_m (port_m ?st))"
    using fired_alive [OF inv fire] by metis
  have q: "queue_ok ?st" using inv by (rule port_invD)
  define st' where "st' = the (MaybeReap i ?st)"
  have st': "MaybeReap i ?st = Some st'" using o by (auto simp: MaybeReap_def st'_def Let_def split: option.split)
  let ?sys' = "sys\<lparr>ps_m := st', firing_m := ?F\<rparr>"
  have F': "fired ?sys' j = (if j = i then {} else fired sys j)" for j
    by (auto simp: fired_def)
  have frame: "closed ?sys' = closed sys" "regd ?sys' = regd sys" "watched_ok ?sys' = watched_ok sys"
    by (auto simp: closed_def regd_def watched_ok_def fun_eq_iff)
  have d': "packets_m (port_m st') = packets_m (port_m ?st)" "zero_handles_m (port_m st') = zero_handles_m (port_m ?st)"
    "num_ephemeral_packets_m (port_m st') = num_ephemeral_packets_m (port_m ?st)"
    "port_observers_m (port_m st') = (if po_dispatcher ob = None then port_observers_m (port_m ?st) else remove1 i (port_observers_m (port_m ?st)))"
    "j \<noteq> i \<Longrightarrow> pobs_m st' j = pobs_m ?st j" "p \<noteq> Obs i \<Longrightarrow> pkts_m st' p = pkts_m ?st p" for j p
    using o by (auto simp: MaybeReap_def st'_def delete_observer_def Let_def split: option.split)
  have o': "pobs_m st' i = (if po_dispatcher ob = None then Some ob
        else if Obs i \<in> set (packets_m (port_m ?st)) then Some (ob\<lparr>po_dispatcher := None\<rparr>) else None)"
    "pkts_m st' (Obs i) = (if po_dispatcher ob = None then Some pkt
        else if Obs i \<in> set (packets_m (port_m ?st)) then Some (pkt\<lparr>pp_observer := Some i\<rparr>) else None)"
    using o by (auto simp: MaybeReap_def st'_def delete_observer_def Let_def split: option.split)
  have "eph_at st' j" for j
    by (rule eph_at_frame [OF queue_okD(4) [OF q]]) (simp_all add: d')
  then have "queue_ok st'"
    using queue_okD [OF q] by (simp add: queue_ok_def d')
  moreover have "obs_at ?sys' j" for j
  proof (cases "j = i")
    case True
    from c show ?thesis
      using o r queue_okD(2) [OF q] unfolding True obs_at_def Let_def obs_ok_def F' frame
      by (elim disjE conjE) (simp_all add: d' o')
  next
    case False
    show ?thesis by (rule obs_at_frame [OF port_invD(3) [OF inv]]) (use False in \<open>auto simp: d' F' frame\<close>)
  qed
  ultimately have "port_inv ?sys'"
    using inv o(1) d'(5) by (simp add: port_inv_def frame d'(1-4,6)) (metis option.distinct(1))
  with that st' show thesis by blast
qed

text \<open>A watched object moves observers from its list to its calls.\<close>

lemma obs_ok_registered:
  assumes "obs_at sys i" "k \<in> regd sys i"
  shows "fired sys i = {}" "regd sys i = {k}" "pobs_m (ps_m sys) i \<noteq> None"
  using assms unfolding obs_at_def Let_def obs_ok_def by (auto split: option.splits)

lemma obs_at_called:
  assumes "obs_at sys i" "k \<in> regd sys i" "ps_m sys' = ps_m sys" "closed sys' i = closed sys i"
    and "fired sys' i = {(k, f)}" "regd sys' i = {}"
  shows "obs_at sys' i"
  using assms unfolding obs_at_def Let_def obs_ok_def by (auto split: option.splits)

lemma fire_of_sel: "fst (fire_of k c) = call_id c" "fst (snd (fire_of k c)) = k"
  by (cases c; simp add: fire_of_def)+

lemma on_watched_inv:
  assumes inv: "port_inv sys" and disp: "disp_inv d'" "koid_m d' = k" and call: "\<And>i. call_id (call i) = i"
    and obs: "observers_m d' = filter (\<lambda>x. \<not> sel x) (observers_m (watched_m sys k))"
    and calls: "calls_m d' = calls_m (watched_m sys k) @ map (\<lambda>x. call (obs_id x)) (filter sel (observers_m (watched_m sys k)))"
  shows "port_inv (on_watched k d' sys)"
proof -
  let ?d = "watched_m sys k" and ?sys' = "on_watched k d' sys"
  define called where "called = obs_id ` {x \<in> set (observers_m ?d). sel x}"
  have w: "watched_ok sys" using inv by (rule port_invD)
  then have dist: "distinct (map obs_id (observers_m ?d))" by (simp add: watched_ok_def disp_inv_def)
  have ps: "ps_m ?sys' = ps_m sys" "closed ?sys' = closed sys" "next_obs_m ?sys' = next_obs_m sys" "next_pkt_m ?sys' = next_pkt_m sys" "drained_m ?sys' = drained_m sys"
    by (simp_all add: on_watched_def closed_def fun_eq_iff)
  have stay: "i \<in> obs_id ` {x \<in> set (observers_m ?d). \<not> sel x} \<longleftrightarrow> i \<in> obs_id ` set (observers_m ?d) \<and> i \<notin> called" for i
    using dist by (auto simp: called_def distinct_map inj_on_def)
  have R: "regd ?sys' i = (if i \<in> called then regd sys i - {k} else regd sys i)" for i
    using stay [of i] by (auto simp: regd_def on_watched_def obs)
  define g where "g i = snd (snd (fire_of k (call i)))" for i
  have g: "fire_of k (call i) = (i, k, g i)" for i
    by (simp add: prod_eq_iff g_def fire_of_sel call)
  have "set (new_calls k ?d d') = (\<lambda>i. (i, k, g i)) ` called"
    by (auto simp: new_calls_def calls called_def g)
  then have F: "fired ?sys' i = fired sys i \<union> (if i \<in> called then {(k, g i)} else {})" for i
    by (auto simp: fired_def on_watched_def)
  have "obs_at ?sys' i" for i
  proof (cases "i \<in> called")
    case True
    then have "k \<in> regd sys i" by (auto simp: called_def regd_def)
    note o = port_invD(3) [OF inv, of i] and r = obs_ok_registered [OF port_invD(3) [OF inv] this]
    show ?thesis
      by (rule obs_at_called [OF o \<open>k \<in> _\<close>]) (use True r in \<open>simp_all add: ps F R\<close>)
  next
    case False
    show ?thesis
      by (rule obs_at_frame [OF port_invD(3) [OF inv]]) (use False in \<open>simp_all add: ps F R\<close>)
  qed
  moreover have "disp_ids d' \<subseteq> disp_ids ?d"
    by (auto simp: disp_ids_def obs calls call)
  then have "watched_ok ?sys'"
    using w disp by (auto simp: watched_ok_def on_watched_def)
  ultimately show ?thesis
    using inv by (simp add: port_inv_def ps)
qed

lemma UpdateStateLocked_watched:
  assumes "port_inv sys" shows "port_inv (on_watched k (UpdateStateLocked c m (watched_m sys k)) sys)"
proof -
  have w: "koid_m (watched_m sys k) = k" "disp_inv (watched_m sys k)" using port_invD(2) [OF assms] by (auto simp: watched_ok_def)
  let ?new = "updated_signals c m (watched_m sys k)"
  show ?thesis
    by (rule on_watched_inv [OF assms disp_inv_UpdateStateLocked [OF w(2)], where call = "\<lambda>i. OnMatch i ?new" and
        sel = "\<lambda>x. ?new \<noteq> signals_m (watched_m sys k) \<and> triggered ?new x"])
      (auto simp: w UpdateStateLocked_eq Let_def)
qed

lemma Dispatcher_Cancel_watched:
  assumes "port_inv sys" shows "port_inv (on_watched k (Dispatcher_Cancel h (watched_m sys k)) sys)"
proof -
  have w: "koid_m (watched_m sys k) = k" "disp_inv (watched_m sys k)" using port_invD(2) [OF assms] by (auto simp: watched_ok_def)
  show ?thesis
    by (rule on_watched_inv [OF assms disp_inv_Cancel [OF w(2)], where call = "\<lambda>i. OnCancel i (signals_m (watched_m sys k))"])
      (simp_all add: w Dispatcher_Cancel_def)
qed

lemma CancelByKey_watched:
  assumes "port_inv sys" shows "port_inv (on_watched k (snd (CancelByKey h port key (watched_m sys k))) sys)"
proof -
  have w: "koid_m (watched_m sys k) = k" "disp_inv (watched_m sys k)" using port_invD(2) [OF assms] by (auto simp: watched_ok_def)
  show ?thesis
    by (rule on_watched_inv [OF assms disp_inv_CancelByKey [OF w(2)], where call = "\<lambda>i. OnCancel i (signals_m (watched_m sys k))"])
      (simp_all add: w CancelByKey_def del: MatchesKey.simps)
qed

text \<open>A new observer.\<close>

lemma AMakeObserver_inv:
  assumes inv: "port_inv sys" and nz: "\<not> zero_handles_m (port_m (ps_m sys))"
    and link: "MakeObserver_link (next_obs_m sys) options handle (watched_m sys k) key signals (ps_m sys) = (True, st)"
  shows "port_inv (on_watched k (snd (AddObserver (port_observer (next_obs_m sys) port key) handle signals (watched_m sys k)))
           (sys\<lparr>ps_m := st, next_obs_m := Suc (next_obs_m sys)\<rparr>))"
    (is "port_inv ?sys'")
proof -
  let ?i = "next_obs_m sys" and ?d = "watched_m sys k" and ?st = "ps_m sys"
  let ?o = "port_observer ?i port key"
  let ?d' = "snd (AddObserver ?o handle signals ?d)"
  have w: "koid_m ?d = k" "disp_inv ?d" "\<And>i. i \<in> disp_ids ?d \<Longrightarrow> i < ?i"
    using port_invD(2) [OF inv] by (auto simp: watched_ok_def)
  obtain pkt where waitable: "is_waitable ?d" and st: "pobs_m st = (pobs_m ?st)(?i \<mapsto> \<lparr>po_options = options, po_dispatcher = Some k\<rparr>)"
    "pkts_m st = (pkts_m ?st)(Obs ?i \<mapsto> pkt)" "pp_allocator pkt = None" "pp_observer pkt = None"
    "port_m st = (port_m ?st)\<lparr>port_observers_m := ?i # port_observers_m (port_m ?st)\<rparr>"
    using link by (auto simp: MakeObserver_link_def PortObserver_new_def PortPacket_new_def w split: if_splits)
  have dead: "pobs_m ?st ?i = None" using inv by (rule port_invD) simp
  then have gone: "?i \<notin> set (port_observers_m (port_m ?st))" "Obs ?i \<notin> set (packets_m (port_m ?st))"
    "fired sys ?i = {}" "closed sys ?i = {}" "regd sys ?i = {}"
    using port_invD(3) [OF inv, of ?i] by (auto simp: obs_at_def obs_ok_def Let_def)
  have id: "obs_id ?o = ?i" by (simp add: port_observer_def)
  have q: "queue_ok ?st" using inv by (rule port_invD)
  have ps: "ps_m ?sys' = st" "closed ?sys' = closed sys" "next_obs_m ?sys' = Suc ?i" "next_pkt_m ?sys' = next_pkt_m sys" "drained_m ?sys' = drained_m sys"
    by (simp_all add: on_watched_def closed_def fun_eq_iff)
  have Rj: "j \<noteq> ?i \<Longrightarrow> fired ?sys' j = fired sys j \<and> regd ?sys' j = regd sys j" for j
    by (auto simp: fired_def regd_def on_watched_def new_calls_def AddObserver_def id fire_of_def)
  have Ri: "fired ?sys' ?i = {} \<and> regd ?sys' ?i = {k} \<or> (\<exists>f. fired ?sys' ?i = {(k, f)} \<and> regd ?sys' ?i = {})"
    using gone(3,5) waitable by (auto simp: fired_def regd_def on_watched_def new_calls_def AddObserver_def id fire_of_def)
  have "eph_at st j" for j
    by (rule eph_at_frame [OF queue_okD(4) [OF q]]) (simp_all add: st)
  then have "queue_ok st"
    using queue_okD [OF q] gone(1) by (simp add: queue_ok_def st)
  moreover have "obs_at ?sys' j" for j
  proof (cases "j = ?i")
    case True
    show ?thesis
      using Ri gone unfolding True obs_at_def Let_def obs_ok_def ps
      by (auto simp: st)
  next
    case False
    show ?thesis
      by (rule obs_at_frame [OF port_invD(3) [OF inv]]) (use False Rj [OF False] in \<open>simp_all add: ps st\<close>)
  qed
  moreover have "disp_inv ?d'"
    using disp_inv_AddObserver [OF w(2), of ?o] w(3) [of ?i] by (auto simp: id)
  moreover have "disp_ids ?d' \<subseteq> insert ?i (disp_ids ?d)" "koid_m ?d' = k"
    by (auto simp: disp_ids_def AddObserver_def id w)
  ultimately show ?thesis
    using inv nz unfolding port_inv_def ps
    by (auto simp: watched_ok_def on_watched_def less_Suc_eq st)
qed

text \<open>The two halves of the second loop of \<open>on_zero_handles\<close>.\<close>

lemma AZeroPop_inv:
  assumes inv: "port_inv sys" and dr: "drained_m sys"
  obtains x st' where "zero_handles_pop (ps_m sys) = Some (x, st')"
    "port_inv (sys\<lparr>ps_m := st', closing_m := (case x of None \<Rightarrow> [] | Some x \<Rightarrow> [x]) @ closing_m sys\<rparr>)"
proof (cases "port_observers_m (port_m (ps_m sys))")
  case Nil
  have eq: "sys\<lparr>ps_m := ps_m sys, closing_m := (case None of None \<Rightarrow> [] | Some x \<Rightarrow> [x]) @ closing_m sys\<rparr> = sys" by simp
  show thesis
    by (rule that [of None "ps_m sys"]) (use inv Nil in \<open>simp add: zero_handles_pop_def, simp only: eq\<close>)
next
  case (Cons i rest)
  let ?st = "ps_m sys"
  have z: "zero_handles_m (port_m ?st)" "packets_m (port_m ?st) = []" using port_invD(4,5) [OF inv dr] .
  have q: "queue_ok ?st" using inv by (rule port_invD)
  obtain ob pkt k where o: "pobs_m ?st i = Some ob" "pkts_m ?st (Obs i) = Some pkt" "po_dispatcher ob = Some k" "pp_allocator pkt = None" "pp_observer pkt = None"
    and s: "closed sys i = {}" "fired sys i = {} \<and> regd sys i = {k} \<or> (\<exists>f. fired sys i = {(k, f)} \<and> regd sys i = {})"
    using port_invD(3) [OF inv, of i] Cons unfolding obs_at_def Let_def obs_ok_def by (auto split: option.splits)
  let ?st' = "?st\<lparr>port_m := (port_m ?st)\<lparr>port_observers_m := rest\<rparr>, pobs_m := (pobs_m ?st)(i \<mapsto> ob\<lparr>po_dispatcher := None\<rparr>)\<rparr>"
  let ?sys' = "sys\<lparr>ps_m := ?st', closing_m := (i, k) # closing_m sys\<rparr>"
  have dist: "i \<notin> set rest" using queue_okD(2) [OF q] Cons by simp
  have frame: "fired ?sys' = fired sys" "regd ?sys' = regd sys" "watched_ok ?sys' = watched_ok sys"
    "closed ?sys' j = (if j = i then insert k (closed sys j) else closed sys j)" for j
    by (auto simp: fired_def closed_def regd_def watched_ok_def fun_eq_iff)
  have "eph_at ?st' j" for j
    by (rule eph_at_frame [OF queue_okD(4) [OF q]]) simp_all
  then have "queue_ok ?st'" using queue_okD [OF q] Cons by (simp add: queue_ok_def)
  moreover have "obs_at ?sys' j" for j
  proof (cases "j = i")
    case True
    show ?thesis
      using o s z dist unfolding True obs_at_def Let_def obs_ok_def frame by auto
  next
    case False
    show ?thesis
      by (rule obs_at_frame [OF port_invD(3) [OF inv]]) (use False Cons in \<open>simp_all add: frame\<close>)
  qed
  ultimately have "port_inv ?sys'"
    using inv o(1) unfolding port_inv_def frame by auto
  with Cons o show thesis by (intro that [of "Some (i, k)" ?st']) (simp_all add: zero_handles_pop_def)
qed

lemma delete_observer_sel:
  "port_m (delete_observer i st) = port_m st" "pobs_m (delete_observer i st) = (pobs_m st)(i := None)"
  "pkts_m (delete_observer i st) = (pkts_m st)(Obs i := None)"
  by (simp_all add: delete_observer_def)

lemma AZeroRemove_inv:
  assumes inv: "port_inv sys" and cl: "(i, k) \<in> set (closing_m sys)" and unlocked: "\<not> locked k sys"
  shows "pobs_m (ps_m sys) i \<noteq> None"
    "port_inv (sys\<lparr>watched_m := (watched_m sys)(k := snd (snd (RemoveObserver i (watched_m sys k)))),
       ps_m := delete_observer i (ps_m sys), closing_m := filter (\<lambda>(j, k). j \<noteq> i) (closing_m sys)\<rparr>)"
    (is "port_inv ?sys'")
proof -
  let ?st = "ps_m sys" and ?st' = "delete_observer i (ps_m sys)"
  have "k \<in> closed sys i" using cl by (simp add: closed_def)
  moreover have "(k, f) \<notin> fired sys i" for f using unlocked by (force simp: locked_def list_ex_iff fired_def)
  ultimately have s: "pobs_m ?st i \<noteq> None" "i \<notin> set (port_observers_m (port_m ?st))" "Obs i \<notin> set (packets_m (port_m ?st))"
    "fired sys i = {}" "regd sys i \<subseteq> {k}"
    using port_invD(3) [OF inv, of i] unfolding obs_at_def Let_def obs_ok_def by (auto split: option.splits)
  then show "pobs_m ?st i \<noteq> None" by simp
  have q: "queue_ok ?st" and w: "watched_ok sys" using inv by (auto intro: port_invD)
  have frame: "fired ?sys' = fired sys" "regd ?sys' j = (if j = i then regd sys j - {k} else regd sys j)"
    "closed ?sys' j = (if j = i then {} else closed sys j)" for j
    by (auto simp: fired_def closed_def regd_def fun_eq_iff RemoveObserver_def)
  have "eph_at ?st' j" for j
    by (rule eph_at_frame [OF queue_okD(4) [OF q]]) (simp_all add: delete_observer_def)
  then have "queue_ok ?st'" using queue_okD [OF q] by (simp add: queue_ok_def delete_observer_def)
  moreover have "obs_at ?sys' j" for j
  proof (cases "j = i")
    case True
    show ?thesis
      using s unfolding True obs_at_def Let_def obs_ok_def frame by (auto simp: delete_observer_def)
  next
    case False
    show ?thesis
      by (rule obs_at_frame [OF port_invD(3) [OF inv]]) (use False in \<open>simp_all add: frame delete_observer_sel\<close>)
  qed
  moreover have "watched_ok ?sys'"
    using w disp_inv_RemoveObserver [of "watched_m sys k" i]
    by (auto simp: watched_ok_def RemoveObserver_def disp_ids_def)
  ultimately show "port_inv ?sys'"
    using inv unfolding port_inv_def by (auto simp: delete_observer_def)
qed

subsection \<open>No access to freed memory\<close>

lemma find_SomeD: "List.find P xs = Some x \<Longrightarrow> x \<in> set xs \<and> P x"
  by (induction xs) (auto split: if_splits)

lemma port_inv_sema: "port_inv sys \<Longrightarrow> port_inv (sys\<lparr>ps_m := (ps_m sys)\<lparr>port_m := (port_m (ps_m sys))\<lparr>sema_m := sema\<rparr>\<rparr>\<rparr>)"
  by (rule port_inv_port_frame) simp_all

lemma port_inv_takers [simp]: "port_inv (sys\<lparr>takers_m := n\<rparr>) = port_inv sys"
  by (simp add: port_inv_def obs_at_def watched_ok_def fired_def closed_def regd_def)

lemma port_step_inv:
  assumes "port_inv sys" shows "\<exists>sys'. port_step a sys = Some sys' \<and> port_inv sys'"
proof (cases a)
  case (AQueueUser pk ok)
  show ?thesis by (rule QueueUser_inv [OF assms, of pk ok]) (use AQueueUser in simp)
next
  case ADequeueWait
  then show ?thesis using port_inv_sema [OF assms] by (auto simp: Let_def Semaphore_Wait_def)
next
  case ADequeueTimeout
  then show ?thesis using port_inv_sema [OF assms] by (auto simp: Let_def)
next
  case ADequeueTake
  let ?sema = "sema_m (port_m (ps_m sys))"
  obtain pk st' where 1: "Dequeue_take (ps_m sys) = Some (pk, st')" "port_inv (sys\<lparr>ps_m := st'\<rparr>)"
    by (rule Dequeue_take_inv [OF assms])
  obtain pk2 st2 where 2: "Dequeue_take ((ps_m sys)\<lparr>port_m := (port_m (ps_m sys))\<lparr>sema_m := ?sema\<lparr>sem_woken := sem_woken ?sema - 1\<rparr>\<rparr>\<rparr>) = Some (pk2, st2)"
    "port_inv (sys\<lparr>ps_m := st2\<rparr>)"
    by (rule Dequeue_take_inv [OF port_inv_sema [OF assms]]) simp
  from ADequeueTake assms 1 2 show ?thesis by (simp add: Let_def)
next
  case (AQueueInterrupt i t)
  then show ?thesis using assms by (auto simp: QueueInterruptPacket_def Let_def intro!: port_inv_port_frame)
next
  case (ARemoveInterrupt i)
  then show ?thesis using assms by (auto simp: RemoveInterruptPacket_def Let_def intro!: port_inv_port_frame)
next
  case (AMakeObserver options handle k key signals)
  then show ?thesis using assms AMakeObserver_inv [OF assms, of options handle k key signals] by (auto simp: Let_def split: prod.split)
next
  case (AUpdate k c m)
  then show ?thesis using assms UpdateStateLocked_watched [OF assms] by simp
next
  case (ACancelHandle k handle)
  then show ?thesis using assms Dispatcher_Cancel_watched [OF assms] by simp
next
  case (ACancelByKey k handle key)
  then show ?thesis using assms CancelByKey_watched [OF assms] by simp
next
  case (ACancelQueued handle key)
  have "distinct (packets_m (port_m (ps_m sys)))" using port_invD(1) [OF assms] by (rule queue_okD)
  with ACancelQueued CancelQueued_loop_inv [OF assms subset_refl, of handle key False] show ?thesis by (auto simp: CancelQueued_def)
next
  case (AFireQueue i now)
  show ?thesis
  proof (cases "List.find (\<lambda>(j, k, f). j = i \<and> f \<noteq> FReap) (firing_m sys)")
    case None
    with AFireQueue assms show ?thesis by simp
  next
    case (Some x)
    then obtain k signals where x: "x = (i, k, FMatch signals)" "(i, k, FMatch signals) \<in> set (firing_m sys)"
      by (auto dest!: find_SomeD) (metis fire.exhaust)
    show ?thesis by (rule AFireQueue_inv [OF assms x(2), of now]) (use Some AFireQueue x(1) in auto)
  qed
next
  case (AFireReap i)
  then show ?thesis
  proof (cases "list_ex (\<lambda>(j, k, f). j = i \<and> f = FReap) (firing_m sys)")
    case True
    then obtain k where "(i, k, FReap) \<in> set (firing_m sys)" by (auto simp: list_ex_iff)
    then show ?thesis by (rule AFireReap_inv [OF assms]) (use True AFireReap in auto)
  qed (use assms in auto)
next
  case AZeroStart
  then show ?thesis using assms by (auto simp: zero_handles_start_def intro!: port_inv_port_frame)
next
  case AZeroDrain
  show ?thesis
  proof (cases "packets_m (port_m (ps_m sys))")
    case Nil
    with AZeroDrain assms show ?thesis
      by (auto simp: port_inv_def obs_at_def watched_ok_def fired_def closed_def regd_def)
  next
    case (Cons p rest)
    show ?thesis by (rule drain_packet_unqueue [OF assms Cons]) (use AZeroDrain assms Cons in auto)
  qed
next
  case AZeroPop
  show ?thesis
  proof (cases "drained_m sys")
    case True
    show ?thesis by (rule AZeroPop_inv [OF assms True]) (use AZeroPop True in auto)
  qed (use AZeroPop assms in auto)
next
  case (AZeroRemove i)
  then show ?thesis using assms AZeroRemove_inv [OF assms]
    by (fastforce dest!: find_SomeD split: option.split)
qed

lemma port_run_inv: "port_inv sys \<Longrightarrow> \<exists>sys'. port_run acts sys = Some sys' \<and> port_inv sys'"
proof (induction acts arbitrary: sys)
  case (Cons a acts)
  obtain sys' where "port_step a sys = Some sys'" "port_inv sys'" using port_step_inv [OF Cons.prems] by blast
  with Cons.IH [of sys'] show ?case by simp
qed simp

text \<open>A new port, and objects that nobody watches yet.\<close>

definition port_start :: "port \<Rightarrow> (nat \<Rightarrow> PortInterruptPacket) \<Rightarrow> (zx_koid \<Rightarrow> dispatcher) \<Rightarrow> port_sys" where
  "port_start d ipkts watched =
     \<lparr>ps_m = \<lparr>port_m = d, pkts_m = (\<lambda>p. None), pobs_m = (\<lambda>i. None), ipkts_m = ipkts, limit_exceptions_m = 0\<rparr>,
      watched_m = watched, firing_m = [], drained_m = False, closing_m = [], takers_m = 0, next_obs_m = 0, next_pkt_m = 0\<rparr>"

definition unwatched :: "(zx_koid \<Rightarrow> dispatcher) \<Rightarrow> bool" where
  "unwatched watched \<longleftrightarrow> (\<forall>k. koid_m (watched k) = k \<and> observers_m (watched k) = [] \<and> calls_m (watched k) = [])"

lemma port_start_inv:
  "unwatched watched \<Longrightarrow> port_inv (port_start (PortDispatcher_new koid options) ipkts watched)"
  by (auto simp: port_start_def PortDispatcher_new_def unwatched_def port_inv_def queue_ok_def eph_at_def watched_ok_def
      disp_inv_def disp_ids_def obs_at_def obs_ok_def fired_def closed_def regd_def)

text \<open>\<open>on_zero_handles\<close> has returned and no call into an observer is under way.\<close>

definition closed_down :: "port_sys \<Rightarrow> bool" where
  "closed_down sys \<longleftrightarrow> drained_m sys \<and> port_observers_m (port_m (ps_m sys)) = [] \<and> closing_m sys = [] \<and> firing_m sys = []"

definition nothing_left :: "port_sys \<Rightarrow> bool" where
  "nothing_left sys \<longleftrightarrow>
     packets_m (port_m (ps_m sys)) = [] \<and> num_ephemeral_packets_m (port_m (ps_m sys)) = 0 \<and>
     (\<forall>i. pobs_m (ps_m sys) i = None \<and> pkts_m (ps_m sys) (Obs i) = None \<and> pkts_m (ps_m sys) (Eph i) = None) \<and>
     (\<forall>k. observers_m (watched_m sys k) = [])"

lemma closed_down_nothing_left:
  assumes inv: "port_inv sys" and cd: "closed_down sys" shows "nothing_left sys"
proof -
  have q: "queue_ok (ps_m sys)" and e: "packets_m (port_m (ps_m sys)) = []"
    using inv cd by (auto intro: port_invD simp: closed_down_def)
  have dead: "pobs_m (ps_m sys) i = None \<and> pkts_m (ps_m sys) (Obs i) = None \<and> regd sys i = {}" for i
    using port_invD(3) [OF inv, of i] cd e unfolding obs_at_def Let_def obs_ok_def
    by (auto simp: closed_down_def fired_def closed_def split: option.splits)
  have "observers_m (watched_m sys k) = []" for k
  proof (rule ccontr)
    assume "observers_m (watched_m sys k) \<noteq> []"
    then have "k \<in> regd sys (obs_id (hd (observers_m (watched_m sys k))))" by (auto simp: regd_def)
    with dead show False by auto
  qed
  moreover have "pkts_m (ps_m sys) (Eph i) = None" for i
    using queue_okD(4) [OF q, of i] e by (auto simp: eph_at_def split: option.splits)
  ultimately show ?thesis
    using dead e queue_okD(5) [OF q] by (simp add: nothing_left_def)
qed

text \<open>
  C3: Whatever users, watched objects, waiting threads and the closing of the port do, and however
  their critical sections interleave, no operation of a port touches a packet or an observer that has
  been freed. Once the port has been closed and the calls into its observers have ended, every
  packet and every observer has been freed, and no watched object still points to one.
\<close>

theorem port_lifetimes_safe:
  assumes "PortDispatcher_Create options True global_koid = (ZX_OK, Some (d, rights), global_koid')" "unwatched watched"
  shows "\<exists>sys. port_run acts (port_start d ipkts watched) = Some sys \<and> (closed_down sys \<longrightarrow> nothing_left sys)"
proof -
  obtain koid where "d = PortDispatcher_new koid options"
    using assms(1) by (auto simp: PortDispatcher_Create_def GenerateKernelObjectId_def Let_def split: if_splits)
  with port_run_inv [OF port_start_inv [OF assms(2)]] closed_down_nothing_left show ?thesis by blast
qed

text \<open>Two events are watched; the port is closed while the first event's call is under
  way, and the call finds that the closing thread has taken the observer over.\<close>

definition example_watched :: "zx_koid \<Rightarrow> dispatcher" where
  "example_watched k = Dispatcher_new k ZX_OBJ_TYPE_EVENT ZX_DEFAULT_EVENT_RIGHTS 0 0"

definition example_acts :: "port_action list" where
  "example_acts =
     [AQueueUser \<lparr>pk_key = 5, pk_type = 9, pk_status = 1, pk_payload = PkBytes []\<rparr> True,
      AMakeObserver 0 3 1 77 8, AMakeObserver 0 4 2 78 8,
      AUpdate 1 0 8, AFireQueue 0 100, AZeroStart, AUpdate 2 0 8,
      AZeroDrain, AZeroDrain, AZeroDrain, AZeroPop, AZeroPop, AFireReap 0, AFireQueue 1 101, AFireReap 1,
      AZeroRemove 1, AZeroRemove 0]"

lemma example_unwatched: "unwatched example_watched"
  by (simp add: unwatched_def example_watched_def Dispatcher_new_def)

lemma example_closes: "map_option closed_down (port_run example_acts (port_start (PortDispatcher_new 1000 0) (\<lambda>i. \<lparr>ip_timestamp = 0, ip_key = 0\<rparr>) example_watched)) = Some True"
  by code_simp

theorem port_lifetimes_safe_witness:
  "\<exists>sys. port_run example_acts (port_start (PortDispatcher_new 1000 0) (\<lambda>i. \<lparr>ip_timestamp = 0, ip_key = 0\<rparr>) example_watched) = Some sys \<and>
     closed_down sys \<and> nothing_left sys"
  using port_lifetimes_safe [where options = 0 and global_koid = 1000 and watched = example_watched and acts = example_acts and
      ipkts = "\<lambda>i. \<lparr>ip_timestamp = 0, ip_key = 0\<rparr>", OF _ example_unwatched] example_closes
  by (auto simp: PortDispatcher_Create_def GenerateKernelObjectId_def Let_def)

subsection \<open>Closing ends\<close>

text \<open>What is left to do once the last handle is gone.\<close>

definition fire_work :: "nat \<times> zx_koid \<times> fire \<Rightarrow> nat" where
  "fire_work x = (case x of (i, k, FMatch s) \<Rightarrow> 2 | (i, k, FReap) \<Rightarrow> 1)"

definition close_work :: "port_sys \<Rightarrow> nat" where
  "close_work sys = length (packets_m (port_m (ps_m sys))) + (if drained_m sys then 0 else 1) + sum_list (map fire_work (firing_m sys)) +
     2 * length (port_observers_m (port_m (ps_m sys))) + length (closing_m sys)"

lemma sum_list_map_less:
  fixes f g :: "'a \<Rightarrow> nat"
  assumes "x \<in> set xs" "\<And>y. y \<in> set xs \<Longrightarrow> f y \<le> g y" "f x < g x"
  shows "sum_list (map f xs) < sum_list (map g xs)"
  using assms
proof (induction xs)
  case (Cons a xs)
  have "sum_list (map f xs) \<le> sum_list (map g xs)" using Cons.prems by (intro sum_list_mono) simp
  with Cons show ?case by (cases "x = a") (auto intro: add_less_le_mono add_le_less_mono)
qed simp

lemma sum_list_filter_less:
  fixes g :: "'a \<Rightarrow> nat"
  assumes "x \<in> set xs" "\<not> P x" "0 < g x"
  shows "sum_list (map g (filter P xs)) < sum_list (map g xs)"
proof -
  have "sum_list (map g (filter P xs)) = sum_list (map (\<lambda>y. if P y then g y else 0) xs)"
    by (simp add: sum_list_map_filter')
  also have "\<dots> < sum_list (map g xs)"
    using assms by (intro sum_list_map_less [of x]) auto
  finally show ?thesis .
qed

lemma progress_drain:
  assumes inv: "port_inv sys" and z: "zero_handles_m (port_m (ps_m sys))" and nd: "\<not> drained_m sys"
  obtains sys' where "port_step AZeroDrain sys = Some sys'" "zero_handles_m (port_m (ps_m sys'))" "close_work sys' < close_work sys"
proof (cases "packets_m (port_m (ps_m sys))")
  case Nil
  with z nd show thesis by (intro that [of "sys\<lparr>drained_m := True\<rparr>"]) (simp_all add: close_work_def)
next
  case (Cons p rest)
  then obtain pkt where "pkts_m (ps_m sys) p = Some pkt" using queued_alive [OF inv, of p] by (metis list.set_intros(1))
  moreover obtain sys' where s: "port_step AZeroDrain sys = Some sys'" using port_step_inv [OF inv] by blast
  ultimately show thesis
    by (intro that [OF s]) (use Cons z nd in \<open>auto simp: drain_packet_def close_work_def reset_observer_def delete_observer_def
          PortPacket_Free_def Let_def split: option.splits if_splits\<close>)
qed

lemma progress_fire:
  assumes inv: "port_inv sys" and z: "zero_handles_m (port_m (ps_m sys))" and f: "firing_m sys \<noteq> []"
  obtains a sys' where "port_step a sys = Some sys'" "zero_handles_m (port_m (ps_m sys'))" "close_work sys' < close_work sys"
proof -
  obtain i k f where f: "(i, k, f) \<in> set (firing_m sys)" using f by (cases "firing_m sys") auto
  obtain ob pkt where o: "pobs_m (ps_m sys) i = Some ob" "pkts_m (ps_m sys) (Obs i) = Some pkt" and only: "fired sys i = {(k, f)}"
    using fired_alive [OF inv f] by metis
  show thesis
  proof (cases f)
    case FReap
    have less: "sum_list (map fire_work (filter (\<lambda>(j, k, f). j \<noteq> i) (firing_m sys))) < sum_list (map fire_work (firing_m sys))"
      using f by (intro sum_list_filter_less [of "(i, k, f)"]) (auto simp: fire_work_def split: fire.split)
    have "list_ex (\<lambda>(j, k, f). j = i \<and> f = FReap) (firing_m sys)" using f FReap by (auto simp: list_ex_iff)
    moreover have "length (remove1 i xs) \<le> length xs" for xs :: "nat list" by (simp add: length_remove1)
    moreover obtain sys' where s: "port_step (AFireReap i) sys = Some sys'" using port_step_inv [OF inv] by blast
    ultimately have "zero_handles_m (port_m (ps_m sys'))" "packets_m (port_m (ps_m sys')) = packets_m (port_m (ps_m sys))"
      "drained_m sys' = drained_m sys" "closing_m sys' = closing_m sys" "firing_m sys' = filter (\<lambda>(j, k, f). j \<noteq> i) (firing_m sys)"
      "length (port_observers_m (port_m (ps_m sys'))) \<le> length (port_observers_m (port_m (ps_m sys)))"
      using o z by (auto simp: MaybeReap_def delete_observer_def Let_def split: option.splits if_splits)
    with less s show thesis by (intro that [OF s]) (simp_all add: close_work_def)
  next
    case (FMatch s)
    let ?g = "\<lambda>(j, k, f). (j, k, if j = i then FReap else f)"
    have "sum_list (map (fire_work \<circ> ?g) (firing_m sys)) < sum_list (map fire_work (firing_m sys))"
      using f FMatch by (intro sum_list_map_less [of "(i, k, f)"]) (auto simp: fire_work_def split: fire.split)
    moreover have "List.find (\<lambda>(j, k, f). j = i \<and> f \<noteq> FReap) (firing_m sys) = Some (i, k, FMatch s)"
    proof -
      have "List.find (\<lambda>(j, k, f). j = i \<and> f \<noteq> FReap) (firing_m sys) \<noteq> None"
        using f FMatch by (auto simp: find_None_iff)
      then obtain x where x: "List.find (\<lambda>(j, k, f). j = i \<and> f \<noteq> FReap) (firing_m sys) = Some x" by blast
      then have "x \<in> set (firing_m sys)" "fst x = i" by (auto dest: find_SomeD)
      with only FMatch have "x = (i, k, FMatch s)" by (cases x) (auto simp: fired_def set_eq_iff)
      with x show ?thesis by simp
    qed
    moreover obtain sys' where s: "port_step (AFireQueue i 0) sys = Some sys'" using port_step_inv [OF inv] by blast
    ultimately show thesis
      by (intro that [OF s]) (use o z in \<open>auto simp: OnMatch_queue_def Port_Queue_def close_work_def Let_def split: if_splits\<close>)
  qed
qed

lemma progress_close:
  assumes inv: "port_inv sys" and z: "zero_handles_m (port_m (ps_m sys))" and n: "\<not> closed_down sys"
  obtains a sys' where "port_step a sys = Some sys'" "zero_handles_m (port_m (ps_m sys'))" "close_work sys' < close_work sys"
proof -
  consider "\<not> drained_m sys" | "firing_m sys \<noteq> []" | (pop) i rest where "drained_m sys" "port_observers_m (port_m (ps_m sys)) = i # rest"
    | (rm) "firing_m sys = []" "closing_m sys \<noteq> []"
    using n by (cases "port_observers_m (port_m (ps_m sys))") (auto simp: closed_down_def)
  then show thesis
  proof cases
    case 1
    show thesis by (rule progress_drain [OF inv z 1]) (rule that)
  next
    case 2
    show thesis by (rule progress_fire [OF inv z 2]) (rule that)
  next
    case pop
    then obtain ob k where "pobs_m (ps_m sys) i = Some ob" "po_dispatcher ob = Some k"
      using port_invD(3) [OF inv, of i] unfolding obs_at_def Let_def obs_ok_def by (auto split: option.splits)
    moreover obtain sys' where s: "port_step AZeroPop sys = Some sys'" using port_step_inv [OF inv] by blast
    ultimately show thesis
      by (intro that [OF s]) (use pop z in \<open>auto simp: zero_handles_pop_def close_work_def\<close>)
  next
    case rm
    then obtain i k where ik: "(i, k) \<in> set (closing_m sys)" by (cases "closing_m sys") auto
    then obtain x where x: "List.find (\<lambda>(j, k). j = i) (closing_m sys) = Some x"
      by (cases "List.find (\<lambda>(j, k). j = i) (closing_m sys)") (auto simp: find_None_iff)
    then obtain k' where k': "x = (i, k')" "(i, k') \<in> set (closing_m sys)" by (auto dest: find_SomeD)
    have unl: "\<not> locked k' sys" using rm by (simp add: locked_def)
    have "length (filter (\<lambda>(j, k). j \<noteq> i) (closing_m sys)) < length (closing_m sys)"
      using ik by (intro length_filter_less [of "(i, k)"]) auto
    moreover obtain sys' where s: "port_step (AZeroRemove i) sys = Some sys'" using port_step_inv [OF inv] by blast
    ultimately show thesis
      by (intro that [OF s]) (use x k' unl AZeroRemove_inv(1) [OF inv k'(2) unl] z in \<open>auto simp: close_work_def delete_observer_def\<close>)
  qed
qed

lemma port_run_append: "port_run (xs @ ys) sys = (case port_run xs sys of None \<Rightarrow> None | Some sys \<Rightarrow> port_run ys sys)"
  by (induction xs arbitrary: sys) (auto split: option.splits)

lemma port_close_ends:
  "port_inv sys \<Longrightarrow> zero_handles_m (port_m (ps_m sys)) \<Longrightarrow> \<exists>acts sys'. port_run acts sys = Some sys' \<and> closed_down sys' \<and> port_inv sys'"
proof (induction "close_work sys" arbitrary: sys rule: less_induct)
  case less
  show ?case
  proof (cases "closed_down sys")
    case True
    then show ?thesis using less.prems by (intro exI [of _ "[]"]) simp
  next
    case False
    obtain a sys' where s: "port_step a sys = Some sys'" "zero_handles_m (port_m (ps_m sys'))" "close_work sys' < close_work sys"
      by (rule progress_close [OF less.prems False])
    moreover have "port_inv sys'" using port_step_inv [OF less.prems(1), of a] s(1) by simp
    ultimately obtain acts sys'' where "port_run acts sys' = Some sys''" "closed_down sys''" "port_inv sys''"
      using less.hyps by blast
    with s(1) show ?thesis by (intro exI [of _ "a # acts"]) simp
  qed
qed

text \<open>
  C23: Closing a port never gets stuck. After any run, once the last handle is gone, the threads
  that are inside the port, calls into observers and \<open>on_zero_handles\<close> alike, can all finish, and
  then nothing of the port is left.
\<close>

theorem port_close_completes:
  assumes "unwatched watched"
  shows "\<exists>rest sys. port_run (acts @ [AZeroStart] @ rest) (port_start (PortDispatcher_new koid options) ipkts watched) = Some sys \<and>
    closed_down sys \<and> nothing_left sys"
proof -
  let ?start = "port_start (PortDispatcher_new koid options) ipkts watched"
  obtain sys1 where s1: "port_run acts ?start = Some sys1" "port_inv sys1"
    using port_run_inv [OF port_start_inv [OF assms]] by blast
  obtain sys2 where s2: "port_step AZeroStart sys1 = Some sys2" "port_inv sys2" "zero_handles_m (port_m (ps_m sys2))"
    using port_step_inv [OF s1(2), of AZeroStart] by (auto simp: zero_handles_start_def)
  obtain rest sys3 where "port_run rest sys2 = Some sys3" "closed_down sys3" "port_inv sys3"
    using port_close_ends [OF s2(2,3)] by blast
  with s1 s2 closed_down_nothing_left show ?thesis
    by (intro exI [of _ rest] exI [of _ sys3]) (auto simp: port_run_append)
qed

theorem port_close_completes_witness:
  "unwatched example_watched \<and>
   (\<exists>rest sys. port_run ([AMakeObserver 0 3 1 77 8, AUpdate 1 0 8] @ [AZeroStart] @ rest)
      (port_start (PortDispatcher_new 1000 0) (\<lambda>i. \<lparr>ip_timestamp = 0, ip_key = 0\<rparr>) example_watched) = Some sys \<and> closed_down sys \<and> nothing_left sys)"
  using port_close_completes [OF example_unwatched, where acts = "[AMakeObserver 0 3 1 77 8, AUpdate 1 0 8]"] example_unwatched by blast

end
