(* ===== verification/Port_Delivery.thy ===== *)
theory Port_Delivery
  imports Port_Lifetimes
begin

section \<open>What a port delivers\<close>

text \<open>
  Packets that users queue come out in order, a thread that waits for a packet is woken, and the
  limit on the packets of a port. All of it is about the system of \<open>Port_Lifetimes\<close>.
\<close>

subsection \<open>No lost wakeup\<close>

definition dequeuable :: "port \<Rightarrow> nat" where
  "dequeuable d = length (packets_m d) + (if port_options_m d = ZX_PORT_BIND_TO_INTERRUPT then length (interrupt_packets_m d) else 0)"

lemma dequeuable_sema [simp]: "dequeuable (d\<lparr>sema_m := s\<rparr>) = dequeuable d"
  by (simp add: dequeuable_def)

definition sema_ok :: "port_sys \<Rightarrow> bool" where
  "sema_ok sys \<longleftrightarrow>
     (let d = port_m (ps_m sys); s = sema_m d in
      (sem_count s > 0 \<longrightarrow> sem_waiters s = 0) \<and> dequeuable d \<le> sem_count s + sem_woken s + takers_m sys)"

lemma sema_ok_frame:
  assumes "sema_ok sys" "sema_m (port_m (ps_m sys')) = sema_m (port_m (ps_m sys))" "takers_m sys' = takers_m sys"
    and "dequeuable (port_m (ps_m sys')) \<le> dequeuable (port_m (ps_m sys))"
  shows "sema_ok sys'"
  using assms by (auto simp: sema_ok_def Let_def)

lemma sema_ok_post:
  assumes "sema_ok sys" "sema_m (port_m (ps_m sys')) = Semaphore_Post (sema_m (port_m (ps_m sys)))" "takers_m sys' = takers_m sys"
    and "dequeuable (port_m (ps_m sys')) \<le> Suc (dequeuable (port_m (ps_m sys)))"
  shows "sema_ok sys'"
  using assms by (auto simp: sema_ok_def Semaphore_Post_def Let_def)

text \<open>A step that takes a packet: either there is one less, or there was none.\<close>

lemma Dequeue_take_sema:
  assumes "Dequeue_take st = Some (pk, st')"
  shows "sema_m (port_m st') = sema_m (port_m st) \<and> dequeuable (port_m st') = dequeuable (port_m st) - 1"
  using assms by (cases "interrupt_packets_m (port_m st)") (auto simp: Dequeue_take_def dequeuable_def reset_observer_def delete_observer_def PortPacket_Free_def Let_def
      split: if_splits list.splits option.splits)

lemma QueueUser_sema:
  assumes "QueueUser pk fresh st = Some (status, st')"
  shows "sema_m (port_m st') = sema_m (port_m st) \<and> dequeuable (port_m st') = dequeuable (port_m st) \<or>
    sema_m (port_m st') = Semaphore_Post (sema_m (port_m st)) \<and> dequeuable (port_m st') = Suc (dequeuable (port_m st))"
proof (cases fresh)
  case None
  with assms show ?thesis by (simp add: QueueUser_no_memory)
next
  case (Some i)
  with assms show ?thesis
    by (auto simp: QueueUser_unfold Port_Queue_def PortPacket_Free_def dequeuable_def Let_def split: if_splits)
qed

lemma OnMatch_queue_sema:
  assumes "OnMatch_queue now i signals st = Some st'"
  shows "sema_m (port_m st') = sema_m (port_m st) \<and> dequeuable (port_m st') = dequeuable (port_m st) \<or>
    sema_m (port_m st') = Semaphore_Post (sema_m (port_m st)) \<and> dequeuable (port_m st') = Suc (dequeuable (port_m st))"
  using assms by (auto simp: OnMatch_queue_def Port_Queue_def dequeuable_def Let_def split: if_splits option.splits)

lemma sema_ok_queued:
  assumes "sema_ok sys" "takers_m sys' = takers_m sys"
    and "sema_m (port_m (ps_m sys')) = sema_m (port_m (ps_m sys)) \<and> dequeuable (port_m (ps_m sys')) = dequeuable (port_m (ps_m sys)) \<or>
      sema_m (port_m (ps_m sys')) = Semaphore_Post (sema_m (port_m (ps_m sys))) \<and> dequeuable (port_m (ps_m sys')) = Suc (dequeuable (port_m (ps_m sys)))"
  shows "sema_ok sys'"
  using assms(3) by (elim disjE conjE) (use assms(1,2) in \<open>auto intro: sema_ok_frame sema_ok_post\<close>)

lemma sema_ok_step:
  assumes inv: "port_inv sys" and s: "sema_ok sys" and step: "port_step a sys = Some sys'"
  shows "sema_ok sys'"
proof (cases a)
  case (AQueueUser pk ok)
  with step obtain fresh status st' where q: "QueueUser pk fresh (ps_m sys) = Some (status, st')" "ps_m sys' = st'" "takers_m sys' = takers_m sys"
    by auto
  with sema_ok_queued [OF s q(3)] QueueUser_sema [OF q(1)] show ?thesis by simp
next
  case ADequeueWait
  with step s show ?thesis by (auto simp: sema_ok_def Semaphore_Wait_def dequeuable_def Let_def split: if_splits)
next
  case ADequeueTimeout
  with step s show ?thesis by (auto simp: sema_ok_def dequeuable_def Let_def)
next
  case ADequeueTake
  with step s show ?thesis
    by (auto simp: sema_ok_def Let_def dest!: Dequeue_take_sema split: if_splits)
next
  case (AQueueInterrupt i t)
  with step s show ?thesis
    by (cases "i \<in> set (interrupt_packets_m (port_m (ps_m sys)))")
      (auto simp: QueueInterruptPacket_def Let_def dequeuable_def intro!: sema_ok_post [OF s])
next
  case (ARemoveInterrupt i)
  with step s show ?thesis
    by (auto simp: RemoveInterruptPacket_def Let_def dequeuable_def length_remove1 intro!: sema_ok_frame [OF s] split: if_splits)
next
  case (AMakeObserver options handle k key signals)
  with step s show ?thesis
    by (auto simp: MakeObserver_link_def PortObserver_new_def on_watched_def Let_def dequeuable_def intro!: sema_ok_frame [OF s] split: if_splits prod.splits)
next
  case (ACancelQueued handle key)
  have "distinct (packets_m (port_m (ps_m sys)))" using port_invD(1) [OF inv] by (rule queue_okD)
  from CancelQueued_loop_inv [OF inv subset_refl this, of handle key False] ACancelQueued step show ?thesis
    by (auto simp: CancelQueued_def signals_cancelled_def dequeuable_def intro!: sema_ok_frame [OF s])
next
  case (AFireQueue i now)
  with step consider "sys' = sys" | signals st' where "OnMatch_queue now i signals (ps_m sys) = Some st'" "ps_m sys' = st'" "takers_m sys' = takers_m sys"
    by (auto split: option.splits fire.splits)
  then show ?thesis
  proof cases
    case 2
    with sema_ok_queued [OF s 2(3)] OnMatch_queue_sema [OF 2(1)] show ?thesis by simp
  qed (use s in simp)
next
  case (AFireReap i)
  with step s show ?thesis
    by (auto simp: MaybeReap_def delete_observer_def Let_def dequeuable_def intro!: sema_ok_frame [OF s] split: if_splits option.splits)
next
  case AZeroDrain
  with step s show ?thesis
    by (auto simp: drain_packet_def reset_observer_def delete_observer_def PortPacket_Free_def Let_def dequeuable_def
        intro!: sema_ok_frame [OF s] split: if_splits option.splits list.splits)
next
  case AZeroPop
  with step s show ?thesis
    by (auto simp: zero_handles_pop_def dequeuable_def intro!: sema_ok_frame [OF s] split: if_splits option.splits list.splits)
next
  case (AZeroRemove i)
  with step s show ?thesis
    by (auto simp: delete_observer_def dequeuable_def intro!: sema_ok_frame [OF s] split: if_splits option.splits)
qed (use step s in \<open>auto simp: on_watched_def zero_handles_start_def dequeuable_def intro!: sema_ok_frame [OF s]\<close>)

lemma sema_ok_run:
  "port_inv sys \<Longrightarrow> sema_ok sys \<Longrightarrow> port_run acts sys = Some sys' \<Longrightarrow> sema_ok sys'"
proof (induction acts arbitrary: sys)
  case (Cons a acts)
  obtain sys1 where "port_step a sys = Some sys1" "port_inv sys1" using port_step_inv [OF Cons.prems(1)] by blast
  with Cons sema_ok_step [OF Cons.prems(1,2)] show ?case by auto
qed simp

text \<open>
  C13: No packet waits while all threads sleep. In any run of a port, if a packet can be dequeued,
  a thread is on its way to take it or the next thread that waits gets through at once; and if threads
  sleep in \<open>Dequeue\<close>, at least as many woken threads are on their way as there are packets.
\<close>

theorem port_no_lost_wakeup:
  assumes "unwatched watched" "port_run acts (port_start (PortDispatcher_new koid options) ipkts watched) = Some sys"
  shows "let d = port_m (ps_m sys); s = sema_m d in
    dequeuable d \<le> sem_count s + sem_woken s + takers_m sys \<and> (sem_waiters s > 0 \<longrightarrow> dequeuable d \<le> sem_woken s + takers_m sys)"
proof -
  have "sema_ok (port_start (PortDispatcher_new koid options) ipkts watched)"
    by (simp add: sema_ok_def dequeuable_def port_start_def PortDispatcher_new_def)
  from sema_ok_run [OF port_start_inv [OF assms(1)] this assms(2)] show ?thesis
    by (auto simp: sema_ok_def Let_def)
qed

text \<open>Two threads wait, one packet is queued: one of them is woken and the packet is its.\<close>

definition wakeup_acts :: "port_action list" where
  "wakeup_acts = [ADequeueWait, ADequeueWait, AQueueUser \<lparr>pk_key = 5, pk_type = 9, pk_status = 1, pk_payload = PkBytes []\<rparr> True]"

lemma wakeup_example:
  "map_option (\<lambda>sys. (sem_waiters (sema_m (port_m (ps_m sys))), dequeuable (port_m (ps_m sys))))
     (port_run wakeup_acts (port_start (PortDispatcher_new 1000 0) (\<lambda>i. \<lparr>ip_timestamp = 0, ip_key = 0\<rparr>) example_watched)) = Some (1, 1)"
  by code_simp

theorem port_no_lost_wakeup_witness:
  "\<exists>sys. port_run wakeup_acts (port_start (PortDispatcher_new 1000 0) (\<lambda>i. \<lparr>ip_timestamp = 0, ip_key = 0\<rparr>) example_watched) = Some sys \<and>
     sem_waiters (sema_m (port_m (ps_m sys))) = 1 \<and> sem_woken (sema_m (port_m (ps_m sys))) + takers_m sys \<ge> 1"
  using wakeup_example port_no_lost_wakeup [OF example_unwatched, of wakeup_acts 1000 0 "\<lambda>i. \<lparr>ip_timestamp = 0, ip_key = 0\<rparr>"]
  by (auto simp: Let_def)

subsection \<open>User packets come out in order\<close>

definition types_ok :: "port_state \<Rightarrow> bool" where
  "types_ok st \<longleftrightarrow>
     (\<forall>i pkt. pkts_m st (Obs i) = Some pkt \<longrightarrow> pk_type (packet pkt) = ZX_PKT_TYPE_SIGNAL_ONE) \<and>
     (\<forall>i pkt. pkts_m st (Eph i) = Some pkt \<longrightarrow> pk_type (packet pkt) = ZX_PKT_TYPE_USER)"

definition user_contents :: "port_state \<Rightarrow> zx_port_packet list" where
  "user_contents st = map (\<lambda>p. packet (the (pkts_m st p))) (filter is_Eph (packets_m (port_m st)))"

definition port_next :: "port_action \<Rightarrow> port_sys \<Rightarrow> port_sys" where
  "port_next a sys = the (port_step a sys)"

text \<open>The user packets the port accepts, and those it hands to a thread or drops when it is closed.\<close>

fun port_accepted :: "port_action \<Rightarrow> port_sys \<Rightarrow> zx_port_packet list" where
  "port_accepted (AQueueUser pk ok) sys =
     (case QueueUser pk (if ok then Some (next_pkt_m sys) else None) (ps_m sys) of
        Some (status, st) \<Rightarrow> if status = ZX_OK then [pk\<lparr>pk_type := ZX_PKT_TYPE_USER\<rparr>] else []
      | None \<Rightarrow> [])"
| "port_accepted _ sys = []"

definition user_only :: "zx_port_packet list \<Rightarrow> zx_port_packet list" where
  "user_only = filter (\<lambda>pk. pk_type pk = ZX_PKT_TYPE_USER)"

fun port_delivered :: "port_action \<Rightarrow> port_sys \<Rightarrow> zx_port_packet list" where
  "port_delivered ADequeueTake sys =
     (if takers_m sys = 0 \<and> sem_woken (sema_m (port_m (ps_m sys))) = 0 then []
      else case Dequeue_take (ps_m sys) of Some (Some pk, st) \<Rightarrow> user_only [pk] | _ \<Rightarrow> [])"
| "port_delivered AZeroDrain sys =
     (if \<not> zero_handles_m (port_m (ps_m sys)) \<or> drained_m sys then []
      else case packets_m (port_m (ps_m sys)) of
             [] \<Rightarrow> []
           | p # rest \<Rightarrow> user_only [packet (the (pkts_m (ps_m sys) p))])"
| "port_delivered _ sys = []"

lemma user_contents_frame:
  assumes "filter is_Eph (packets_m (port_m st')) = filter is_Eph (packets_m (port_m st))" "\<And>i. pkts_m st' (Eph i) = pkts_m st (Eph i)"
  shows "user_contents st' = user_contents st"
  using assms by (auto simp: user_contents_def is_Eph_def)

text \<open>Taking the first packet.\<close>

lemma unqueue_first:
  assumes inv: "port_inv sys" and t: "types_ok (ps_m sys)" and p: "packets_m (port_m (ps_m sys)) = p # rest" "pkts_m (ps_m sys) p = Some q"
  shows "user_only [packet q] @ user_contents (unqueue p q (ps_m sys)) = user_contents (ps_m sys)" "types_ok (unqueue p q (ps_m sys))"
proof -
  have "p \<in> set (packets_m (port_m (ps_m sys)))" using p by simp
  with inv have "(\<exists>i. p = Eph i \<and> is_ephemeral q \<and> pp_observer q = None) \<or> (\<exists>i. p = Obs i \<and> \<not> is_ephemeral q \<and> (pp_observer q = None \<or> pp_observer q = Some i))"
    by (rule queued_alive) (use p(2) in auto)
  moreover have "distinct (packets_m (port_m (ps_m sys)))" using port_invD(1) [OF inv] by (rule queue_okD)
  ultimately show "user_only [packet q] @ user_contents (unqueue p q (ps_m sys)) = user_contents (ps_m sys)" "types_ok (unqueue p q (ps_m sys))"
    using t p by (auto simp: types_ok_def user_only_def user_contents_def unqueue_def reset_observer_def delete_observer_def
        PortPacket_Free_def is_Eph_def ZX_PKT_TYPE_SIGNAL_ONE_def ZX_PKT_TYPE_USER_def Let_def split: if_splits)
qed

lemma types_ok_frame: "types_ok st \<Longrightarrow> pkts_m st' = pkts_m st \<Longrightarrow> types_ok st'"
  by (simp add: types_ok_def)

lemma types_ok_Obs:
  assumes "types_ok st" "\<And>p. p \<noteq> Obs i \<Longrightarrow> pkts_m st' p = pkts_m st p"
    and "\<And>pkt. pkts_m st' (Obs i) = Some pkt \<Longrightarrow> pk_type (packet pkt) = ZX_PKT_TYPE_SIGNAL_ONE"
  shows "types_ok st'"
  unfolding types_ok_def using assms by (metis packet_ref.distinct(1) types_ok_def)

lemma OnMatch_queue_user:
  assumes "OnMatch_queue now i signals st = Some st'" "types_ok st"
  shows "types_ok st'" "user_contents st' = user_contents st"
proof -
  obtain ob pkt where o: "pobs_m st i = Some ob" "pkts_m st (Obs i) = Some pkt"
    using assms(1) by (auto simp: OnMatch_queue_def split: option.splits)
  then have t: "pk_type (packet pkt) = ZX_PKT_TYPE_SIGNAL_ONE" using assms(2) by (auto simp: types_ok_def)
  have *: "filter is_Eph (packets_m (port_m st')) = filter is_Eph (packets_m (port_m st))"
    "p \<noteq> Obs i \<Longrightarrow> pkts_m st' p = pkts_m st p" "pkts_m st' (Obs i) = Some pkt' \<Longrightarrow> pk_type (packet pkt') = ZX_PKT_TYPE_SIGNAL_ONE" for p pkt'
    using assms(1) o t by (auto simp: OnMatch_queue_def Port_Queue_def observe_def Let_def split: if_splits)
  show "types_ok st'" by (rule types_ok_Obs [OF assms(2), of i]) (use * in auto)
  show "user_contents st' = user_contents st" using * by (intro user_contents_frame) auto
qed

text \<open>Steps that neither queue nor take a user packet.\<close>

definition user_same :: "port_state \<Rightarrow> port_state \<Rightarrow> bool" where
  "user_same st st' \<longleftrightarrow> user_contents st' = user_contents st \<and> types_ok st'"

lemma user_same_frame:
  "types_ok st \<Longrightarrow> pkts_m st' = pkts_m st \<Longrightarrow> packets_m (port_m st') = packets_m (port_m st) \<Longrightarrow> user_same st st'"
  by (simp add: user_same_def user_contents_def types_ok_def)

lemma user_same_refl: "types_ok st \<Longrightarrow> user_same st st"
  by (simp add: user_same_def)

lemma user_same_Obs:
  assumes "types_ok st" "\<And>p. p \<noteq> Obs i \<Longrightarrow> pkts_m st' p = pkts_m st p" "packets_m (port_m st') = packets_m (port_m st)"
    and "\<And>pkt. pkts_m st' (Obs i) = Some pkt \<Longrightarrow> pk_type (packet pkt) = ZX_PKT_TYPE_SIGNAL_ONE"
  shows "user_same st st'"
  unfolding user_same_def using assms by (auto intro: user_contents_frame types_ok_Obs [of st i])

lemma OnMatch_queue_same: "OnMatch_queue now i signals st = Some st' \<Longrightarrow> types_ok st \<Longrightarrow> user_same st st'"
  by (simp add: user_same_def OnMatch_queue_user)

lemma MaybeReap_user:
  assumes "MaybeReap i st = Some st'" "types_ok st" shows "user_same st st'"
  by (rule user_same_Obs [of st i]) (use assms in \<open>auto simp: MaybeReap_def types_ok_def delete_observer_def Let_def split: option.splits if_splits\<close>)

lemma MakeObserver_link_user:
  assumes "MakeObserver_link i options handle d key signals st = (ok, st')" "types_ok st" shows "user_same st st'"
  by (rule user_same_Obs [of st i]) (use assms in \<open>auto simp: MakeObserver_link_def PortObserver_new_def types_ok_def Let_def split: if_splits\<close>)

lemma delete_observer_user: "types_ok st \<Longrightarrow> user_same st (delete_observer i st)"
  by (rule user_same_Obs [of st i]) (simp_all add: delete_observer_def)

lemma signals_cancelled_user: "types_ok st \<Longrightarrow> signals_cancelled st st' \<Longrightarrow> user_same st st'"
  unfolding user_same_def signals_cancelled_def
  by (auto intro: user_contents_frame simp: types_ok_def) (metis option.distinct(1))

lemma QueueUser_user:
  assumes inv: "port_inv sys" and t: "types_ok (ps_m sys)" and q: "QueueUser pk (if ok then Some (next_pkt_m sys) else None) (ps_m sys) = Some (status, st')"
  shows "types_ok st'" "user_contents st' = user_contents (ps_m sys) @ (if status = ZX_OK then [pk\<lparr>pk_type := ZX_PKT_TYPE_USER\<rparr>] else [])"
proof -
  let ?st = "ps_m sys" and ?i = "next_pkt_m sys"
  have free: "pkts_m ?st (Eph ?i) = None" using inv by (rule port_invD) simp
  then have notin: "Eph ?i \<notin> set (packets_m (port_m ?st))"
    using queue_okD(4) [OF port_invD(1) [OF inv], of ?i] by (simp add: eph_at_def)
  consider "\<not> ok" | "ok" "zero_handles_m (port_m ?st)" | "ok" "\<not> zero_handles_m (port_m ?st)" "num_ephemeral_packets_m (port_m ?st) > kMaxAllocatedPacketCountPerPort"
    | "ok" "\<not> zero_handles_m (port_m ?st)" "num_ephemeral_packets_m (port_m ?st) \<le> kMaxAllocatedPacketCountPerPort" by fastforce
  then have "types_ok st' \<and> user_contents st' = user_contents ?st @ (if status = ZX_OK then [pk\<lparr>pk_type := ZX_PKT_TYPE_USER\<rparr>] else [])"
  proof cases
    case 4
    then have st': "status = ZX_OK" "pkts_m st' = (pkts_m ?st)(Eph ?i \<mapsto> user_packet pk)" "packets_m (port_m st') = packets_m (port_m ?st) @ [Eph ?i]"
      using q by (auto simp: QueueUser_ok)
    have "map (\<lambda>p. packet (the (pkts_m st' p))) (filter is_Eph (packets_m (port_m ?st))) = user_contents ?st"
      using notin by (auto simp: user_contents_def st')
    then have "user_contents st' = user_contents ?st @ [pk\<lparr>pk_type := ZX_PKT_TYPE_USER\<rparr>]"
      by (simp add: user_contents_def st')
    with t show ?thesis by (auto simp: st' types_ok_def)
  qed (use q t in \<open>auto simp: QueueUser_no_memory QueueUser_closed [OF free] QueueUser_limit [OF free] user_contents_def types_ok_def\<close>)
  then show "types_ok st'" "user_contents st' = user_contents ?st @ (if status = ZX_OK then [pk\<lparr>pk_type := ZX_PKT_TYPE_USER\<rparr>] else [])"
    by auto
qed

text \<open>The first packet, taken by \<open>Dequeue\<close>.\<close>

lemma Dequeue_take_user:
  assumes inv: "port_inv sys" and t: "types_ok (ps_m sys)" and d: "Dequeue_take (ps_m sys) = Some (pk, st')"
  shows "types_ok st'" "(case pk of None \<Rightarrow> [] | Some pk \<Rightarrow> user_only [pk]) @ user_contents st' = user_contents (ps_m sys)"
proof -
  let ?d = "port_m (ps_m sys)"
  have alive: "\<exists>q. pkts_m (ps_m sys) p = Some q" if "p \<in> set (packets_m ?d)" for p
    using queued_alive [OF inv that] by metis
  consider (int) "port_options_m ?d = ZX_PORT_BIND_TO_INTERRUPT \<and> interrupt_packets_m ?d \<noteq> []"
    | (none) "\<not> (port_options_m ?d = ZX_PORT_BIND_TO_INTERRUPT \<and> interrupt_packets_m ?d \<noteq> [])" "packets_m ?d = []"
    | (pkt) p rest q where "\<not> (port_options_m ?d = ZX_PORT_BIND_TO_INTERRUPT \<and> interrupt_packets_m ?d \<noteq> [])" "packets_m ?d = p # rest" "pkts_m (ps_m sys) p = Some q"
    using alive by (metis list.set_intros(1) neq_Nil_conv)
  then have "types_ok st' \<and> (case pk of None \<Rightarrow> [] | Some pk \<Rightarrow> user_only [pk]) @ user_contents st' = user_contents (ps_m sys)"
  proof cases
    case int
    with d have "pkts_m st' = pkts_m (ps_m sys)" "packets_m (port_m st') = packets_m ?d" "\<exists>k. pk = Some k \<and> pk_type k = ZX_PKT_TYPE_INTERRUPT"
      by (auto simp: Dequeue_take_def Let_def)
    with t show ?thesis
      by (auto simp: types_ok_def user_contents_def user_only_def ZX_PKT_TYPE_INTERRUPT_def ZX_PKT_TYPE_USER_def)
  next
    case none
    with d t show ?thesis by (auto simp: Dequeue_take_def Let_def)
  next
    case pkt
    then have "Dequeue_take (ps_m sys) = Some (Some (packet q), unqueue p q (ps_m sys))"
      by (auto simp: Dequeue_take_def unqueue_def Let_def)
    with d unqueue_first [OF inv t pkt(2,3)] show ?thesis by auto
  qed
  then show "types_ok st'" "(case pk of None \<Rightarrow> [] | Some pk \<Rightarrow> user_only [pk]) @ user_contents st' = user_contents (ps_m sys)" by auto
qed

definition delivery_inv :: "port_sys \<Rightarrow> bool" where
  "delivery_inv sys \<longleftrightarrow> port_inv sys \<and> types_ok (ps_m sys)"

lemma user_step:
  assumes inv: "port_inv sys" and t: "types_ok (ps_m sys)" and step: "port_step a sys = Some sys'"
  shows "types_ok (ps_m sys') \<and> port_delivered a sys @ user_contents (ps_m sys') = user_contents (ps_m sys) @ port_accepted a sys"
proof -
  have same: ?thesis if "user_same (ps_m sys) (ps_m sys')" "port_delivered a sys = []" "port_accepted a sys = []"
    using that by (simp add: user_same_def)
  show ?thesis
  proof (cases a)
    case (AQueueUser pk ok)
    then obtain status st' where q: "QueueUser pk (if ok then Some (next_pkt_m sys) else None) (ps_m sys) = Some (status, st')" "ps_m sys' = st'"
      using step by auto
    with QueueUser_user [OF inv t q(1)] AQueueUser show ?thesis by auto
  next
    case ADequeueTake
    let ?sema = "sema_m (port_m (ps_m sys))"
    let ?st = "(ps_m sys)\<lparr>port_m := (port_m (ps_m sys))\<lparr>sema_m := ?sema\<lparr>sem_woken := sem_woken ?sema - 1\<rparr>\<rparr>\<rparr>"
    have w: "types_ok ?st" "user_contents ?st = user_contents (ps_m sys)"
      using t by (auto simp: types_ok_def user_contents_def)
    have pk: "map_option fst (Dequeue_take ?st) = map_option fst (Dequeue_take (ps_m sys))"
      by (auto simp: Dequeue_take_def Let_def split: list.split option.split)
    have del: "(case Dequeue_take (ps_m sys) of Some (Some pk, st) \<Rightarrow> user_only [pk] | _ \<Rightarrow> []) = (case pk of None \<Rightarrow> [] | Some pk \<Rightarrow> user_only [pk])"
      if "Dequeue_take ?st = Some (pk, st')" for pk st'
      using pk that by (cases "Dequeue_take (ps_m sys)") (auto split: option.splits)
    from ADequeueTake step consider "sys' = sys" "port_delivered a sys = []"
      | pk st' where "Dequeue_take (ps_m sys) = Some (pk, st')" "ps_m sys' = st'" "port_delivered a sys = (case pk of None \<Rightarrow> [] | Some pk \<Rightarrow> user_only [pk])"
      | pk st' where "Dequeue_take ?st = Some (pk, st')" "ps_m sys' = st'" "port_delivered a sys = (case pk of None \<Rightarrow> [] | Some pk \<Rightarrow> user_only [pk])"
      using del by (auto simp: Let_def split: if_splits option.splits)
    then show ?thesis
    proof cases
      case 1
      with t ADequeueTake show ?thesis by simp
    next
      case 2
      with Dequeue_take_user [OF inv t 2(1)] ADequeueTake show ?thesis by simp
    next
      case 3
      with Dequeue_take_user [OF port_inv_sema [OF inv], of _ pk st'] w ADequeueTake show ?thesis by simp
    qed
  next
    case AZeroDrain
    show ?thesis
    proof (cases "packets_m (port_m (ps_m sys))")
      case Nil
      with AZeroDrain step t show ?thesis by (intro same) (auto intro!: user_same_frame split: if_splits)
    next
      case (Cons p rest)
      obtain q where q: "pkts_m (ps_m sys) p = Some q" "drain_packet p rest (ps_m sys) = Some (unqueue p q (ps_m sys))"
        by (rule drain_packet_unqueue [OF inv Cons])
      with AZeroDrain step t unqueue_first [OF inv t Cons q(1)] Cons show ?thesis by (auto split: if_splits)
    qed
  next
    case (ACancelQueued handle key)
    have "distinct (packets_m (port_m (ps_m sys)))" using port_invD(1) [OF inv] by (rule queue_okD)
    from CancelQueued_loop_inv [OF inv subset_refl this, of handle key False] ACancelQueued step
    have "signals_cancelled (ps_m sys) (ps_m sys')" by (auto simp: CancelQueued_def)
    with ACancelQueued signals_cancelled_user [OF t] show ?thesis by (intro same) auto
  next
    case (AFireQueue i now)
    with step consider "sys' = sys" | signals where "OnMatch_queue now i signals (ps_m sys) = Some (ps_m sys')"
      by (auto split: option.splits fire.splits)
    then have "user_same (ps_m sys) (ps_m sys')"
      using t by cases (simp add: user_same_def, rule OnMatch_queue_same)
    with AFireQueue show ?thesis by (intro same) auto
  next
    case (AFireReap i)
    with step t show ?thesis by (intro same) (auto intro: MaybeReap_user user_same_refl split: if_splits)
  next
    case (AMakeObserver options handle k key signals)
    with step t show ?thesis
      by (intro same) (auto simp: on_watched_def Let_def intro: MakeObserver_link_user user_same_refl split: if_splits prod.splits)
  next
    case AZeroPop
    with step t show ?thesis
      by (intro same) (auto simp: zero_handles_pop_def intro!: user_same_frame split: if_splits option.splits list.splits)
  next
    case (AZeroRemove i)
    with step t show ?thesis
      by (intro same) (auto intro!: delete_observer_user user_same_refl split: if_splits option.splits)
  qed (use step t in \<open>intro same; auto simp: on_watched_def zero_handles_start_def QueueInterruptPacket_def RemoveInterruptPacket_def
        Semaphore_Wait_def Let_def intro!: user_same_frame split: if_splits\<close>)+
qed

text \<open>The user packets of a port as an ordered queue.\<close>

interpretation port_q: ordered_queue delivery_inv "\<lambda>sys. user_contents (ps_m sys)" port_next port_accepted port_delivered
proof
  fix sys a assume i: "delivery_inv sys"
  then obtain sys' where s: "port_step a sys = Some sys'" "port_inv sys'"
    using port_step_inv by (auto simp: delivery_inv_def)
  note u = user_step [OF _ _ s(1)]
  from i s u show "delivery_inv (port_next a sys)" by (simp add: delivery_inv_def port_next_def)
  from i s u show "port_delivered a sys @ user_contents (ps_m (port_next a sys)) = user_contents (ps_m sys) @ port_accepted a sys"
    by (simp add: delivery_inv_def port_next_def)
qed

lemma port_run_queue_run: "port_inv sys \<Longrightarrow> port_run acts sys = Some (queue_run port_next acts sys)"
proof (induction acts arbitrary: sys)
  case (Cons a acts)
  obtain sys' where "port_step a sys = Some sys'" "port_inv sys'" using port_step_inv [OF Cons.prems] by blast
  with Cons.IH [of sys'] show ?case by (simp add: port_next_def)
qed simp

lemma start_delivery_inv:
  "unwatched watched \<Longrightarrow> delivery_inv (port_start (PortDispatcher_new koid options) ipkts watched)"
  by (simp add: delivery_inv_def port_start_inv types_ok_def) (simp add: port_start_def)

text \<open>
  C12: The packets users queue on a port come out in the order they were accepted, each once and
  with its contents unchanged but for the type. In any run, the user packets that \<open>Dequeue\<close>
  returned or closing dropped, followed by those in the queue, are those for which \<open>QueueUser\<close>
  returned \<open>ZX_OK\<close>. Asynchronous waits, interrupts and cancellations in between change nothing.
\<close>

theorem port_user_packets_in_order:
  assumes "unwatched watched" and start_def: "start = port_start (PortDispatcher_new koid options) ipkts watched"
  shows "\<exists>sys. port_run acts start = Some sys \<and>
    queue_log port_next port_delivered acts start @ user_contents (ps_m sys) = queue_log port_next port_accepted acts start"
proof -
  have inv: "delivery_inv start" unfolding start_def using assms(1) by (rule start_delivery_inv)
  have "user_contents (ps_m start) = []" by (simp add: start_def port_start_def PortDispatcher_new_def user_contents_def)
  with port_q.conserve_run [OF inv, of acts] port_run_queue_run [of start acts] inv show ?thesis
    by (simp add: delivery_inv_def)
qed

theorem port_user_packets_in_order_witness:
  "unwatched example_watched \<and>
   (\<exists>sys. port_run example_acts (port_start (PortDispatcher_new 1000 0) (\<lambda>i. \<lparr>ip_timestamp = 0, ip_key = 0\<rparr>) example_watched) = Some sys \<and>
     queue_log port_next port_delivered example_acts (port_start (PortDispatcher_new 1000 0) (\<lambda>i. \<lparr>ip_timestamp = 0, ip_key = 0\<rparr>) example_watched)
       @ user_contents (ps_m sys) =
     queue_log port_next port_accepted example_acts (port_start (PortDispatcher_new 1000 0) (\<lambda>i. \<lparr>ip_timestamp = 0, ip_key = 0\<rparr>) example_watched))"
  using port_user_packets_in_order [OF example_unwatched refl] example_unwatched by blast

subsection \<open>The limit on packets\<close>

lemma user_contents_length:
  "delivery_inv sys \<Longrightarrow> length (user_contents (ps_m sys)) = num_ephemeral_packets_m (port_m (ps_m sys))"
  using queue_okD(5) [OF port_invD(1)] by (auto simp: delivery_inv_def user_contents_def)

lemma port_accepted_limit:
  "port_accepted a sys = [] \<or> length (port_accepted a sys) = 1 \<and> num_ephemeral_packets_m (port_m (ps_m sys)) \<le> kMaxAllocatedPacketCountPerPort"
  by (cases a) (auto simp: QueueUser_no_memory QueueUser_unfold Port_Queue_def Let_def split: option.splits)

lemma limit_run:
  "delivery_inv sys \<Longrightarrow> num_ephemeral_packets_m (port_m (ps_m sys)) \<le> kMaxAllocatedPacketCountPerPort + 1
   \<Longrightarrow> num_ephemeral_packets_m (port_m (ps_m (queue_run port_next acts sys))) \<le> kMaxAllocatedPacketCountPerPort + 1"
proof (induction acts arbitrary: sys)
  case (Cons a acts)
  let ?sys' = "port_next a sys"
  have "delivery_inv ?sys'" using Cons.prems(1) by (rule port_q.inv_step)
  moreover have "length (user_contents (ps_m ?sys')) \<le> length (user_contents (ps_m sys)) + length (port_accepted a sys)"
    using arg_cong [OF port_q.conserve [OF Cons.prems(1), of a], of length] by simp
  then have "num_ephemeral_packets_m (port_m (ps_m ?sys')) \<le> kMaxAllocatedPacketCountPerPort + 1"
    using Cons.prems user_contents_length port_accepted_limit [of a sys] \<open>delivery_inv ?sys'\<close> by fastforce
  ultimately show ?case using Cons.IH by simp
qed simp

text \<open>Packets queued one after the other on a new port.\<close>

lemma queue_many:
  assumes "\<not> zero_handles_m (port_m (ps_m sys))" "num_ephemeral_packets_m (port_m (ps_m sys)) + n \<le> kMaxAllocatedPacketCountPerPort + 1"
  shows "\<exists>sys'. port_run (replicate n (AQueueUser pk True)) sys = Some sys' \<and> \<not> zero_handles_m (port_m (ps_m sys')) \<and>
    num_ephemeral_packets_m (port_m (ps_m sys')) = num_ephemeral_packets_m (port_m (ps_m sys)) + n"
  using assms
proof (induction n arbitrary: sys)
  case (Suc n)
  then have l: "num_ephemeral_packets_m (port_m (ps_m sys)) \<le> kMaxAllocatedPacketCountPerPort" by simp
  then obtain sys1 where s: "port_step (AQueueUser pk True) sys = Some sys1" "\<not> zero_handles_m (port_m (ps_m sys1))"
    "num_ephemeral_packets_m (port_m (ps_m sys1)) = num_ephemeral_packets_m (port_m (ps_m sys)) + 1"
    using Suc.prems(1) by (simp add: QueueUser_ok)
  from Suc.IH [OF s(2)] Suc.prems(2) s(1,3) show ?case by (auto simp del: port_step.simps)
qed simp

text \<open>
  C33: A port never holds more than 4097 packets of the arena, one more than
  \<open>kMaxAllocatedPacketCountPerPort\<close>: the limit check compares with \<open>>\<close> before the packet is
  counted, and a user who queues 4097 packets gets them all accepted.
\<close>

theorem port_packet_limit:
  assumes "unwatched watched" and start_def: "start = port_start (PortDispatcher_new koid options) ipkts watched"
  shows "(\<exists>sys. port_run acts start = Some sys \<and> num_ephemeral_packets_m (port_m (ps_m sys)) \<le> 4097) \<and>
    (\<exists>sys. port_run (replicate 4097 (AQueueUser pk True)) start = Some sys \<and> num_ephemeral_packets_m (port_m (ps_m sys)) = 4097)"
proof
  have inv: "delivery_inv start" unfolding start_def using assms(1) by (rule start_delivery_inv)
  have 0: "num_ephemeral_packets_m (port_m (ps_m start)) = 0" "\<not> zero_handles_m (port_m (ps_m start))"
    by (simp_all add: start_def port_start_def PortDispatcher_new_def)
  have k: "kMaxAllocatedPacketCountPerPort + 1 = 4097" by (simp add: kMaxAllocatedPacketCountPerPort_def)
  show "\<exists>sys. port_run acts start = Some sys \<and> num_ephemeral_packets_m (port_m (ps_m sys)) \<le> 4097"
    using port_run_queue_run [of start acts] limit_run [OF inv, of acts] inv 0 unfolding k by (simp add: delivery_inv_def)
  show "\<exists>sys. port_run (replicate 4097 (AQueueUser pk True)) start = Some sys \<and> num_ephemeral_packets_m (port_m (ps_m sys)) = 4097"
    using queue_many [OF 0(2), of 4097 pk] unfolding k 0(1) add_0 by blast
qed

theorem port_packet_limit_witness:
  "unwatched example_watched \<and>
   (\<exists>sys. port_run (replicate 4097 (AQueueUser \<lparr>pk_key = 5, pk_type = 9, pk_status = 1, pk_payload = PkBytes []\<rparr> True))
      (port_start (PortDispatcher_new 1000 0) (\<lambda>i. \<lparr>ip_timestamp = 0, ip_key = 0\<rparr>) example_watched) = Some sys \<and>
      num_ephemeral_packets_m (port_m (ps_m sys)) = 4097)"
  using port_packet_limit [OF example_unwatched refl, THEN conjunct2] example_unwatched by blast

end
