(* ===== verification/Port_Waits.thy ===== *)
theory Port_Waits
  imports Port_Delivery
begin

section \<open>Asynchronous waits\<close>

text \<open>
  The life of one asynchronous wait, from \<open>MakeObserver\<close> to the thread that gets its packet, in
  any run of the system of \<open>Port_Lifetimes\<close> that neither cancels the wait nor closes the port.
\<close>

subsection \<open>Where a wait is\<close>

definition wait_packet :: "64 word \<Rightarrow> zx_signals \<Rightarrow> zx_signals \<Rightarrow> 64 word \<Rightarrow> int \<Rightarrow> zx_port_packet" where
  "wait_packet key signals observed count time =
     \<lparr>pk_key = key, pk_type = ZX_PKT_TYPE_SIGNAL_ONE, pk_status = zx_status_code ZX_OK,
      pk_payload = PkSignal signals observed count time\<rparr>"

text \<open>A wait: its observer, the object, the options, the handle, the key and the signals.\<close>

record async_wait =
  w_id :: nat
  w_object :: zx_koid
  w_options :: "32 word"
  w_handle :: handle_ref
  w_key :: "64 word"
  w_signals :: zx_signals

text \<open>The packet a thread gets: signals of which at least one was asked for, and the time of one of
  the calls of \<open>OnMatch\<close> if the wait asked for it.\<close>

definition good_packet :: "async_wait \<Rightarrow> int set \<Rightarrow> zx_port_packet \<Rightarrow> bool" where
  "good_packet w nows pk \<longleftrightarrow>
     (\<exists>observed time. pk = wait_packet (w_key w) (w_signals w) observed 1 time \<and> observed AND w_signals w \<noteq> 0 \<and>
        (if w_options w AND ZX_WAIT_ASYNC_TIMESTAMP \<noteq> 0 then time \<in> nows else time = 0))"

definition is_registered :: "async_wait \<Rightarrow> port_sys \<Rightarrow> bool" where
  "is_registered w sys \<longleftrightarrow>
     (\<exists>x\<in>set (observers_m (watched_m sys (w_object w))). obs_id x = w_id w \<and> triggering_signals_m x = w_signals w \<and> handle_m x = w_handle w)"

definition is_matched :: "async_wait \<Rightarrow> port_sys \<Rightarrow> bool" where
  "is_matched w sys \<longleftrightarrow> (\<exists>s. (w_id w, w_object w, FMatch s) \<in> set (firing_m sys) \<and> s AND w_signals w \<noteq> 0)"

text \<open>The observer and its packet before the match.\<close>

definition unmatched_observer :: "async_wait \<Rightarrow> port_sys \<Rightarrow> bool" where
  "unmatched_observer w sys \<longleftrightarrow>
     Obs (w_id w) \<notin> set (packets_m (port_m (ps_m sys))) \<and>
     (\<exists>ob pkt. pobs_m (ps_m sys) (w_id w) = Some ob \<and> po_options ob = w_options w \<and>
        pkts_m (ps_m sys) (Obs (w_id w)) = Some pkt \<and> pp_handle pkt = Some (w_handle w) \<and> pp_allocator pkt = None \<and>
        packet pkt = wait_packet (w_key w) (w_signals w) 0 0 0)"

definition is_queued :: "async_wait \<Rightarrow> int set \<Rightarrow> port_sys \<Rightarrow> bool" where
  "is_queued w nows sys \<longleftrightarrow>
     Obs (w_id w) \<in> set (packets_m (port_m (ps_m sys))) \<and>
     (\<exists>pkt. pkts_m (ps_m sys) (Obs (w_id w)) = Some pkt \<and> pp_handle pkt = Some (w_handle w) \<and> good_packet w nows (packet pkt))"

definition is_over :: "async_wait \<Rightarrow> port_sys \<Rightarrow> bool" where
  "is_over w sys \<longleftrightarrow>
     Obs (w_id w) \<notin> set (packets_m (port_m (ps_m sys))) \<and> regd sys (w_id w) = {} \<and> snd ` fired sys (w_id w) \<subseteq> {FReap}"

definition wait_pending :: "async_wait \<Rightarrow> int set \<Rightarrow> port_sys \<Rightarrow> bool" where
  "wait_pending w nows sys \<longleftrightarrow>
     unmatched_observer w sys \<and> (is_registered w sys \<or> is_matched w sys) \<or> is_queued w nows sys"

text \<open>The packets of this wait that a step hands to a thread.\<close>

fun wait_delivered :: "nat \<Rightarrow> port_action \<Rightarrow> port_sys \<Rightarrow> zx_port_packet list" where
  "wait_delivered i ADequeueTake sys =
     (if takers_m sys = 0 \<and> sem_woken (sema_m (port_m (ps_m sys))) = 0 then []
      else case Dequeue_take (ps_m sys) of
             Some (Some pk, st) \<Rightarrow>
               if Obs i \<in> set (packets_m (port_m (ps_m sys))) \<and> Obs i \<notin> set (packets_m (port_m st)) then [pk] else []
           | _ \<Rightarrow> [])"
| "wait_delivered i _ sys = []"

text \<open>Actions that leave the waits through a handle alone.\<close>

fun keeps_wait :: "handle_ref \<Rightarrow> port_action \<Rightarrow> bool" where
  "keeps_wait handle (ACancelHandle k h) \<longleftrightarrow> h \<noteq> handle"
| "keeps_wait handle (ACancelByKey k h key) \<longleftrightarrow> h \<noteq> handle"
| "keeps_wait handle (ACancelQueued h key) \<longleftrightarrow> h \<noteq> handle"
| "keeps_wait handle AZeroStart \<longleftrightarrow> False"
| "keeps_wait handle _ \<longleftrightarrow> True"

subsection \<open>Steps that do not concern the wait\<close>

definition wait_frame :: "nat \<Rightarrow> port_sys \<Rightarrow> port_sys \<Rightarrow> bool" where
  "wait_frame i sys sys' \<longleftrightarrow>
     pobs_m (ps_m sys') i = pobs_m (ps_m sys) i \<and> pkts_m (ps_m sys') (Obs i) = pkts_m (ps_m sys) (Obs i) \<and>
     (Obs i \<in> set (packets_m (port_m (ps_m sys'))) \<longleftrightarrow> Obs i \<in> set (packets_m (port_m (ps_m sys)))) \<and>
     fired sys' i = fired sys i \<and>
     (\<forall>k x. obs_id x = i \<longrightarrow> (x \<in> set (observers_m (watched_m sys' k)) \<longleftrightarrow> x \<in> set (observers_m (watched_m sys k))))"

lemma is_matched_fired: "is_matched w sys \<longleftrightarrow> (\<exists>s. (w_object w, FMatch s) \<in> fired sys (w_id w) \<and> s AND w_signals w \<noteq> 0)"
  by (simp add: is_matched_def fired_def)

lemma wait_frame_pending: "wait_frame (w_id w) sys sys' \<Longrightarrow> wait_pending w nows sys \<Longrightarrow> wait_pending w nows sys'"
  unfolding wait_frame_def wait_pending_def unmatched_observer_def is_registered_def is_matched_fired is_queued_def by metis

lemma wait_frame_over:
  assumes "wait_frame (w_id w) sys sys'" "is_over w sys" shows "is_over w sys'"
proof -
  have "regd sys' (w_id w) = regd sys (w_id w)" using assms(1) by (auto simp: wait_frame_def regd_def image_iff)
  with assms show ?thesis by (simp add: wait_frame_def is_over_def)
qed

lemma wait_frame_refl: "wait_frame i sys sys"
  by (simp add: wait_frame_def)

lemma wait_frame_ps:
  assumes "pobs_m st i = pobs_m (ps_m sys) i" "pkts_m st (Obs i) = pkts_m (ps_m sys) (Obs i)"
    and "Obs i \<in> set (packets_m (port_m st)) \<longleftrightarrow> Obs i \<in> set (packets_m (port_m (ps_m sys)))"
    and "ps_m sys' = st" "firing_m sys' = firing_m sys" "watched_m sys' = watched_m sys"
  shows "wait_frame i sys sys'"
  using assms by (simp add: wait_frame_def fired_def)

text \<open>A watched object makes calls to some of its observers.\<close>

lemma on_watched_frame:
  assumes "\<And>x. obs_id x = i \<Longrightarrow> x \<in> set (observers_m d') \<longleftrightarrow> x \<in> set (observers_m (watched_m sys k))"
    and "\<And>c. c \<in> set (drop (length (calls_m (watched_m sys k))) (calls_m d')) \<Longrightarrow> call_id c \<noteq> i"
  shows "wait_frame i sys (on_watched k d' sys)"
proof -
  have "(i, k', f) \<notin> set (new_calls k (watched_m sys k) d')" for k' f
    using assms(2) by (force simp: new_calls_def fire_of_def split: observer_call.splits)
  then show ?thesis using assms(1) by (auto simp: wait_frame_def on_watched_def fired_def)
qed

text \<open>Taking a packet out of the queue.\<close>

lemma unqueue_wait:
  assumes inv: "port_inv sys" and p: "p \<in> set (packets_m (port_m (ps_m sys)))" "pkts_m (ps_m sys) p = Some q" "p \<noteq> Obs i"
  shows "pobs_m (unqueue p q (ps_m sys)) i = pobs_m (ps_m sys) i" "pkts_m (unqueue p q (ps_m sys)) (Obs i) = pkts_m (ps_m sys) (Obs i)"
  using inv p(1) by (rule queued_alive;
    use p(2,3) in \<open>auto simp: unqueue_def reset_observer_def delete_observer_def PortPacket_Free_def Let_def split: option.splits if_splits\<close>)+

lemma unqueue_packets: "packets_m (port_m (unqueue p q st)) = remove1 p (packets_m (port_m st))"
  by (simp add: unqueue_def reset_observer_def delete_observer_def PortPacket_Free_def Let_def split: option.splits)

lemma Dequeue_take_cases:
  assumes inv: "port_inv sys" and d: "Dequeue_take (ps_m sys) = Some (pk, st')"
  obtains (other) "pobs_m st' i = pobs_m (ps_m sys) i" "pkts_m st' (Obs i) = pkts_m (ps_m sys) (Obs i)"
      "Obs i \<in> set (packets_m (port_m st')) \<longleftrightarrow> Obs i \<in> set (packets_m (port_m (ps_m sys)))"
  | (mine) q where "Obs i \<in> set (packets_m (port_m (ps_m sys)))" "Obs i \<notin> set (packets_m (port_m st'))"
      "pkts_m (ps_m sys) (Obs i) = Some q" "pk = Some (packet q)"
proof -
  let ?d = "port_m (ps_m sys)"
  show thesis
  proof (cases "port_options_m ?d = ZX_PORT_BIND_TO_INTERRUPT \<and> interrupt_packets_m ?d \<noteq> [] \<or> packets_m ?d = []")
    case True
    with d have "pobs_m st' = pobs_m (ps_m sys)" "pkts_m st' = pkts_m (ps_m sys)" "packets_m (port_m st') = packets_m ?d"
      by (auto simp: Dequeue_take_def Let_def split: if_splits)
    then show thesis by (intro other) simp_all
  next
    case False
    then obtain p rest where p: "packets_m ?d = p # rest" by (cases "packets_m ?d") auto
    then have mem: "p \<in> set (packets_m ?d)" by simp
    obtain q where q: "pkts_m (ps_m sys) p = Some q" using queued_alive [OF inv mem] by metis
    have t: "pk = Some (packet q)" "st' = unqueue p q (ps_m sys)"
      using False p q d by (auto simp: Dequeue_take_def unqueue_def Let_def)
    have dist: "distinct (packets_m ?d)" using port_invD(1) [OF inv] by (rule queue_okD)
    show thesis
    proof (cases "p = Obs i")
      case True
      with dist mem q t show thesis by (intro mine [of q]) (simp_all add: unqueue_packets)
    next
      case False
      with dist show thesis
        by (intro other) (simp_all add: t unqueue_packets unqueue_wait [OF inv mem q False])
    qed
  qed
qed

lemma CancelQueued_loop_wait:
  assumes "port_inv sys" "set ps \<subseteq> set (packets_m (port_m (ps_m sys)))" "distinct ps"
    and "CancelQueued_loop (Some h) key ps (removed, ps_m sys) = Some (removed', st')"
    and "Obs i \<notin> set ps \<or> (\<exists>pkt. pkts_m (ps_m sys) (Obs i) = Some pkt \<and> pp_handle pkt \<noteq> Some h)"
  shows "pobs_m st' i = pobs_m (ps_m sys) i \<and> pkts_m st' (Obs i) = pkts_m (ps_m sys) (Obs i) \<and>
    (Obs i \<in> set (packets_m (port_m st')) \<longleftrightarrow> Obs i \<in> set (packets_m (port_m (ps_m sys))))"
  using assms
proof (induction ps arbitrary: sys removed)
  case (Cons p ps)
  then have p: "p \<in> set (packets_m (port_m (ps_m sys)))" by simp
  obtain q where q: "pkts_m (ps_m sys) p = Some q" "pp_handle q = None \<or> \<not> is_ephemeral q \<and> \<not> IsDefaultAllocatedEphemeral q"
    using Cons.prems(1) p by (auto elim: queued_alive)
  show ?case
  proof (cases "pp_handle q = Some h \<and> pk_key (packet q) = key")
    case True
    let ?st = "unqueue p q (ps_m sys)"
    have ne: "p \<noteq> Obs i" using True Cons.prems(5) q(1) by auto
    have dist: "distinct (packets_m (port_m (ps_m sys)))" using port_invD(1) [OF Cons.prems(1)] by (rule queue_okD)
    have "CancelQueued_loop (Some h) key ps (True, ?st) = Some (removed', st')"
      using Cons.prems(4) True q by (simp add: unqueue_def Let_def)
    moreover have "set ps \<subseteq> set (packets_m (port_m ?st))" using Cons.prems(2,3) dist by (auto simp: unqueue_packets)
    ultimately show ?thesis
      using Cons.IH [of "sys\<lparr>ps_m := ?st\<rparr>" True] unqueue_inv [OF Cons.prems(1) p q(1)] Cons.prems(3,5) ne dist
        unqueue_wait [OF Cons.prems(1) p q(1) ne]
      by (simp add: unqueue_packets)
  next
    case False
    then show ?thesis using Cons.IH [of sys removed] Cons.prems q(1) by auto
  qed
qed simp

lemma OnMatch_queue_other:
  assumes "OnMatch_queue now j signals st = Some st'" "j \<noteq> i"
  shows "pobs_m st' i = pobs_m st i \<and> pkts_m st' (Obs i) = pkts_m st (Obs i) \<and>
    (Obs i \<in> set (packets_m (port_m st')) \<longleftrightarrow> Obs i \<in> set (packets_m (port_m st)))"
  using assms by (auto simp: OnMatch_queue_def Port_Queue_def Let_def split: option.splits if_splits)

lemma MaybeReap_other:
  assumes "MaybeReap j st = Some st'" "j \<noteq> i"
  shows "pobs_m st' i = pobs_m st i \<and> pkts_m st' (Obs i) = pkts_m st (Obs i) \<and>
    (Obs i \<in> set (packets_m (port_m st')) \<longleftrightarrow> Obs i \<in> set (packets_m (port_m st)))"
  using assms by (auto simp: MaybeReap_def delete_observer_def Let_def split: option.splits if_splits)

lemma QueueUser_other:
  assumes "QueueUser pk fresh st = Some (status, st')"
  shows "pobs_m st' i = pobs_m st i \<and> pkts_m st' (Obs i) = pkts_m st (Obs i) \<and>
    (Obs i \<in> set (packets_m (port_m st')) \<longleftrightarrow> Obs i \<in> set (packets_m (port_m st)))"
  using assms
  by (cases fresh) (auto simp: QueueUser_no_memory QueueUser_unfold Port_Queue_def PortPacket_Free_def Let_def split: if_splits)

text \<open>The steps that may concern an observer.\<close>

fun concerns :: "nat \<Rightarrow> port_action \<Rightarrow> port_sys \<Rightarrow> bool" where
  "concerns i (AUpdate k c m) sys \<longleftrightarrow> k \<in> regd sys i"
| "concerns i (ACancelHandle k h) sys \<longleftrightarrow> k \<in> regd sys i"
| "concerns i (ACancelByKey k h key) sys \<longleftrightarrow> k \<in> regd sys i"
| "concerns i (ACancelQueued h key) sys \<longleftrightarrow> Obs i \<in> set (packets_m (port_m (ps_m sys)))"
| "concerns i ADequeueTake sys \<longleftrightarrow> Obs i \<in> set (packets_m (port_m (ps_m sys)))"
| "concerns i (AFireQueue j now) sys \<longleftrightarrow> j = i"
| "concerns i (AFireReap j) sys \<longleftrightarrow> j = i"
| "concerns i AZeroStart sys \<longleftrightarrow> True"
| "concerns i _ sys \<longleftrightarrow> False"

lemma not_regd: "k \<notin> regd sys i \<Longrightarrow> obs_id x = i \<Longrightarrow> x \<notin> set (observers_m (watched_m sys k))"
  by (auto simp: regd_def)

lemma closing_empty:
  assumes "port_inv sys" "\<not> zero_handles_m (port_m (ps_m sys))" shows "closing_m sys = []"
proof (rule ccontr)
  assume "closing_m sys \<noteq> []"
  then obtain j k where "(j, k) \<in> set (closing_m sys)" by (metis list.set_intros(1) neq_Nil_conv surj_pair)
  then have "closed sys j \<noteq> {}" by (auto simp: closed_def)
  with port_invD(3) [OF assms(1), of j] assms(2) show False
    by (auto simp: obs_at_def obs_ok_def Let_def split: option.splits)
qed

lemma AMakeObserver_frame:
  assumes "port_step (AMakeObserver options handle k key signals) sys = Some sys'" "i < next_obs_m sys"
  shows "wait_frame i sys sys'"
proof -
  let ?j = "next_obs_m sys" and ?d = "watched_m sys k"
  obtain ok st where l: "MakeObserver_link ?j options handle ?d key signals (ps_m sys) = (ok, st)" by (rule prod.exhaust)
  let ?d' = "snd (AddObserver (port_observer ?j (koid_m (port_m st)) key) handle signals ?d)"
  from assms(1) l consider "sys' = sys" | "ok" "sys' = on_watched k ?d' (sys\<lparr>ps_m := st, next_obs_m := ?j + 1\<rparr>)"
    by (auto simp: Let_def split: if_splits)
  then show ?thesis
  proof cases
    case 2
    let ?sys = "sys\<lparr>ps_m := st, next_obs_m := ?j + 1\<rparr>"
    have "wait_frame i sys ?sys"
      using l assms(2) by (intro wait_frame_ps) (auto simp: MakeObserver_link_def PortObserver_new_def Let_def split: if_splits)
    moreover have "wait_frame i ?sys (on_watched k ?d' ?sys)"
      using assms(2) by (intro on_watched_frame) (auto simp: AddObserver_def port_observer_def split: if_splits)
    ultimately show ?thesis using 2(2) by (simp add: wait_frame_def)
  qed (simp add: wait_frame_refl)
qed

lemma watched_frame:
  assumes "port_step a sys = Some sys'" "\<not> concerns i a sys" "a = AUpdate k c m \<or> a = ACancelHandle k h \<or> a = ACancelByKey k h key"
  shows "wait_frame i sys sys'"
proof -
  let ?d = "watched_m sys k"
  have "k \<notin> regd sys i" using assms(2,3) by auto
  then have none: "obs_id x = i \<Longrightarrow> x \<notin> set (observers_m ?d)" for x by (rule not_regd)
  define d' where "d' = (if a = AUpdate k c m then UpdateStateLocked c m ?d else if a = ACancelHandle k h then Dispatcher_Cancel h ?d
      else snd (CancelByKey h (koid_m (port_m (ps_m sys))) key ?d))"
  have "wait_frame i sys (on_watched k d' sys)"
    by (rule on_watched_frame; use none in \<open>force simp: d'_def UpdateStateLocked_eq Dispatcher_Cancel_def CancelByKey_def Let_def
        simp del: MatchesKey.simps split: if_splits\<close>)
  then show ?thesis using assms(1,3) by (auto simp: d'_def wait_frame_refl split: if_splits)
qed

lemma step_frame:
  assumes inv: "port_inv sys" and nz: "\<not> zero_handles_m (port_m (ps_m sys))" and i: "i < next_obs_m sys"
    and step: "port_step a sys = Some sys'" and nc: "\<not> concerns i a sys"
  shows "wait_frame i sys sys'"
proof (cases a)
  case (AQueueUser pk ok)
  then obtain status st where q: "QueueUser pk (if ok then Some (next_pkt_m sys) else None) (ps_m sys) = Some (status, st)"
    "sys' = sys\<lparr>ps_m := st, next_pkt_m := next_pkt_m sys + 1\<rparr>" using step by auto
  from QueueUser_other [OF q(1), of i] q(2) show ?thesis by (intro wait_frame_ps) auto
next
  case ADequeueTake
  let ?sema = "sema_m (port_m (ps_m sys))"
  let ?sys = "sys\<lparr>ps_m := (ps_m sys)\<lparr>port_m := (port_m (ps_m sys))\<lparr>sema_m := ?sema\<lparr>sem_woken := sem_woken ?sema - 1\<rparr>\<rparr>\<rparr>\<rparr>"
  have out: "Obs i \<notin> set (packets_m (port_m (ps_m sys)))" using nc ADequeueTake by simp
  from ADequeueTake step consider "sys' = sys"
    | pk where "Dequeue_take (ps_m sys) = Some (pk, ps_m sys')" "firing_m sys' = firing_m sys" "watched_m sys' = watched_m sys"
    | pk where "Dequeue_take (ps_m ?sys) = Some (pk, ps_m sys')" "firing_m sys' = firing_m sys" "watched_m sys' = watched_m sys"
    by (auto simp: Let_def split: if_splits)
  then show ?thesis
  proof cases
    case 2
    from inv 2(1) show ?thesis
      by (rule Dequeue_take_cases [where i = i]) (use out 2(2,3) in \<open>auto intro: wait_frame_ps\<close>)
  next
    case 3
    from port_inv_sema [OF inv] 3(1) show ?thesis
      by (rule Dequeue_take_cases [where i = i]) (use out 3(2,3) in \<open>auto intro: wait_frame_ps\<close>)
  qed (simp add: wait_frame_refl)
next
  case (ACancelQueued h key)
  have "distinct (packets_m (port_m (ps_m sys)))" using port_invD(1) [OF inv] by (rule queue_okD)
  note loop = CancelQueued_loop_wait [OF inv subset_refl this, of h key False]
  from ACancelQueued step nc show ?thesis
    by (auto simp: CancelQueued_def dest!: loop intro!: wait_frame_ps)
next
  case (AFireQueue j now)
  with nc have j: "j \<noteq> i" by simp
  from AFireQueue step consider "sys' = sys"
    | signals where "OnMatch_queue now j signals (ps_m sys) = Some (ps_m sys')" "watched_m sys' = watched_m sys"
        "firing_m sys' = map (\<lambda>(j', k, f). (j', k, if j' = j then FReap else f)) (firing_m sys)"
    by (auto split: option.splits fire.splits)
  then show ?thesis
  proof cases
    case 2
    have "fired sys' i = fired sys i" using j by (auto simp: fired_def 2(3) mem_reaping simp del: set_map)
    then show ?thesis
      using OnMatch_queue_other [OF 2(1) j] 2(2) by (simp add: wait_frame_def)
  qed (simp add: wait_frame_refl)
next
  case (AFireReap j)
  with nc have j: "j \<noteq> i" by simp
  from AFireReap step consider "sys' = sys"
    | "MaybeReap j (ps_m sys) = Some (ps_m sys')" "watched_m sys' = watched_m sys"
        "firing_m sys' = filter (\<lambda>(j', k, f). j' \<noteq> j) (firing_m sys)"
    by (auto split: if_splits)
  then show ?thesis
  proof cases
    case 2
    have "fired sys' i = fired sys i" using j by (auto simp: fired_def 2(3))
    then show ?thesis
      using MaybeReap_other [OF 2(1) j] 2(2) by (simp add: wait_frame_def)
  qed (simp add: wait_frame_refl)
next
  case (AMakeObserver options handle k key signals)
  with step i show ?thesis using AMakeObserver_frame by blast
next
  case (AZeroRemove j)
  with step closing_empty [OF inv nz] show ?thesis by (simp add: wait_frame_refl)
next
  case AZeroPop
  have "\<not> drained_m sys" using port_invD(4) [OF inv] nz by blast
  with AZeroPop step show ?thesis by (simp add: wait_frame_refl)
next
  case (AUpdate k c m)
  then show ?thesis by (intro watched_frame [OF step nc]) simp
next
  case (ACancelHandle k h)
  then show ?thesis by (intro watched_frame [OF step nc]) simp
next
  case (ACancelByKey k h key)
  then show ?thesis by (intro watched_frame [OF step nc]) simp
qed (use step nc nz in \<open>auto simp: QueueInterruptPacket_def RemoveInterruptPacket_def Semaphore_Wait_def Let_def
      wait_frame_def fired_def split: if_splits\<close>)

subsection \<open>Steps that concern the wait\<close>

lemma wait_delivered_none: "Obs i \<notin> set (packets_m (port_m (ps_m sys))) \<Longrightarrow> wait_delivered i a sys = []"
  by (cases a) (auto split: option.splits)

lemma wait_delivered_unconcerned: "\<not> concerns i a sys \<Longrightarrow> wait_delivered i a sys = []"
  by (cases a) (simp_all only: concerns.simps wait_delivered.simps(2-) wait_delivered_none not_False_eq_True)

lemma AFireQueue_idle:
  assumes "\<And>k s. (k, FMatch s) \<notin> fired sys i" shows "port_step (AFireQueue i now) sys = Some sys"
proof -
  have "List.find (\<lambda>(j, k, f). j = i \<and> f \<noteq> FReap) (firing_m sys) = None"
    using assms by (auto simp: find_None_iff fired_def) (metis fire.exhaust)
  then show ?thesis by simp
qed

lemma AFireReap_idle:
  assumes "\<And>k. (k, FReap) \<notin> fired sys i" shows "port_step (AFireReap i) sys = Some sys"
  using assms by (auto simp: list_ex_iff fired_def)

text \<open>A registered wait: the object calls it when one of its signals comes up.\<close>

lemma registered_regd: "is_registered w sys \<Longrightarrow> w_object w \<in> regd sys (w_id w)"
  by (force simp: is_registered_def regd_def)

lemma registered_watched:
  assumes reg: "is_registered w sys" and k: "k = w_object w"
    and d': "observers_m d' = filter (\<lambda>x. \<not> sel x) (observers_m (watched_m sys k))"
    and sel: "\<And>x. x \<in> set (observers_m (watched_m sys k)) \<Longrightarrow> handle_m x = w_handle w \<Longrightarrow> \<not> sel x"
  shows "is_registered w (on_watched k d' sys)"
  using reg k d' sel unfolding is_registered_def on_watched_def by auto

lemma registered_update:
  assumes reg: "is_registered w sys" and k: "k = w_object w"
  shows "let sys' = on_watched k (UpdateStateLocked c m (watched_m sys k)) sys in is_registered w sys' \<or> is_matched w sys'"
proof -
  let ?d = "watched_m sys k"
  let ?new = "updated_signals c m ?d"
  obtain x where x: "x \<in> set (observers_m ?d)" "obs_id x = w_id w" "triggering_signals_m x = w_signals w" "handle_m x = w_handle w"
    using reg k by (auto simp: is_registered_def)
  show ?thesis
  proof (cases "?new \<noteq> signals_m ?d \<and> triggered ?new x")
    case True
    have "(w_id w, k, FMatch ?new) \<in> set (new_calls k ?d (UpdateStateLocked c m ?d))"
      using True x(1,2) by (auto simp: new_calls_def UpdateStateLocked_eq Let_def image_iff fire_of_def intro!: bexI [of _ x])
    moreover have "?new AND w_signals w \<noteq> 0" using True x(3) by (simp add: triggered_def and.commute)
    ultimately show ?thesis using k by (auto simp: is_matched_def on_watched_def Let_def)
  next
    case False
    then have "x \<in> set (observers_m (UpdateStateLocked c m ?d))" using x(1) by (auto simp: UpdateStateLocked_eq Let_def)
    then show ?thesis using x(2-4) k by (auto simp: is_registered_def on_watched_def Let_def)
  qed
qed

lemma unmatched_on_watched [simp]: "unmatched_observer w (on_watched k d sys) = unmatched_observer w sys"
  by (simp add: unmatched_observer_def on_watched_def)

lemma registered_step:
  assumes inv: "port_inv sys" and un: "unmatched_observer w sys" and reg: "is_registered w sys"
    and step: "port_step a sys = Some sys'" and keep: "keeps_wait (w_handle w) a" and c: "concerns (w_id w) a sys"
  shows "unmatched_observer w sys' \<and> (is_registered w sys' \<or> is_matched w sys')"
proof -
  have r: "fired sys (w_id w) = {}" "regd sys (w_id w) = {w_object w}"
    using obs_ok_registered [OF port_invD(3) [OF inv] registered_regd [OF reg]] by simp_all
  have nq: "Obs (w_id w) \<notin> set (packets_m (port_m (ps_m sys)))" using un by (simp add: unmatched_observer_def)
  have idle: "port_step (AFireQueue (w_id w) now) sys = Some sys" "port_step (AFireReap (w_id w)) sys = Some sys" for now
    by (rule AFireQueue_idle, simp add: r) (rule AFireReap_idle, simp add: r)
  show ?thesis
  proof (cases a)
    case (AUpdate k cl m)
    then have "k = w_object w" using c r by simp
    with registered_update [OF reg this, of cl m] AUpdate step un reg show ?thesis by (auto simp: Let_def split: if_splits)
  next
    case (ACancelHandle k h)
    then have k: "k = w_object w" using c r by simp
    have "is_registered w (on_watched k (Dispatcher_Cancel h (watched_m sys k)) sys)"
      using keep ACancelHandle by (intro registered_watched [OF reg k, where sel = "\<lambda>x. handle_m x = h"]) (auto simp: Dispatcher_Cancel_def)
    with ACancelHandle step un reg show ?thesis by (auto split: if_splits)
  next
    case (ACancelByKey k h key)
    then have k: "k = w_object w" using c r by simp
    let ?p = "koid_m (port_m (ps_m sys))"
    have "is_registered w (on_watched k (snd (CancelByKey h ?p key (watched_m sys k))) sys)"
      using keep ACancelByKey by (intro registered_watched [OF reg k, where sel = "\<lambda>x. handle_m x = h \<and> MatchesKey x ?p key"])
        (auto simp: CancelByKey_def simp del: MatchesKey.simps)
    with ACancelByKey step un reg show ?thesis by (auto split: if_splits)
  next
    case (AFireQueue j now)
    with c idle(1) [of now] step un reg show ?thesis by (simp del: port_step.simps)
  next
    case (AFireReap j)
    with c idle(2) step un reg show ?thesis by (simp del: port_step.simps)
  qed (use c nq keep in auto)
qed

text \<open>A matched wait: the call of \<open>OnMatch\<close> queues the packet.\<close>

lemma OnMatch_queue_matched:
  assumes o: "pobs_m st i = Some ob" "pkts_m st (Obs i) = Some pkt" "pp_allocator pkt = None" "packet pkt = wait_packet key signals 0 0 0"
    and nq: "Obs i \<notin> set (packets_m (port_m st))" and nz: "\<not> zero_handles_m (port_m st)" and s: "s \<noteq> 0"
  obtains st' where "OnMatch_queue now i s st = Some st'" "Obs i \<in> set (packets_m (port_m st'))"
    "pkts_m st' (Obs i) = Some (pkt\<lparr>packet := wait_packet key signals s 1 (if po_options ob AND ZX_WAIT_ASYNC_TIMESTAMP \<noteq> 0 then now else 0)\<rparr>)"
proof -
  let ?t = "if po_options ob AND ZX_WAIT_ASYNC_TIMESTAMP \<noteq> 0 then now else 0"
  let ?st = "st\<lparr>pkts_m := (pkts_m st)(Obs i \<mapsto> pkt\<lparr>packet := wait_packet key signals 0 0 ?t\<rparr>)\<rparr>"
  have "pkt\<lparr>packet := wait_packet key signals 0 0 0\<rparr> = pkt" using o(4) by simp
  then have "?st = st" if "po_options ob AND ZX_WAIT_ASYNC_TIMESTAMP = 0" using o(2) that by (simp add: fun_upd_idem)
  moreover have "OnMatch_queue now i s st = map_option snd (Port_Queue (Obs i) s ?st)"
    if "po_options ob AND ZX_WAIT_ASYNC_TIMESTAMP \<noteq> 0"
    using o that by (simp add: OnMatch_queue_def Let_def wait_packet_def)
  ultimately have "OnMatch_queue now i s st = map_option snd (Port_Queue (Obs i) s ?st)"
    using o(1,2) by (cases "po_options ob AND ZX_WAIT_ASYNC_TIMESTAMP = 0") (simp_all add: OnMatch_queue_def)
  moreover have "Port_Queue (Obs i) s ?st = Some (ZX_OK, ?st\<lparr>
      port_m := (port_m st)\<lparr>packets_m := packets_m (port_m st) @ [Obs i], sema_m := Semaphore_Post (sema_m (port_m st))\<rparr>,
      pkts_m := (pkts_m ?st)(Obs i \<mapsto> observe False s (pkt\<lparr>packet := wait_packet key signals 0 0 ?t\<rparr>))\<rparr>)"
    using Port_Queue_Obs [of ?st i _ s] o(3) nq nz s by simp
  moreover have "observe False s (pkt\<lparr>packet := wait_packet key signals 0 0 t\<rparr>) = pkt\<lparr>packet := wait_packet key signals s 1 t\<rparr>" for t
    by (simp add: observe_def wait_packet_def)
  ultimately show thesis by (intro that) (simp, simp, simp)
qed

lemma matched_fired:
  assumes "port_inv sys" "is_matched w sys"
  obtains s where "fired sys (w_id w) = {(w_object w, FMatch s)}" "regd sys (w_id w) = {}" "s AND w_signals w \<noteq> 0"
    "List.find (\<lambda>(j, k, f). j = w_id w \<and> f \<noteq> FReap) (firing_m sys) = Some (w_id w, w_object w, FMatch s)"
proof -
  let ?P = "\<lambda>(j, k, f). j = w_id w \<and> f \<noteq> FReap"
  obtain s where s: "(w_id w, w_object w, FMatch s) \<in> set (firing_m sys)" "s AND w_signals w \<noteq> 0" using assms(2) by (auto simp: is_matched_def)
  have f: "fired sys (w_id w) = {(w_object w, FMatch s)}" "regd sys (w_id w) = {}" using fired_alive [OF assms(1) s(1)] by metis+
  have "List.find ?P (firing_m sys) \<noteq> None" using s(1) by (auto simp: find_None_iff)
  then obtain x where x: "List.find ?P (firing_m sys) = Some x" by blast
  from find_SomeD [OF x] f(1) have "x = (w_id w, w_object w, FMatch s)" by (auto simp: fired_def set_eq_iff)
  with that f s(2) x show thesis by blast
qed

lemma matched_fires:
  assumes inv: "port_inv sys" and nz: "\<not> zero_handles_m (port_m (ps_m sys))" and un: "unmatched_observer w sys" and m: "is_matched w sys"
    and step: "port_step (AFireQueue (w_id w) now) sys = Some sys'" and now: "now \<in> nows"
  shows "is_queued w nows sys'"
proof -
  let ?i = "w_id w"
  obtain s where s: "s AND w_signals w \<noteq> 0"
    "List.find (\<lambda>(j, k, f). j = ?i \<and> f \<noteq> FReap) (firing_m sys) = Some (?i, w_object w, FMatch s)"
    using inv m by (rule matched_fired)
  have nq: "Obs ?i \<notin> set (packets_m (port_m (ps_m sys)))" using un by (simp add: unmatched_observer_def)
  obtain ob pkt where o: "pobs_m (ps_m sys) ?i = Some ob" "po_options ob = w_options w" "pkts_m (ps_m sys) (Obs ?i) = Some pkt"
    "pp_handle pkt = Some (w_handle w)" "pp_allocator pkt = None" "packet pkt = wait_packet (w_key w) (w_signals w) 0 0 0"
    using un by (auto simp: unmatched_observer_def)
  obtain st' where st': "OnMatch_queue now ?i s (ps_m sys) = Some st'" "Obs ?i \<in> set (packets_m (port_m st'))"
    "pkts_m st' (Obs ?i) = Some (pkt\<lparr>packet := wait_packet (w_key w) (w_signals w) s 1 (if po_options ob AND ZX_WAIT_ASYNC_TIMESTAMP \<noteq> 0 then now else 0)\<rparr>)"
    by (rule OnMatch_queue_matched [OF o(1,3,5,6) nq nz, of s now]) (use s(1) in auto)
  have "ps_m sys' = st'" using step s(2) st'(1) by auto
  with st'(2,3) o(2,4) s(1) now show ?thesis by (auto simp: is_queued_def good_packet_def)
qed

lemma matched_step:
  assumes inv: "port_inv sys" and nz: "\<not> zero_handles_m (port_m (ps_m sys))" and un: "unmatched_observer w sys" and m: "is_matched w sys"
    and step: "port_step a sys = Some sys'" and keep: "keeps_wait (w_handle w) a" and c: "concerns (w_id w) a sys"
    and now: "\<And>now. a = AFireQueue (w_id w) now \<Longrightarrow> now \<in> nows"
  shows "unmatched_observer w sys' \<and> is_matched w sys' \<or> is_queued w nows sys'"
proof -
  let ?i = "w_id w"
  obtain s where f: "fired sys ?i = {(w_object w, FMatch s)}" "regd sys ?i = {}" using inv m by (rule matched_fired)
  have nq: "Obs ?i \<notin> set (packets_m (port_m (ps_m sys)))" using un by (simp add: unmatched_observer_def)
  consider now where "a = AFireQueue ?i now" | "a = AFireReap ?i" using c f nq keep by (cases a) auto
  then show ?thesis
  proof cases
    case (1 now)
    from matched_fires [OF inv nz un m step [unfolded 1] now [OF 1]] show ?thesis by simp
  next
    case 2
    have "port_step (AFireReap ?i) sys = Some sys" by (rule AFireReap_idle) (simp add: f)
    with 2 step un m show ?thesis by (simp del: port_step.simps)
  qed
qed

text \<open>A queued wait: a thread takes the packet.\<close>

lemma queued_fired:
  assumes "port_inv sys" "Obs i \<in> set (packets_m (port_m (ps_m sys)))"
  shows "regd sys i = {}" "snd ` fired sys i \<subseteq> {FReap}"
  using port_invD(3) [OF assms(1), of i] assms(2) by (auto simp: obs_at_def obs_ok_def Let_def split: option.splits)

lemma MaybeReap_packets: "MaybeReap i st = Some st' \<Longrightarrow> packets_m (port_m st') = packets_m (port_m st)"
  by (auto simp: MaybeReap_def delete_observer_def Let_def split: option.splits if_splits)

lemma MaybeReap_queued:
  assumes "MaybeReap i st = Some st'" "Obs i \<in> set (packets_m (port_m st))" "pkts_m st (Obs i) = Some pkt"
  shows "\<exists>pkt'. pkts_m st' (Obs i) = Some pkt' \<and> pp_handle pkt' = pp_handle pkt \<and> packet pkt' = packet pkt"
  using assms by (auto simp: MaybeReap_def Let_def split: option.splits)

lemma take_step:
  assumes inv: "port_inv sys" and step: "port_step ADequeueTake sys = Some sys'"
  obtains (other) "wait_frame i sys sys'" "wait_delivered i ADequeueTake sys = []"
  | (mine) q where "Obs i \<in> set (packets_m (port_m (ps_m sys)))" "Obs i \<notin> set (packets_m (port_m (ps_m sys')))"
      "pkts_m (ps_m sys) (Obs i) = Some q" "wait_delivered i ADequeueTake sys = [packet q]"
      "firing_m sys' = firing_m sys" "watched_m sys' = watched_m sys"
proof -
  let ?sema = "sema_m (port_m (ps_m sys))"
  let ?st = "\<lambda>n. (ps_m sys)\<lparr>port_m := (port_m (ps_m sys))\<lparr>sema_m := ?sema\<lparr>sem_woken := n\<rparr>\<rparr>\<rparr>"
  show thesis
  proof (cases "takers_m sys = 0 \<and> sem_woken ?sema = 0")
    case True
    with step show thesis by (intro other) (simp_all add: wait_frame_refl)
  next
    case False
    define n where "n = (if takers_m sys > 0 then sem_woken ?sema else sem_woken ?sema - 1)"
    have eq: "?st n = ps_m sys" if "takers_m sys > 0" using that by (simp add: n_def)
    obtain pk where d: "Dequeue_take (?st n) = Some (pk, ps_m sys')" "firing_m sys' = firing_m sys" "watched_m sys' = watched_m sys"
      using step False eq by (auto simp: n_def Let_def split: if_splits)
    define sys0 where "sys0 = sys\<lparr>ps_m := ?st n\<rparr>"
    have sys0: "port_inv sys0" "Dequeue_take (ps_m sys0) = Some (pk, ps_m sys')"
      using port_inv_sema [OF inv] d(1) by (simp_all add: sys0_def)
    have same: "map_option (\<lambda>(pk, st). (pk, packets_m (port_m st))) (Dequeue_take (?st n)) =
        map_option (\<lambda>(pk, st). (pk, packets_m (port_m st))) (Dequeue_take (ps_m sys))"
      by (auto simp: Dequeue_take_def reset_observer_def delete_observer_def PortPacket_Free_def Let_def split: list.split option.split)
    then obtain st where d0: "Dequeue_take (ps_m sys) = Some (pk, st)" "packets_m (port_m st) = packets_m (port_m (ps_m sys'))"
      using d(1) by (cases "Dequeue_take (ps_m sys)") auto
    from sys0 show thesis
    proof (cases rule: Dequeue_take_cases [where i = i])
      case other
      with d d0 False show thesis
        by (intro that(1)) (auto simp: sys0_def intro: wait_frame_ps split: option.splits)
    next
      case (mine q)
      with d d0 False show thesis by (intro that(2) [of q]) (auto simp: sys0_def)
    qed
  qed
qed

lemma queued_step:
  assumes inv: "port_inv sys" and q: "is_queued w nows sys"
    and step: "port_step a sys = Some sys'" and keep: "keeps_wait (w_handle w) a" and c: "concerns (w_id w) a sys"
  shows "wait_delivered (w_id w) a sys = [] \<and> is_queued w nows sys' \<or>
    (\<exists>pk. wait_delivered (w_id w) a sys = [pk] \<and> good_packet w nows pk \<and> is_over w sys')"
proof -
  let ?i = "w_id w"
  obtain pkt where p: "Obs ?i \<in> set (packets_m (port_m (ps_m sys)))" "pkts_m (ps_m sys) (Obs ?i) = Some pkt"
    "pp_handle pkt = Some (w_handle w)" "good_packet w nows (packet pkt)" using q by (auto simp: is_queued_def)
  note f = queued_fired [OF inv p(1)]
  consider "a = ADequeueTake" | h key where "a = ACancelQueued h key" | now where "a = AFireQueue ?i now" | "a = AFireReap ?i"
    using c keep f(1) by (cases a) auto
  then show ?thesis
  proof cases
    case 1
    from inv step [unfolded 1] show ?thesis
    proof (cases rule: take_step [where i = ?i])
      case other
      with 1 q show ?thesis by (simp add: wait_frame_def is_queued_def)
    next
      case (mine x)
      with 1 p f show ?thesis by (simp add: is_over_def regd_def fired_def)
    qed
  next
    case (2 h key)
    have "distinct (packets_m (port_m (ps_m sys)))" using port_invD(1) [OF inv] by (rule queue_okD)
    note loop = CancelQueued_loop_wait [OF inv subset_refl this, of h key False _ _ ?i]
    from 2 step keep p show ?thesis by (auto simp: CancelQueued_def is_queued_def dest!: loop)
  next
    case (3 now)
    have "port_step (AFireQueue ?i now) sys = Some sys" by (rule AFireQueue_idle) (use f(2) in force)
    with 3 step q show ?thesis by (simp del: port_step.simps)
  next
    case 4
    with step consider "sys' = sys" | "MaybeReap ?i (ps_m sys) = Some (ps_m sys')" by (auto split: if_splits)
    then show ?thesis
    proof cases
      case 2
      from MaybeReap_queued [OF 2 p(1,2)] MaybeReap_packets [OF 2] p 4 show ?thesis by (auto simp: is_queued_def)
    qed (use q 4 in simp)
  qed
qed

lemma over_step:
  assumes inv: "port_inv sys" and nz: "\<not> zero_handles_m (port_m (ps_m sys))" and i: "w_id w < next_obs_m sys" and ov: "is_over w sys"
    and step: "port_step a sys = Some sys'" and keep: "keeps_wait (w_handle w) a"
  shows "wait_delivered (w_id w) a sys = [] \<and> is_over w sys'"
proof -
  let ?i = "w_id w"
  have o: "Obs ?i \<notin> set (packets_m (port_m (ps_m sys)))" "regd sys ?i = {}" "snd ` fired sys ?i \<subseteq> {FReap}"
    using ov by (simp_all add: is_over_def)
  have "is_over w sys'"
  proof (cases "concerns ?i a sys")
    case False
    show ?thesis by (rule wait_frame_over [OF step_frame [OF inv nz i step False] ov])
  next
    case True
    then consider now where "a = AFireQueue ?i now" | "a = AFireReap ?i" using o keep by (cases a) auto
    then show ?thesis
    proof cases
      case (1 now)
      have "port_step (AFireQueue ?i now) sys = Some sys" by (rule AFireQueue_idle) (use o(3) in force)
      with 1 step ov show ?thesis by (simp del: port_step.simps)
    next
      case 2
      with step consider "sys' = sys"
        | "MaybeReap ?i (ps_m sys) = Some (ps_m sys')" "watched_m sys' = watched_m sys" "firing_m sys' = filter (\<lambda>(j, k, f). j \<noteq> ?i) (firing_m sys)"
        by (auto split: if_splits)
      then show ?thesis
      proof cases
        case 2
        from MaybeReap_packets [OF 2(1)] 2(2,3) o show ?thesis by (auto simp: is_over_def regd_def fired_def)
      qed (use ov in simp)
    qed
  qed
  with wait_delivered_none [OF o(1)] show ?thesis by simp
qed

lemma wait_step:
  assumes inv: "port_inv sys" and nz: "\<not> zero_handles_m (port_m (ps_m sys))" and i: "w_id w < next_obs_m sys" and p: "wait_pending w nows sys"
    and step: "port_step a sys = Some sys'" and keep: "keeps_wait (w_handle w) a"
    and now: "\<And>now. a = AFireQueue (w_id w) now \<Longrightarrow> now \<in> nows"
  shows "wait_delivered (w_id w) a sys = [] \<and> wait_pending w nows sys' \<or>
    (\<exists>pk. wait_delivered (w_id w) a sys = [pk] \<and> good_packet w nows pk \<and> is_over w sys')"
proof (cases "concerns (w_id w) a sys")
  case False
  from wait_frame_pending [OF step_frame [OF inv nz i step False] p] wait_delivered_unconcerned [OF False] show ?thesis by simp
next
  case True
  from p consider (queued) "is_queued w nows sys"
    | (registered) "unmatched_observer w sys" "is_registered w sys" | (matched) "unmatched_observer w sys" "is_matched w sys"
    by (auto simp: wait_pending_def)
  then show ?thesis
  proof cases
    case queued
    from queued_step [OF inv queued step keep True] show ?thesis by (auto simp: wait_pending_def)
  next
    case registered
    then have "wait_delivered (w_id w) a sys = []" by (simp add: unmatched_observer_def wait_delivered_none)
    with registered_step [OF inv registered step keep True] show ?thesis by (auto simp: wait_pending_def)
  next
    case matched
    then have "wait_delivered (w_id w) a sys = []" by (simp add: unmatched_observer_def wait_delivered_none)
    with matched_step [OF inv nz matched step keep True now] show ?thesis by (auto simp: wait_pending_def)
  qed
qed

subsection \<open>Runs\<close>

lemma step_open:
  assumes "port_inv sys" "\<not> zero_handles_m (port_m (ps_m sys))" "port_step a sys = Some sys'" "keeps_wait h a"
  shows "\<not> zero_handles_m (port_m (ps_m sys')) \<and> next_obs_m sys \<le> next_obs_m sys'"
proof (cases a)
  case (AQueueUser pk ok)
  with assms show ?thesis
    by (cases ok) (auto simp: QueueUser_no_memory QueueUser_unfold Port_Queue_def PortPacket_Free_def Let_def split: if_splits)
next
  case (ACancelQueued h key)
  have "zero_handles_m (port_m (snd r')) = zero_handles_m (port_m (snd r))" if "CancelQueued_loop h key ps r = Some r'" for h key ps r r'
    using that by (induction h key ps r arbitrary: r' rule: CancelQueued_loop.induct)
      (auto simp: reset_observer_def delete_observer_def Let_def split: option.splits if_splits)
  with ACancelQueued assms show ?thesis by (force simp: CancelQueued_def)
qed (use assms in \<open>auto simp: Dequeue_take_def reset_observer_def delete_observer_def PortPacket_Free_def OnMatch_queue_def Port_Queue_def
      MaybeReap_def MakeObserver_link_def PortObserver_new_def on_watched_def QueueInterruptPacket_def RemoveInterruptPacket_def Semaphore_Wait_def
      zero_handles_pop_def Let_def split: option.splits if_splits list.splits prod.splits fire.splits\<close>)

lemma over_run:
  assumes "port_inv sys" "\<not> zero_handles_m (port_m (ps_m sys))" "w_id w < next_obs_m sys" "is_over w sys" "list_all (keeps_wait (w_handle w)) acts"
  shows "queue_log port_next (wait_delivered (w_id w)) acts sys = [] \<and> is_over w (queue_run port_next acts sys)"
  using assms
proof (induction acts arbitrary: sys)
  case (Cons a acts)
  obtain sys' where s: "port_step a sys = Some sys'" "port_inv sys'" using port_step_inv [OF Cons.prems(1)] by blast
  have k: "keeps_wait (w_handle w) a" using Cons.prems(5) by simp
  from Cons.IH [of sys'] s Cons.prems over_step [OF Cons.prems(1-4) s(1) k] step_open [OF Cons.prems(1,2) s(1) k]
  show ?case by (simp add: port_next_def)
qed simp

lemma wait_run:
  assumes "port_inv sys" "\<not> zero_handles_m (port_m (ps_m sys))" "w_id w < next_obs_m sys" "wait_pending w nows sys"
    "list_all (keeps_wait (w_handle w)) acts" "{now. AFireQueue (w_id w) now \<in> set acts} \<subseteq> nows"
  shows "let log = queue_log port_next (wait_delivered (w_id w)) acts sys; sys' = queue_run port_next acts sys in
    log = [] \<and> wait_pending w nows sys' \<or> (\<exists>pk. log = [pk] \<and> good_packet w nows pk \<and> is_over w sys')"
  using assms
proof (induction acts arbitrary: sys)
  case (Cons a acts)
  obtain sys' where s: "port_step a sys = Some sys'" "port_inv sys'" using port_step_inv [OF Cons.prems(1)] by blast
  have k: "keeps_wait (w_handle w) a" "list_all (keeps_wait (w_handle w)) acts" using Cons.prems(5) by simp_all
  have o: "\<not> zero_handles_m (port_m (ps_m sys'))" "w_id w < next_obs_m sys'"
    using step_open [OF Cons.prems(1,2) s(1) k(1)] Cons.prems(3) by simp_all
  have nxt: "port_next a sys = sys'" using s(1) by (simp add: port_next_def)
  from wait_step [OF Cons.prems(1-4) s(1) k(1)] Cons.prems(6)
  consider "wait_delivered (w_id w) a sys = []" "wait_pending w nows sys'"
    | pk where "wait_delivered (w_id w) a sys = [pk]" "good_packet w nows pk" "is_over w sys'" by auto
  then show ?case
  proof cases
    case 1
    have "{now. AFireQueue (w_id w) now \<in> set acts} \<subseteq> nows" using Cons.prems(6) by auto
    with Cons.IH [OF s(2) o 1(2) k(2)] 1(1) show ?thesis by (simp add: nxt Let_def)
  next
    case 2
    with over_run [OF s(2) o 2(3) k(2)] show ?thesis by (simp add: nxt Let_def)
  qed
qed (simp add: Let_def)

text \<open>The wait as \<open>MakeObserver\<close> leaves it.\<close>

lemma wait_made:
  assumes inv: "port_inv sys" and nz: "\<not> zero_handles_m (port_m (ps_m sys))" and nl: "\<not> locked k sys" and wt: "is_waitable (watched_m sys k)"
    and w: "w = \<lparr>w_id = next_obs_m sys, w_object = k, w_options = options, w_handle = handle, w_key = key, w_signals = signals\<rparr>"
    and step: "port_step (AMakeObserver options handle k key signals) sys = Some sys'"
  shows "wait_pending w nows sys'" "w_id w < next_obs_m sys'"
proof -
  let ?i = "next_obs_m sys" and ?d = "watched_m sys k"
  have free: "pobs_m (ps_m sys) ?i = None" using inv by (rule port_invD) simp
  then have nq: "Obs ?i \<notin> set (packets_m (port_m (ps_m sys)))"
    using port_invD(3) [OF inv, of ?i] by (simp add: obs_at_def obs_ok_def Let_def)
  have koid: "koid_m ?d = k" using port_invD(2) [OF inv] by (simp add: watched_ok_def)
  define st where "st = snd (MakeObserver_link ?i options handle ?d key signals (ps_m sys))"
  have link: "MakeObserver_link ?i options handle ?d key signals (ps_m sys) = (True, st)"
    using wt by (simp add: st_def MakeObserver_link_def Let_def)
  let ?d' = "snd (AddObserver (port_observer ?i (koid_m (port_m st)) key) handle signals ?d)"
  have sys': "sys' = on_watched k ?d' (sys\<lparr>ps_m := st, next_obs_m := ?i + 1\<rparr>)"
    using step nz nl by (simp add: link Let_def)
  have "unmatched_observer w sys'"
    using nq wt by (simp add: sys' w unmatched_observer_def on_watched_def st_def MakeObserver_link_def PortObserver_new_def PortPacket_new_def
        wait_packet_def Let_def)
  moreover have "is_registered w sys' \<or> is_matched w sys'"
    using wt by (auto simp: sys' w is_registered_def is_matched_def on_watched_def AddObserver_def port_observer_def new_calls_def fire_of_def)
  ultimately show "wait_pending w nows sys'" by (simp add: wait_pending_def)
  show "w_id w < next_obs_m sys'" by (simp add: sys' w on_watched_def)
qed

subsection \<open>A queued packet is delivered\<close>

text \<open>Threads that wait and take, one after the other.\<close>

definition dequeues :: "nat \<Rightarrow> port_action list" where
  "dequeues n = concat (replicate n [ADequeueWait, ADequeueTake])"

lemma wait_lets_through:
  assumes "port_inv sys" "sema_ok sys" "0 < dequeuable (port_m (ps_m sys))"
  obtains sys' where "port_step ADequeueWait sys = Some sys'" "port_inv sys'" "sema_ok sys'"
    "0 < takers_m sys' + sem_woken (sema_m (port_m (ps_m sys')))" "pkts_m (ps_m sys') = pkts_m (ps_m sys)"
    "packets_m (port_m (ps_m sys')) = packets_m (port_m (ps_m sys))" "port_options_m (port_m (ps_m sys')) = port_options_m (port_m (ps_m sys))"
    "interrupt_packets_m (port_m (ps_m sys')) = interrupt_packets_m (port_m (ps_m sys))"
proof -
  obtain sys' where s: "port_step ADequeueWait sys = Some sys'" "port_inv sys'" using port_step_inv [OF assms(1)] by blast
  have ok: "sema_ok sys'" using assms(1,2) s(1) by (rule sema_ok_step)
  have go: "0 < takers_m sys' + sem_woken (sema_m (port_m (ps_m sys')))"
    using s(1) assms(2,3) by (auto simp: Semaphore_Wait_def sema_ok_def Let_def split: if_splits)
  have "pkts_m (ps_m sys') = pkts_m (ps_m sys)"
    "packets_m (port_m (ps_m sys')) = packets_m (port_m (ps_m sys))" "port_options_m (port_m (ps_m sys')) = port_options_m (port_m (ps_m sys))"
    "interrupt_packets_m (port_m (ps_m sys')) = interrupt_packets_m (port_m (ps_m sys))"
    using s(1) by (auto simp: Semaphore_Wait_def Let_def split: if_splits)
  then show thesis by (rule that [OF s ok go])
qed

lemma take_front:
  assumes inv: "port_inv sys" and go: "0 < takers_m sys + sem_woken (sema_m (port_m (ps_m sys)))"
    and step: "port_step ADequeueTake sys = Some sys'"
    and d: "d = port_m (ps_m sys)" "d' = port_m (ps_m sys')" "ready = (port_options_m d = ZX_PORT_BIND_TO_INTERRUPT \<and> interrupt_packets_m d \<noteq> [])"
  shows "port_options_m d' = port_options_m d"
    "interrupt_packets_m d' = (if ready then tl (interrupt_packets_m d) else interrupt_packets_m d)"
    "packets_m d' = (if ready then packets_m d else tl (packets_m d))"
    "ready \<or> packets_m d \<noteq> [] \<and> hd (packets_m d) \<noteq> Obs i \<Longrightarrow> pkts_m (ps_m sys') (Obs i) = pkts_m (ps_m sys) (Obs i)"
proof -
  let ?sema = "sema_m (port_m (ps_m sys))"
  define sys0 where "sys0 = sys\<lparr>ps_m := (ps_m sys)\<lparr>port_m := (port_m (ps_m sys))\<lparr>sema_m :=
    ?sema\<lparr>sem_woken := if takers_m sys > 0 then sem_woken ?sema else sem_woken ?sema - 1\<rparr>\<rparr>\<rparr>\<rparr>"
  have sys0: "port_inv sys0" "pkts_m (ps_m sys0) = pkts_m (ps_m sys)" "packets_m (port_m (ps_m sys0)) = packets_m d"
    "port_options_m (port_m (ps_m sys0)) = port_options_m d" "interrupt_packets_m (port_m (ps_m sys0)) = interrupt_packets_m d"
    using port_inv_sema [OF inv] by (simp_all add: sys0_def d)
  obtain pk where t: "Dequeue_take (ps_m sys0) = Some (pk, ps_m sys')"
    using step go by (auto simp: sys0_def Let_def split: if_splits)
  have *: "port_options_m d' = port_options_m d \<and> interrupt_packets_m d' = (if ready then tl (interrupt_packets_m d) else interrupt_packets_m d) \<and>
      packets_m d' = (if ready then packets_m d else tl (packets_m d)) \<and>
      (ready \<or> packets_m d \<noteq> [] \<and> hd (packets_m d) \<noteq> Obs i \<longrightarrow> pkts_m (ps_m sys') (Obs i) = pkts_m (ps_m sys) (Obs i))"
  proof (cases "ready \<or> packets_m d = []")
    case True
    then have "ps_m sys' = (if ready then (ps_m sys0)\<lparr>port_m := (port_m (ps_m sys0))\<lparr>interrupt_packets_m := tl (interrupt_packets_m d)\<rparr>\<rparr>
        else ps_m sys0)"
      using t sys0 d(3) by (auto simp: Dequeue_take_def Let_def split: if_splits)
    with True sys0 show ?thesis by (auto simp: d(2))
  next
    case False
    then obtain p rest where p: "packets_m d = p # rest" by (cases "packets_m d") auto
    then have mem: "p \<in> set (packets_m (port_m (ps_m sys0)))" by (simp add: sys0)
    obtain q where q: "pkts_m (ps_m sys0) p = Some q" using queued_alive [OF sys0(1) mem] by metis
    have eq: "ps_m sys' = unqueue p q (ps_m sys0)"
      using t sys0 d(3) False p q by (auto simp: Dequeue_take_def unqueue_def Let_def split: if_splits)
    have "port_options_m (port_m (unqueue p q st)) = port_options_m (port_m st)"
      "interrupt_packets_m (port_m (unqueue p q st)) = interrupt_packets_m (port_m st)" for st
      by (simp_all add: unqueue_def reset_observer_def delete_observer_def PortPacket_Free_def Let_def split: option.split)
    with False p sys0 show ?thesis using unqueue_wait(2) [OF sys0(1) mem q, of i] by (auto simp: d(2) eq unqueue_packets)
  qed
  then show "port_options_m d' = port_options_m d"
    "interrupt_packets_m d' = (if ready then tl (interrupt_packets_m d) else interrupt_packets_m d)"
    "packets_m d' = (if ready then packets_m d else tl (packets_m d))"
    "ready \<or> packets_m d \<noteq> [] \<and> hd (packets_m d) \<noteq> Obs i \<Longrightarrow> pkts_m (ps_m sys') (Obs i) = pkts_m (ps_m sys) (Obs i)"
    by blast+
qed

lemma dequeue_pair:
  assumes "port_inv sys" "sema_ok sys" "packets_m (port_m (ps_m sys)) = xs @ p # ys"
    and d: "d = port_m (ps_m sys)" "ready = (port_options_m d = ZX_PORT_BIND_TO_INTERRUPT \<and> interrupt_packets_m d \<noteq> [])"
  obtains sys1 sys2 where "port_step ADequeueWait sys = Some sys1" "port_inv sys1" "pkts_m (ps_m sys1) = pkts_m (ps_m sys)"
    "packets_m (port_m (ps_m sys1)) = packets_m d" "port_step ADequeueTake sys1 = Some sys2" "port_inv sys2" "sema_ok sys2"
    "port_options_m (port_m (ps_m sys2)) = port_options_m d"
    "interrupt_packets_m (port_m (ps_m sys2)) = (if ready then tl (interrupt_packets_m d) else interrupt_packets_m d)"
    "packets_m (port_m (ps_m sys2)) = (if ready then packets_m d else tl (packets_m d))"
proof -
  have "0 < dequeuable (port_m (ps_m sys))" using assms(3) by (simp add: dequeuable_def)
  from assms(1,2) this obtain sys1 where w: "port_step ADequeueWait sys = Some sys1" "port_inv sys1" "sema_ok sys1"
    "0 < takers_m sys1 + sem_woken (sema_m (port_m (ps_m sys1)))" "pkts_m (ps_m sys1) = pkts_m (ps_m sys)"
    "packets_m (port_m (ps_m sys1)) = packets_m d" "port_options_m (port_m (ps_m sys1)) = port_options_m d"
    "interrupt_packets_m (port_m (ps_m sys1)) = interrupt_packets_m d"
    unfolding d(1) by (rule wait_lets_through)
  obtain sys2 where t: "port_step ADequeueTake sys1 = Some sys2" "port_inv sys2" using port_step_inv [OF w(2)] by blast
  have "sema_ok sys2" using w(2,3) t(1) by (rule sema_ok_step)
  note front = take_front(1-3) [OF w(2,4) t(1) refl refl refl, unfolded w(6-8), folded d(2)]
  show thesis by (rule that [OF w(1,2,5,6) t \<open>sema_ok sys2\<close> front])
qed

text \<open>As many threads as there are packets in front of this one, and one more.\<close>

lemma queued_delivered:
  assumes "port_inv sys" "sema_ok sys" "packets_m (port_m (ps_m sys)) = xs @ Obs i # ys" "pkts_m (ps_m sys) (Obs i) = Some q"
    and "n = length xs + (if port_options_m (port_m (ps_m sys)) = ZX_PORT_BIND_TO_INTERRUPT then length (interrupt_packets_m (port_m (ps_m sys))) else 0)"
  shows "queue_log port_next (wait_delivered i) (dequeues (Suc n)) sys = [packet q]"
  using assms
proof (induction n arbitrary: sys xs)
  case 0
  let ?d = "port_m (ps_m sys)"
  let ?ready = "port_options_m ?d = ZX_PORT_BIND_TO_INTERRUPT \<and> interrupt_packets_m ?d \<noteq> []"
  obtain sys1 sys2 where s: "port_step ADequeueWait sys = Some sys1" "port_inv sys1" "pkts_m (ps_m sys1) = pkts_m (ps_m sys)"
    "packets_m (port_m (ps_m sys1)) = packets_m ?d" "port_step ADequeueTake sys1 = Some sys2" "port_inv sys2" "sema_ok sys2"
    "port_options_m (port_m (ps_m sys2)) = port_options_m ?d"
    "interrupt_packets_m (port_m (ps_m sys2)) = (if ?ready then tl (interrupt_packets_m ?d) else interrupt_packets_m ?d)"
    "packets_m (port_m (ps_m sys2)) = (if ?ready then packets_m ?d else tl (packets_m ?d))"
    by (rule dequeue_pair [OF "0.prems"(1-3) refl refl])
  have "xs = []" "\<not> ?ready" using "0.prems"(5) by (auto split: if_splits)
  with s(4,10) "0.prems"(3) have q: "packets_m (port_m (ps_m sys1)) = Obs i # ys" "packets_m (port_m (ps_m sys2)) = ys" by simp_all
  have "distinct (packets_m (port_m (ps_m sys1)))" using port_invD(1) [OF s(2)] by (rule queue_okD)
  with q(1) have "Obs i \<notin> set ys" by simp
  from s(2,5) have "wait_delivered i ADequeueTake sys1 = [packet q]"
    by (rule take_step [where i = i]) (use s(3) q \<open>Obs i \<notin> set ys\<close> "0.prems"(4) in \<open>auto simp: wait_frame_def\<close>)
  with s(1,5) show ?case by (simp add: dequeues_def port_next_def del: port_step.simps wait_delivered.simps(1))
next
  case (Suc n)
  let ?d = "port_m (ps_m sys)"
  let ?ready = "port_options_m ?d = ZX_PORT_BIND_TO_INTERRUPT \<and> interrupt_packets_m ?d \<noteq> []"
  obtain sys1 sys2 where s: "port_step ADequeueWait sys = Some sys1" "port_inv sys1" "pkts_m (ps_m sys1) = pkts_m (ps_m sys)"
    "packets_m (port_m (ps_m sys1)) = packets_m ?d" "port_step ADequeueTake sys1 = Some sys2" "port_inv sys2" "sema_ok sys2"
    "port_options_m (port_m (ps_m sys2)) = port_options_m ?d"
    "interrupt_packets_m (port_m (ps_m sys2)) = (if ?ready then tl (interrupt_packets_m ?d) else interrupt_packets_m ?d)"
    "packets_m (port_m (ps_m sys2)) = (if ?ready then packets_m ?d else tl (packets_m ?d))"
    by (rule dequeue_pair [OF Suc.prems(1-3) refl refl])
  define xs' where "xs' = (if ?ready then xs else tl xs)"
  have ne: "\<not> ?ready \<Longrightarrow> xs \<noteq> []" using Suc.prems(5) by (auto split: if_splits)
  then have xs': "packets_m (port_m (ps_m sys2)) = xs' @ Obs i # ys" using s(10) Suc.prems(3) by (auto simp: xs'_def)
  from s(2,5) have keep: "wait_frame i sys1 sys2 \<and> wait_delivered i ADequeueTake sys1 = []"
    by (rule take_step [where i = i]) (use xs' in auto)
  have "queue_log port_next (wait_delivered i) (dequeues (Suc n)) sys2 = [packet q]"
  proof (rule Suc.IH [OF s(6,7) xs'])
    show "pkts_m (ps_m sys2) (Obs i) = Some q" using keep s(3) Suc.prems(4) by (simp add: wait_frame_def)
    show "n = length xs' + (if port_options_m (port_m (ps_m sys2)) = ZX_PORT_BIND_TO_INTERRUPT then length (interrupt_packets_m (port_m (ps_m sys2))) else 0)"
      using Suc.prems(5) ne by (cases "interrupt_packets_m ?d") (auto simp: s(8,9) xs'_def split: if_splits)
  qed
  moreover have "dequeues (Suc (Suc n)) = ADequeueWait # ADequeueTake # dequeues (Suc n)" by (simp add: dequeues_def)
  moreover have "port_next ADequeueWait sys = sys1" "port_next ADequeueTake sys1 = sys2"
    using s(1,5) by (simp_all add: port_next_def del: port_step.simps)
  ultimately show ?case using keep by (simp del: wait_delivered.simps(1))
qed

lemma is_queued_delivered:
  assumes "port_inv sys" "sema_ok sys" "is_queued w nows sys"
  shows "\<exists>n pk. queue_log port_next (wait_delivered (w_id w)) (dequeues n) sys = [pk] \<and> good_packet w nows pk"
proof -
  obtain q where q: "Obs (w_id w) \<in> set (packets_m (port_m (ps_m sys)))" "pkts_m (ps_m sys) (Obs (w_id w)) = Some q" "good_packet w nows (packet q)"
    using assms(3) by (auto simp: is_queued_def)
  obtain xs ys where "packets_m (port_m (ps_m sys)) = xs @ Obs (w_id w) # ys" using split_list [OF q(1)] by blast
  from queued_delivered [OF assms(1,2) this q(2) refl] q(3) show ?thesis by blast
qed

lemma is_matched_delivered:
  assumes "port_inv sys" "sema_ok sys" "\<not> zero_handles_m (port_m (ps_m sys))" "unmatched_observer w sys" "is_matched w sys"
  shows "\<exists>n pk. queue_log port_next (wait_delivered (w_id w)) (AFireQueue (w_id w) now # dequeues n) sys = [pk] \<and> good_packet w {now} pk"
proof -
  obtain sys' where s: "port_step (AFireQueue (w_id w) now) sys = Some sys'" "port_inv sys'" using port_step_inv [OF assms(1)] by blast
  have "sema_ok sys'" using assms(1,2) s(1) by (rule sema_ok_step)
  moreover have "is_queued w {now} sys'" by (rule matched_fires [OF assms(1,3-5) s(1)]) simp
  ultimately show ?thesis using is_queued_delivered [OF s(2)] s(1) by (simp add: port_next_def del: port_step.simps)
qed

lemma keeps_open:
  "port_inv sys \<Longrightarrow> \<not> zero_handles_m (port_m (ps_m sys)) \<Longrightarrow> list_all (keeps_wait h) acts \<Longrightarrow>
   \<not> zero_handles_m (port_m (ps_m (queue_run port_next acts sys)))"
proof (induction acts arbitrary: sys)
  case (Cons a acts)
  obtain sys' where "port_step a sys = Some sys'" "port_inv sys'" using port_step_inv [OF Cons.prems(1)] by blast
  with Cons.IH [of sys'] Cons.prems step_open [OF Cons.prems(1,2), of a sys' h] show ?case by (simp add: port_next_def)
qed simp

text \<open>
  C24: An asynchronous wait is never lost and delivers once. Take a wait on an object that can be waited
  on, made through an open port at any point of any run, and any further run that neither closes
  the port nor cancels waits made through the same handle. Afterwards one of the following
  holds. The object still holds the observer and shows none of the signals asked for. Or the object is
  calling the observer because it showed one of them, and no matter when that call queues the packet,
  threads that dequeue get it. Or the packet is queued, and as many threads as are needed to take the
  packets in front of it get it. Or a thread has got it, once, and the wait is over. The packet
  carries the key, the signals asked for, signals observed among which is one of them, a count of
  one and, if asked for, the time of the call.
\<close>

theorem async_wait_delivers:
  assumes start: "unwatched watched" "port_run earlier (port_start (PortDispatcher_new koid port_options) ipkts watched) = Some sys"
    and made: "\<not> zero_handles_m (port_m (ps_m sys))" "\<not> locked k sys" "is_waitable (watched_m sys k)"
    and keep: "list_all (keeps_wait handle) acts"
    and w: "w = \<lparr>w_id = next_obs_m sys, w_object = k, w_options = options, w_handle = handle, w_key = key, w_signals = signals\<rparr>"
    and run: "run = AMakeObserver options handle k key signals # acts"
  shows "\<exists>sys'. port_run run sys = Some sys' \<and>
    (let i = w_id w; nows = {now. AFireQueue i now \<in> set acts}; log = queue_log port_next (wait_delivered i) run sys;
         queued = Obs i \<in> set (packets_m (port_m (ps_m sys'))) in
     log = [] \<and> \<not> queued \<and> is_registered w sys' \<and> signals_m (watched_m sys' k) AND signals = 0 \<or>
     log = [] \<and> \<not> queued \<and> is_matched w sys' \<and>
       (\<forall>now. \<exists>n pk. queue_log port_next (wait_delivered i) (AFireQueue i now # dequeues n) sys' = [pk] \<and> good_packet w {now} pk) \<or>
     log = [] \<and> queued \<and> (\<exists>n pk. queue_log port_next (wait_delivered i) (dequeues n) sys' = [pk] \<and> good_packet w nows pk) \<or>
     \<not> queued \<and> (\<exists>pk. log = [pk] \<and> good_packet w nows pk))"
proof -
  let ?start = "port_start (PortDispatcher_new koid port_options) ipkts watched" and ?make = "AMakeObserver options handle k key signals"
  define nows where "nows = {now. AFireQueue (w_id w) now \<in> set acts}"
  have inv0: "port_inv ?start" "sema_ok ?start"
    using port_start_inv [OF start(1)] by (simp_all add: sema_ok_def dequeuable_def port_start_def PortDispatcher_new_def)
  have inv: "port_inv sys" "sema_ok sys"
    using port_run_inv [OF inv0(1), of earlier] sema_ok_run [OF inv0 start(2)] start(2) by simp_all
  obtain sys1 where s: "port_step ?make sys = Some sys1" "port_inv sys1" using port_step_inv [OF inv(1)] by blast
  have ok1: "sema_ok sys1" using inv s(1) by (rule sema_ok_step)
  have nz1: "\<not> zero_handles_m (port_m (ps_m sys1))" using step_open [OF inv(1) made(1) s(1), of handle] by simp
  note made1 = wait_made [OF inv(1) made w s(1)]
  define sys' where "sys' = queue_run port_next acts sys1"
  have h: "w_handle w = handle" by (simp add: w)
  have run1: "port_run acts sys1 = Some sys'" unfolding sys'_def by (rule port_run_queue_run [OF s(2)])
  have inv': "port_inv sys'" "sema_ok sys'"
    using port_run_inv [OF s(2), of acts] run1 sema_ok_run [OF s(2) ok1 run1] by simp_all
  have nz': "\<not> zero_handles_m (port_m (ps_m sys'))" unfolding sys'_def by (rule keeps_open [OF s(2) nz1 keep])
  have log: "queue_log port_next (wait_delivered (w_id w)) run sys = queue_log port_next (wait_delivered (w_id w)) acts sys1"
    using s(1) by (simp add: run port_next_def del: port_step.simps)
  have "port_run run sys = Some sys'" using s(1) run1 by (simp add: run del: port_step.simps)
  moreover have quiet: "signals_m (watched_m sys' k) AND signals = 0" if "is_registered w sys'"
    using that port_invD(2) [OF inv'(1)] by (auto simp: is_registered_def w watched_ok_def disp_inv_def triggered_def and.commute)
  moreover have "queue_log port_next (wait_delivered (w_id w)) acts sys1 = [] \<and> wait_pending w nows sys' \<or>
      (\<exists>pk. queue_log port_next (wait_delivered (w_id w)) acts sys1 = [pk] \<and> good_packet w nows pk \<and> is_over w sys')"
    using wait_run [OF s(2) nz1 made1(2,1), of acts] keep by (simp add: h nows_def sys'_def Let_def)
  moreover have "Obs (w_id w) \<notin> set (packets_m (port_m (ps_m sys')))" if "unmatched_observer w sys' \<or> is_over w sys'"
    using that by (auto simp: unmatched_observer_def is_over_def)
  ultimately show ?thesis
    using is_queued_delivered [OF inv', of w nows] is_matched_delivered [OF inv' nz', of w]
    unfolding wait_pending_def Let_def log nows_def [symmetric]
    by (intro exI [of _ sys'] conjI) (assumption, auto simp: is_queued_def)
qed

text \<open>An event that a thread is already waiting for through the port.\<close>

definition example_wait :: "port_action list" where
  "example_wait = [AUpdate 1 0 9, AFireQueue 0 100, ADequeueTake, AFireReap 0]"

lemma example_wait_run:
  "queue_log port_next (wait_delivered 0) (AMakeObserver ZX_WAIT_ASYNC_TIMESTAMP 3 1 77 8 # example_wait)
     (the (port_run [ADequeueWait] (port_start (PortDispatcher_new 1000 0) (\<lambda>i. \<lparr>ip_timestamp = 0, ip_key = 0\<rparr>) example_watched))) =
   [wait_packet 77 8 9 1 100]"
  by code_simp

theorem async_wait_delivers_witness:
  "\<exists>sys sys'. port_run [ADequeueWait] (port_start (PortDispatcher_new 1000 0) (\<lambda>i. \<lparr>ip_timestamp = 0, ip_key = 0\<rparr>) example_watched) = Some sys \<and>
     sem_waiters (sema_m (port_m (ps_m sys))) = 1 \<and>
     port_run (AMakeObserver ZX_WAIT_ASYNC_TIMESTAMP 3 1 77 8 # example_wait) sys = Some sys' \<and>
     Obs 0 \<notin> set (packets_m (port_m (ps_m sys'))) \<and>
     good_packet \<lparr>w_id = 0, w_object = 1, w_options = ZX_WAIT_ASYNC_TIMESTAMP, w_handle = 3, w_key = 77, w_signals = 8\<rparr> {100}
       (wait_packet 77 8 9 1 100)"
proof -
  let ?start = "port_start (PortDispatcher_new 1000 0) (\<lambda>i. \<lparr>ip_timestamp = 0, ip_key = 0\<rparr>) example_watched"
  let ?w = "\<lparr>w_id = 0, w_object = 1, w_options = ZX_WAIT_ASYNC_TIMESTAMP, w_handle = 3, w_key = 77, w_signals = 8\<rparr>"
  obtain sys where s: "port_run [ADequeueWait] ?start = Some sys" "next_obs_m sys = 0" "\<not> zero_handles_m (port_m (ps_m sys))"
    "firing_m sys = []" "watched_m sys = example_watched" "sem_waiters (sema_m (port_m (ps_m sys))) = 1"
    by (simp add: port_start_def PortDispatcher_new_def Semaphore_Wait_def Let_def)
  have log: "queue_log port_next (wait_delivered 0) (AMakeObserver ZX_WAIT_ASYNC_TIMESTAMP 3 1 77 8 # example_wait) sys = [wait_packet 77 8 9 1 100]"
    using example_wait_run s(1) by simp
  have 1: "\<not> locked 1 sys" using s(4) by (simp add: locked_def)
  have 2: "is_waitable (watched_m sys 1)" unfolding s(5) by code_simp
  have 3: "list_all (keeps_wait 3) example_wait" by (simp add: example_wait_def)
  have 4: "?w = \<lparr>w_id = next_obs_m sys, w_object = 1, w_options = ZX_WAIT_ASYNC_TIMESTAMP, w_handle = 3, w_key = 77, w_signals = 8\<rparr>"
    by (simp add: s(2))
  have 5: "{now. AFireQueue 0 now \<in> set example_wait} = {100}" by (auto simp: example_wait_def)
  from async_wait_delivers [OF example_unwatched s(1,3) 1 2 3 4 refl] show ?thesis
    unfolding Let_def async_wait.select_convs log 5 using s(1,6) by auto
qed

end
