(* ===== verification/Spec2Isabelle.thy ===== *)
theory Spec2Isabelle
  imports Thread_State Event_Pair Timer_Syscalls Handle_Iteration Fifo Ipc_Properties Socket Port_Waits
begin

text \<open>
  Verification of the object layer of the Zircon kernel (\<open>src/zircon/kernel/object\<close> and the parts of
  \<open>kernel/kernel\<close>, \<open>kernel/lib/fbl\<close> and \<open>kernel/lib/syscalls\<close> it works with). Paths below are
  relative to \<open>src/zircon/kernel\<close>.

  \<^bold>\<open>The program.\<close> A kernel object is a \<open>Dispatcher\<close> with a koid, a count of handles, a set of signals
  and observers of the signals. User programs name objects by handles: a \<open>Handle\<close> lives in one arena
  of the kernel, belongs to the \<open>HandleTable\<close> of one process, and carries rights. Channels, sockets,
  fifos and event pairs are pairs of dispatchers that know each other (\<open>PeeredDispatcher\<close>). Channels
  carry message packets with bytes and handles, so a handle moves from a table into a packet and from
  the packet into another table. Ports collect packets from users, interrupts and observers of other
  objects. Timers raise a signal through an interrupt and a deferred procedure call. The policy of a
  job limits what its processes may do and the slack of their timers.

  \<^bold>\<open>Conventions.\<close>
  \<^item> A class is a record, and its member \<open>foo_\<close> is the field \<open>foo_m\<close>. A method \<open>C::f\<close> is a definition
    \<open>f\<close> or \<open>C_f\<close> that takes the object and returns its status, its outputs and the new object. Objects
    that refer to each other live in a store, a function from koids, thread numbers or slots.
  \<^item> A panic, a failed assertion or an access to freed memory is the result \<open>None\<close>; that an operation
    does not return it is proved. Statuses are the datatype \<open>zx_status\<close>.
  \<^item> Fixed-width integers whose wrap-around or bits matter are words; times, which the code clamps,
    are integers with the clamping written out.
  \<^item> Locks are the steps they protect: an operation under one lock is one function, and an operation
    that drops the lock or blocks is split there. Step relations and lists of actions interleave the
    pieces in any order.
  \<^item> Outcomes the code cannot choose are arguments: results of allocations, the page allocator
    (with the hypothesis \<open>pmm_ok\<close> that it returns the pages asked for), user memory that may fault,
    the status a blocking wait returns, and what other threads do meanwhile.

  \<^bold>\<open>Theories and sources.\<close>
  \<^item> \<open>Zx_Prelude\<close>: statuses, signals, rights and object types of \<open>system/public/zircon\<close>, copies from and
    to user memory (\<open>lib/user_copy\<close>), and shared facts on lists and words.
  \<^item> \<open>Thread_State\<close>: \<open>object/thread_state.h\<close>.
  \<^item> \<open>Dispatcher\<close>: \<open>object/dispatcher.cc\<close>, \<open>dispatcher.h\<close>, \<open>wait_signal_observer.cc\<close> and the result of
    \<open>kernel/event.cc\<close>. The locale \<open>peered_hooks\<close> is the contract of the peered template.
  \<^item> \<open>Event_Pair\<close>: \<open>object/event_dispatcher.cc\<close> and \<open>event_pair_dispatcher.cc\<close>.
  \<^item> \<open>Timer_Queue\<close>: \<open>zircon/time.h\<close>, \<open>kernel/deadline.cc\<close> and \<open>kernel/timer.cc\<close>. \<open>Timer_Dispatcher\<close>:
    \<open>object/timer_dispatcher.cc\<close>. \<open>Timer_Syscalls\<close>: \<open>lib/syscalls/timer.cc\<close>.
  \<^item> \<open>Job_Policy\<close>: \<open>object/job_policy.cc\<close> and the policy setters of \<open>job_dispatcher.cc\<close>.
  \<^item> \<open>Handle_Arena\<close>: \<open>object/handle.cc\<close> over \<open>lib/fbl/gparena.h\<close>. \<open>Handle_Table\<close>:
    \<open>object/handle_table.cc\<close>, \<open>user_handles.cc\<close> and \<open>lib/syscalls/handle_ops.cc\<close>.
    \<open>Handle_Iteration\<close>: the cursors and both iterations of \<open>handle_table.h\<close>.
  \<^item> \<open>Ordered_Queue\<close>: the contract (a locale) that fifos, channels, sockets and ports share: what goes
    in comes out once, in order and unchanged, through any run of operations.
  \<^item> \<open>Fifo\<close>: \<open>object/fifo_dispatcher.cc\<close>. \<open>Message_Packet\<close>: \<open>object/buffer_chain.h\<close> and
    \<open>message_packet.cc\<close>. \<open>Channel\<close>: \<open>object/channel_dispatcher.cc\<close>. \<open>MBuf_Chain\<close>: \<open>object/mbuf.cc\<close>.
    \<open>Socket\<close>: \<open>object/socket_dispatcher.cc\<close>.
  \<^item> \<open>Channel_Syscalls\<close>: \<open>lib/syscalls/channel.cc\<close> over handle tables, packets and channels.
    \<open>Channel_Transfer\<close> follows handles through these calls; its locales \<open>message_entry\<close> and
    \<open>sent_handles\<close> are the contracts of the two kinds of handle arrays. \<open>Ipc_Properties\<close> holds the
    resulting properties.
  \<^item> \<open>Port\<close>: \<open>object/port_dispatcher.cc\<close> and \<open>kernel/semaphore.cc\<close>. \<open>Port_Lifetimes\<close>: a port, the
    objects it watches and the threads using them as one system. \<open>Port_Delivery\<close> and \<open>Port_Waits\<close>:
    what the port delivers.

  \<^bold>\<open>What is shown.\<close>
  \<^item> Handles (\<open>Handle_Arena\<close>, \<open>Handle_Table\<close>, \<open>Handle_Iteration\<close>): handle counts are exact and the last
    handle closes its object; no process reaches or changes a handle of another one; duplicating and
    replacing add no right; which handles may enter a message; iteration in batches ends and visits
    what stays exactly once.
  \<^item> Handle transfer (\<open>Ipc_Properties\<close>): in every run of channel and handle calls of any processes
    each live handle is held exactly once, by a table, a queued message or a pending reply, unless a
    handle buffer of a reader faults; even then no handle is held twice or after it was freed. A
    successful read gives the reader the bytes and the handles of the message.
  \<^item> Channels and messages: messages arrive in order and unchanged, a call gets the first message with
    its transaction id or the reason why there is none, and choosing an id terminates.
  \<^item> Fifos, sockets and buffer chains: the ring buffer refines a bounded queue, streams arrive in order,
    datagrams are queued under the conditions stated there, peeking equals reading, and the signals
    tell the state of the buffers of stream sockets as long as no copy faults.
  \<^item> Signals and waits: no wake-up is lost, no observer is called twice, and what a wait reports is true.
  \<^item> Ports: nothing freed is touched and nothing is left behind under any interleaving; user packets
    come out in order; a packet that can be dequeued has a thread on its way; an asynchronous wait is
    registered, matched, queued or delivered once, and closing completes.
  \<^item> Timers: a CPU with a pending timer has its platform timer armed in time; setting a timer leads to its
    signal, cancelling is final, and no panic is reachable from the system calls.
  \<^item> Policies and threads: a locked policy is not widened (with the condition under which this holds),
    and the lifecycle of a thread only moves forward, apart from resuming.
  \<^item> Flaws: the theorems \<open>read_fault_leaks_handles\<close>, \<open>call_keeps_unsendable_handle\<close>,
    \<open>call_bad_owner_wedges_thread\<close>, \<open>crossing_call_taken_for_reply\<close>, \<open>recycled_buffer_splits_datagram\<close>,
    \<open>faulting_write_loses_readable\<close>, \<open>close_many_forgets_errors\<close>, \<open>duplicate_entries_blamed\<close>,
    \<open>port_packet_limit\<close> and \<open>new_any_unlocks_policy\<close> show where the code differs from its comments,
    documentation or evident purpose, and from which states.

  \<^bold>\<open>Fuel and loops.\<close> Most loops are structural recursions or have a termination proof.
  \<open>alloc_txid\<close>, the search for an unused transaction id, and the copy loops of fifos are partial
  functions, which are shown to return. \<open>Tick_loop\<close> has fuel because a callback may set timers again;
  more fuel than there are due timers is enough for callbacks that add no due timer. \<open>batch_loop\<close> has
  fuel because other threads change the table between batches; one iteration more than there are
  handles in the table is enough.

  \<^bold>\<open>Not modelled.\<close> Reference counts of \<open>RefPtr\<close> except that of timers, the deferred deletion of
  \<open>SafeDeleter\<close>, and most kernel counters; log output; the
  scheduler with its wait queues, and memory orderings of the lock-free arena (each of its operations
  is atomic here). Processes, threads, jobs as a tree, exceptions, futexes, memory objects and the
  virtual memory system, interrupts and hardware objects, virtual machines, clocks, logs and resources
  are objects of their own that the parts above only name by koid or type. The system calls of fifos,
  sockets, ports and waits and the creating calls \<open>zx_channel_create\<close> and \<open>zx_timer_create\<close> only join
  a handle lookup or a new handle with a modelled operation. Wrappers of system calls are generated by
  the build.
\<close>

end
